(* ===== verification/Prelude.thy ===== *)
theory Prelude
  imports Main "HOL-Library.Word"
begin

text \<open>
  Shared foundations of the development: the machine types of \<open>kernel/types.h\<close>, the result
  type of kernel code, little-endian byte encodings, and the list, word and arithmetic facts
  that several components use.

  Kernel code is modelled by functions from a state to a \<open>res\<close>:
  \<^item> \<open>Ok v s\<close>: the call returns \<open>v\<close> in state \<open>s\<close>;
  \<^item> \<open>Panic m\<close>: the code calls \<open>panic(m)\<close>, which never returns;
  \<^item> \<open>Sleep c s\<close>: the calling kernel thread gives up the CPU in \<open>sleep(c, ..)\<close> in state \<open>s\<close>;
    the rest of the call has not run;
  \<^item> \<open>Exit s\<close>: the calling kernel thread leaves the CPU for good, at the end of \<open>kexit\<close>;
  \<^item> \<open>UB\<close>: the code reads or writes outside an object or through a null pointer, or overflows a signed
    integer, which C leaves undefined;
  \<^item> \<open>Oob\<close>: the code accesses the data of a disk block outside of its bytes. This is undefined as well,
    and a result of its own so that its absence can be stated.
\<close>

unbundle bit_operations_syntax

named_theorems res_iff \<open>inversion of results of kernel code\<close>

subsection \<open>Machine types\<close>

type_synonym u8 = "8 word"
type_synonym u16 = "16 word"
type_synonym u32 = "32 word"
type_synonym u64 = "64 word"

text \<open>The largest value of a C \<open>int\<close>.\<close>

abbreviation INT_MAX :: int where
  "INT_MAX \<equiv> 0x7FFFFFFF"

subsection \<open>Wait channels and locks\<close>

text \<open>
  \<open>sleep\<close> and \<open>wakeup\<close> take an arbitrary kernel address as the wait channel. The addresses the
  kernel uses are the constructors: \<open>&log\<close>, a process, a sleep-lock, a buffer under transfer,
  the two counters of a pipe, \<open>&ticks\<close>, \<open>&cons.r\<close>, \<open>&tx_chan\<close> and \<open>&disk.free[0]\<close>.
\<close>

datatype chan =
    Ch_log
  | Ch_proc nat
  | Ch_buflock nat
  | Ch_inodelock nat
  | Ch_buf nat
  | Ch_nread u64
  | Ch_nwrite u64
  | Ch_ticks
  | Ch_cons
  | Ch_uart
  | Ch_disk

datatype lock =
    L_kmem
  | L_pid
  | L_wait
  | L_proc nat
  | L_bcache
  | L_log
  | L_itable
  | L_ftable
  | L_pipe u64
  | L_cons
  | L_ticks
  | L_uart
  | L_disk
  | L_pr
  | L_inner chan

subsection \<open>Results of kernel code\<close>

datatype ('s, 'a) res =
    Ok 'a 's
  | Panic string
  | Sleep chan 's
  | Exit 's
  | UB
  | Oob

fun kbind :: "('s, 'a) res \<Rightarrow> ('a \<Rightarrow> 's \<Rightarrow> ('s, 'b) res) \<Rightarrow> ('s, 'b) res" where
  "kbind (Ok v s) k = k v s"
| "kbind (Panic m) k = Panic m"
| "kbind (Sleep c s) k = Sleep c s"
| "kbind (Exit s) k = Exit s"
| "kbind UB k = UB"
| "kbind Oob k = Oob"

fun is_Ok :: "('s, 'a) res \<Rightarrow> bool" where
  "is_Ok (Ok v s) = True"
| "is_Ok r = False"

lemma kbind_Ok_iff [res_iff]:
  "kbind r k = Ok v s \<longleftrightarrow> (\<exists>w t. r = Ok w t \<and> k w t = Ok v s)"
  by (cases r) auto

lemma kbind_assoc: "kbind (kbind r k) l = kbind r (\<lambda>v s. kbind (k v s) l)"
  by (cases r) auto

lemma kbind_Ok_right [simp]: "kbind r (\<lambda>v s. Ok v s) = r"
  by (cases r) auto

lemma kbind_cong [fundef_cong]:
  "r = r' \<Longrightarrow> (\<And>v s. r' = Ok v s \<Longrightarrow> k v s = k' v s) \<Longrightarrow> kbind r k = kbind r' k'"
  by (cases r') auto

text \<open>
  \<open>res_all P r\<close>: \<open>P\<close> holds of the state in which an operation returns, gives up the processor or
  leaves the process, and no block is accessed outside of its data. A panic stops the machine, and
  an undefined operation has no state.
\<close>

fun res_all :: "('s \<Rightarrow> bool) \<Rightarrow> ('s, 'a) res \<Rightarrow> bool" where
  "res_all P (Ok v t) = P t"
| "res_all P (Sleep c t) = P t"
| "res_all P (Exit t) = P t"
| "res_all P (Panic m) = True"
| "res_all P UB = True"
| "res_all P Oob = False"

lemma res_all_kbind_eq:
  "res_all P r \<Longrightarrow> (\<And>x t. r = Ok x t \<Longrightarrow> P t \<Longrightarrow> res_all P (g x t)) \<Longrightarrow> res_all P (kbind r g)"
  by (cases r) simp_all

lemma res_all_kbind: "res_all P r \<Longrightarrow> (\<And>x t. P t \<Longrightarrow> res_all P (g x t)) \<Longrightarrow> res_all P (kbind r g)"
  by (rule res_all_kbind_eq)

text \<open>The states an operation can end in.\<close>

fun leads :: "('s, 'a) res \<Rightarrow> 's \<Rightarrow> bool" where
  "leads (Ok v t) u \<longleftrightarrow> t = u"
| "leads (Sleep c t) u \<longleftrightarrow> t = u"
| "leads (Exit t) u \<longleftrightarrow> t = u"
| "leads (Panic m) u \<longleftrightarrow> False"
| "leads UB u \<longleftrightarrow> False"
| "leads Oob u \<longleftrightarrow> False"

lemma leads_res_all: "leads r u \<Longrightarrow> res_all P r \<Longrightarrow> P u"
  by (cases r) auto

lemma if_Panic_Ok_iff [res_iff]:
  "(if b then Panic m else r) = Ok v s \<longleftrightarrow> \<not> b \<and> r = Ok v s"
  by simp

subsection \<open>Words and naturals\<close>

lemma unat_u8_lt: "unat (a :: u8) < 256"
  using unsigned_less [of a, where 'a = nat] by simp

lemma unat_u32_lt: "unat (a :: u32) < 4294967296"
  using unsigned_less [of a, where 'a = nat] by simp

lemma unat_u64_lt: "unat (a :: u64) < 18446744073709551616"
  using unsigned_less [of a, where 'a = nat] by simp

lemma unat_add_small:
  fixes a :: "'a::len word"
  assumes "unat a + n < 2 ^ LENGTH('a)"
  shows "unat (a + of_nat n) = unat a + n"
proof -
  have "n < 2 ^ LENGTH('a)" using assms by simp
  then have "unat (of_nat n :: 'a word) = n" by (simp add: unat_of_nat)
  then show ?thesis using assms by (simp add: unat_word_ariths)
qed

lemma unat_diff_of_nat:
  fixes a :: "'a::len word"
  assumes "n < 2 ^ LENGTH('a)"
  shows "unat ((a + of_nat n) - a) = n"
  using assms by (simp add: unat_of_nat)

lemma word_sub_eq_imp: "unat (x - a) = n \<Longrightarrow> x = a + of_nat n" for x a :: "'a::len word"
  by (drule sym) simp

lemma word_add_of_nat_Suc: "a + 1 + of_nat n = a + of_nat (Suc n)" for a :: "'a::len word"
  by (simp add: algebra_simps)

subsection \<open>Little-endian encodings\<close>

text \<open>
  \<open>le_word bs\<close> reads a list of bytes as an integer, least significant byte first, and
  \<open>word_le n v\<close> lists the low \<open>n\<close> bytes of an integer, as the RISC-V loads and stores do.
\<close>

definition le_word :: "u8 list \<Rightarrow> 'a::len word" where
  "le_word bs = foldr (\<lambda>b w. ucast b OR push_bit 8 w) bs 0"

definition word_le :: "nat \<Rightarrow> 'a::len word \<Rightarrow> u8 list" where
  "word_le n v = map (\<lambda>i. ucast (drop_bit (8 * i) v)) [0..<n]"

lemma length_word_le [simp]: "length (word_le n v) = n"
  by (simp add: word_le_def)

lemma le_word_Cons: "le_word (b # bs) = ucast b OR push_bit 8 (le_word bs)"
  by (simp add: le_word_def)

lemma le_word_Nil [simp]: "le_word [] = 0"
  by (simp add: le_word_def)

lemma bit_le_word:
  "bit (le_word bs :: 'a::len word) n \<longleftrightarrow>
     n < LENGTH('a) \<and> n div 8 < length bs \<and> bit (bs ! (n div 8)) (n mod 8)"
proof (induction bs arbitrary: n)
  case Nil
  then show ?case by simp
next
  case (Cons b bs)
  show ?case
  proof (cases "n < 8")
    case True
    then show ?thesis by (auto simp: le_word_Cons bit_simps)
  next
    case False
    then have "n div 8 = Suc ((n - 8) div 8)" and "n mod 8 = (n - 8) mod 8"
      by (simp_all add: le_div_geq le_mod_geq)
    moreover have "\<not> bit b n" using False by (auto dest: bit_imp_le_length)
    ultimately show ?thesis using False
      by (auto simp: le_word_Cons bit_simps Cons.IH)
  qed
qed

lemma le_word_word_le:
  fixes v :: "'a::len word"
  assumes "LENGTH('a) \<le> 8 * n"
  shows "le_word (word_le n v) = v"
proof (rule bit_word_eqI)
  fix k
  assume k: "k < LENGTH('a)"
  then have "k div 8 < n" using assms by (simp add: less_mult_imp_div_less mult.commute)
  then show "bit (le_word (word_le n v) :: 'a word) k = bit v k"
    using k by (simp add: bit_le_word word_le_def bit_simps)
qed

lemma word_le_le_word:
  assumes "8 * length bs \<le> LENGTH('a)"
  shows "word_le (length bs) (le_word bs :: 'a::len word) = bs"
proof (rule nth_equalityI)
  show "length (word_le (length bs) (le_word bs :: 'a word)) = length bs" by simp
next
  fix i
  assume "i < length (word_le (length bs) (le_word bs :: 'a word))"
  then have i: "i < length bs" by simp
  show "word_le (length bs) (le_word bs :: 'a word) ! i = bs ! i"
  proof (rule bit_word_eqI)
    fix k
    assume k: "k < LENGTH(8)"
    have "8 * i + k < LENGTH('a)" using i k assms by simp
    then show "bit (word_le (length bs) (le_word bs :: 'a word) ! i) k = bit (bs ! i) k"
      using i k by (simp add: word_le_def bit_simps bit_le_word)
  qed
qed

subsection \<open>Transition systems\<close>

text \<open>
  A component with interleaved steps is an initial predicate and a step relation. The locale
  states what an invariant must satisfy; its one lemma lifts it to every reachable state.
\<close>

inductive reach :: "('s \<Rightarrow> bool) \<Rightarrow> ('s \<Rightarrow> 's \<Rightarrow> bool) \<Rightarrow> 's \<Rightarrow> bool"
  for init :: "'s \<Rightarrow> bool" and step :: "'s \<Rightarrow> 's \<Rightarrow> bool" where
  reach_init: "init s \<Longrightarrow> reach init step s"
| reach_step: "reach init step s \<Longrightarrow> step s t \<Longrightarrow> reach init step t"

locale inv_system =
  fixes init :: "'s \<Rightarrow> bool"
    and step :: "'s \<Rightarrow> 's \<Rightarrow> bool"
    and inv :: "'s \<Rightarrow> bool"
  assumes init_inv: "init s \<Longrightarrow> inv s"
    and step_inv: "inv s \<Longrightarrow> step s t \<Longrightarrow> inv t"
begin

lemma reach_inv: "reach init step s \<Longrightarrow> inv s"
  by (induction rule: reach.induct) (auto intro: init_inv step_inv)

end

end
