(* ===== verification/Machine.thy ===== *)
theory Machine
  imports Prelude
begin

text \<open>
  The machine the kernel runs on: the constants of \<open>kernel/param.h\<close>, \<open>kernel/memlayout.h\<close> and
  \<open>kernel/riscv.h\<close>, physical memory as a map from addresses to bytes, and the routines of
  \<open>kernel/string.c\<close> that work on it.

  The kernel maps physical memory one to one, so a kernel pointer into memory handed out by
  \<open>kalloc\<close> is a physical address. \<open>memset\<close>, \<open>memmove\<close> and \<open>memcmp\<close> work on this memory with
  the loops of the source; \<open>memmove\<close> is shown to copy correctly however the two regions overlap.
  The C string routines work on arrays given as functions of the offset from the pointer.
\<close>

subsection \<open>Constants\<close>

abbreviation (input) NPROC :: nat where "NPROC \<equiv> 64"
abbreviation (input) NCPU :: nat where "NCPU \<equiv> 8"
abbreviation (input) NOFILE :: nat where "NOFILE \<equiv> 16"
abbreviation (input) NFILE :: nat where "NFILE \<equiv> 100"
abbreviation (input) NINODE :: nat where "NINODE \<equiv> 50"
abbreviation (input) NDEV :: nat where "NDEV \<equiv> 10"
abbreviation (input) ROOTDEV :: u32 where "ROOTDEV \<equiv> 1"
abbreviation (input) MAXARG :: nat where "MAXARG \<equiv> 32"
abbreviation (input) MAXOPBLOCKS :: nat where "MAXOPBLOCKS \<equiv> 10"
abbreviation (input) LOGBLOCKS :: nat where "LOGBLOCKS \<equiv> 30"
abbreviation (input) NBUF :: nat where "NBUF \<equiv> 30"
abbreviation (input) FSSIZE :: nat where "FSSIZE \<equiv> 2000"
abbreviation (input) MAXPATH :: nat where "MAXPATH \<equiv> 128"
abbreviation (input) USERSTACK :: nat where "USERSTACK \<equiv> 1"

abbreviation (input) UART0 :: u64 where "UART0 \<equiv> 0x10000000"
abbreviation (input) VIRTIO0 :: u64 where "VIRTIO0 \<equiv> 0x10001000"
abbreviation (input) PLIC :: u64 where "PLIC \<equiv> 0x0c000000"
abbreviation (input) KERNBASE :: u64 where "KERNBASE \<equiv> 0x80000000"
abbreviation (input) PHYSTOP :: u64 where "PHYSTOP \<equiv> 0x88000000"

abbreviation (input) PGSIZE :: u64 where "PGSIZE \<equiv> 4096"
abbreviation (input) MAXVA :: u64 where "MAXVA \<equiv> 0x4000000000"
abbreviation (input) TRAMPOLINE :: u64 where "TRAMPOLINE \<equiv> 0x3FFFFFF000"
abbreviation (input) TRAPFRAME :: u64 where "TRAPFRAME \<equiv> 0x3FFFFFE000"

definition KSTACK :: "nat \<Rightarrow> u64" where
  "KSTACK p = TRAMPOLINE - (of_nat p + 1) * 2 * PGSIZE"

definition PGROUNDUP :: "u64 \<Rightarrow> u64" where
  "PGROUNDUP a = (a + PGSIZE - 1) AND NOT (PGSIZE - 1)"

definition PGROUNDDOWN :: "u64 \<Rightarrow> u64" where
  "PGROUNDDOWN a = a AND NOT (PGSIZE - 1)"

lemma pgmask: "(PGSIZE - 1 :: u64) = mask 12"
  by (simp add: mask_eq_exp_minus_1)

lemma unat_and_not_mask:
  fixes a :: "'a::len word"
  assumes "n \<le> LENGTH('a)"
  shows "unat (a AND NOT (mask n)) = unat a div 2 ^ n * 2 ^ n"
proof -
  have "(a AND NOT (mask n)) + (a AND mask n) = a"
    by (subst disjunctive_add_eq_or) (auto intro!: bit_word_eqI simp: bit_simps)
  moreover have "(a AND mask n) \<le> a" by (rule word_and_le2)
  ultimately have "unat (a AND NOT (mask n)) = unat a - unat (a AND mask n)"
    by (metis add_diff_cancel_right' unat_sub)
  moreover have "unat (a AND mask n) = unat a mod 2 ^ n"
    by (metis take_bit_eq_mask take_bit_eq_mod unsigned_take_bit_eq)
  ultimately show ?thesis by (simp add: minus_mod_eq_div_mult)
qed

lemma unat_PGROUNDDOWN: "unat (PGROUNDDOWN a) = unat a div 4096 * 4096"
  using unat_and_not_mask [of 12 a] by (simp add: PGROUNDDOWN_def mask_eq_exp_minus_1)

lemma unat_PGROUNDUP:
  assumes "unat a + 4095 < 2 ^ 64"
  shows "unat (PGROUNDUP a) = (unat a + 4095) div 4096 * 4096"
proof -
  have "unat (a + 4095) = unat a + 4095"
    using unat_add_small [of a 4095] assms by simp
  then show ?thesis
    using unat_and_not_mask [of 12 "a + 4095"]
    by (simp add: PGROUNDUP_def mask_eq_exp_minus_1 add.commute)
qed

subsection \<open>Physical memory\<close>

type_synonym memory = "u64 \<Rightarrow> u8"

text \<open>
  \<open>mem\<close> is RAM; \<open>kend\<close> is the address \<open>end\<close> the linker script gives to the first byte after the
  kernel; \<open>held\<close> lists the spin-locks the executing CPU holds.
\<close>

record machine =
  mem :: memory
  kend :: u64
  held :: "lock list"
  uart_out :: "u8 list"

definition load_bytes :: "memory \<Rightarrow> u64 \<Rightarrow> nat \<Rightarrow> u8 list" where
  "load_bytes m a n = map (\<lambda>i. m (a + of_nat i)) [0..<n]"

fun store_bytes :: "memory \<Rightarrow> u64 \<Rightarrow> u8 list \<Rightarrow> memory" where
  "store_bytes m a [] = m"
| "store_bytes m a (b # bs) = store_bytes (m(a := b)) (a + 1) bs"

definition ld64 :: "memory \<Rightarrow> u64 \<Rightarrow> u64" where
  "ld64 m a = le_word (load_bytes m a 8)"

definition st64 :: "memory \<Rightarrow> u64 \<Rightarrow> u64 \<Rightarrow> memory" where
  "st64 m a v = store_bytes m a (word_le 8 v)"

text \<open>\<open>in_range a n x\<close>: the address \<open>x\<close> is one of the \<open>n\<close> bytes that start at \<open>a\<close>.\<close>

definition in_range :: "u64 \<Rightarrow> nat \<Rightarrow> u64 \<Rightarrow> bool" where
  "in_range a n x \<longleftrightarrow> unat (x - a) < n"

lemma length_load_bytes [simp]: "length (load_bytes m a n) = n"
  by (simp add: load_bytes_def)

lemma store_bytes_apply:
  "length bs \<le> 2 ^ 64 \<Longrightarrow>
   store_bytes m a bs x = (if in_range a (length bs) x then bs ! unat (x - a) else m x)"
proof (induction bs arbitrary: m a)
  case Nil
  then show ?case by (simp add: in_range_def)
next
  case (Cons b bs)
  show ?case
  proof (cases "x = a")
    case True
    have "\<not> in_range (a + 1) (length bs) a"
      using Cons.prems by (simp add: in_range_def unsigned_minus_1_eq_mask mask_eq_exp_minus_1)
    with True Cons show ?thesis by (simp add: in_range_def)
  next
    case False
    then have "x - a \<noteq> 0" by simp
    then have "unat (x - a - 1) = unat (x - a) - 1" and "unat (x - a) \<noteq> 0"
      by (simp_all only: unat_minus_one unat_eq_zero simp_thms)
    then have "unat (x - a) = Suc (unat (x - (a + 1)))"
      by (simp add: diff_diff_eq)
    with False Cons show ?thesis by (simp add: in_range_def)
  qed
qed

lemma load_store_same:
  "length bs \<le> 2 ^ 64 \<Longrightarrow> length bs = n \<Longrightarrow> load_bytes (store_bytes m a bs) a n = bs"
  by (auto intro!: nth_equalityI
      simp: load_bytes_def store_bytes_apply in_range_def unat_of_nat)

definition disjoint_range :: "u64 \<Rightarrow> nat \<Rightarrow> u64 \<Rightarrow> nat \<Rightarrow> bool" where
  "disjoint_range a n b k \<longleftrightarrow> (\<forall>x. \<not> (in_range a n x \<and> in_range b k x))"

lemma in_range_offset: "i < n \<Longrightarrow> n \<le> 2 ^ 64 \<Longrightarrow> in_range a n (a + of_nat i)"
  by (simp add: in_range_def unat_of_nat)

lemma load_bytes_cong:
  "(\<And>x. in_range a n x \<Longrightarrow> m x = m' x) \<Longrightarrow> n \<le> 2 ^ 64 \<Longrightarrow> load_bytes m a n = load_bytes m' a n"
  by (simp add: load_bytes_def in_range_offset)

lemma load_store_disjoint:
  "disjoint_range a (length bs) b n \<Longrightarrow> length bs \<le> 2 ^ 64 \<Longrightarrow> n \<le> 2 ^ 64 \<Longrightarrow>
   load_bytes (store_bytes m a bs) b n = load_bytes m b n"
  by (rule load_bytes_cong) (auto simp: store_bytes_apply disjoint_range_def)

text \<open>Ranges inside two different blocks of an aligned partition do not meet.\<close>

lemma in_range_div:
  assumes "in_range a n x" and "unat a mod 2 ^ k + n \<le> 2 ^ k" and "k \<le> 64"
  shows "unat x div 2 ^ k = unat a div 2 ^ k"
proof -
  let ?i = "unat (x - a)"
  have i: "?i < n" using assms(1) by (simp add: in_range_def)
  have split: "unat a = unat a div 2 ^ k * 2 ^ k + unat a mod 2 ^ k"
    by (rule div_mult_mod_eq [symmetric])
  have "(2::nat) ^ 64 = 2 ^ (64 - k) * 2 ^ k" using assms(3) by (simp flip: power_add)
  moreover have "unat a < 2 ^ 64" using unsigned_less [of a] by simp
  ultimately have "unat a div 2 ^ k < 2 ^ (64 - k)"
    by (metis less_mult_imp_div_less)
  then have "unat a div 2 ^ k * 2 ^ k + 2 ^ k \<le> 2 ^ (64 - k) * 2 ^ k"
    by (metis Suc_leI add.commute mult_Suc mult_le_mono1)
  then have "unat a + ?i < 2 ^ 64"
    using split i assms(2) \<open>(2::nat) ^ 64 = 2 ^ (64 - k) * 2 ^ k\<close> by linarith
  then have "unat x = unat a + ?i"
    using unat_add_small [of a ?i] by simp
  then have "unat x = unat a div 2 ^ k * 2 ^ k + (unat a mod 2 ^ k + ?i)"
    using split by linarith
  moreover have "unat a mod 2 ^ k + ?i < 2 ^ k" using i assms(2) by linarith
  ultimately show ?thesis by simp
qed

lemma disjoint_range_blocks:
  assumes "unat a mod 2 ^ k + n \<le> 2 ^ k" and "unat b mod 2 ^ k + l \<le> 2 ^ k" and "k \<le> 64"
    and "unat a div 2 ^ k \<noteq> unat b div 2 ^ k"
  shows "disjoint_range a n b l"
  using assms in_range_div unfolding disjoint_range_def by metis

subsection \<open>memset, memmove and memcmp\<close>

text \<open>\<open>for(i = 0; i < n; i++) cdst[i] = c;\<close>\<close>

function memset_loop :: "memory \<Rightarrow> u64 \<Rightarrow> u8 \<Rightarrow> nat \<Rightarrow> nat \<Rightarrow> memory" where
  "memset_loop m dst c n i =
     (if i < n then memset_loop (m(dst + of_nat i := c)) dst c n (Suc i) else m)"
  by pat_completeness auto
termination
  by (relation "measure (\<lambda>(m, dst, c, n, i). n - i)") auto

definition memset :: "memory \<Rightarrow> u64 \<Rightarrow> int \<Rightarrow> u32 \<Rightarrow> memory" where
  "memset m dst c n = memset_loop m dst (word_of_int c) (unat n) 0"

text \<open>\<open>while(n-- > 0) *d++ = *s++;\<close>\<close>

fun memmove_up :: "memory \<Rightarrow> u64 \<Rightarrow> u64 \<Rightarrow> nat \<Rightarrow> memory" where
  "memmove_up m d s 0 = m"
| "memmove_up m d s (Suc n) = memmove_up (m(d := m s)) (d + 1) (s + 1) n"

text \<open>\<open>while(n-- > 0) *--d = *--s;\<close>\<close>

fun memmove_down :: "memory \<Rightarrow> u64 \<Rightarrow> u64 \<Rightarrow> nat \<Rightarrow> memory" where
  "memmove_down m d s 0 = m"
| "memmove_down m d s (Suc n) = memmove_down (m(d - 1 := m (s - 1))) (d - 1) (s - 1) n"

definition memmove :: "memory \<Rightarrow> u64 \<Rightarrow> u64 \<Rightarrow> u32 \<Rightarrow> memory" where
  "memmove m dst src n =
     (if n = 0 then m
      else if src < dst \<and> src + ucast n > dst
        then memmove_down m (dst + ucast n) (src + ucast n) (unat n)
        else memmove_up m dst src (unat n))"

fun memcmp_loop :: "memory \<Rightarrow> u64 \<Rightarrow> u64 \<Rightarrow> nat \<Rightarrow> int" where
  "memcmp_loop m s1 s2 0 = 0"
| "memcmp_loop m s1 s2 (Suc n) =
     (if m s1 \<noteq> m s2 then uint (m s1) - uint (m s2) else memcmp_loop m (s1 + 1) (s2 + 1) n)"

definition memcmp :: "memory \<Rightarrow> u64 \<Rightarrow> u64 \<Rightarrow> u32 \<Rightarrow> int" where
  "memcmp m v1 v2 n = memcmp_loop m v1 v2 (unat n)"

declare memset_loop.simps [simp del]

lemma memset_loop_apply:
  "n \<le> 2 ^ 64 \<Longrightarrow> i \<le> n \<Longrightarrow>
   memset_loop m dst c n i x =
     (if i \<le> unat (x - dst) \<and> unat (x - dst) < n then c else m x)"
proof (induction m dst c n i rule: memset_loop.induct)
  case (1 m dst c n i)
  show ?case
  proof (cases "i < n")
    case True
    then have "memset_loop m dst c n i x = memset_loop (m(dst + of_nat i := c)) dst c n (Suc i) x"
      by (subst memset_loop.simps) simp
    also have "\<dots> =
      (if Suc i \<le> unat (x - dst) \<and> unat (x - dst) < n then c else (m(dst + of_nat i := c)) x)"
      using True 1(2) by (intro 1(1)) simp_all
    finally have "memset_loop m dst c n i x =
      (if Suc i \<le> unat (x - dst) \<and> unat (x - dst) < n then c else (m(dst + of_nat i := c)) x)" .
    moreover have "x = dst + of_nat i \<longleftrightarrow> unat (x - dst) = i"
      using True 1(2) by (auto simp: unat_of_nat dest: word_sub_eq_imp)
    ultimately show ?thesis using True by auto
  next
    case False
    with 1(3) show ?thesis by (subst memset_loop.simps) auto
  qed
qed

lemma memset_apply:
  "memset m dst c n x = (if in_range dst (unat n) x then word_of_int c else m x)"
proof -
  have "unat n \<le> 2 ^ 64" using unat_u32_lt [of n] by simp
  then show ?thesis by (simp add: memset_def memset_loop_apply in_range_def)
qed

lemma in_range_Suc:
  assumes "n < 2 ^ 64"
  shows "in_range a (Suc n) x \<longleftrightarrow> x = a + of_nat n \<or> in_range a n x"
  using assms by (auto simp: in_range_def unat_of_nat less_Suc_eq dest: word_sub_eq_imp)

lemma in_range_Suc_left:
  assumes "n < 2 ^ 64"
  shows "in_range a (Suc n) x \<longleftrightarrow> x = a \<or> in_range (a + 1) n x"
proof (cases "x = a")
  case True
  then show ?thesis by (simp add: in_range_def)
next
  case False
  then have "unat (x - a - 1) = unat (x - a) - 1" and "unat (x - a) \<noteq> 0"
    by (simp_all add: unat_minus_one unat_gt_0)
  then show ?thesis using False by (auto simp: in_range_def diff_diff_eq)
qed

lemma not_in_range_next: "n < 2 ^ 64 \<Longrightarrow> \<not> in_range (a + 1) n a"
  by (simp add: in_range_def unsigned_minus_1_eq_mask mask_eq_exp_minus_1)

lemma memmove_up_apply:
  assumes "n < 2 ^ 64" and "d = s \<or> n \<le> unat (d - s)"
  shows "memmove_up m d s n x = (if in_range d n x then m (s + (x - d)) else m x)"
  using assms
proof (induction n arbitrary: m d s)
  case 0
  then show ?case by (simp add: in_range_def)
next
  case (Suc n)
  let ?m = "m(d := m s)"
  have IH: "memmove_up ?m (d + 1) (s + 1) n x =
      (if in_range (d + 1) n x then ?m (s + 1 + (x - (d + 1))) else ?m x)"
    using Suc.prems by (intro Suc.IH) auto
  show ?case
  proof (cases "in_range (d + 1) n x")
    case True
    have xd: "unat (x - d) \<le> n" "x \<noteq> d"
      using True Suc.prems(1) in_range_Suc_left [of n d x] not_in_range_next [of n d]
      by (auto simp: in_range_def)
    have "s + (x - d) \<noteq> d"
    proof
      assume "s + (x - d) = d"
      then have "d - s = x - d" by (simp add: algebra_simps)
      with Suc.prems(2) xd show False by auto
    qed
    moreover have "s + 1 + (x - (d + 1)) = s + (x - d)" by simp
    ultimately show ?thesis
      using IH True Suc.prems(1) in_range_Suc_left [of n d x] by simp
  next
    case False
    then show ?thesis using IH Suc.prems(1) in_range_Suc_left [of n d x] by auto
  qed
qed

lemma memmove_down_apply:
  assumes "n < 2 ^ 64" and "d = s \<or> n \<le> unat (s - d)"
  shows "memmove_down m (d + of_nat n) (s + of_nat n) n x =
           (if in_range d n x then m (s + (x - d)) else m x)"
  using assms
proof (induction n arbitrary: m)
  case 0
  then show ?case by (simp add: in_range_def)
next
  case (Suc n)
  let ?m = "m(d + of_nat n := m (s + of_nat n))"
  have "memmove_down m (d + of_nat (Suc n)) (s + of_nat (Suc n)) (Suc n) x =
        memmove_down ?m (d + of_nat n) (s + of_nat n) n x"
    by (simp add: algebra_simps)
  also have "\<dots> = (if in_range d n x then ?m (s + (x - d)) else ?m x)"
    using Suc.prems by (intro Suc.IH) auto
  also have "\<dots> = (if in_range d (Suc n) x then m (s + (x - d)) else m x)"
  proof (cases "in_range d n x")
    case True
    have "s + (x - d) \<noteq> d + of_nat n"
    proof
      assume "s + (x - d) = d + of_nat n"
      then have eq: "s - d = of_nat n - (x - d)" by (simp add: algebra_simps)
      have n: "unat (of_nat n :: u64) = n" using Suc.prems(1) by (simp add: unat_of_nat)
      have "unat (s - d) = n - unat (x - d)"
        unfolding eq using True n by (simp add: in_range_def unat_sub word_le_nat_alt)
      moreover have "unat (x - d) < n" using True by (simp add: in_range_def)
      moreover have "unat (s - d) = 0 \<or> Suc n \<le> unat (s - d)" using Suc.prems(2) by auto
      ultimately show False by linarith
    qed
    then show ?thesis using True Suc.prems(1) by (simp add: in_range_Suc)
  next
    case False
    then show ?thesis using Suc.prems(1) by (auto simp: in_range_Suc)
  qed
  finally show ?case .
qed

lemma memmove_apply:
  assumes "unat src + unat n < 2 ^ 64"
  shows "memmove m dst src n x =
           (if in_range dst (unat n) x then m (src + (x - dst)) else m x)"
proof -
  have n: "unat n < 2 ^ 32" "unat (ucast n :: u64) = unat n"
    using unat_u32_lt [of n] by (simp_all add: unsigned_ucast_eq take_bit_nat_eq_self)
  have sn: "unat (src + ucast n) = unat src + unat n"
    using assms n(2) by (simp add: unat_word_ariths)
  consider "n = 0" | "n \<noteq> 0" "src < dst" "src + ucast n > dst"
    | "n \<noteq> 0" "\<not> (src < dst \<and> src + ucast n > dst)" by blast
  then show ?thesis
  proof cases
    case 1
    then show ?thesis by (simp add: memmove_def in_range_def)
  next
    case 2
    have "unat n \<le> unat (src - dst)"
      using 2(2,3) n(1) sn unat_u64_lt [of dst]
      unfolding word_less_nat_alt unat_sub_if_size word_size by simp
    then show ?thesis using 2 n memmove_down_apply [of "unat n" dst src m x]
      by (simp add: memmove_def)
  next
    case 3
    have "dst = src \<or> unat n \<le> unat (dst - src)"
      using 3(2) sn assms unat_u64_lt [of src]
      unfolding word_less_nat_alt unat_sub_if_size word_size word_unat_eq_iff
      by (simp split: if_splits) linarith
    then show ?thesis using 3 n memmove_up_apply [of "unat n" dst src m x]
      by (auto simp: memmove_def)
  qed
qed

subsection \<open>Aligned words and pages\<close>

abbreviation aligned8 :: "u64 \<Rightarrow> bool" where
  "aligned8 a \<equiv> 8 dvd unat a"

abbreviation page_aligned :: "u64 \<Rightarrow> bool" where
  "page_aligned a \<equiv> 4096 dvd unat a"

text \<open>The number of the page an address lies in.\<close>

definition pageno :: "u64 \<Rightarrow> nat" where
  "pageno a = unat a div 4096"

lemma page_aligned_eqI: "page_aligned a \<Longrightarrow> page_aligned b \<Longrightarrow> pageno a = pageno b \<Longrightarrow> a = b"
  unfolding pageno_def by (metis dvd_div_mult_self unsigned_word_eqI)

lemma page_aligned_aligned8: "page_aligned a \<Longrightarrow> aligned8 a"
  by (rule dvd_trans [of _ 4096]) simp_all

lemma in_range_page:
  assumes "page_aligned a"
  shows "in_range a 4096 x \<longleftrightarrow> pageno x = pageno a"
proof
  assume "in_range a 4096 x"
  then show "pageno x = pageno a"
    using in_range_div [of a 4096 x 12] assms by (simp add: pageno_def)
next
  assume eq: "pageno x = pageno a"
  have "unat x = pageno a * 4096 + unat x mod 4096"
    by (metis eq div_mult_mod_eq pageno_def)
  moreover have "unat a = pageno a * 4096"
    using assms by (simp add: pageno_def)
  ultimately have "unat a \<le> unat x" and "unat x - unat a < 4096" by simp_all
  then show "in_range a 4096 x" by (simp add: in_range_def unat_sub word_le_nat_alt)
qed

lemma in_range_word_page:
  assumes "aligned8 a" and "in_range a 8 x"
  shows "pageno x = pageno a"
proof -
  obtain k where "unat a = 8 * k" using assms(1) by (elim dvdE)
  then have "unat a mod 4096 = 8 * (k mod 512)" by (simp add: mult_mod_right)
  moreover have "k mod 512 < 512" by simp
  ultimately have "unat a mod 4096 + 8 \<le> 4096" by linarith
  then show ?thesis using in_range_div [of a 8 x 12] assms(2) by (simp add: pageno_def)
qed

lemma ld64_cong: "(\<And>x. in_range a 8 x \<Longrightarrow> m x = m' x) \<Longrightarrow> ld64 m a = ld64 m' a"
  unfolding ld64_def by (subst load_bytes_cong [of a 8 m m']) simp_all

lemma ld64_page_cong:
  "aligned8 a \<Longrightarrow> (\<And>x. pageno x = pageno a \<Longrightarrow> m x = m' x) \<Longrightarrow> ld64 m a = ld64 m' a"
  by (rule ld64_cong) (simp add: in_range_word_page)

lemma ld64_st64_same [simp]: "ld64 (st64 m a v) a = v"
  by (simp add: ld64_def st64_def load_store_same le_word_word_le)

lemma ld64_st64_other:
  assumes "aligned8 a" and "aligned8 b" and "a \<noteq> b"
  shows "ld64 (st64 m a v) b = ld64 m b"
proof -
  have "unat a div 8 \<noteq> unat b div 8"
    using assms by (metis dvd_div_mult_self unsigned_word_eqI)
  then have "disjoint_range a 8 b 8"
    using disjoint_range_blocks [of a 3 8 b 8] assms by simp
  then show ?thesis by (simp add: ld64_def st64_def load_store_disjoint)
qed

lemma st64_apply:
  "st64 m a v x = (if in_range a 8 x then word_le 8 v ! unat (x - a) else m x)"
  by (simp add: st64_def store_bytes_apply)

lemma st64_other_page: "aligned8 a \<Longrightarrow> pageno x \<noteq> pageno a \<Longrightarrow> st64 m a v x = m x"
  using in_range_word_page [of a x] by (auto simp: st64_apply)

lemma memset_page_apply:
  "page_aligned a \<Longrightarrow>
   memset m a c 4096 x = (if pageno x = pageno a then word_of_int c else m x)"
  by (simp add: memset_apply in_range_page)

lemma le_word_zeros: "le_word (replicate n 0) = 0"
  by (induction n) (simp_all add: le_word_Cons)

lemma ld64_memset_zero:
  assumes "page_aligned p" and "aligned8 a" and "pageno a = pageno p"
  shows "ld64 (memset m p 0 4096) a = 0"
proof -
  have "load_bytes (memset m p 0 4096) a 8 = replicate 8 0"
  proof (rule nth_equalityI)
    fix i
    assume "i < length (load_bytes (memset m p 0 4096) a 8)"
    then have "in_range a 8 (a + of_nat i)" by (simp add: in_range_offset)
    then have "pageno (a + of_nat i) = pageno p" using assms in_range_word_page by metis
    then show "load_bytes (memset m p 0 4096) a 8 ! i = replicate 8 0 ! i"
      using \<open>i < _\<close> assms(1) by (simp add: load_bytes_def memset_page_apply)
  qed simp
  then show ?thesis by (simp add: ld64_def le_word_zeros)
qed

lemma ld64_memset_other:
  "page_aligned p \<Longrightarrow> aligned8 a \<Longrightarrow> pageno a \<noteq> pageno p \<Longrightarrow>
   ld64 (memset m p c 4096) a = ld64 m a"
  by (rule ld64_page_cong) (simp_all add: memset_page_apply)

subsection \<open>Properties\<close>

text \<open>C33: \<open>memmove\<close> copies \<open>n\<close> bytes correctly whether or not the ranges overlap, in either
  direction: afterwards every destination byte holds what the source byte held before the call,
  and no other byte changes.\<close>

theorem memmove_correct:
  assumes "unat src + unat n < 2 ^ 64"
  shows "memmove m dst src n x =
           (if in_range dst (unat n) x then m (src + (x - dst)) else m x)"
  by (rule memmove_apply [OF assms])

theorem memmove_correct_witness:
  "memmove (\<lambda>a. ucast a) 0x80001002 0x80001000 8 0x80001005 = 3 \<and>
   memmove (\<lambda>a. ucast a) 0x80001000 0x80001002 8 0x80001005 = 7 \<and>
   memmove (\<lambda>a. ucast a) 0x80001000 0x80001002 8 0x80001008 = 8"
  using memmove_correct [of "0x80001000" 8 "\<lambda>a. ucast a" "0x80001002" "0x80001005"]
    memmove_correct [of "0x80001002" 8 "\<lambda>a. ucast a" "0x80001000" "0x80001005"]
    memmove_correct [of "0x80001002" 8 "\<lambda>a. ucast a" "0x80001000" "0x80001008"]
  by (simp add: in_range_def)

end
