(* ===== verification/Spinlock.thy ===== *)
theory Spinlock
  imports Machine
begin

text \<open>
  Spin-locks (\<open>kernel/spinlock.c\<close>), at two levels.

  The first level is the code run by several CPUs at once: the interrupt enable bit of each
  hart, the nesting counters of \<open>push_off\<close>/\<open>pop_off\<close>, the \<open>locked\<close> and \<open>cpu\<close> words of each
  lock, and one step of the relation \<open>lock_step\<close> per atomic action of \<open>acquire\<close> and \<open>release\<close>.
  Mutual exclusion, the exactness of \<open>holding\<close>, and that interrupts are off while a lock is held
  are invariants of every interleaving.

  The second level is what one CPU sees: \<open>held\<close> lists the locks it has acquired and not yet
  released, \<open>acquire\<close> panics on a lock already in the list and \<open>release\<close> on one that is not.
  The rest of the development uses this level; that the panics of the first level are exactly
  those is part of the invariant.
\<close>

subsection \<open>Interrupt enabling and its nesting\<close>

text \<open>
  \<open>sie\<close> is the SIE bit of the hart's \<open>sstatus\<close>, \<open>noff\<close> and \<open>intena\<close> are fields of \<open>struct cpu\<close>.
  \<open>noff\<close> is a C \<open>int\<close>: adding one to its largest value is undefined.
\<close>

record cpu =
  sie :: bool
  noff :: int
  intena :: bool

definition intr_get :: "cpu \<Rightarrow> bool" where
  "intr_get c = sie c"

definition intr_on :: "cpu \<Rightarrow> cpu" where
  "intr_on c = c\<lparr>sie := True\<rparr>"

definition intr_off :: "cpu \<Rightarrow> cpu" where
  "intr_off c = c\<lparr>sie := False\<rparr>"

definition push_off :: "cpu \<Rightarrow> (cpu, unit) res" where
  "push_off c =
     (let old = intr_get c;
          c = intr_off c;
          c = (if noff c = 0 then c\<lparr>intena := old\<rparr> else c)
      in if noff c = INT_MAX then UB else Ok () (c\<lparr>noff := noff c + 1\<rparr>))"

definition pop_off :: "cpu \<Rightarrow> (cpu, unit) res" where
  "pop_off c =
     (if intr_get c then Panic ''pop_off - interruptible''
      else if noff c < 1 then Panic ''pop_off''
      else let c = c\<lparr>noff := noff c - 1\<rparr>
           in Ok () (if noff c = 0 \<and> intena c then intr_on c else c))"

fun push_offs :: "nat \<Rightarrow> cpu \<Rightarrow> (cpu, unit) res" where
  "push_offs 0 c = Ok () c"
| "push_offs (Suc n) c = kbind (push_off c) (\<lambda>_ c. push_offs n c)"

fun pop_offs :: "nat \<Rightarrow> cpu \<Rightarrow> (cpu, unit) res" where
  "pop_offs 0 c = Ok () c"
| "pop_offs (Suc n) c = kbind (pop_off c) (\<lambda>_ c. pop_offs n c)"

lemmas intr_defs = intr_get_def intr_on_def intr_off_def push_off_def pop_off_def Let_def

text \<open>A CPU's counters are consistent: while \<open>noff\<close> is positive, interrupts are off.\<close>

definition cpu_ok :: "cpu \<Rightarrow> bool" where
  "cpu_ok c \<longleftrightarrow> 0 \<le> noff c \<and> (0 < noff c \<longrightarrow> \<not> sie c)"

lemma push_off_Ok: "push_off c = Ok u k \<Longrightarrow> cpu_ok c \<Longrightarrow> cpu_ok k \<and> noff k = noff c + 1"
  by (auto simp: intr_defs cpu_ok_def split: if_splits)

lemma pop_off_Ok: "pop_off c = Ok u k \<Longrightarrow> cpu_ok c \<Longrightarrow> cpu_ok k \<and> noff k = noff c - 1"
  by (auto simp: intr_defs cpu_ok_def split: if_splits)

lemma push_offs_state:
  assumes "cpu_ok c" and "noff c + int (Suc n) \<le> INT_MAX"
  shows "push_offs (Suc n) c =
           Ok () (c\<lparr>sie := False, noff := noff c + int (Suc n),
                    intena := (if noff c = 0 then sie c else intena c)\<rparr>)"
  using assms
proof (induction n arbitrary: c)
  case 0
  then show ?case by (simp add: intr_defs)
next
  case (Suc n)
  define d where "d = c\<lparr>sie := False, intena := (if noff c = 0 then sie c else intena c), noff := noff c + 1\<rparr>"
  have "push_off c = Ok () d" "cpu_ok d" "noff d + int (Suc n) \<le> INT_MAX" "noff d \<noteq> 0"
    using Suc.prems unfolding d_def by (simp_all add: intr_defs cpu_ok_def)
  then show ?case using Suc.IH [of d] by (simp add: d_def add.commute)
qed

lemma pop_offs_state:
  "\<not> sie c \<Longrightarrow> int n < noff c \<Longrightarrow> pop_offs n c = Ok () (c\<lparr>noff := noff c - int n\<rparr>)"
  by (induction n arbitrary: c) (auto simp: intr_defs)

lemma push_offs_pop_offs:
  assumes "cpu_ok c" and "noff c + int n \<le> INT_MAX"
  shows "\<exists>d c'. push_offs n c = Ok () d \<and> (0 < n \<longrightarrow> \<not> sie d) \<and> pop_offs n d = Ok () c' \<and>
           sie c' = sie c \<and> noff c' = noff c"
proof (cases n)
  case 0
  then show ?thesis by simp
next
  case (Suc k)
  define d where "d = c\<lparr>sie := False, noff := noff c + int (Suc k),
                        intena := (if noff c = 0 then sie c else intena c)\<rparr>"
  have p: "push_offs n c = Ok () d"
    using assms unfolding d_def Suc by (rule push_offs_state)
  have d: "\<not> sie d" "int k < noff d" "noff d = noff c + int (Suc k)"
    "intena d = (if noff c = 0 then sie c else intena c)"
    using assms(1) unfolding d_def by (simp_all add: cpu_ok_def)
  have split: "pop_offs (Suc k) e = kbind (pop_offs k e) (\<lambda>_ e. pop_off e)" for e
  proof (induction k arbitrary: e)
    case 0
    show ?case by (cases "pop_off e") auto
  next
    case (Suc k)
    then show ?case by (cases "pop_off e") auto
  qed
  have "pop_offs (Suc k) d = pop_off (d\<lparr>noff := noff d - int k\<rparr>)"
    unfolding split by (simp add: pop_offs_state d(1,2))
  then have "\<exists>c'. pop_offs (Suc k) d = Ok () c' \<and> sie c' = sie c \<and> noff c' = noff c"
    using d assms(1) by (auto simp: intr_defs cpu_ok_def)
  with p d(1) show ?thesis unfolding Suc by blast
qed

subsection \<open>Several CPUs\<close>

record spinlock =
  locked :: bool
  lname :: string
  lcpu :: "nat option"

definition initlock :: "string \<Rightarrow> spinlock" where
  "initlock name = \<lparr>locked = False, lname = name, lcpu = None\<rparr>"

text \<open>
  Where a CPU is in \<open>acquire\<close> or \<open>release\<close>: outside both, spinning in the test-and-set loop,
  past it but before \<open>lk->cpu = mycpu()\<close>, between \<open>lk->cpu = 0\<close> and the releasing swap, and
  before the final \<open>pop_off\<close>. \<open>crit\<close> is a history variable: the locks whose \<open>acquire\<close> the CPU
  has returned from and whose \<open>release\<close> it has not called.
\<close>

datatype 'l pc = Run | Spin 'l | Won 'l | Clearing 'l | Popping

record 'l smp =
  cpus :: "nat \<Rightarrow> cpu"
  locks :: "'l \<Rightarrow> spinlock"
  pcs :: "nat \<Rightarrow> 'l pc"
  crit :: "nat \<Rightarrow> 'l set"

definition holding :: "'l smp \<Rightarrow> nat \<Rightarrow> 'l \<Rightarrow> bool" where
  "holding s c l \<longleftrightarrow> locked (locks s l) \<and> lcpu (locks s l) = Some c"

inductive lock_step :: "'l smp \<Rightarrow> 'l smp \<Rightarrow> bool" where
  acquire_enter:
    "pcs s c = Run \<Longrightarrow> push_off (cpus s c) = Ok () k \<Longrightarrow> \<not> holding s c l \<Longrightarrow>
     lock_step s (s\<lparr>cpus := (cpus s)(c := k), pcs := (pcs s)(c := Spin l)\<rparr>)"
| test_and_set_fails:
    "pcs s c = Spin l \<Longrightarrow> locked (locks s l) \<Longrightarrow> lock_step s s"
| test_and_set_wins:
    "pcs s c = Spin l \<Longrightarrow> \<not> locked (locks s l) \<Longrightarrow>
     lock_step s (s\<lparr>locks := (locks s)(l := (locks s l)\<lparr>locked := True\<rparr>),
                    pcs := (pcs s)(c := Won l)\<rparr>)"
| acquire_return:
    "pcs s c = Won l \<Longrightarrow>
     lock_step s (s\<lparr>locks := (locks s)(l := (locks s l)\<lparr>lcpu := Some c\<rparr>),
                    pcs := (pcs s)(c := Run), crit := (crit s)(c := insert l (crit s c))\<rparr>)"
| release_enter:
    "pcs s c = Run \<Longrightarrow> holding s c l \<Longrightarrow>
     lock_step s (s\<lparr>locks := (locks s)(l := (locks s l)\<lparr>lcpu := None\<rparr>),
                    pcs := (pcs s)(c := Clearing l), crit := (crit s)(c := crit s c - {l})\<rparr>)"
| release_swap:
    "pcs s c = Clearing l \<Longrightarrow>
     lock_step s (s\<lparr>locks := (locks s)(l := (locks s l)\<lparr>locked := False\<rparr>),
                    pcs := (pcs s)(c := Popping)\<rparr>)"
| release_return:
    "pcs s c = Popping \<Longrightarrow> pop_off (cpus s c) = Ok () k \<Longrightarrow>
     lock_step s (s\<lparr>cpus := (cpus s)(c := k), pcs := (pcs s)(c := Run)\<rparr>)"
| set_interrupts:
    "pcs s c = Run \<Longrightarrow> noff (cpus s c) = 0 \<Longrightarrow>
     lock_step s (s\<lparr>cpus := (cpus s)(c := (if b then intr_on else intr_off) (cpus s c))\<rparr>)"

definition lock_init :: "'l smp \<Rightarrow> bool" where
  "lock_init s \<longleftrightarrow>
     (\<forall>c. noff (cpus s c) = 0 \<and> pcs s c = Run \<and> crit s c = {}) \<and>
     (\<forall>l. \<exists>name. locks s l = initlock name)"

text \<open>\<open>owns s c l\<close>: CPU \<open>c\<close> has won lock \<open>l\<close> and not yet executed the releasing swap.\<close>

definition owns :: "'l smp \<Rightarrow> nat \<Rightarrow> 'l \<Rightarrow> bool" where
  "owns s c l \<longleftrightarrow> l \<in> crit s c \<or> pcs s c = Won l \<or> pcs s c = Clearing l"

definition lock_owner_inv :: "'l smp \<Rightarrow> bool" where
  "lock_owner_inv s \<longleftrightarrow>
     (\<forall>l. locked (locks s l) \<longleftrightarrow> (\<exists>c. owns s c l)) \<and>
     (\<forall>l c d. owns s c l \<longrightarrow> owns s d l \<longrightarrow> c = d) \<and>
     (\<forall>l c. lcpu (locks s l) = Some c \<longleftrightarrow> l \<in> crit s c) \<and>
     (\<forall>l c. pcs s c = Spin l \<or> pcs s c = Won l \<or> pcs s c = Clearing l \<longrightarrow> l \<notin> crit s c)"

definition lock_noff_inv :: "'l smp \<Rightarrow> bool" where
  "lock_noff_inv s \<longleftrightarrow>
     (\<forall>c. finite (crit s c) \<and> cpu_ok (cpus s c) \<and>
        noff (cpus s c) = int (card (crit s c)) + (if pcs s c = Run then 0 else 1))"

definition lock_inv :: "'l smp \<Rightarrow> bool" where
  "lock_inv s \<longleftrightarrow> lock_owner_inv s \<and> lock_noff_inv s"

lemma lock_inv_init: "lock_init s \<Longrightarrow> lock_inv s"
proof -
  assume a: "lock_init s"
  then have "\<not> owns s c l" and "\<not> locked (locks s l)" and "lcpu (locks s l) = None" for c l
    by (auto simp: lock_init_def owns_def initlock_def) (metis spinlock.select_convs)+
  with a show "lock_inv s"
    by (simp add: lock_inv_def lock_owner_inv_def lock_noff_inv_def lock_init_def cpu_ok_def)
qed

lemma lock_owner_inv_step:
  assumes "lock_owner_inv s" and "lock_step s t"
  shows "lock_owner_inv t"
  using assms(2)
proof (cases rule: lock_step.cases)
  case (acquire_enter c k l)
  have o: "owns t = owns s"
    using acquire_enter assms(1) by (auto simp: owns_def fun_eq_iff)
  have "l \<in> crit s c \<Longrightarrow> owns s c l" by (simp add: owns_def)
  then have "l \<notin> crit s c"
    using acquire_enter assms(1) by (auto simp: holding_def lock_owner_inv_def)
  then show ?thesis using assms(1) acquire_enter unfolding lock_owner_inv_def o
    by (auto)
next
  case (test_and_set_fails c l)
  then show ?thesis using assms(1) by simp
next
  case (test_and_set_wins c l)
  have o: "owns t = (\<lambda>d m. owns s d m \<or> d = c \<and> m = l)"
    using test_and_set_wins assms(1) by (auto simp: owns_def fun_eq_iff)
  have "l \<in> crit s c \<Longrightarrow> owns s c l" by (simp add: owns_def)
  then show ?thesis using assms(1) test_and_set_wins unfolding lock_owner_inv_def o
    by (auto)
next
  case (acquire_return c l)
  have o: "owns t = owns s"
    using acquire_return assms(1) by (auto simp: owns_def fun_eq_iff)
  have "owns s c l" and "\<And>d. l \<in> crit s d \<Longrightarrow> owns s d l"
    using acquire_return by (simp_all add: owns_def)
  then have "l \<notin> crit s d" for d
    using assms(1) acquire_return(2) unfolding lock_owner_inv_def by metis
  then show ?thesis using assms(1) acquire_return unfolding lock_owner_inv_def o
    by (auto)
next
  case (release_enter c l)
  have o: "owns t = owns s"
    using release_enter assms(1) by (auto simp: owns_def fun_eq_iff holding_def lock_owner_inv_def)
  have "lcpu (locks s l) = Some c" using release_enter by (simp add: holding_def)
  then have "d \<noteq> c \<Longrightarrow> l \<notin> crit s d" for d
    using assms(1) unfolding lock_owner_inv_def by (metis option.inject)
  then show ?thesis using assms(1) release_enter unfolding lock_owner_inv_def o
    by (auto)
next
  case (release_swap c l)
  have o: "owns t = (\<lambda>d m. owns s d m \<and> \<not> (d = c \<and> m = l))"
    using release_swap assms(1) by (auto simp: owns_def fun_eq_iff lock_owner_inv_def)
  have "owns s c l" using release_swap by (simp add: owns_def)
  then show ?thesis using assms(1) release_swap unfolding lock_owner_inv_def o
    by (auto)
next
  case (release_return c k)
  have o: "owns t = owns s"
    using release_return assms(1) by (auto simp: owns_def fun_eq_iff)
  show ?thesis using assms(1) release_return unfolding lock_owner_inv_def o
    by (auto)
next
  case (set_interrupts c b)
  have o: "owns t = owns s"
    using set_interrupts assms(1) by (auto simp: owns_def fun_eq_iff)
  show ?thesis using assms(1) set_interrupts unfolding lock_owner_inv_def o
    by (auto)
qed

lemma lock_noff_inv_step:
  assumes "lock_noff_inv s" and "lock_owner_inv s" and "lock_step s t"
  shows "lock_noff_inv t"
  using assms(3)
proof (cases rule: lock_step.cases)
  case (acquire_return c l)
  then have "l \<notin> crit s c" using assms(2) by (auto simp: lock_owner_inv_def)
  with acquire_return assms(1) show ?thesis by (auto simp: lock_noff_inv_def)
next
  case (release_enter c l)
  then have "l \<in> crit s c" using assms(2) by (auto simp: lock_owner_inv_def holding_def)
  moreover from this have "Suc (card (crit s c - {l})) = card (crit s c)"
    using assms(1) by (simp only: lock_noff_inv_def card_Suc_Diff1)
  ultimately show ?thesis using release_enter assms(1)
    by (auto simp: lock_noff_inv_def)
next
  case (release_return c k)
  then have "noff k = noff (cpus s c) - 1" and "cpu_ok k"
    using assms(1) pop_off_Ok [of "cpus s c"] by (auto simp: lock_noff_inv_def)
  with release_return assms(1) show ?thesis by (auto simp: lock_noff_inv_def)
next
  case (acquire_enter c k l)
  then have "noff k = noff (cpus s c) + 1" and "cpu_ok k"
    using assms(1) push_off_Ok [of "cpus s c"] by (auto simp: lock_noff_inv_def)
  with acquire_enter assms(1) show ?thesis by (auto simp: lock_noff_inv_def)
next
  case (set_interrupts c b)
  then show ?thesis using assms(1)
    by (auto simp: lock_noff_inv_def cpu_ok_def intr_on_def intr_off_def)
qed (use assms(1) in \<open>auto simp: lock_noff_inv_def\<close>)

interpretation spin: inv_system lock_init lock_step lock_inv
proof unfold_locales
  show "lock_inv s" if "lock_init s" for s :: "'a smp"
    using that by (rule lock_inv_init)
  show "lock_inv t" if "lock_inv s" "lock_step s t" for s t :: "'a smp"
    using that lock_owner_inv_step lock_noff_inv_step unfolding lock_inv_def by blast
qed

subsection \<open>What one CPU sees\<close>

definition acquire :: "lock \<Rightarrow> 'a machine_scheme \<Rightarrow> ('a machine_scheme, unit) res" where
  "acquire l s = (if l \<in> set (held s) then Panic ''acquire'' else Ok () (s\<lparr>held := l # held s\<rparr>))"

definition release :: "lock \<Rightarrow> 'a machine_scheme \<Rightarrow> ('a machine_scheme, unit) res" where
  "release l s =
     (if l \<notin> set (held s) then Panic ''release'' else Ok () (s\<lparr>held := remove1 l (held s)\<rparr>))"

lemma acquire_free [simp]: "l \<notin> set (held s) \<Longrightarrow> acquire l s = Ok () (s\<lparr>held := l # held s\<rparr>)"
  by (simp add: acquire_def)

lemma release_held [simp]:
  "l \<in> set (held s) \<Longrightarrow> release l s = Ok () (s\<lparr>held := remove1 l (held s)\<rparr>)"
  by (simp add: release_def)

subsection \<open>Properties\<close>

lemma reach_lock_inv: "reach lock_init lock_step s \<Longrightarrow> lock_inv s"
  by (rule spin.reach_inv)

text \<open>C2: In every interleaving of \<open>acquire\<close> and \<open>release\<close> by any number of CPUs, a spin-lock is
  held by at most one CPU, \<open>holding\<close> answers true exactly on the CPU that is between the return
  of its \<open>acquire\<close> and its call of \<open>release\<close>, and a CPU that holds a lock has interrupts off.\<close>

theorem spinlock_mutual_exclusion:
  assumes "reach lock_init lock_step s"
  shows "(l \<in> crit s c \<and> l \<in> crit s d \<longrightarrow> c = d) \<and> (holding s c l \<longleftrightarrow> l \<in> crit s c) \<and>
         (crit s c \<noteq> {} \<longrightarrow> \<not> intr_get (cpus s c))"
proof -
  have i: "lock_owner_inv s" "lock_noff_inv s"
    using reach_lock_inv [OF assms] by (simp_all add: lock_inv_def)
  have o: "l \<in> crit s e \<Longrightarrow> owns s e l" for e by (simp add: owns_def)
  have "l \<in> crit s c \<and> l \<in> crit s d \<longrightarrow> c = d"
    using i(1) o unfolding lock_owner_inv_def by metis
  moreover have "holding s c l \<longleftrightarrow> l \<in> crit s c"
    using i(1) o by (auto simp: lock_owner_inv_def holding_def)
  moreover have "0 < noff (cpus s c)" if "crit s c \<noteq> {}"
    using that i(2) by (auto simp: lock_noff_inv_def card_gt_0_iff)
  ultimately show ?thesis
    using i(2) by (auto simp: lock_noff_inv_def cpu_ok_def intr_get_def)
qed

definition smp_boot :: "bool smp" where
  "smp_boot = \<lparr>cpus = (\<lambda>_. \<lparr>sie = True, noff = 0, intena = False\<rparr>),
               locks = (\<lambda>_. initlock ''lock''), pcs = (\<lambda>_. Run), crit = (\<lambda>_. {})\<rparr>"

definition smp_locked :: "bool smp" where
  "smp_locked =
     smp_boot\<lparr>cpus := (cpus smp_boot)(0 := \<lparr>sie = False, noff = 1, intena = True\<rparr>),
              locks := (locks smp_boot)(True := (locks smp_boot True)\<lparr>locked := True, lcpu := Some 0\<rparr>),
              pcs := (pcs smp_boot)(0 := Run), crit := (crit smp_boot)(0 := {True})\<rparr>"

lemma reach_smp_locked: "reach lock_init lock_step smp_locked"
proof -
  have "reach lock_init lock_step smp_boot"
    by (rule reach_init) (auto simp: smp_boot_def lock_init_def)
  then have "reach lock_init lock_step (smp_boot\<lparr>cpus := (cpus smp_boot)(0 := \<lparr>sie = False, noff = 1, intena = True\<rparr>),
      pcs := (pcs smp_boot)(0 := Spin True)\<rparr>)" (is "reach _ _ ?s1")
    by (rule reach_step) (rule acquire_enter, auto simp: smp_boot_def holding_def initlock_def intr_defs)
  then have "reach lock_init lock_step (?s1\<lparr>locks := (locks ?s1)(True := (locks ?s1 True)\<lparr>locked := True\<rparr>),
      pcs := (pcs ?s1)(0 := Won True)\<rparr>)" (is "reach _ _ ?s2")
    by (rule reach_step) (rule test_and_set_wins, auto simp: smp_boot_def initlock_def)
  then have "reach lock_init lock_step (?s2\<lparr>locks := (locks ?s2)(True := (locks ?s2 True)\<lparr>lcpu := Some 0\<rparr>),
      pcs := (pcs ?s2)(0 := Run), crit := (crit ?s2)(0 := insert True (crit ?s2 0))\<rparr>)"
    (is "reach _ _ ?s3")
    by (rule reach_step) (rule acquire_return, simp)
  also have "?s3 = smp_locked" by (simp add: smp_locked_def) (simp add: smp_boot_def)
  finally show ?thesis .
qed

theorem spinlock_mutual_exclusion_witness:
  "reach lock_init lock_step smp_locked \<and> holding smp_locked 0 True \<and>
   \<not> holding smp_locked 1 True \<and> \<not> intr_get (cpus smp_locked 0)"
proof -
  have "crit smp_locked 0 = {True}" "crit smp_locked 1 = {}"
    by (simp_all add: smp_locked_def smp_boot_def)
  then show ?thesis
    using spinlock_mutual_exclusion [OF reach_smp_locked, of True 0 1]
      spinlock_mutual_exclusion [OF reach_smp_locked, of True 1 0] reach_smp_locked
    by simp
qed

text \<open>A CPU that owns a lock and is not itself spinning frees the lock by steps of its own.\<close>

definition by_cpu :: "nat \<Rightarrow> 'l smp \<Rightarrow> 'l smp \<Rightarrow> bool" where
  "by_cpu d s t \<longleftrightarrow>
     lock_step s t \<and> (\<forall>e. e \<noteq> d \<longrightarrow> pcs t e = pcs s e \<and> cpus t e = cpus s e \<and> crit t e = crit s e)"

lemma by_cpu_pcs: "(by_cpu d)\<^sup>*\<^sup>* s t \<Longrightarrow> c \<noteq> d \<Longrightarrow> pcs t c = pcs s c"
  by (induction rule: rtranclp_induct) (simp_all add: by_cpu_def)

lemma popping_pop_off:
  assumes "lock_noff_inv s" and "pcs s c = Popping"
  shows "\<exists>k. pop_off (cpus s c) = Ok () k"
proof -
  have "0 < noff (cpus s c)" "cpu_ok (cpus s c)"
    using assms by (auto simp: lock_noff_inv_def)
  then show ?thesis by (auto simp: intr_defs cpu_ok_def)
qed

lemma run_frees_lock:
  assumes "lock_owner_inv s" and "pcs s d = Run" and "l \<in> crit s d"
  shows "\<exists>t. (by_cpu d)\<^sup>*\<^sup>* s t \<and> \<not> locked (locks t l)"
proof -
  have "owns s d l" using assms(3) by (simp add: owns_def)
  then have h: "holding s d l" using assms unfolding holding_def lock_owner_inv_def by blast
  obtain t where t: "by_cpu d s t" "pcs t d = Clearing l"
    using release_enter [OF assms(2) h] by (fastforce simp: by_cpu_def)
  obtain u where "by_cpu d t u" "\<not> locked (locks u l)"
    using release_swap [OF t(2)] by (fastforce simp: by_cpu_def)
  with t(1) show ?thesis by (meson r_into_rtranclp rtranclp.rtrancl_into_rtrancl)
qed

lemma popping_frees_lock:
  assumes "lock_inv s" and "pcs s d = Popping" and "l \<in> crit s d"
  shows "\<exists>t. (by_cpu d)\<^sup>*\<^sup>* s t \<and> \<not> locked (locks t l)"
proof -
  obtain k where "pop_off (cpus s d) = Ok () k"
    using assms popping_pop_off unfolding lock_inv_def by blast
  then obtain t where t: "by_cpu d s t" "pcs t d = Run" "l \<in> crit t d"
    using release_return [OF assms(2)] assms(3) by (fastforce simp: by_cpu_def)
  then have "lock_owner_inv t"
    using assms(1) lock_owner_inv_step unfolding lock_inv_def by_cpu_def by blast
  from run_frees_lock [OF this t(2,3)] t(1) show ?thesis
    by (meson converse_rtranclp_into_rtranclp)
qed

lemma owner_frees_lock:
  assumes i: "lock_inv s" and o: "owns s d l" and n: "\<forall>m. pcs s d \<noteq> Spin m"
  shows "\<exists>t. (by_cpu d)\<^sup>*\<^sup>* s t \<and> \<not> locked (locks t l)"
proof (cases "pcs s d")
  case Run
  then have "l \<in> crit s d" using o by (simp add: owns_def)
  then show ?thesis using run_frees_lock [OF _ Run] i by (simp add: lock_inv_def)
next
  case (Won m)
  then obtain t where t: "by_cpu d s t" "pcs t d = Run" "l \<in> crit t d"
    using acquire_return [OF Won] o by (fastforce simp: by_cpu_def owns_def)
  then have "lock_owner_inv t"
    using i lock_owner_inv_step unfolding lock_inv_def by_cpu_def by blast
  from run_frees_lock [OF this t(2,3)] t(1) show ?thesis
    by (meson converse_rtranclp_into_rtranclp)
next
  case (Clearing m)
  then obtain t where t: "by_cpu d s t" "pcs t d = Popping" "crit t d = crit s d"
      "\<not> locked (locks t m)"
    using release_swap [OF Clearing] by (fastforce simp: by_cpu_def)
  show ?thesis
  proof (cases "m = l")
    case True
    with t show ?thesis by blast
  next
    case False
    then have "l \<in> crit t d" using o Clearing t(3) by (simp add: owns_def)
    moreover have "lock_inv t" using i t(1) lock_owner_inv_step lock_noff_inv_step
      unfolding by_cpu_def lock_inv_def by blast
    ultimately show ?thesis using popping_frees_lock [OF _ t(2)] t(1)
      by (meson converse_rtranclp_into_rtranclp)
  qed
next
  case Popping
  then have "l \<in> crit s d" using o by (simp add: owns_def)
  with popping_frees_lock [OF i Popping] show ?thesis by blast
qed (use n in blast)

lemma spin_wins:
  "pcs t c = Spin l \<Longrightarrow> \<not> locked (locks t l) \<Longrightarrow> \<exists>u. by_cpu c t u \<and> pcs u c = Won l"
  using test_and_set_wins [of t c l] by (fastforce simp: by_cpu_def)

text \<open>C21: The code of \<open>acquire\<close> and \<open>release\<close> never gets stuck. In every reachable state the
  \<open>pop_off\<close> that ends a \<open>release\<close> succeeds. When a CPU \<open>c\<close> spins on a lock, then either the lock
  is owned by another CPU which itself spins on a different lock, or one other CPU \<open>d\<close> can, by
  zero or more steps of its own alone, bring about a state in which \<open>c\<close> still spins and the next
  test-and-set of \<open>c\<close> wins the lock. So a spinning CPU is blocked for good only by a chain of
  owners that wait for further locks.\<close>

theorem spinlock_progress:
  assumes "reach lock_init lock_step s"
  shows "(pcs s c = Popping \<longrightarrow> is_Ok (pop_off (cpus s c))) \<and>
         (pcs s c = Spin l \<longrightarrow>
           (\<exists>d m. d \<noteq> c \<and> owns s d l \<and> m \<noteq> l \<and> pcs s d = Spin m) \<or>
           (\<exists>d t u. d \<noteq> c \<and> (by_cpu d)\<^sup>*\<^sup>* s t \<and> pcs t c = Spin l \<and>
              by_cpu c t u \<and> pcs u c = Won l))"
proof -
  have i: "lock_inv s" "lock_owner_inv s" "lock_noff_inv s"
    using reach_lock_inv [OF assms] by (simp_all add: lock_inv_def)
  have "is_Ok (pop_off (cpus s c))" if "pcs s c = Popping"
    using popping_pop_off [OF i(3) that] by auto
  moreover have "(\<exists>d m. d \<noteq> c \<and> owns s d l \<and> m \<noteq> l \<and> pcs s d = Spin m) \<or>
      (\<exists>d t u. d \<noteq> c \<and> (by_cpu d)\<^sup>*\<^sup>* s t \<and> pcs t c = Spin l \<and> by_cpu c t u \<and> pcs u c = Won l)"
    if sp: "pcs s c = Spin l"
  proof (cases "locked (locks s l)")
    case False
    then show ?thesis using spin_wins [OF sp] sp n_not_Suc_n by (metis rtranclp.rtrancl_refl)
  next
    case True
    then obtain d where d: "owns s d l" using i(2) by (auto simp: lock_owner_inv_def)
    have "\<not> owns s c l" using i(2) sp by (simp add: owns_def lock_owner_inv_def)
    with d have c: "d \<noteq> c" by blast
    show ?thesis
    proof (cases "\<exists>m. pcs s d = Spin m")
      case True
      then obtain m where m: "pcs s d = Spin m" by blast
      then have "m \<noteq> l" using d i(2) by (auto simp: owns_def lock_owner_inv_def)
      with m d c show ?thesis by blast
    next
      case False
      then obtain t where t: "(by_cpu d)\<^sup>*\<^sup>* s t" "\<not> locked (locks t l)"
        using owner_frees_lock [OF i(1) d] by blast
      have "pcs t c = Spin l" using by_cpu_pcs [OF t(1), of c] c sp by simp
      with spin_wins [OF this t(2)] t(1) c show ?thesis by blast
    qed
  qed
  ultimately show ?thesis by blast
qed

definition smp_contended :: "bool smp" where
  "smp_contended =
     smp_locked\<lparr>cpus := (cpus smp_locked)(1 := \<lparr>sie = False, noff = 1, intena = True\<rparr>),
                pcs := (pcs smp_locked)(1 := Spin True)\<rparr>"

lemma reach_smp_contended: "reach lock_init lock_step smp_contended"
  unfolding smp_contended_def
  by (rule reach_step [OF reach_smp_locked], rule acquire_enter)
    (simp_all add: smp_locked_def smp_boot_def holding_def initlock_def intr_defs)

theorem spinlock_progress_witness:
  "reach lock_init lock_step smp_contended \<and> pcs smp_contended 1 = Spin True \<and>
   locked (locks smp_contended True) \<and>
   (\<exists>d t u. d \<noteq> 1 \<and> (by_cpu d)\<^sup>*\<^sup>* smp_contended t \<and> pcs t 1 = Spin True \<and>
      by_cpu 1 t u \<and> pcs u 1 = Won True)"
proof -
  have a: "pcs smp_contended 1 = Spin True" "locked (locks smp_contended True)"
    by (simp_all add: smp_contended_def smp_locked_def)
  have "pcs smp_contended d \<noteq> Spin m" if "d \<noteq> 1" for d m
    using that by (simp add: smp_contended_def smp_locked_def smp_boot_def)
  then have "\<not> (\<exists>d m. d \<noteq> 1 \<and> owns smp_contended d True \<and> m \<noteq> True \<and> pcs smp_contended d = Spin m)"
    by blast
  with spinlock_progress [OF reach_smp_contended, of 1 True] reach_smp_contended a
  show ?thesis by blast
qed

text \<open>C32: \<open>push_off\<close> and \<open>pop_off\<close> nest: on a CPU with consistent counters whose nesting depth plus \<open>n\<close>
  still fits an \<open>int\<close>, \<open>n\<close> calls of \<open>push_off\<close> succeed and, when \<open>n\<close> is positive, leave interrupts
  off, and \<open>n\<close> calls of \<open>pop_off\<close> after them succeed without a panic and leave the interrupt
  enable bit and the nesting depth as they were at the start.\<close>

theorem push_off_pop_off_nest:
  assumes "cpu_ok c" and "noff c + int n \<le> INT_MAX"
  shows "\<exists>d c'. push_offs n c = Ok () d \<and> (0 < n \<longrightarrow> \<not> intr_get d) \<and>
           pop_offs n d = Ok () c' \<and> sie c' = sie c \<and> noff c' = noff c"
  using push_offs_pop_offs [OF assms] by (simp add: intr_get_def)

theorem push_off_pop_off_nest_witness:
  "cpu_ok \<lparr>sie = True, noff = 0, intena = False\<rparr> \<and>
   (\<exists>d c'. push_offs 3 \<lparr>sie = True, noff = 0, intena = False\<rparr> = Ok () d \<and> \<not> intr_get d \<and>
      pop_offs 3 d = Ok () c' \<and> sie c' \<and> noff c' = 0)"
  using push_off_pop_off_nest [of "\<lparr>sie = True, noff = 0, intena = False\<rparr>" 3]
  by (simp add: cpu_ok_def)

end
