(* ===== verification/Kalloc.thy ===== *)
theory Kalloc
  imports Spinlock
begin

text \<open>
  The physical page allocator (\<open>kernel/kalloc.c\<close>). Free pages form a linked list threaded through
  the pages themselves: the first eight bytes of a free page are the address of the next one.
  \<open>free_list s ps\<close> says that memory holds the list \<open>ps\<close>; the invariant \<open>kmem_inv\<close> adds that the
  pages are distinct, page-aligned and between \<open>end\<close> and \<open>PHYSTOP\<close>. The allocator is an instance
  of the locale \<open>free_pool\<close>, the contract of every allocator of the kernel: an allocation
  returns an available item and takes it from the pool, a release puts it back, and so an item
  is never held twice.
\<close>

subsection \<open>The contract of an allocator\<close>

text \<open>A history of a pool: \<open>Some x\<close> is an allocation that returned \<open>x\<close>, \<open>None\<close> one that failed.\<close>

locale free_pool =
  fixes inv :: "'s \<Rightarrow> bool"
    and avail :: "'s \<Rightarrow> 'a set"
    and legal :: "'s \<Rightarrow> 'a \<Rightarrow> bool"
    and alloc :: "'s \<Rightarrow> ('s, 'a option) res"
    and free :: "'a \<Rightarrow> 's \<Rightarrow> ('s, unit) res"
  assumes alloc_empty: "inv s \<Longrightarrow> avail s = {} \<Longrightarrow> alloc s = Ok None s"
    and alloc_avail: "inv s \<Longrightarrow> avail s \<noteq> {} \<Longrightarrow>
      \<exists>x s'. alloc s = Ok (Some x) s' \<and> x \<in> avail s \<and> inv s' \<and> avail s' = avail s - {x} \<and>
             legal s' = legal s"
    and free_law: "inv s \<Longrightarrow> legal s x \<Longrightarrow> x \<notin> avail s \<Longrightarrow>
      \<exists>s'. free x s = Ok () s' \<and> inv s' \<and> avail s' = insert x (avail s) \<and> legal s' = legal s"
begin

lemma alloc_Ok: "inv s \<Longrightarrow> is_Ok (alloc s)"
  using alloc_empty alloc_avail by (cases "avail s = {}") fastforce+

lemma alloc_cases:
  assumes "inv s" and "alloc s = Ok r s'"
  shows "r = None \<and> avail s = {} \<and> s' = s \<or>
         (\<exists>x. r = Some x \<and> x \<in> avail s \<and> inv s' \<and> avail s' = avail s - {x} \<and> legal s' = legal s)"
  using assms alloc_empty alloc_avail by (cases "avail s = {}") fastforce+

lemma alloc_then_free:
  assumes "inv s" and "alloc s = Ok (Some x) s'" and "legal s x"
  shows "\<exists>s''. free x s' = Ok () s'' \<and> inv s'' \<and> avail s'' = avail s"
proof -
  have "x \<in> avail s" "inv s'" "avail s' = avail s - {x}" "legal s' = legal s"
    using alloc_cases [OF assms(1,2)] by auto
  with free_law [of s' x] assms(3) show ?thesis by (auto simp: insert_absorb)
qed

primrec alloc_n :: "nat \<Rightarrow> 's \<Rightarrow> ('s, 'a list) res" where
  "alloc_n 0 s = Ok [] s"
| "alloc_n (Suc n) s =
     kbind (alloc s) (\<lambda>r s. case r of None \<Rightarrow> Ok [] s
       | Some x \<Rightarrow> kbind (alloc_n n s) (\<lambda>xs s. Ok (x # xs) s))"

lemma alloc_n_distinct:
  assumes "inv s" and "alloc_n n s = Ok xs s'"
  shows "distinct xs \<and> set xs \<subseteq> avail s \<and> inv s' \<and> avail s' = avail s - set xs"
  using assms
proof (induction n arbitrary: s xs)
  case 0
  then show ?case by simp
next
  case (Suc n)
  from Suc.prems(2) obtain r t where r: "alloc s = Ok r t"
    by (auto simp: kbind_Ok_iff)
  show ?case
  proof (cases r)
    case None
    with Suc.prems r show ?thesis using alloc_cases [OF Suc.prems(1) r] by auto
  next
    case (Some x)
    with Suc.prems(2) r obtain ys where ys: "alloc_n n t = Ok ys s'" "xs = x # ys"
      by (auto simp: kbind_Ok_iff)
    have t: "x \<in> avail s" "inv t" "avail t = avail s - {x}"
      using alloc_cases [OF Suc.prems(1) r] Some by auto
    from Suc.IH [OF t(2) ys(1)] t ys(2) show ?thesis by auto
  qed
qed

end

subsection \<open>The page allocator\<close>

text \<open>\<open>kmem.freelist\<close>; the null pointer is 0.\<close>

record kmem = machine +
  freelist :: u64

definition kfree :: "u64 \<Rightarrow> 'a kmem_scheme \<Rightarrow> ('a kmem_scheme, unit) res" where
  "kfree pa s =
     (if pa mod PGSIZE \<noteq> 0 \<or> pa < kend s \<or> pa \<ge> PHYSTOP then Panic ''kfree''
      else
        let s = s\<lparr>mem := memset (mem s) pa 1 4096\<rparr> in
        kbind (acquire L_kmem s) (\<lambda>_ s.
        let s = s\<lparr>mem := st64 (mem s) pa (freelist s)\<rparr>;
            s = s\<lparr>freelist := pa\<rparr> in
        release L_kmem s))"

definition kalloc :: "'a kmem_scheme \<Rightarrow> ('a kmem_scheme, u64) res" where
  "kalloc s =
     kbind (acquire L_kmem s) (\<lambda>_ s.
     let r = freelist s;
         s = (if r \<noteq> 0 then s\<lparr>freelist := ld64 (mem s) r\<rparr> else s) in
     kbind (release L_kmem s) (\<lambda>_ s.
     Ok r (if r \<noteq> 0 then s\<lparr>mem := memset (mem s) r 5 4096\<rparr> else s)))"

text \<open>
  \<open>for(; p + PGSIZE <= (char*)pa_end; p += PGSIZE) kfree(p);\<close> a pointer that wraps is undefined.
\<close>

function freerange_loop :: "u64 \<Rightarrow> u64 \<Rightarrow> 'a kmem_scheme \<Rightarrow> ('a kmem_scheme, unit) res" where
  "freerange_loop p pa_end s =
     (if p + PGSIZE < p then UB
      else if p + PGSIZE \<le> pa_end
      then kbind (kfree p s) (\<lambda>_ s. freerange_loop (p + PGSIZE) pa_end s)
      else Ok () s)"
  by pat_completeness auto
termination
proof (relation "measure (\<lambda>(p, e, s). 2 ^ 64 - unat p)", goal_cases)
  case (2 p pa_end s x xa)
  have "p < p + PGSIZE"
    using 2 by (simp add: not_less order_less_le)
  then have "unat p < unat (p + PGSIZE)"
    by (simp only: word_less_nat_alt)
  then show ?case using unat_u64_lt [of "p + PGSIZE"] by simp
qed simp

declare freerange_loop.simps [simp del]

definition freerange :: "u64 \<Rightarrow> u64 \<Rightarrow> 'a kmem_scheme \<Rightarrow> ('a kmem_scheme, unit) res" where
  "freerange pa_start pa_end s = freerange_loop (PGROUNDUP pa_start) pa_end s"

definition kinit :: "'a kmem_scheme \<Rightarrow> ('a kmem_scheme, unit) res" where
  "kinit s = freerange (kend s) PHYSTOP s"

text \<open>A change of memory and of the free list only: what the operations on pages may change.\<close>

definition mem_only :: "'a kmem_scheme \<Rightarrow> 'a kmem_scheme \<Rightarrow> bool" where
  "mem_only s t \<longleftrightarrow> (\<exists>m l. t = s\<lparr>mem := m, freelist := l\<rparr>)"

lemma mem_only_refl [simp]: "mem_only s s"
proof -
  have "s = s\<lparr>mem := mem s, freelist := freelist s\<rparr>" by simp
  then show ?thesis unfolding mem_only_def by blast
qed

lemma mem_only_trans: "mem_only s t \<Longrightarrow> mem_only t u \<Longrightarrow> mem_only s u"
proof -
  assume "mem_only s t" "mem_only t u"
  then obtain m l m' l' where "t = s\<lparr>mem := m, freelist := l\<rparr>" "u = t\<lparr>mem := m', freelist := l'\<rparr>"
    unfolding mem_only_def by blast
  then have "u = s\<lparr>mem := m', freelist := l'\<rparr>" by simp
  then show "mem_only s u" unfolding mem_only_def by blast
qed

lemma mem_only_upd [simp]:
  "mem_only s (s\<lparr>mem := m\<rparr>)" "mem_only s (s\<lparr>freelist := l, mem := m\<rparr>)"
  "mem_only s (s\<lparr>mem := m, freelist := l\<rparr>)"
proof -
  have "s\<lparr>mem := m\<rparr> = s\<lparr>mem := m, freelist := freelist s\<rparr>"
    "s\<lparr>freelist := l, mem := m\<rparr> = s\<lparr>mem := m, freelist := l\<rparr>" by simp_all
  then show "mem_only s (s\<lparr>mem := m\<rparr>)" "mem_only s (s\<lparr>freelist := l, mem := m\<rparr>)"
    "mem_only s (s\<lparr>mem := m, freelist := l\<rparr>)"
    unfolding mem_only_def by blast+
qed

lemma mem_only_same:
  "mem_only s t \<Longrightarrow> kend t = kend s" "mem_only s t \<Longrightarrow> held t = held s"
  "mem_only s t \<Longrightarrow> kmem.more t = kmem.more s"
  by (auto simp: mem_only_def)

subsection \<open>The free list and its invariant\<close>

primrec free_list :: "memory \<Rightarrow> u64 \<Rightarrow> u64 list \<Rightarrow> bool" where
  "free_list m a [] = (a = 0)"
| "free_list m a (p # ps) = (a = p \<and> p \<noteq> 0 \<and> free_list m (ld64 m p) ps)"

text \<open>A page that \<open>kfree\<close> accepts.\<close>

definition ram_page :: "'a machine_scheme \<Rightarrow> u64 \<Rightarrow> bool" where
  "ram_page s p \<longleftrightarrow> page_aligned p \<and> p \<noteq> 0 \<and> kend s \<le> p \<and> p < PHYSTOP"

definition kmem_pages :: "'a kmem_scheme \<Rightarrow> u64 list \<Rightarrow> bool" where
  "kmem_pages s ps \<longleftrightarrow> free_list (mem s) (freelist s) ps \<and> distinct ps \<and>
     (\<forall>p\<in>set ps. ram_page s p) \<and> L_kmem \<notin> set (held s)"

definition kmem_inv :: "'a kmem_scheme \<Rightarrow> bool" where
  "kmem_inv s \<longleftrightarrow> (\<exists>ps. kmem_pages s ps)"

definition kmem_free :: "'a kmem_scheme \<Rightarrow> u64 set" where
  "kmem_free s = {p. \<exists>ps. free_list (mem s) (freelist s) ps \<and> p \<in> set ps}"

lemma free_list_unique: "free_list m a ps \<Longrightarrow> free_list m a qs \<Longrightarrow> ps = qs"
proof (induction ps arbitrary: a qs)
  case Nil
  then show ?case by (cases qs) auto
next
  case (Cons p ps)
  then show ?case by (cases qs) auto
qed

lemma kmem_free_eq: "kmem_pages s ps \<Longrightarrow> kmem_free s = set ps"
  by (auto simp: kmem_free_def kmem_pages_def dest: free_list_unique)

lemma free_list_cong:
  "(\<And>p. p \<in> set ps \<Longrightarrow> ld64 m' p = ld64 m p) \<Longrightarrow> free_list m' a ps = free_list m a ps"
  by (induction ps arbitrary: a) auto

lemma ram_page_pageno_eqI:
  "ram_page s p \<Longrightarrow> ram_page s q \<Longrightarrow> pageno p = pageno q \<Longrightarrow> p = q"
  by (auto simp: ram_page_def intro: page_aligned_eqI)

lemma ram_page_pageno_neq:
  "ram_page s p \<Longrightarrow> p \<notin> set ps \<Longrightarrow> \<forall>q\<in>set ps. ram_page s q \<Longrightarrow> q \<in> set ps \<Longrightarrow> pageno q \<noteq> pageno p"
  using ram_page_pageno_eqI by metis

text \<open>A write outside the free pages keeps the list: what every other component relies on.\<close>

lemma free_list_frame:
  assumes "\<forall>p\<in>set ps. ram_page s p"
    and "\<And>x p. p \<in> set ps \<Longrightarrow> pageno x = pageno p \<Longrightarrow> m' x = m x"
  shows "free_list m' a ps = free_list m a ps"
  by (rule free_list_cong, rule ld64_page_cong)
    (use assms in \<open>auto simp: ram_page_def page_aligned_aligned8\<close>)

lemma kmem_pages_frame:
  assumes "kmem_pages s ps"
    and "\<And>x p. p \<in> set ps \<Longrightarrow> pageno x = pageno p \<Longrightarrow> mem t x = mem s x"
    and "freelist t = freelist s" and "held t = held s" and "kend t = kend s"
  shows "kmem_pages t ps"
proof -
  have "\<forall>p\<in>set ps. ram_page s p" using assms(1) by (simp add: kmem_pages_def)
  then show ?thesis
    using assms free_list_frame [of ps s "mem t" "mem s" "freelist s"]
    by (simp add: kmem_pages_def ram_page_def)
qed

lemma mod_PGSIZE_iff: "pa mod (PGSIZE :: u64) = 0 \<longleftrightarrow> page_aligned pa"
proof -
  have "pa mod (PGSIZE :: u64) = 0 \<longleftrightarrow> unat (pa mod (PGSIZE :: u64)) = 0"
    by (simp add: unat_eq_zero)
  then show ?thesis by (simp add: unat_mod dvd_eq_mod_eq_0)
qed

subsection \<open>What \<open>kalloc\<close> and \<open>kfree\<close> do\<close>

lemma kalloc_empty:
  assumes "kmem_pages s []"
  shows "kalloc s = Ok 0 s"
  using assms by (simp add: kalloc_def kmem_pages_def)

lemma kalloc_Cons:
  assumes "kmem_pages s (p # ps)"
  shows "kalloc s = Ok p (s\<lparr>freelist := ld64 (mem s) p, mem := memset (mem s) p 5 4096\<rparr>)"
    and "kmem_pages (s\<lparr>freelist := ld64 (mem s) p, mem := memset (mem s) p 5 4096\<rparr>) ps"
proof -
  have p: "freelist s = p" "p \<noteq> 0" "ram_page s p" "L_kmem \<notin> set (held s)"
    and ps: "free_list (mem s) (ld64 (mem s) p) ps" "distinct ps" "p \<notin> set ps"
      "\<forall>q\<in>set ps. ram_page s q"
    using assms by (auto simp: kmem_pages_def)
  show "kalloc s = Ok p (s\<lparr>freelist := ld64 (mem s) p, mem := memset (mem s) p 5 4096\<rparr>)"
    using p by (simp add: kalloc_def)
  have "free_list (memset (mem s) p 5 4096) a ps = free_list (mem s) a ps" for a
    using p(3) ps(4) ram_page_pageno_neq [OF p(3) ps(3,4)]
    by (intro free_list_frame [of ps s]) (simp_all add: memset_page_apply ram_page_def)
  then show "kmem_pages (s\<lparr>freelist := ld64 (mem s) p, mem := memset (mem s) p 5 4096\<rparr>) ps"
    using p ps by (simp add: kmem_pages_def ram_page_def)
qed

lemma kfree_Ok:
  assumes s: "kmem_pages s ps" and p: "ram_page s p" "p \<notin> set ps"
  defines "m \<equiv> st64 (memset (mem s) p 1 4096) p (freelist s)"
  shows "kfree p s = Ok () (s\<lparr>mem := m, freelist := p\<rparr>)"
    and "kmem_pages (s\<lparr>mem := m, freelist := p\<rparr>) (p # ps)"
proof -
  have a: "page_aligned p" "\<not> p < kend s" "p < PHYSTOP" "p \<noteq> 0"
    using p(1) by (auto simp: ram_page_def)
  have l: "L_kmem \<notin> set (held s)" using s by (simp add: kmem_pages_def)
  show "kfree p s = Ok () (s\<lparr>mem := m, freelist := p\<rparr>)"
    using a l by (simp add: kfree_def mod_PGSIZE_iff m_def)
  have r: "\<forall>q\<in>set ps. ram_page s q" using s by (simp add: kmem_pages_def)
  have "free_list m a ps = free_list (mem s) a ps" for a
    using a(1) r ram_page_pageno_neq [OF p r]
    by (intro free_list_frame [of ps s])
      (simp_all add: m_def memset_page_apply st64_other_page page_aligned_aligned8)
  then show "kmem_pages (s\<lparr>mem := m, freelist := p\<rparr>) (p # ps)"
    using s p a by (auto simp: kmem_pages_def ram_page_def m_def)
qed

lemma kfree_panics:
  "\<not> page_aligned p \<or> p < kend s \<or> PHYSTOP \<le> p \<Longrightarrow> kfree p s = Panic ''kfree''"
  by (auto simp: kfree_def mod_PGSIZE_iff)

definition kalloc_opt :: "'a kmem_scheme \<Rightarrow> ('a kmem_scheme, u64 option) res" where
  "kalloc_opt s = kbind (kalloc s) (\<lambda>r s. Ok (if r = 0 then None else Some r) s)"

interpretation pages: free_pool kmem_inv kmem_free ram_page kalloc_opt kfree
proof (unfold_locales, goal_cases)
  case (1 s)
  then show ?case
    by (auto simp: kmem_inv_def kalloc_opt_def kmem_free_eq kalloc_empty)
next
  case (2 s)
  then obtain p ps where ps: "kmem_pages s (p # ps)"
    by (metis kmem_inv_def kmem_free_eq list.exhaust list.set(1))
  note k = kalloc_Cons [OF ps]
  have "p \<noteq> 0" "p \<notin> set ps" using ps by (auto simp: kmem_pages_def)
  then show ?case
    using k kmem_free_eq [OF ps] kmem_free_eq [OF k(2)]
    by (auto simp: kalloc_opt_def kmem_inv_def ram_page_def fun_eq_iff)
next
  case (3 s p)
  then obtain ps where ps: "kmem_pages s ps" by (auto simp: kmem_inv_def)
  with 3 have "p \<notin> set ps" by (simp add: kmem_free_eq)
  note k = kfree_Ok [OF ps 3(2) this]
  then show ?case
    using kmem_free_eq [OF ps] kmem_free_eq [OF k(2)]
    by (auto simp: kmem_inv_def ram_page_def fun_eq_iff)
qed

subsection \<open>Boot: \<open>kinit\<close> puts every page between \<open>end\<close> and \<open>PHYSTOP\<close> on the list\<close>

definition pages_between :: "u64 \<Rightarrow> u64 \<Rightarrow> u64 set" where
  "pages_between a b = {q. page_aligned q \<and> a \<le> q \<and> q < b}"

lemma unat_add_PGSIZE: "p \<le> PHYSTOP \<Longrightarrow> unat (p + PGSIZE) = unat p + 4096"
  using unat_add_small [of p 4096] by (simp add: word_le_nat_alt)

lemma pages_between_step:
  assumes "page_aligned p" and "p < PHYSTOP"
  shows "p + PGSIZE \<le> PHYSTOP" and "page_aligned (p + PGSIZE)"
    and "pages_between p PHYSTOP = insert p (pages_between (p + PGSIZE) PHYSTOP)"
proof -
  have u: "unat (p + PGSIZE) = unat p + 4096" using assms by (intro unat_add_PGSIZE) simp
  then show "page_aligned (p + PGSIZE)" using assms(1) by simp
  have "(0x88000000 :: nat) = 0x88000 * 4096" by simp
  then show "p + PGSIZE \<le> PHYSTOP"
    using assms u by (auto simp: word_le_nat_alt word_less_nat_alt elim!: dvdE)
  have "p \<le> q \<longleftrightarrow> q = p \<or> p + PGSIZE \<le> q" if "page_aligned q" for q
  proof -
    have "unat p \<le> unat q \<longleftrightarrow> unat q = unat p \<or> unat p + 4096 \<le> unat q"
      using that assms(1) by (auto elim!: dvdE)
    then show ?thesis by (simp only: word_le_nat_alt u word_unat_eq_iff)
  qed
  then show "pages_between p PHYSTOP = insert p (pages_between (p + PGSIZE) PHYSTOP)"
    using assms by (auto simp: pages_between_def)
qed

lemma freerange_loop_spec:
  assumes "kmem_pages s ps" and "page_aligned p" and "p \<noteq> 0" and "kend s \<le> p" and "p \<le> PHYSTOP"
    and "\<forall>q\<in>set ps. q < p"
  shows "\<exists>s' qs. freerange_loop p PHYSTOP s = Ok () s' \<and> kmem_pages s' qs \<and>
           set qs = set ps \<union> pages_between p PHYSTOP \<and> kend s' = kend s \<and> held s' = held s"
  using assms
proof (induction p "PHYSTOP :: u64" s arbitrary: ps rule: freerange_loop.induct)
  case (1 p s)
  show ?case
  proof (cases "p = PHYSTOP")
    case True
    then have "freerange_loop p PHYSTOP s = Ok () s" "pages_between p PHYSTOP = {}"
      by (auto simp: freerange_loop.simps [of PHYSTOP] pages_between_def)
    then show ?thesis using 1(2) by auto
  next
    case False
    then have lt: "p < PHYSTOP" using 1(6) by simp
    note st = pages_between_step [OF 1(3) lt]
    have up: "p < p + PGSIZE" using lt
      by (simp add: word_less_nat_alt [of p "p + PGSIZE"] unat_add_PGSIZE)
    have "ram_page s p" "p \<notin> set ps" using 1 lt by (auto simp: ram_page_def)
    note k = kfree_Ok [OF 1(2) this]
    define t where "t = s\<lparr>mem := st64 (memset (mem s) p 1 4096) p (freelist s), freelist := p\<rparr>"
    have t: "kfree p s = Ok () t" "kmem_pages t (p # ps)" "kend t = kend s" "held t = held s"
      using k by (simp_all add: t_def)
    have "\<exists>s' qs. freerange_loop (p + PGSIZE) PHYSTOP t = Ok () s' \<and> kmem_pages s' qs \<and>
           set qs = set (p # ps) \<union> pages_between (p + PGSIZE) PHYSTOP \<and> kend s' = kend t \<and>
           held s' = held t"
      using 1 up st(1,2) t by (intro 1(1)) (auto dest: less_trans)
    then show ?thesis using st t up
      by (auto simp: freerange_loop.simps [of p])
  qed
qed

lemma kinit_spec:
  assumes "freelist s = 0" and "L_kmem \<notin> set (held s)" and "0 < kend s" and "kend s \<le> PHYSTOP"
  shows "\<exists>s'. kinit s = Ok () s' \<and> kmem_inv s' \<and> held s' = held s \<and>
           kmem_free s' = {p. page_aligned p \<and> kend s \<le> p \<and> p < PHYSTOP}"
proof -
  let ?p = "PGROUNDUP (kend s)"
  have ke: "unat (kend s) \<le> 0x88000000" "0 < unat (kend s)"
    using assms by (simp_all add: word_le_nat_alt word_less_nat_alt)
  have u: "unat ?p = (unat (kend s) + 4095) div 4096 * 4096"
    using ke by (subst unat_PGROUNDUP) auto
  have le: "(unat (kend s) + 4095) div 4096 \<le> 0x88000" using ke by simp
  have p: "page_aligned ?p" "kend s \<le> ?p" "?p \<le> PHYSTOP" "?p \<noteq> 0"
    using ke le u by (auto simp: word_le_nat_alt simp flip: unat_eq_zero)
  have "kend s \<le> q \<longleftrightarrow> ?p \<le> q" if "page_aligned q" for q
    unfolding word_le_nat_alt u using that by (auto elim!: dvdE)
  then have "pages_between ?p PHYSTOP = {p. page_aligned p \<and> kend s \<le> p \<and> p < PHYSTOP}"
    by (auto simp: pages_between_def)
  moreover have "kmem_pages s []" using assms by (simp add: kmem_pages_def)
  then obtain s' qs where "freerange_loop ?p PHYSTOP s = Ok () s'" "kmem_pages s' qs"
    "set qs = pages_between ?p PHYSTOP" "held s' = held s"
    using freerange_loop_spec [OF _ p(1,4,2,3)] by fastforce
  ultimately show ?thesis
    using kmem_free_eq [of s' qs] by (auto simp: kinit_def freerange_def kmem_inv_def)
qed

subsection \<open>Properties\<close>

text \<open>C5: The page allocator implements a set of free pages. While the set is empty \<open>kalloc\<close>
  returns 0 and changes nothing; otherwise it returns one of the free pages, takes exactly that
  page out of the set, and writes no byte outside it, so a page is never handed out twice.\<close>

theorem kalloc_refines_pool:
  assumes "kmem_inv s"
  shows "if kmem_free s = {} then kalloc s = Ok 0 s
         else \<exists>p s'. kalloc s = Ok p s' \<and> p \<in> kmem_free s \<and> ram_page s p \<and> kmem_inv s' \<and>
                kmem_free s' = kmem_free s - {p} \<and> held s' = held s \<and>
                (\<forall>x. pageno x \<noteq> pageno p \<longrightarrow> mem s' x = mem s x)"
proof -
  obtain ps where ps: "kmem_pages s ps" using assms by (auto simp: kmem_inv_def)
  show ?thesis
  proof (cases ps)
    case Nil
    then show ?thesis using ps kalloc_empty kmem_free_eq [OF ps] by simp
  next
    case (Cons p qs)
    note k = kalloc_Cons [OF ps [unfolded Cons]]
    have "ram_page s p" "p \<notin> set qs" using ps Cons by (auto simp: kmem_pages_def)
    then show ?thesis
      using k kmem_free_eq [OF ps] kmem_free_eq [OF k(2)] Cons
      by (auto simp: kmem_inv_def memset_page_apply ram_page_def)
  qed
qed

definition kmem_one :: kmem where
  "kmem_one = \<lparr>mem = (\<lambda>_. 0), kend = 0x80001000, held = [], uart_out = [], freelist = 0x80002000\<rparr>"

lemma ld64_zero_mem [simp]: "ld64 (\<lambda>_. 0) a = 0"
proof -
  have "load_bytes (\<lambda>_. 0) a 8 = replicate 8 0"
    by (rule nth_equalityI) (simp_all add: load_bytes_def)
  then show ?thesis by (simp only: ld64_def le_word_zeros)
qed

lemma kmem_one: "kmem_pages kmem_one [0x80002000]"
  by (simp add: kmem_pages_def kmem_one_def ram_page_def)

theorem kalloc_refines_pool_witness:
  "kmem_inv kmem_one \<and> kmem_free kmem_one = {0x80002000} \<and>
   (\<exists>s'. kalloc kmem_one = Ok 0x80002000 s' \<and> kmem_inv s' \<and> kmem_free s' = {})"
proof -
  have i: "kmem_inv kmem_one" using kmem_one by (auto simp: kmem_inv_def)
  then show ?thesis using kalloc_refines_pool [OF i] kmem_free_eq [OF kmem_one] by auto
qed

text \<open>C6: \<open>kfree\<close> panics on an address that is not a page of allocatable memory; on a page that
  is not free it puts exactly that page back, writes no byte outside it and keeps the free
  list well formed, whatever the page held.\<close>

theorem kfree_refines_pool:
  assumes "kmem_inv s"
  shows "(\<not> page_aligned p \<or> p < kend s \<or> PHYSTOP \<le> p \<longrightarrow> kfree p s = Panic ''kfree'') \<and>
         (ram_page s p \<and> p \<notin> kmem_free s \<longrightarrow>
           (\<exists>s'. kfree p s = Ok () s' \<and> kmem_inv s' \<and> kmem_free s' = insert p (kmem_free s) \<and>
              held s' = held s \<and> (\<forall>x. pageno x \<noteq> pageno p \<longrightarrow> mem s' x = mem s x)))"
proof -
  obtain ps where ps: "kmem_pages s ps" using assms by (auto simp: kmem_inv_def)
  have "\<exists>s'. kfree p s = Ok () s' \<and> kmem_inv s' \<and> kmem_free s' = insert p (kmem_free s) \<and>
              held s' = held s \<and> (\<forall>x. pageno x \<noteq> pageno p \<longrightarrow> mem s' x = mem s x)"
    if "ram_page s p" "p \<notin> kmem_free s"
  proof -
    have "p \<notin> set ps" using that kmem_free_eq [OF ps] by simp
    note k = kfree_Ok [OF ps that(1) this]
    show ?thesis
      using k that(1) kmem_free_eq [OF ps] kmem_free_eq [OF k(2)]
      by (auto simp: kmem_inv_def st64_other_page memset_page_apply ram_page_def
          page_aligned_aligned8)
  qed
  then show ?thesis using kfree_panics by auto
qed

theorem kfree_refines_pool_witness:
  "kmem_inv kmem_one \<and> kfree 0x80002008 kmem_one = Panic ''kfree'' \<and>
   (\<exists>s'. kfree 0x80003000 kmem_one = Ok () s' \<and> kmem_inv s' \<and>
      kmem_free s' = {0x80003000, 0x80002000})"
proof -
  have i: "kmem_inv kmem_one" using kmem_one by (auto simp: kmem_inv_def)
  have "ram_page kmem_one 0x80003000" by (simp add: ram_page_def kmem_one_def)
  then show ?thesis
    using kfree_refines_pool [OF i, of "0x80002008"] kfree_refines_pool [OF i, of "0x80003000"]
      i kmem_free_eq [OF kmem_one]
    by auto
qed

text \<open>C31: The boot-time initialisation \<open>kinit\<close> terminates without a panic and leaves on the free
  list exactly the pages that lie between the end of the kernel image and \<open>PHYSTOP\<close>.\<close>

theorem kinit_frees_all_ram:
  assumes "freelist s = 0" and "L_kmem \<notin> set (held s)" and "0 < kend s" and "kend s \<le> PHYSTOP"
  shows "\<exists>s'. kinit s = Ok () s' \<and> kmem_inv s' \<and> held s' = held s \<and>
           kmem_free s' = {p. page_aligned p \<and> kend s \<le> p \<and> p < PHYSTOP}"
  by (rule kinit_spec [OF assms])

theorem kinit_frees_all_ram_witness:
  "\<exists>s'. kinit (\<lparr>mem = (\<lambda>_. 0), kend = 0x80021a10, held = [], uart_out = [], freelist = 0\<rparr> :: kmem) = Ok () s' \<and>
     kmem_inv s' \<and> 0x80022000 \<in> kmem_free s' \<and> 0x80021000 \<notin> kmem_free s'"
proof -
  define s :: kmem where "s = \<lparr>mem = (\<lambda>_. 0), kend = 0x80021a10, held = [], uart_out = [], freelist = 0\<rparr>"
  have "\<exists>s'. kinit s = Ok () s' \<and> kmem_inv s' \<and> held s' = held s \<and>
           kmem_free s' = {p. page_aligned p \<and> kend s \<le> p \<and> p < PHYSTOP}"
    by (rule kinit_frees_all_ram) (simp_all add: s_def)
  then show ?thesis by (auto simp: s_def)
qed

end
