(* ===== verification/Pagetable.thy ===== *)
theory Pagetable
  imports Kalloc
begin

text \<open>
  Sv39 page tables (the first part of \<open>kernel/vm.c\<close>): \<open>walk\<close>, \<open>mappages\<close>, \<open>uvmunmap\<close>,
  \<open>uvmalloc\<close>, \<open>uvmdealloc\<close>, \<open>uvmcopy\<close>, \<open>freewalk\<close>, \<open>uvmfree\<close> and the kernel's own table. Page-table
  pages are pages of the modelled memory, read and written as 64-bit little-endian words.

  The view of a table is twofold. \<open>pt_node m r p\<close> is the page reached from the root \<open>r\<close> along the
  list of indices \<open>p\<close>: as a partial map from paths to pages, it is what \<open>walk\<close> extends by one entry
  at a time. \<open>pte_of m r va\<close> is the leaf entry of \<open>va\<close>, 0 where there is none: the abstract
  mapping, on which each operation is a point-wise update.
\<close>

subsection \<open>The format of entries and virtual addresses\<close>

abbreviation (input) PTE_V :: u64 where "PTE_V \<equiv> 1"
abbreviation (input) PTE_R :: u64 where "PTE_R \<equiv> 2"
abbreviation (input) PTE_W :: u64 where "PTE_W \<equiv> 4"
abbreviation (input) PTE_X :: u64 where "PTE_X \<equiv> 8"
abbreviation (input) PTE_U :: u64 where "PTE_U \<equiv> 16"
abbreviation (input) PTE_D :: u64 where "PTE_D \<equiv> 128"

definition PA2PTE :: "u64 \<Rightarrow> u64" where
  "PA2PTE pa = push_bit 10 (drop_bit 12 pa)"

definition PTE2PA :: "u64 \<Rightarrow> u64" where
  "PTE2PA pte = push_bit 12 (drop_bit 10 pte)"

definition PTE_FLAGS :: "u64 \<Rightarrow> u64" where
  "PTE_FLAGS pte = pte AND 0x3FF"

definition PX :: "nat \<Rightarrow> u64 \<Rightarrow> u64" where
  "PX level va = drop_bit (12 + 9 * level) va AND 0x1FF"

subsection \<open>Walking and changing a table\<close>

text \<open>The loop of \<open>walk\<close> with \<open>level\<close> levels to descend; \<open>alloc\<close> creates missing tables.\<close>

fun walk_loop :: "nat \<Rightarrow> u64 \<Rightarrow> u64 \<Rightarrow> bool \<Rightarrow> 'a kmem_scheme \<Rightarrow> ('a kmem_scheme, u64) res" where
  "walk_loop 0 pagetable va alloc s = Ok (pagetable + 8 * PX 0 va) s"
| "walk_loop (Suc l) pagetable va alloc s =
     (let pte = pagetable + 8 * PX (Suc l) va;
          e = ld64 (mem s) pte in
      if e AND PTE_V \<noteq> 0 then walk_loop l (PTE2PA e) va alloc s
      else if \<not> alloc then Ok 0 s
      else kbind (kalloc s) (\<lambda>pagetable s.
        if pagetable = 0 then Ok 0 s
        else
          let s = s\<lparr>mem := memset (mem s) pagetable 0 4096\<rparr>;
              s = s\<lparr>mem := st64 (mem s) pte (PA2PTE pagetable OR PTE_V)\<rparr> in
          walk_loop l pagetable va alloc s))"

definition walk :: "u64 \<Rightarrow> u64 \<Rightarrow> bool \<Rightarrow> 'a kmem_scheme \<Rightarrow> ('a kmem_scheme, u64) res" where
  "walk pagetable va alloc s =
     (if va \<ge> MAXVA then Panic ''walk'' else walk_loop 2 pagetable va alloc s)"

definition walkaddr :: "u64 \<Rightarrow> u64 \<Rightarrow> 'a kmem_scheme \<Rightarrow> ('a kmem_scheme, u64) res" where
  "walkaddr pagetable va s =
     (if va \<ge> MAXVA then Ok 0 s
      else kbind (walk pagetable va False s) (\<lambda>pte s.
        if pte = 0 then Ok 0 s
        else
          let e = ld64 (mem s) pte in
          if e AND PTE_V = 0 then Ok 0 s
          else if e AND PTE_U = 0 then Ok 0 s
          else Ok (PTE2PA e) s))"

definition ismapped :: "u64 \<Rightarrow> u64 \<Rightarrow> 'a kmem_scheme \<Rightarrow> ('a kmem_scheme, bool) res" where
  "ismapped pagetable va s =
     kbind (walk pagetable va False s) (\<lambda>pte s.
       if pte = 0 then Ok False s
       else Ok (ld64 (mem s) pte AND PTE_V \<noteq> 0) s)"

lemma walk_Ok_lt: "walk pagetable va alloc s = Ok pte s' \<Longrightarrow> va < MAXVA"
  by (auto simp: walk_def not_le split: if_splits)

lemma page_step_measure:
  "a < (MAXVA :: u64) \<Longrightarrow> 2 ^ 39 - unat (a + PGSIZE) < (2 ^ 39 - unat a :: nat)"
  using unat_add_small [of a 4096] by (simp add: word_less_nat_alt)

text \<open>The loop of \<open>mappages\<close>: 0 on success, -1 when \<open>walk\<close> cannot allocate.\<close>

function mappages_loop ::
  "u64 \<Rightarrow> u64 \<Rightarrow> u64 \<Rightarrow> u64 \<Rightarrow> u64 \<Rightarrow> 'a kmem_scheme \<Rightarrow> ('a kmem_scheme, int) res" where
  "mappages_loop pagetable a lst pa perm s =
     kbind (walk pagetable a True s) (\<lambda>pte s.
       if pte = 0 then Ok (-1) s
       else if ld64 (mem s) pte AND PTE_V \<noteq> 0 then Panic ''mappages: remap''
       else
         let s = s\<lparr>mem := st64 (mem s) pte (PA2PTE pa OR perm OR PTE_V)\<rparr> in
         if a = lst then Ok 0 s
         else mappages_loop pagetable (a + PGSIZE) lst (pa + PGSIZE) perm s)"
  by pat_completeness auto
termination
  by (relation "measure (\<lambda>(pt, a, lst, pa, perm, s). 2 ^ 39 - unat a)")
    (auto dest!: walk_Ok_lt simp del: power_numeral intro: page_step_measure)

definition mappages ::
  "u64 \<Rightarrow> u64 \<Rightarrow> u64 \<Rightarrow> u64 \<Rightarrow> u64 \<Rightarrow> 'a kmem_scheme \<Rightarrow> ('a kmem_scheme, int) res" where
  "mappages pagetable va sz pa perm s =
     (if va mod PGSIZE \<noteq> 0 then Panic ''mappages: va not aligned''
      else if sz mod PGSIZE \<noteq> 0 then Panic ''mappages: size not aligned''
      else if sz = 0 then Panic ''mappages: size''
      else mappages_loop pagetable va (va + sz - PGSIZE) pa perm s)"

definition uvmcreate :: "'a kmem_scheme \<Rightarrow> ('a kmem_scheme, u64) res" where
  "uvmcreate s =
     kbind (kalloc s) (\<lambda>pagetable s.
       if pagetable = 0 then Ok 0 s
       else Ok pagetable (s\<lparr>mem := memset (mem s) pagetable 0 4096\<rparr>))"

function uvmunmap_loop ::
  "u64 \<Rightarrow> u64 \<Rightarrow> u64 \<Rightarrow> bool \<Rightarrow> 'a kmem_scheme \<Rightarrow> ('a kmem_scheme, unit) res" where
  "uvmunmap_loop pagetable a lim do_free s =
     (if a < lim then
        kbind (walk pagetable a False s) (\<lambda>pte s.
          if pte = 0 then uvmunmap_loop pagetable (a + PGSIZE) lim do_free s
          else
            let e = ld64 (mem s) pte in
            if e AND PTE_V = 0 then uvmunmap_loop pagetable (a + PGSIZE) lim do_free s
            else
              kbind (if do_free then kfree (PTE2PA e) s else Ok () s) (\<lambda>_ s.
              let s = s\<lparr>mem := st64 (mem s) pte 0\<rparr> in
              uvmunmap_loop pagetable (a + PGSIZE) lim do_free s))
      else Ok () s)"
  by pat_completeness auto
termination
  by (relation "measure (\<lambda>(pt, a, lim, do_free, s). 2 ^ 39 - unat a)")
    (auto dest!: walk_Ok_lt simp del: power_numeral intro: page_step_measure)

definition uvmunmap ::
  "u64 \<Rightarrow> u64 \<Rightarrow> u64 \<Rightarrow> bool \<Rightarrow> 'a kmem_scheme \<Rightarrow> ('a kmem_scheme, unit) res" where
  "uvmunmap pagetable va npages do_free s =
     (if va mod PGSIZE \<noteq> 0 then Panic ''uvmunmap: not aligned''
      else uvmunmap_loop pagetable va (va + npages * PGSIZE) do_free s)"

text \<open>\<open>int npages\<close> keeps the low 32 bits of the count, sign-extended when it is passed on.\<close>

definition uvmdealloc :: "u64 \<Rightarrow> u64 \<Rightarrow> u64 \<Rightarrow> 'a kmem_scheme \<Rightarrow> ('a kmem_scheme, u64) res" where
  "uvmdealloc pagetable oldsz newsz s =
     (if newsz \<ge> oldsz then Ok oldsz s
      else if PGROUNDUP newsz < PGROUNDUP oldsz then
        let npages = ucast ((PGROUNDUP oldsz - PGROUNDUP newsz) div PGSIZE) :: u32 in
        kbind (uvmunmap pagetable (PGROUNDUP newsz) (scast npages) True s) (\<lambda>_ s. Ok newsz s)
      else Ok newsz s)"

declare mappages_loop.simps [simp del] uvmunmap_loop.simps [simp del]

lemma mappages_Ok_lt:
  assumes "mappages pagetable va sz pa perm s = Ok r s'"
  shows "va < MAXVA"
  using assms
  by (auto simp: mappages_def mappages_loop.simps [of _ va] kbind_Ok_iff dest: walk_Ok_lt
      split: if_splits)

text \<open>The loop of \<open>uvmalloc\<close> from page \<open>a\<close>; \<open>oldsz\<close> is already rounded up.\<close>

function uvmalloc_loop ::
  "u64 \<Rightarrow> u64 \<Rightarrow> u64 \<Rightarrow> u64 \<Rightarrow> u64 \<Rightarrow> 'a kmem_scheme \<Rightarrow> ('a kmem_scheme, u64) res" where
  "uvmalloc_loop pagetable oldsz newsz xperm a s =
     (if a < newsz then
        kbind (kalloc s) (\<lambda>pa s.
          if pa = 0 then kbind (uvmdealloc pagetable a oldsz s) (\<lambda>_ s. Ok 0 s)
          else
            let s = s\<lparr>mem := memset (mem s) pa 0 4096\<rparr> in
            kbind (mappages pagetable a PGSIZE pa (PTE_R OR PTE_U OR xperm) s) (\<lambda>r s.
            if r \<noteq> 0 then
              kbind (kfree pa s) (\<lambda>_ s.
              kbind (uvmdealloc pagetable a oldsz s) (\<lambda>_ s. Ok 0 s))
            else uvmalloc_loop pagetable oldsz newsz xperm (a + PGSIZE) s))
      else Ok newsz s)"
  by pat_completeness auto
termination
  by (relation "measure (\<lambda>(pt, oldsz, newsz, xperm, a, s). 2 ^ 39 - unat a)")
    (auto dest!: mappages_Ok_lt simp del: power_numeral intro: page_step_measure)

definition uvmalloc ::
  "u64 \<Rightarrow> u64 \<Rightarrow> u64 \<Rightarrow> u64 \<Rightarrow> 'a kmem_scheme \<Rightarrow> ('a kmem_scheme, u64) res" where
  "uvmalloc pagetable oldsz newsz xperm s =
     (if newsz < oldsz then Ok oldsz s
      else let oldsz = PGROUNDUP oldsz in uvmalloc_loop pagetable oldsz newsz xperm oldsz s)"

text \<open>
  \<open>freewalk\<close> recurses into every entry that is valid and has none of R, W and X. \<open>depth\<close> bounds
  the recursion, the kernel stack in the code: running out of it is undefined. A table of Sv39
  has three levels, so the calls below pass 3.
\<close>

definition freewalk_entry ::
  "(u64 \<Rightarrow> 'a kmem_scheme \<Rightarrow> ('a kmem_scheme, unit) res) \<Rightarrow> u64 \<Rightarrow> nat \<Rightarrow> 'a kmem_scheme \<Rightarrow>
   ('a kmem_scheme, unit) res" where
  "freewalk_entry rec pagetable i s =
     (let pte = ld64 (mem s) (pagetable + 8 * of_nat i) in
      if pte AND PTE_V \<noteq> 0 \<and> pte AND (PTE_R OR PTE_W OR PTE_X) = 0 then
        kbind (rec (PTE2PA pte) s) (\<lambda>_ s.
        Ok () (s\<lparr>mem := st64 (mem s) (pagetable + 8 * of_nat i) 0\<rparr>))
      else if pte AND PTE_V \<noteq> 0 then Panic ''freewalk: leaf''
      else Ok () s)"

fun freewalk_loop ::
  "(u64 \<Rightarrow> 'a kmem_scheme \<Rightarrow> ('a kmem_scheme, unit) res) \<Rightarrow> u64 \<Rightarrow> nat list \<Rightarrow> 'a kmem_scheme \<Rightarrow>
   ('a kmem_scheme, unit) res" where
  "freewalk_loop rec pagetable [] s = Ok () s"
| "freewalk_loop rec pagetable (i # is) s =
     kbind (freewalk_entry rec pagetable i s) (\<lambda>_ s. freewalk_loop rec pagetable is s)"

fun freewalk :: "nat \<Rightarrow> u64 \<Rightarrow> 'a kmem_scheme \<Rightarrow> ('a kmem_scheme, unit) res" where
  "freewalk 0 pagetable s = UB"
| "freewalk (Suc depth) pagetable s =
     kbind (freewalk_loop (freewalk depth) pagetable [0..<512] s) (\<lambda>_ s. kfree pagetable s)"

definition uvmfree :: "u64 \<Rightarrow> u64 \<Rightarrow> 'a kmem_scheme \<Rightarrow> ('a kmem_scheme, unit) res" where
  "uvmfree pagetable sz s =
     kbind (if sz > 0 then uvmunmap pagetable 0 (PGROUNDUP sz div PGSIZE) True s else Ok () s)
       (\<lambda>_ s. freewalk 3 pagetable s)"

text \<open>\<open>uvmcopy\<close> from page \<open>i\<close>; its \<open>err\<close> label unmaps what was copied so far.\<close>

definition uvmcopy_err :: "u64 \<Rightarrow> u64 \<Rightarrow> 'a kmem_scheme \<Rightarrow> ('a kmem_scheme, int) res" where
  "uvmcopy_err new i s = kbind (uvmunmap new 0 (i div PGSIZE) True s) (\<lambda>_ s. Ok (-1) s)"

function uvmcopy_loop ::
  "u64 \<Rightarrow> u64 \<Rightarrow> u64 \<Rightarrow> u64 \<Rightarrow> 'a kmem_scheme \<Rightarrow> ('a kmem_scheme, int) res" where
  "uvmcopy_loop old new sz i s =
     (if i < sz then
        kbind (walk old i False s) (\<lambda>pte s.
        if pte = 0 then uvmcopy_loop old new sz (i + PGSIZE) s
        else
          let e = ld64 (mem s) pte in
          if e AND PTE_V = 0 then uvmcopy_loop old new sz (i + PGSIZE) s
          else
            let pa = PTE2PA e; flags = PTE_FLAGS e in
            kbind (kalloc s) (\<lambda>page s.
            if page = 0 then uvmcopy_err new i s
            else
              let s = s\<lparr>mem := memmove (mem s) page pa 4096\<rparr> in
              kbind (mappages new i PGSIZE page flags s) (\<lambda>r s.
              if r \<noteq> 0 then kbind (kfree page s) (\<lambda>_ s. uvmcopy_err new i s)
              else uvmcopy_loop old new sz (i + PGSIZE) s)))
      else Ok 0 s)"
  by pat_completeness auto
termination
  by (relation "measure (\<lambda>(old, new, sz, i, s). 2 ^ 39 - unat i)")
    (auto dest!: walk_Ok_lt simp del: power_numeral intro: page_step_measure)

definition uvmcopy :: "u64 \<Rightarrow> u64 \<Rightarrow> u64 \<Rightarrow> 'a kmem_scheme \<Rightarrow> ('a kmem_scheme, int) res" where
  "uvmcopy old new sz s = uvmcopy_loop old new sz 0 s"

definition uvmclear :: "u64 \<Rightarrow> u64 \<Rightarrow> 'a kmem_scheme \<Rightarrow> ('a kmem_scheme, unit) res" where
  "uvmclear pagetable va s =
     kbind (walk pagetable va False s) (\<lambda>pte s.
       if pte = 0 then Panic ''uvmclear''
       else Ok () (s\<lparr>mem := st64 (mem s) pte (ld64 (mem s) pte AND NOT PTE_U)\<rparr>))"

definition kvmmap ::
  "u64 \<Rightarrow> u64 \<Rightarrow> u64 \<Rightarrow> u64 \<Rightarrow> u64 \<Rightarrow> 'a kmem_scheme \<Rightarrow> ('a kmem_scheme, unit) res" where
  "kvmmap kpgtbl va pa sz perm s =
     kbind (mappages kpgtbl va sz pa perm s) (\<lambda>r s. if r \<noteq> 0 then Panic ''kvmmap'' else Ok () s)"

declare uvmalloc_loop.simps [simp del] uvmcopy_loop.simps [simp del]

subsection \<open>Facts about entries and indices\<close>

lemma bit_page_aligned: "page_aligned a \<Longrightarrow> n < 12 \<Longrightarrow> \<not> bit a n"
proof -
  assume a: "page_aligned a" "n < 12"
  then have "take_bit 12 (unat a) = 0" by (simp add: take_bit_eq_mod dvd_eq_mod_eq_0)
  then have "\<not> bit (take_bit 12 (unat a)) n" by simp
  with a(2) show ?thesis by (simp add: bit_take_bit_iff bit_unsigned_iff) 
qed

lemma bit_lt_2p: "unat (a :: u64) < 2 ^ k \<Longrightarrow> k \<le> n \<Longrightarrow> \<not> bit a n"
proof -
  assume "unat a < 2 ^ k" "k \<le> n"
  then have "take_bit k (unat a) = unat a" by (simp add: take_bit_nat_eq_self)
  with \<open>k \<le> n\<close> have "\<not> bit (unat a) n" by (metis bit_take_bit_iff not_less)
  then show ?thesis by (simp add: bit_unsigned_iff bit_imp_le_length)
qed

lemma PTE2PA_PA2PTE:
  assumes "page_aligned a" and "unat a < 2 ^ 56" and "unat f < 1024"
  shows "PTE2PA (PA2PTE a OR f) = a"
proof (rule bit_word_eqI)
  fix n
  assume n: "n < LENGTH(64)"
  have f: "\<not> bit f k" if "10 \<le> k" for k using bit_lt_2p [of f 10 k] assms(3) that by simp
  have a: "\<not> bit a k" if "k < 12 \<or> 56 \<le> k" for k
    using bit_page_aligned [OF assms(1), of k] bit_lt_2p [OF assms(2), of k] that by auto
  show "bit (PTE2PA (PA2PTE a OR f)) n = bit a n"
  proof (cases "n < 12 \<or> 56 \<le> n")
    case True
    then show ?thesis using a [OF True] a [of "n"] f [of "n - 2"]
      using n by (auto simp: PTE2PA_def PA2PTE_def bit_simps dest: bit_imp_le_length)
  next
    case False
    then have "10 \<le> n - 2" by auto
    then have "bit f (n - 2) = False" using f by simp
    with False n show ?thesis
      by (auto simp: PTE2PA_def PA2PTE_def bit_simps)
  qed
qed

lemma PTE2PA_aligned: "page_aligned (PTE2PA e)"
proof -
  have "unat (PTE2PA e) = take_bit 64 (push_bit 12 (unat (drop_bit 10 e)))"
    unfolding PTE2PA_def by (simp add: unsigned_push_bit_eq)
  then have "unat (PTE2PA e) = (4096 * unat (drop_bit 10 e)) mod (4096 * 2 ^ 52)"
    by (simp add: take_bit_eq_mod push_bit_eq_mult mult.commute)
  also have "\<dots> = 4096 * (unat (drop_bit 10 e) mod 2 ^ 52)"
    by (simp only: mult_mod_right)
  finally show ?thesis by simp
qed

lemma PTE_V_set: "(e OR PTE_V) AND PTE_V \<noteq> (0 :: u64)"
proof -
  have "bit ((e OR 1) AND (1 :: u64)) 0" by (simp add: bit_simps)
  then show ?thesis by (metis bit_0_eq bot_apply bot_bool_def)
qed

lemma unat_PX: "unat (PX l va) = unat va div 2 ^ (12 + 9 * l) mod 512"
proof -
  have "(0x1FF :: u64) = mask 9" by (simp add: mask_eq_exp_minus_1)
  then have "PX l va = take_bit 9 (drop_bit (12 + 9 * l) va)"
    by (simp only: PX_def take_bit_eq_mask)
  then show ?thesis
    by (simp only: unsigned_take_bit_eq unat_drop_bit_eq)
      (simp add: drop_bit_eq_div take_bit_eq_mod)
qed

definition px :: "nat \<Rightarrow> u64 \<Rightarrow> nat" where
  "px l va = unat (PX l va)"

lemma px_less [simp]: "px l va < 512"
  by (simp add: px_def unat_PX)

lemma of_nat_px [simp]: "of_nat (px l va) = PX l va"
  by (simp add: px_def)

lemma px2_less: "va < MAXVA \<Longrightarrow> px 2 va < 256"
  by (simp add: px_def unat_PX word_less_nat_alt)

lemma px_pageno:
  assumes "va < MAXVA"
  shows "px 0 va = pageno va mod 512" and "px 1 va = pageno va div 512 mod 512"
    and "px 2 va = pageno va div 512 div 512"
  using assms by (simp_all add: px_def unat_PX word_less_nat_alt pageno_def div_mult2_eq [symmetric])

lemma px_eq_iff:
  assumes "va < MAXVA" and "vb < MAXVA"
  shows "(px 2 va = px 2 vb \<and> px 1 va = px 1 vb \<and> px 0 va = px 0 vb) \<longleftrightarrow> pageno va = pageno vb"
  using px_pageno [OF assms(1)] px_pageno [OF assms(2)] by (metis mult_div_mod_eq)

subsection \<open>A table as a map from paths to pages\<close>

lemma entry_unat:
  assumes "page_aligned b" and "i < 512"
  shows "unat (b + 8 * of_nat i) = unat b + 8 * i"
proof -
  obtain k where k: "unat b = 4096 * k" using assms(1) by (auto elim: dvdE)
  then have "k < 2 ^ 52" using unat_u64_lt [of b] by simp
  then have "unat b + 8 * i < 2 ^ LENGTH(64)" using k assms(2) by simp
  from unat_add_small [OF this] show ?thesis by simp
qed

lemma entry_aligned8: "page_aligned b \<Longrightarrow> i < 512 \<Longrightarrow> aligned8 (b + 8 * of_nat i)"
  using page_aligned_aligned8 [of b] by (simp add: entry_unat)

lemma entry_pageno: "page_aligned b \<Longrightarrow> i < 512 \<Longrightarrow> pageno (b + 8 * of_nat i) = pageno b"
  by (auto simp: entry_unat pageno_def elim!: dvdE)

lemma entry_inj:
  assumes "page_aligned b" "i < 512" "page_aligned c" "j < 512"
  shows "b + 8 * of_nat i = c + 8 * of_nat j \<longleftrightarrow> b = c \<and> i = j"
proof
  assume e: "b + 8 * of_nat i = c + 8 * of_nat j"
  then have "pageno b = pageno c" using assms entry_pageno by metis
  then have "b = c" using assms page_aligned_eqI by blast
  moreover from this have "i = j" using e assms entry_unat by (metis add_left_cancel mult_left_cancel zero_neq_numeral)
  ultimately show "b = c \<and> i = j" by blast
qed simp

lemma entry_neq_0: "page_aligned b \<Longrightarrow> b \<noteq> 0 \<Longrightarrow> i < 512 \<Longrightarrow> b + 8 * of_nat i \<noteq> 0"
  using entry_inj [of b i 0 0] by simp

definition pt_child :: "memory \<Rightarrow> u64 \<Rightarrow> nat \<Rightarrow> u64 option" where
  "pt_child m b i =
     (let e = ld64 m (b + 8 * of_nat i) in if e AND PTE_V \<noteq> 0 then Some (PTE2PA e) else None)"

fun pt_node :: "memory \<Rightarrow> u64 \<Rightarrow> nat list \<Rightarrow> u64 option" where
  "pt_node m b [] = Some b"
| "pt_node m b (i # p) = (case pt_child m b i of None \<Rightarrow> None | Some c \<Rightarrow> pt_node m c p)"

lemma pt_node_snoc:
  "pt_node m b (p @ [i]) = (case pt_node m b p of None \<Rightarrow> None | Some c \<Rightarrow> pt_child m c i)"
  by (induction p arbitrary: b) (auto split: option.splits)

lemma pt_node_append:
  "pt_node m b (p @ q) = (case pt_node m b p of None \<Rightarrow> None | Some c \<Rightarrow> pt_node m c q)"
  by (induction p arbitrary: b) (auto split: option.splits)

text \<open>The paths of page-table pages: at most two indices, each below 512.\<close>

definition pt_path :: "nat list \<Rightarrow> bool" where
  "pt_path p \<longleftrightarrow> length p \<le> 2 \<and> (\<forall>i\<in>set p. i < 512)"

lemma pt_path_Nil [simp]: "pt_path []"
  by (simp add: pt_path_def)

lemma pt_path_snocD: "pt_path (p @ [i]) \<Longrightarrow> pt_path p \<and> i < 512"
  by (simp add: pt_path_def)

definition pt_pages :: "memory \<Rightarrow> u64 \<Rightarrow> u64 set" where
  "pt_pages m r = {a. \<exists>p. pt_path p \<and> pt_node m r p = Some a}"

text \<open>
  The invariant of a table: its pages are allocated pages of memory, no two paths lead to the
  same page, the entries above the last level are marked as pointers, and the half of the root
  for addresses from \<open>MAXVA\<close> on is empty.
\<close>

definition pt_inv :: "'a kmem_scheme \<Rightarrow> u64 \<Rightarrow> bool" where
  "pt_inv s r \<longleftrightarrow>
     (\<forall>a\<in>pt_pages (mem s) r. ram_page s a \<and> a \<notin> kmem_free s) \<and>
     (\<forall>p q a. pt_path p \<longrightarrow> pt_path q \<longrightarrow> pt_node (mem s) r p = Some a \<longrightarrow>
        pt_node (mem s) r q = Some a \<longrightarrow> p = q) \<and>
     (\<forall>p a i. pt_path (p @ [i]) \<longrightarrow> pt_node (mem s) r p = Some a \<longrightarrow>
        ld64 (mem s) (a + 8 * of_nat i) AND (PTE_R OR PTE_W OR PTE_X) = 0) \<and>
     (\<forall>i. 256 \<le> i \<longrightarrow> i < 512 \<longrightarrow> ld64 (mem s) (r + 8 * of_nat i) AND PTE_V = 0)"

lemma pt_invD:
  assumes "pt_inv s r" and "pt_path p" and "pt_node (mem s) r p = Some a"
  shows "ram_page s a" and "a \<notin> kmem_free s" and "page_aligned a" and "a \<noteq> 0"
  using assms by (auto simp: pt_inv_def pt_pages_def ram_page_def)

lemma pt_inv_inj:
  assumes "pt_inv s r" and "pt_path p" and "pt_node (mem s) r p = Some a"
    and "pt_path q" and "pt_node (mem s) r q = Some a"
  shows "p = q"
  using assms by (auto simp: pt_inv_def)

lemma pt_node_prefix_Some: "pt_node m r (p @ q) = Some a \<Longrightarrow> \<exists>b. pt_node m r p = Some b"
  by (auto simp: pt_node_append split: option.splits)

text \<open>Writes outside the pages of a table do not change it.\<close>

lemma pt_child_cong:
  assumes "page_aligned b" and "i < 512" and "\<And>x. pageno x = pageno b \<Longrightarrow> m' x = m x"
  shows "pt_child m' b i = pt_child m b i"
proof -
  have "ld64 m' (b + 8 * of_nat i) = ld64 m (b + 8 * of_nat i)"
    by (rule ld64_page_cong) (use assms in \<open>auto simp: entry_aligned8 entry_pageno\<close>)
  then show ?thesis by (simp add: pt_child_def)
qed

lemma pt_node_frame:
  assumes "pt_path p" and "\<And>a. a \<in> pt_pages m r \<Longrightarrow> page_aligned a"
    and "\<And>a x. a \<in> pt_pages m r \<Longrightarrow> pageno x = pageno a \<Longrightarrow> m' x = m x"
  shows "pt_node m' r p = pt_node m r p"
  using assms(1)
proof (induction p rule: rev_induct)
  case Nil
  then show ?case by simp
next
  case (snoc i p)
  then have p: "pt_path p" "i < 512" by (auto dest: pt_path_snocD)
  show ?case
  proof (cases "pt_node m r p")
    case None
    then show ?thesis using snoc.IH [OF p(1)] by (simp add: pt_node_snoc)
  next
    case (Some b)
    then have "b \<in> pt_pages m r" using p by (auto simp: pt_pages_def)
    then have "pt_child m' b i = pt_child m b i"
      by (intro pt_child_cong) (use assms p in auto)
    then show ?thesis using snoc.IH [OF p(1)] Some by (simp add: pt_node_snoc)
  qed
qed

lemma pt_pages_frame:
  assumes "\<And>a. a \<in> pt_pages m r \<Longrightarrow> page_aligned a"
    and "\<And>a x. a \<in> pt_pages m r \<Longrightarrow> pageno x = pageno a \<Longrightarrow> m' x = m x"
  shows "pt_pages m' r = pt_pages m r"
  using pt_node_frame [OF _ assms] by (auto simp: pt_pages_def)

subsection \<open>Changing one entry\<close>

lemma pt_child_other:
  assumes "page_aligned b" "i < 512" "page_aligned c" "j < 512" and "(b, i) \<noteq> (c, j)"
  shows "pt_child (st64 m (b + 8 * of_nat i) v) c j = pt_child m c j"
proof -
  have "b + 8 * of_nat i \<noteq> c + 8 * of_nat j" using assms entry_inj [OF assms(1-4)] by auto
  then have "ld64 (st64 m (b + 8 * of_nat i) v) (c + 8 * of_nat j) = ld64 m (c + 8 * of_nat j)"
    by (intro ld64_st64_other entry_aligned8 assms)
  then show ?thesis by (simp add: pt_child_def)
qed

lemma pt_node_other:
  assumes inv: "pt_inv s r" and p: "pt_path p" "pt_node (mem s) r p = Some b" and i: "i < 512"
    and q: "pt_path q" "\<forall>z. q \<noteq> p @ i # z"
  shows "pt_node (st64 (mem s) (b + 8 * of_nat i) v) r q = pt_node (mem s) r q"
  using q
proof (induction q rule: rev_induct)
  case Nil
  then show ?case by simp
next
  case (snoc j q)
  then have jq: "pt_path q" "j < 512" by (auto dest: pt_path_snocD)
  have "\<forall>z. q \<noteq> p @ i # z" using snoc.prems(2) by (metis append.assoc append_Cons)
  note IH = snoc.IH [OF jq(1) this]
  show ?case
  proof (cases "pt_node (mem s) r q")
    case None
    then show ?thesis using IH by (simp add: pt_node_snoc)
  next
    case (Some c)
    have "(b, i) \<noteq> (c, j)"
      using pt_inv_inj [OF inv p jq(1)] Some snoc.prems(2) by auto
    then have "pt_child (st64 (mem s) (b + 8 * of_nat i) v) c j = pt_child (mem s) c j"
      by (intro pt_child_other pt_invD(3) [OF inv p] pt_invD(3) [OF inv jq(1) Some] i jq(2))
    then show ?thesis using IH Some by (simp add: pt_node_snoc)
  qed
qed

text \<open>The leaf entry of a virtual address, 0 where the table has no last level for it.\<close>

definition lpath :: "u64 \<Rightarrow> nat list" where
  "lpath va = [px 2 va, px 1 va]"

definition pte_of :: "memory \<Rightarrow> u64 \<Rightarrow> u64 \<Rightarrow> u64" where
  "pte_of m r va =
     (case pt_node m r (lpath va) of None \<Rightarrow> 0
      | Some b \<Rightarrow> ld64 m (b + 8 * of_nat (px 0 va)))"

lemma pt_path_lpath [simp]: "pt_path (lpath va)"
  by (simp add: pt_path_def lpath_def)

lemma length_lpath [simp]: "length (lpath va) = 2"
  by (simp add: lpath_def)

text \<open>
  How \<open>walk\<close> with \<open>alloc\<close> may change the state: the table gains pages from the free list, and the
  mapping stays the same.
\<close>

definition pt_grow :: "u64 \<Rightarrow> 'a kmem_scheme \<Rightarrow> 'a kmem_scheme \<Rightarrow> bool" where
  "pt_grow r s s' \<longleftrightarrow>
     kmem_inv s' \<and> pt_inv s' r \<and> (\<forall>va. pte_of (mem s') r va = pte_of (mem s) r va) \<and>
     kmem_free s' \<subseteq> kmem_free s \<and>
     pt_pages (mem s') r = pt_pages (mem s) r \<union> (kmem_free s - kmem_free s') \<and>
     (\<forall>x. pageno x \<notin> pageno ` (pt_pages (mem s) r \<union> kmem_free s) \<longrightarrow> mem s' x = mem s x) \<and>
     mem_only s s'"

lemma pt_grow_refl: "kmem_inv s \<Longrightarrow> pt_inv s r \<Longrightarrow> pt_grow r s s"
  by (simp add: pt_grow_def)

lemma pt_grow_trans:
  assumes "pt_grow r s t" and "pt_grow r t u"
  shows "pt_grow r s u"
proof -
  have "kmem_free u \<subseteq> kmem_free t" "kmem_free t \<subseteq> kmem_free s"
    and pp: "pt_pages (mem t) r = pt_pages (mem s) r \<union> (kmem_free s - kmem_free t)"
    "pt_pages (mem u) r = pt_pages (mem t) r \<union> (kmem_free t - kmem_free u)"
    using assms by (auto simp: pt_grow_def)
  then have "pt_pages (mem t) r \<union> kmem_free t \<subseteq> pt_pages (mem s) r \<union> kmem_free s"
    "pt_pages (mem u) r = pt_pages (mem s) r \<union> (kmem_free s - kmem_free u)"
    by auto
  moreover have "mem_only s u" using assms mem_only_trans unfolding pt_grow_def by blast
  moreover have "mem u x = mem s x"
    if "pageno x \<notin> pageno ` (pt_pages (mem s) r \<union> kmem_free s)" for x
  proof -
    have "pageno x \<notin> pageno ` (pt_pages (mem t) r \<union> kmem_free t)" using that calculation(1) by blast
    then show ?thesis using that assms by (simp add: pt_grow_def)
  qed
  ultimately show ?thesis
    using assms \<open>kmem_free u \<subseteq> kmem_free t\<close> \<open>kmem_free t \<subseteq> kmem_free s\<close> unfolding pt_grow_def by simp
qed

text \<open>A table keeps its shape and mapping when memory changes only outside its pages.\<close>

lemma pt_inv_aligned: "pt_inv s r \<Longrightarrow> a \<in> pt_pages (mem s) r \<Longrightarrow> page_aligned a"
  by (auto simp: pt_inv_def ram_page_def)

lemma ld64_pt_frame:
  assumes "pt_inv s r" and "\<And>a x. a \<in> pt_pages (mem s) r \<Longrightarrow> pageno x = pageno a \<Longrightarrow> m' x = mem s x"
    and "a \<in> pt_pages (mem s) r" and "i < 512"
  shows "ld64 m' (a + 8 * of_nat i) = ld64 (mem s) (a + 8 * of_nat i)"
proof -
  have "page_aligned a" using assms by (auto dest: pt_inv_aligned)
  then show ?thesis
    using assms by (intro ld64_page_cong) (auto simp: entry_aligned8 entry_pageno)
qed

lemma pt_inv_frame:
  assumes inv: "pt_inv s r"
    and m: "\<And>a x. a \<in> pt_pages (mem s) r \<Longrightarrow> pageno x = pageno a \<Longrightarrow> mem t x = mem s x"
    and k: "kend t = kend s" and d: "kmem_free t \<inter> pt_pages (mem s) r = {}"
  shows "pt_inv t r" and "pt_pages (mem t) r = pt_pages (mem s) r"
    and "pte_of (mem t) r va = pte_of (mem s) r va"
    and "pt_path q \<Longrightarrow> pt_node (mem t) r q = pt_node (mem s) r q"
proof -
  note al = pt_inv_aligned [OF inv]
  have n: "pt_node (mem t) r q = pt_node (mem s) r q" if "pt_path q" for q
    by (rule pt_node_frame) (use that al m in auto)
  show pp: "pt_pages (mem t) r = pt_pages (mem s) r"
    by (rule pt_pages_frame) (use al m in auto)
  have l: "ld64 (mem t) (a + 8 * of_nat i) = ld64 (mem s) (a + 8 * of_nat i)"
    if "pt_path p" "pt_node (mem s) r p = Some a" "i < 512" for p a i
    by (rule ld64_pt_frame [OF inv]) (use m that in \<open>auto simp: pt_pages_def\<close>)
  show "pt_node (mem t) r q = pt_node (mem s) r q" if "pt_path q"
    using n [OF that] by simp
  show "pte_of (mem t) r va = pte_of (mem s) r va"
    using n [of "lpath va"] l [of "lpath va", OF _ _ px_less [of 0 va]]
    by (simp add: pte_of_def split: option.splits)
  show "pt_inv t r"
    unfolding pt_inv_def pp
  proof (intro conjI allI impI ballI, goal_cases)
    case (1 a)
    then show ?case using inv k by (auto simp: pt_inv_def ram_page_def)
  next
    case (2 a)
    then show ?case using d by auto
  next
    case (3 p q a)
    then show ?case using n [of p] n [of q] inv pt_inv_inj by metis
  next
    case (4 p a i)
    then have p: "pt_path p" "i < 512" by (auto dest: pt_path_snocD)
    with 4 have "pt_node (mem s) r p = Some a" using n [of p] by simp
    then show ?case using l [OF p(1) _ p(2)] inv 4(1) by (simp add: pt_inv_def)
  next
    case (5 i)
    then show ?case using l [of "[]" r i] inv by (simp add: pt_inv_def)
  qed
qed

lemma PA2PTE_not_leaf: "(PA2PTE a OR PTE_V) AND (PTE_R OR PTE_W OR PTE_X) = 0"
proof (rule bit_word_eqI)
  fix n
  have e: "PTE_R OR PTE_W OR PTE_X = push_bit 1 (mask 3 :: u64)" by (simp add: mask_eq_exp_minus_1)
  show "bit ((PA2PTE a OR PTE_V) AND (PTE_R OR PTE_W OR PTE_X)) n = bit (0 :: u64) n"
    unfolding e PA2PTE_def bit_and_iff bit_or_iff bit_push_bit_iff bit_mask_iff
    by (auto simp: bit_1_iff)
qed

lemma ram_page_lt: "ram_page s a \<Longrightarrow> unat a < 2 ^ 56"
  by (simp add: ram_page_def word_less_nat_alt)

lemma pt_child_set:
  assumes "ram_page s n"
  shows "pt_child (st64 m (b + 8 * of_nat i) (PA2PTE n OR PTE_V)) b i = Some n"
  using PTE2PA_PA2PTE [of n 1] ram_page_lt [OF assms] assms
  by (simp add: pt_child_def Let_def PTE_V_set ram_page_def)

subsection \<open>What \<open>walk\<close> does\<close>

text \<open>The state after \<open>walk\<close> has put page \<open>n\<close> of the free list into entry \<open>i\<close> of page \<open>b\<close>.\<close>

definition pt_add :: "u64 \<Rightarrow> u64 \<Rightarrow> nat \<Rightarrow> 'a kmem_scheme \<Rightarrow> 'a kmem_scheme" where
  "pt_add n b i s =
     s\<lparr>freelist := ld64 (mem s) n,
       mem := st64 (memset (memset (mem s) n 5 4096) n 0 4096) (b + 8 * of_nat i)
                (PA2PTE n OR PTE_V)\<rparr>"

lemma pt_add_nodes:
  assumes inv: "pt_inv s r" and ps: "kmem_pages s (n # ps)" and pi: "pt_path (p @ [i])"
    and b: "pt_node (mem s) r p = Some b" and e: "ld64 (mem s) (b + 8 * of_nat i) AND PTE_V = 0"
  shows "pt_path q \<Longrightarrow> pt_node (mem (pt_add n b i s)) r q = ((pt_node (mem s) r)(p @ [i] \<mapsto> n)) q"
    and "j < 512 \<Longrightarrow> ld64 (mem (pt_add n b i s)) (n + 8 * of_nat j) = 0"
    and "pt_path q \<Longrightarrow> pt_node (mem s) r q = Some a \<Longrightarrow> j < 512 \<Longrightarrow>
      ld64 (mem (pt_add n b i s)) (a + 8 * of_nat j) =
        (if q = p \<and> j = i then PA2PTE n OR PTE_V else ld64 (mem s) (a + 8 * of_nat j))"
    and "pageno x \<noteq> pageno b \<Longrightarrow> pageno x \<noteq> pageno n \<Longrightarrow> mem (pt_add n b i s) x = mem s x"
proof -
  define m1 where "m1 = memset (memset (mem s) n 5 4096) n 0 4096"
  define m2 where "m2 = mem (pt_add n b i s)"
  have m2: "m2 = st64 m1 (b + 8 * of_nat i) (PA2PTE n OR PTE_V)"
    by (simp add: m2_def m1_def pt_add_def)
  have p: "pt_path p" "i < 512" using pt_path_snocD [OF pi] by auto
  note bb = pt_invD [OF inv p(1) b]
  have n: "ram_page s n" "page_aligned n" "n \<in> kmem_free s"
    using ps kmem_free_eq [OF ps] by (auto simp: kmem_pages_def ram_page_def)
  have np: "n \<notin> pt_pages (mem s) r" using inv n(3) by (auto simp: pt_inv_def)
  have m1: "m1 x = mem s x" if "pageno x \<noteq> pageno n" for x
    using that n(2) by (simp add: m1_def memset_page_apply)
  have fr: "m1 x = mem s x" if "a \<in> pt_pages (mem s) r" "pageno x = pageno a" for a x
    using that np pt_inv_aligned [OF inv that(1)] n(2) page_aligned_eqI by (metis m1)
  have nb: "n \<noteq> b" using bb(2) n(3) by auto
  show new: "ld64 (mem (pt_add n b i s)) (n + 8 * of_nat j) = 0" if "j < 512" for j
  proof -
    have "ld64 m1 (n + 8 * of_nat j) = 0"
      unfolding m1_def by (rule ld64_memset_zero) (use n that in \<open>auto simp: entry_aligned8 entry_pageno\<close>)
    moreover have "b + 8 * of_nat i \<noteq> n + 8 * of_nat j"
      using nb entry_inj [OF bb(3) p(2) n(2) that] by auto
    then have "ld64 m2 (n + 8 * of_nat j) = ld64 m1 (n + 8 * of_nat j)"
      unfolding m2 by (intro ld64_st64_other entry_aligned8 bb(3) n(2) p(2) that)
    ultimately show ?thesis by (simp add: m2_def)
  qed
  show "ld64 (mem (pt_add n b i s)) (a + 8 * of_nat j) =
        (if q = p \<and> j = i then PA2PTE n OR PTE_V else ld64 (mem s) (a + 8 * of_nat j))"
    if q: "pt_path q" "pt_node (mem s) r q = Some a" "j < 512" for q a j
  proof (cases "q = p \<and> j = i")
    case True
    then show ?thesis using q b by (simp add: pt_add_def)
  next
    case False
    have aa: "page_aligned a" "a \<in> pt_pages (mem s) r"
      using pt_invD [OF inv q(1,2)] q by (auto simp: pt_pages_def)
    have "b + 8 * of_nat i \<noteq> a + 8 * of_nat j"
      using False entry_inj [OF bb(3) p(2) aa(1) q(3)] pt_inv_inj [OF inv p(1) b q(1)] q(2) by auto
    then have "ld64 m2 (a + 8 * of_nat j) = ld64 m1 (a + 8 * of_nat j)"
      unfolding m2 by (intro ld64_st64_other entry_aligned8 bb(3) aa p(2) q(3))
    also have "\<dots> = ld64 (mem s) (a + 8 * of_nat j)"
      by (rule ld64_pt_frame [OF inv]) (use fr aa q in auto)
    finally show ?thesis using False by (auto simp: m2_def)
  qed
  show "mem (pt_add n b i s) x = mem s x" if "pageno x \<noteq> pageno b" "pageno x \<noteq> pageno n"
    using that m1 bb(3) p(2) st64_other_page [OF entry_aligned8 [OF bb(3) p(2)]]
    by (simp add: m2 entry_pageno flip: m2_def)
  let ?t = "s\<lparr>freelist := 0, mem := m1\<rparr>"
  have "kmem_free ?t \<inter> pt_pages (mem s) r = {}"
  proof -
    have "qs = []" if "free_list m1 0 qs" for qs
      using free_list_unique [OF that, of "[]"] by simp
    then have "kmem_free ?t = {}" by (fastforce simp: kmem_free_def)
    then show ?thesis by simp
  qed
  then have f: "pt_inv ?t r" "pt_path q \<Longrightarrow> pt_node m1 r q = pt_node (mem s) r q" for q
    using pt_inv_frame(1,4) [OF inv, of ?t] fr by auto
  show "pt_node (mem (pt_add n b i s)) r q = ((pt_node (mem s) r)(p @ [i] \<mapsto> n)) q" if q: "pt_path q"
  proof (cases "\<exists>z. q = p @ i # z")
    case False
    then have "pt_node m2 r q = pt_node m1 r q"
      unfolding m2 using pt_node_other [OF f(1) p(1) _ p(2) q] f(2) [OF p(1)] b by auto
    then show ?thesis using False f(2) [OF q] by (auto simp: m2_def)
  next
    case True
    then obtain z where z: "q = p @ i # z" by blast
    have "pt_node m2 r p = Some b"
      unfolding m2 using pt_node_other [OF f(1) p(1) _ p(2) p(1)] f(2) [OF p(1)] b by auto
    then have "pt_node m2 r (p @ [i]) = Some n"
      using pt_child_set [OF n(1)] by (simp add: pt_node_snoc m2)
    moreover have "pt_node (mem s) r (p @ i # j # z') = None" for j z'
      using b e by (simp add: pt_node_append pt_child_def Let_def)
    moreover have "pt_child m2 n j = None" if "j < 512" for j
      using new [OF that] by (simp add: pt_child_def Let_def m2_def)
    ultimately show ?thesis
      using q z pt_node_append [of m2 r "p @ [i]" z]
      by (cases z) (auto simp: m2_def pt_path_def)
  qed
qed

lemma pt_add_grow:
  assumes inv: "pt_inv s r" and ps: "kmem_pages s (n # ps)" and pi: "pt_path (p @ [i])"
    and b: "pt_node (mem s) r p = Some b" and e: "ld64 (mem s) (b + 8 * of_nat i) AND PTE_V = 0"
    and low: "p = [] \<Longrightarrow> i < 256"
  shows "pt_grow r s (pt_add n b i s)"
proof -
  note N = pt_add_nodes [OF inv ps pi b e]
  let ?s = "pt_add n b i s"
  have p: "pt_path p" "i < 512" using pt_path_snocD [OF pi] by auto
  note bb = pt_invD [OF inv p(1) b]
  have n: "ram_page s n" "page_aligned n" "n \<in> kmem_free s" "n \<notin> set ps"
    using ps kmem_free_eq [OF ps] by (auto simp: kmem_pages_def ram_page_def)
  have none: "pt_node (mem s) r (p @ [i]) = None"
    using b e by (simp add: pt_node_snoc pt_child_def Let_def)
  have x: "pt_node (mem s) r q = Some n \<Longrightarrow> \<not> pt_path q" for q
    using pt_invD(2) [OF inv, of q n] n(3) by auto
  have pp: "pt_pages (mem ?s) r = insert n (pt_pages (mem s) r)"
  proof (intro set_eqI iffI)
    fix a
    assume "a \<in> pt_pages (mem ?s) r"
    then show "a \<in> insert n (pt_pages (mem s) r)"
      by (auto simp: pt_pages_def N(1) split: if_splits)
  next
    fix a
    assume "a \<in> insert n (pt_pages (mem s) r)"
    then consider "a = n" | q where "pt_path q" "pt_node (mem s) r q = Some a"
      by (auto simp: pt_pages_def)
    then show "a \<in> pt_pages (mem ?s) r"
    proof cases
      case 1
      then have "pt_node (mem ?s) r (p @ [i]) = Some a" using N(1) [OF pi] by simp
      with pi show ?thesis by (auto simp: pt_pages_def)
    next
      case 2
      then have "pt_node (mem ?s) r q = Some a" using N(1) [of q] none by auto
      with 2 show ?thesis by (auto simp: pt_pages_def)
    qed
  qed
  note k = kalloc_Cons(2) [OF ps]
  have kp: "kmem_pages ?s ps"
  proof (rule kmem_pages_frame [OF k])
    fix x q
    assume q: "q \<in> set ps" "pageno x = pageno q"
    have "pageno x \<noteq> pageno n"
      using q n ram_page_pageno_neq [OF n(1,4)] ps by (auto simp: kmem_pages_def)
    moreover have "b \<notin> set ps" using bb(2) kmem_free_eq [OF ps] by auto
    then have "pageno x \<noteq> pageno b"
      using q ram_page_pageno_neq [OF bb(1)] ps by (auto simp: kmem_pages_def)
    ultimately show "mem ?s x = mem (s\<lparr>freelist := ld64 (mem s) n, mem := memset (mem s) n 5 4096\<rparr>) x"
      using N(4) n(2) by (simp add: memset_page_apply)
  qed (simp_all add: pt_add_def)
  have kf: "kmem_free ?s = set ps" "kmem_free s = insert n (set ps)"
    using kmem_free_eq [OF kp] kmem_free_eq [OF ps] by auto
  have "pt_inv ?s r"
    unfolding pt_inv_def pp
  proof (intro conjI allI impI ballI, goal_cases)
    case (1 a)
    then show ?case using n inv by (auto simp: pt_inv_def ram_page_def pt_add_def)
  next
    case (2 a)
    then show ?case using n kf inv by (auto simp: pt_inv_def)
  next
    case (3 q q' a)
    then show ?case using x pt_inv_inj [OF inv] by (auto simp: N(1) split: if_splits)
  next
    case (4 q a j)
    then have q: "pt_path q" "j < 512" using pt_path_snocD [OF 4(1)] by auto
    then show ?case
      using 4 N(2) [OF q(2)] N(3) [OF q(1) _ q(2), of a] PA2PTE_not_leaf [of n] inv
      by (auto simp: N(1) pt_inv_def split: if_splits)
  next
    case (5 j)
    then show ?case using N(3) [of "[]" r j] low inv by (auto simp: pt_inv_def)
  qed
  moreover have "pte_of (mem ?s) r va = pte_of (mem s) r va" for va
  proof -
    have "lpath va \<noteq> p" using pi by (auto simp: pt_path_def dest: arg_cong [of _ _ length])
    then show ?thesis
      using N(1) [of "lpath va"] N(2) [OF px_less [of 0 va]] N(3) [of "lpath va" _ "px 0 va"] none
      by (auto simp: pte_of_def split: option.splits if_splits)
  qed
  moreover have "mem ?s x = mem s x" if "pageno x \<notin> pageno ` (pt_pages (mem s) r \<union> kmem_free s)" for x
  proof -
    have "b \<in> pt_pages (mem s) r" using b p by (auto simp: pt_pages_def)
    then show ?thesis using that n(3) by (intro N(4)) blast+
  qed
  moreover have "mem_only s ?s" by (simp add: pt_add_def)
  ultimately show ?thesis
    using kp pp kf n(4) by (auto simp: pt_grow_def kmem_inv_def)
qed

lemma pt_add_free:
  assumes inv: "pt_inv s r" and ps: "kmem_pages s (n # ps)" and pi: "pt_path (p @ [i])"
    and b: "pt_node (mem s) r p = Some b" and e: "ld64 (mem s) (b + 8 * of_nat i) AND PTE_V = 0"
    and low: "p = [] \<Longrightarrow> i < 256"
  shows "card (kmem_free s) \<le> Suc (card (kmem_free (pt_add n b i s)))"
proof -
  let ?t = "pt_add n b i s"
  have g: "kmem_free ?t \<subseteq> kmem_free s" "pt_pages (mem ?t) r = pt_pages (mem s) r \<union> (kmem_free s - kmem_free ?t)"
    using pt_add_grow [OF inv ps pi b e low] by (auto simp: pt_grow_def)
  have "pt_pages (mem ?t) r \<subseteq> insert n (pt_pages (mem s) r)"
    using pt_add_nodes(1) [OF inv ps pi b e] by (auto simp: pt_pages_def split: if_splits)
  then have "kmem_free s \<subseteq> insert n (kmem_free ?t)" using g(2) inv by (auto simp: pt_inv_def)
  moreover have "finite (kmem_free ?t)" using g(1) kmem_free_eq [OF ps] finite_subset by auto
  ultimately show ?thesis
    using card_mono [of "insert n (kmem_free ?t)" "kmem_free s"] by (simp add: card_insert_if split: if_splits)
qed

lemma lpath_index:
  assumes "lpath va = p @ q" and "length q = Suc l"
  shows "hd q = px (Suc l) va"
  using assms by (auto simp: lpath_def Cons_eq_append_conv append_eq_Cons_conv numeral_2_eq_2)

lemma walk_loop_spec:
  assumes "kmem_inv s" and "pt_inv s r" and "lpath va = p @ q" and "length q = l"
    and "pt_node (mem s) r p = Some b" and va: "va < MAXVA"
  shows "\<exists>pte s'. walk_loop l b va alloc s = Ok pte s' \<and> pt_grow r s s' \<and>
           (\<not> alloc \<longrightarrow> s' = s) \<and>
           (if pte = 0 then (if alloc then kmem_free s' = {} else pt_node (mem s) r (lpath va) = None)
            else \<exists>c. pt_node (mem s') r (lpath va) = Some c \<and> pte = c + 8 * PX 0 va)"
  using assms(1-5)
proof (induction l arbitrary: s p q b)
  case 0
  then have "pt_node (mem s) r (lpath va) = Some b" by simp
  moreover from this have "b + 8 * PX 0 va \<noteq> 0"
    using entry_neq_0 [of b "px 0 va"] pt_invD [OF 0(2), of "lpath va" b] by simp
  ultimately show ?case using pt_grow_refl [OF 0(1,2)] by simp
next
  case (Suc l)
  obtain q' where q: "q = px (Suc l) va # q'"
    using Suc.prems(4) lpath_index [OF Suc.prems(3,4)] by (cases q) auto
  let ?i = "px (Suc l) va"
  have lp: "lpath va = (p @ [?i]) @ q'" and lq: "length q' = l" using Suc.prems q by auto
  have pi: "pt_path (p @ [?i])"
    using pt_path_lpath [of va] unfolding lp by (auto simp: pt_path_def)
  let ?e = "ld64 (mem s) (b + 8 * of_nat ?i)"
  show ?case
  proof (cases "?e AND PTE_V = 0")
    case False
    then have "pt_node (mem s) r (p @ [?i]) = Some (PTE2PA ?e)"
      using Suc.prems(5) by (simp add: pt_node_snoc pt_child_def Let_def)
    from Suc.IH [OF Suc.prems(1,2) lp lq this] False show ?thesis by (simp add: Let_def)
  next
    case True
    then have none: "pt_node (mem s) r (lpath va) = None"
      using Suc.prems(5) unfolding lp by (simp add: pt_node_append pt_child_def Let_def)
    show ?thesis
    proof (cases alloc)
      case False
      then show ?thesis using True none pt_grow_refl [OF Suc.prems(1,2)] by (simp add: Let_def)
    next
      case alloc: True
      obtain ps where ps: "kmem_pages s ps" using Suc.prems(1) by (auto simp: kmem_inv_def)
      show ?thesis
      proof (cases ps)
        case Nil
        then have "kalloc s = Ok 0 s" using ps kalloc_empty by blast
        then show ?thesis
          using Nil True alloc ps pt_grow_refl [OF Suc.prems(1,2)] kmem_free_eq [OF ps]
          by (simp add: Let_def)
      next
        case (Cons n ps')
        note A = ps [unfolded Cons]
        have n: "n \<noteq> 0" using A by (auto simp: kmem_pages_def)
        let ?t = "pt_add n b ?i s"
        have "?i < 256" if "p = []"
          using lp that px2_less [OF va] by (auto simp: lpath_def)
        then have g: "pt_grow r s ?t"
          by (intro pt_add_grow [OF Suc.prems(2) A pi Suc.prems(5) True])
        then have t: "kmem_inv ?t" "pt_inv ?t r" by (auto simp: pt_grow_def)
        have "pt_node (mem ?t) r (p @ [?i]) = Some n"
          using pt_add_nodes(1) [OF Suc.prems(2) A pi Suc.prems(5) True pi] by simp
        from Suc.IH [OF t lp lq this] obtain pte s' where w: "walk_loop l n va alloc ?t = Ok pte s'"
          "pt_grow r ?t s'" "if pte = 0 then kmem_free s' = {}
             else \<exists>c. pt_node (mem s') r (lpath va) = Some c \<and> pte = c + 8 * PX 0 va"
          using alloc by auto
        have "walk_loop (Suc l) b va alloc s = Ok pte s'"
          using w(1) True n alloc kalloc_Cons(1) [OF A] by (simp add: Let_def pt_add_def)
        then show ?thesis using w(3) pt_grow_trans [OF g w(2)] alloc by auto
      qed
    qed
  qed
qed

lemma walk_spec:
  assumes "kmem_inv s" and "pt_inv s r" and "va < MAXVA"
  shows "\<exists>pte s'. walk r va alloc s = Ok pte s' \<and> pt_grow r s s' \<and>
           (\<not> alloc \<longrightarrow> s' = s) \<and>
           (if pte = 0 then (if alloc then kmem_free s' = {} else pt_node (mem s) r (lpath va) = None)
            else \<exists>c. pt_node (mem s') r (lpath va) = Some c \<and> pte = c + 8 * PX 0 va)"
  using walk_loop_spec [OF assms(1,2), of va "[]" "lpath va" 2 r alloc] assms(3)
  by (simp add: walk_def)

text \<open>
  How much memory a walk needs: one that fails has found fewer free pages than levels, and one to an
  existing table takes no page.
\<close>

lemma walk_loop_fail_card:
  assumes "kmem_inv s" and "pt_inv s r" and "lpath va = p @ q" and "length q = l"
    and "pt_node (mem s) r p = Some b" and va: "va < MAXVA" and "walk_loop l b va True s = Ok 0 s'"
  shows "card (kmem_free s) < l"
  using assms(1-5,7)
proof (induction l arbitrary: s p q b)
  case 0
  then have "pt_node (mem s) r (lpath va) = Some b" by simp
  then show ?case using 0(6) entry_neq_0 [of b "px 0 va"] pt_invD [OF 0(2), of "lpath va" b] by simp
next
  case (Suc l)
  obtain q' where q: "q = px (Suc l) va # q'"
    using Suc.prems(4) lpath_index [OF Suc.prems(3,4)] by (cases q) auto
  let ?i = "px (Suc l) va"
  have lp: "lpath va = (p @ [?i]) @ q'" and lq: "length q' = l" using Suc.prems q by auto
  have pi: "pt_path (p @ [?i])"
    using pt_path_lpath [of va] unfolding lp by (auto simp: pt_path_def)
  let ?e = "ld64 (mem s) (b + 8 * of_nat ?i)"
  show ?case
  proof (cases "?e AND PTE_V = 0")
    case False
    then have "pt_node (mem s) r (p @ [?i]) = Some (PTE2PA ?e)"
      using Suc.prems(5) by (simp add: pt_node_snoc pt_child_def Let_def)
    from Suc.IH [OF Suc.prems(1,2) lp lq this] False Suc.prems(6) show ?thesis by (simp add: Let_def)
  next
    case True
    obtain ps where ps: "kmem_pages s ps" using Suc.prems(1) by (auto simp: kmem_inv_def)
    show ?thesis
    proof (cases ps)
      case Nil
      then show ?thesis using kmem_free_eq [OF ps] by simp
    next
      case (Cons n ps')
      note A = ps [unfolded Cons]
      have n: "n \<noteq> 0" using A by (auto simp: kmem_pages_def)
      let ?t = "pt_add n b ?i s"
      have low: "?i < 256" if "p = []"
        using lp that px2_less [OF va] by (auto simp: lpath_def)
      have t: "kmem_inv ?t" "pt_inv ?t r"
        using pt_add_grow [OF Suc.prems(2) A pi Suc.prems(5) True low] by (auto simp: pt_grow_def)
      have nn: "pt_node (mem ?t) r (p @ [?i]) = Some n"
        using pt_add_nodes(1) [OF Suc.prems(2) A pi Suc.prems(5) True pi] by simp
      have "walk_loop l n va True ?t = Ok 0 s'"
        using Suc.prems(6) True n kalloc_Cons(1) [OF A] by (simp add: Let_def pt_add_def)
      then have "card (kmem_free ?t) < l" using Suc.IH [OF t lp lq nn] by blast
      then show ?thesis using pt_add_free [OF Suc.prems(2) A pi Suc.prems(5) True low] by simp
    qed
  qed
qed

lemma walk_fail_card:
  assumes "kmem_inv s" and "pt_inv s r" and "va < MAXVA" and "walk r va True s = Ok 0 s'"
  shows "card (kmem_free s) < 2"
  using walk_loop_fail_card [OF assms(1,2), of va "[]" "lpath va" 2 r s'] assms(3,4)
  by (simp add: walk_def split: if_splits)

lemma walk_existing:
  assumes "pt_inv s r" and "va < MAXVA" and c: "pt_node (mem s) r (lpath va) = Some c"
  shows "walk r va True s = Ok (c + 8 * PX 0 va) s" and "c + 8 * PX 0 va \<noteq> 0"
proof -
  show "c + 8 * PX 0 va \<noteq> 0"
    using entry_neq_0 [of c "px 0 va"] pt_invD [OF assms(1) pt_path_lpath c] by simp
  show "walk r va True s = Ok (c + 8 * PX 0 va) s"
    using c assms(2)
    by (auto simp: walk_def lpath_def pt_child_def Let_def numeral_2_eq_2 split: option.splits if_splits)
qed

text \<open>Without \<open>alloc\<close> the walk is a pure lookup and needs no invariant of the free list.\<close>

lemma walk_loop_lookup:
  assumes "lpath va = p @ q" and "length q = l" and "pt_node m r p = Some b" and "m = mem s"
  shows "walk_loop l b va False s =
    Ok (case pt_node m r (lpath va) of None \<Rightarrow> 0 | Some c \<Rightarrow> c + 8 * PX 0 va) s"
  using assms(1-3)
proof (induction l arbitrary: p q b)
  case 0
  then show ?case by simp
next
  case (Suc l)
  obtain q' where q: "q = px (Suc l) va # q'"
    using Suc.prems(2) lpath_index [OF Suc.prems(1,2)] by (cases q) auto
  let ?i = "px (Suc l) va"
  have lp: "lpath va = (p @ [?i]) @ q'" and lq: "length q' = l" using Suc.prems q by auto
  let ?e = "ld64 m (b + 8 * of_nat ?i)"
  show ?case
  proof (cases "?e AND PTE_V = 0")
    case False
    then have "pt_node m r (p @ [?i]) = Some (PTE2PA ?e)"
      using Suc.prems(3) by (simp add: pt_node_snoc pt_child_def Let_def)
    from Suc.IH [OF lp lq this] False show ?thesis by (simp add: Let_def assms(4))
  next
    case True
    then have "pt_node m r (lpath va) = None"
      using Suc.prems(3) unfolding lp by (simp add: pt_node_append pt_child_def Let_def)
    then show ?thesis using True by (simp add: Let_def assms(4))
  qed
qed

lemma walk_lookup:
  "va < MAXVA \<Longrightarrow> walk r va False s =
     Ok (case pt_node (mem s) r (lpath va) of None \<Rightarrow> 0 | Some c \<Rightarrow> c + 8 * PX 0 va) s"
  using walk_loop_lookup [of va "[]" "lpath va" 2 "mem s" r r s] by (simp add: walk_def)

subsection \<open>Changing leaf entries\<close>

text \<open>
  \<open>pt_upd r f s s'\<close>: from \<open>s\<close> to \<open>s'\<close> the mapping of the table \<open>r\<close> became \<open>f\<close>, its new pages came
  from the free list, and nothing else changed.
\<close>

definition pt_upd :: "u64 \<Rightarrow> (u64 \<Rightarrow> u64) \<Rightarrow> 'a kmem_scheme \<Rightarrow> 'a kmem_scheme \<Rightarrow> bool" where
  "pt_upd r f s s' \<longleftrightarrow>
     kmem_inv s' \<and> pt_inv s' r \<and> (\<forall>va<MAXVA. pte_of (mem s') r va = f va) \<and>
     kmem_free s' \<subseteq> kmem_free s \<and>
     pt_pages (mem s') r = pt_pages (mem s) r \<union> (kmem_free s - kmem_free s') \<and>
     (\<forall>x. pageno x \<notin> pageno ` (pt_pages (mem s) r \<union> kmem_free s) \<longrightarrow> mem s' x = mem s x) \<and>
     mem_only s s'"

lemma pt_grow_upd: "pt_grow r s s' \<Longrightarrow> pt_upd r (pte_of (mem s) r) s s'"
  by (simp add: pt_grow_def pt_upd_def)

lemma pt_upd_trans:
  assumes "pt_upd r f s t" and "pt_upd r g t u"
  shows "pt_upd r g s u"
proof -
  have sub: "kmem_free u \<subseteq> kmem_free t" "kmem_free t \<subseteq> kmem_free s"
    and pp: "pt_pages (mem t) r = pt_pages (mem s) r \<union> (kmem_free s - kmem_free t)"
    "pt_pages (mem u) r = pt_pages (mem t) r \<union> (kmem_free t - kmem_free u)"
    using assms by (auto simp: pt_upd_def)
  then have i: "pt_pages (mem t) r \<union> kmem_free t \<subseteq> pt_pages (mem s) r \<union> kmem_free s"
    "pt_pages (mem u) r = pt_pages (mem s) r \<union> (kmem_free s - kmem_free u)"
    by auto
  have "mem_only s u" using assms mem_only_trans unfolding pt_upd_def by blast
  moreover have "mem u x = mem s x"
    if "pageno x \<notin> pageno ` (pt_pages (mem s) r \<union> kmem_free s)" for x
  proof -
    have "pageno x \<notin> pageno ` (pt_pages (mem t) r \<union> kmem_free t)" using that i(1) by blast
    then show ?thesis using that assms by (simp add: pt_upd_def)
  qed
  ultimately show ?thesis using assms sub i(2) unfolding pt_upd_def by simp
qed

lemma lpath_eq_iff:
  assumes "va < MAXVA" and "vb < MAXVA"
  shows "lpath va = lpath vb \<and> px 0 va = px 0 vb \<longleftrightarrow> pageno va = pageno vb"
  using px_eq_iff [OF assms] by (auto simp: lpath_def)

lemma pt_set_leaf:
  assumes k: "kmem_inv s" and inv: "pt_inv s r" and c: "pt_node (mem s) r (lpath va) = Some c"
    and va: "va < MAXVA"
  shows "pt_upd r (\<lambda>vb. if pageno vb = pageno va then v else pte_of (mem s) r vb)
           s (s\<lparr>mem := st64 (mem s) (c + 8 * PX 0 va) v\<rparr>)"
    and "kmem_free (s\<lparr>mem := st64 (mem s) (c + 8 * PX 0 va) v\<rparr>) = kmem_free s"
proof -
  let ?t = "s\<lparr>mem := st64 (mem s) (c + 8 * PX 0 va) v\<rparr>"
  note cc = pt_invD [OF inv pt_path_lpath c]
  obtain ps where ps: "kmem_pages s ps" using k by (auto simp: kmem_inv_def)
  have cp: "pageno x \<noteq> pageno c \<Longrightarrow> st64 (mem s) (c + 8 * PX 0 va) v x = mem s x" for x
    using st64_other_page [OF entry_aligned8 [OF cc(3) px_less [of 0 va]]]
      entry_pageno [OF cc(3) px_less [of 0 va]] by simp
  have kp: "kmem_pages ?t ps"
  proof (rule kmem_pages_frame [OF ps])
    fix x q assume "q \<in> set ps" "pageno x = pageno q"
    moreover have "c \<notin> set ps" using cc(2) kmem_free_eq [OF ps] by simp
    ultimately have "pageno x \<noteq> pageno c"
      using ram_page_pageno_neq [OF cc(1)] ps by (auto simp: kmem_pages_def)
    then show "mem ?t x = mem s x" by (simp add: cp)
  qed simp_all
  then show kf: "kmem_free ?t = kmem_free s" using kmem_free_eq [OF ps] kmem_free_eq by metis
  have nd: "pt_node (mem ?t) r q = pt_node (mem s) r q" if "pt_path q" for q
  proof -
    have "\<forall>z. q \<noteq> lpath va @ px 0 va # z" using that by (auto simp: pt_path_def)
    then show ?thesis using pt_node_other [OF inv pt_path_lpath c px_less [of 0 va] that] by simp
  qed
  have ld: "ld64 (mem ?t) (a + 8 * of_nat j) =
      (if q = lpath va \<and> j = px 0 va then v else ld64 (mem s) (a + 8 * of_nat j))"
    if "pt_path q" "pt_node (mem s) r q = Some a" "j < 512" for q a j
  proof (cases "q = lpath va \<and> j = px 0 va")
    case False
    then have "c + 8 * of_nat (px 0 va) \<noteq> a + 8 * of_nat j"
      using entry_inj [OF cc(3) px_less _ that(3)] pt_invD(3) [OF inv that(1,2)]
        pt_inv_inj [OF inv pt_path_lpath c that(1)] that(2) by metis
    then show ?thesis using False that pt_invD(3) [OF inv that(1,2)] cc(3)
      by (auto intro!: ld64_st64_other entry_aligned8 simp flip: of_nat_px)
  qed (use c that in auto)
  have pp: "pt_pages (mem ?t) r = pt_pages (mem s) r"
    unfolding pt_pages_def using nd by (metis (no_types, lifting))
  have "pt_inv ?t r"
    unfolding pt_inv_def pp kf
  proof (intro conjI allI impI ballI, goal_cases)
    case (4 q a i)
    then have q: "pt_path q" "i < 512" "q \<noteq> lpath va"
      using pt_path_snocD [OF 4(1)] by (auto simp: pt_path_def)
    moreover have "pt_node (mem s) r q = Some a" using 4 nd q by simp
    ultimately show ?case using ld [of q a i] inv 4(1) by (simp add: pt_inv_def)
  next
    case (5 i)
    have "[] \<noteq> lpath va" by (simp add: lpath_def)
    then show ?case using ld [of "[]" r i] inv 5 by (simp add: pt_inv_def)
  qed (use inv nd pt_inv_inj in \<open>auto simp: pt_inv_def ram_page_def\<close>)
  moreover have "pte_of (mem ?t) r vb = (if pageno vb = pageno va then v else pte_of (mem s) r vb)"
    if "vb < MAXVA" for vb
  proof (cases "pt_node (mem s) r (lpath vb)")
    case None
    then have "pageno vb \<noteq> pageno va" using c lpath_eq_iff [OF va that] by force
    then show ?thesis using None nd [of "lpath vb"] by (simp add: pte_of_def)
  next
    case (Some a)
    have "(lpath vb = lpath va \<and> px 0 vb = px 0 va) = (pageno vb = pageno va)"
      using lpath_eq_iff [OF va that] by auto
    then show ?thesis
      using Some nd [of "lpath vb"] ld [OF pt_path_lpath Some px_less [of 0 vb]]
      by (simp add: pte_of_def)
  qed
  moreover have "mem ?t x = mem s x" if "pageno x \<notin> pageno ` (pt_pages (mem s) r \<union> kmem_free s)" for x
  proof -
    have "c \<in> pt_pages (mem s) r"
      unfolding pt_pages_def using c pt_path_lpath [of va] by blast
    then show ?thesis using that by (auto intro: cp)
  qed
  ultimately show "pt_upd r (\<lambda>vb. if pageno vb = pageno va then v else pte_of (mem s) r vb) s ?t"
    using kp pp kf by (auto simp: pt_upd_def kmem_inv_def)
qed

text \<open>The mapping after \<open>k\<close> pages from \<open>a\<close> have been mapped to the pages from \<open>pa\<close>.\<close>

definition pte_map :: "(u64 \<Rightarrow> u64) \<Rightarrow> u64 \<Rightarrow> nat \<Rightarrow> u64 \<Rightarrow> u64 \<Rightarrow> u64 \<Rightarrow> u64" where
  "pte_map f a k pa perm vb =
     (if pageno a \<le> pageno vb \<and> pageno vb < pageno a + k
      then PA2PTE (pa + of_nat (4096 * (pageno vb - pageno a))) OR perm OR PTE_V
      else f vb)"

lemma pte_map_0 [simp]: "pte_map f a 0 pa perm = f"
  by (auto simp: pte_map_def fun_eq_iff)

lemma page_next:
  assumes "page_aligned a" and "unat a + 4096 < 2 ^ 64"
  shows "unat (a + PGSIZE) = unat a + 4096" and "page_aligned (a + PGSIZE)"
    and "pageno (a + PGSIZE) = Suc (pageno a)"
proof -
  show u: "unat (a + PGSIZE) = unat a + 4096" using unat_add_small [of a 4096] assms by simp
  then show "page_aligned (a + PGSIZE)" "pageno (a + PGSIZE) = Suc (pageno a)"
    using assms(1) by (auto simp: pageno_def)
qed

lemma pte_map_Suc:
  assumes "page_aligned a" and "unat a + 4096 < 2 ^ 64"
  shows "pte_map (\<lambda>vb. if pageno vb = pageno a then PA2PTE pa OR perm OR PTE_V else f vb)
           (a + PGSIZE) k (pa + PGSIZE) perm = pte_map f a (Suc k) pa perm"
proof
  fix vb
  have "Suc (pageno a) \<le> pageno vb \<Longrightarrow>
    pa + PGSIZE + of_nat (4096 * (pageno vb - Suc (pageno a))) = pa + of_nat (4096 * (pageno vb - pageno a))"
    by (auto simp: le_iff_add)
  then show "pte_map (\<lambda>vb. if pageno vb = pageno a then PA2PTE pa OR perm OR PTE_V else f vb)
           (a + PGSIZE) k (pa + PGSIZE) perm vb = pte_map f a (Suc k) pa perm vb"
    using page_next [OF assms] by (auto simp: pte_map_def)
qed

lemma pt_upd_cong:
  "pt_upd r f s s' \<Longrightarrow> (\<And>va. va < MAXVA \<Longrightarrow> f va = g va) \<Longrightarrow> pt_upd r g s s'"
  by (auto simp: pt_upd_def)

text \<open>One turn of the loop of \<open>mappages\<close>.\<close>

lemma walk_set_leaf:
  assumes "kmem_inv s" and "pt_inv s r" and "a < MAXVA"
  obtains t where "walk r a True s = Ok 0 t" "pt_upd r (pte_of (mem s) r) s t" "kmem_free t = {}"
  | pte t where "walk r a True s = Ok pte t" "pte \<noteq> 0" "ld64 (mem t) pte = pte_of (mem s) r a"
      "\<And>v. pt_upd r (\<lambda>vb. if pageno vb = pageno a then v else pte_of (mem s) r vb)
              s (t\<lparr>mem := st64 (mem t) pte v\<rparr>)"
proof -
  obtain pte t where w: "walk r a True s = Ok pte t" "pt_grow r s t"
    "if pte = 0 then kmem_free t = {} else \<exists>c. pt_node (mem t) r (lpath a) = Some c \<and> pte = c + 8 * PX 0 a"
    using walk_spec [OF assms, of True] by auto
  have t: "kmem_inv t" "pt_inv t r" "\<And>va. pte_of (mem t) r va = pte_of (mem s) r va"
    using w(2) by (auto simp: pt_grow_def)
  show ?thesis
  proof (cases "pte = 0")
    case True
    then show ?thesis using that(1) w pt_grow_upd [OF w(2)] by auto
  next
    case False
    then obtain c where c: "pt_node (mem t) r (lpath a) = Some c" "pte = c + 8 * PX 0 a"
      using w(3) by auto
    have "ld64 (mem t) pte = pte_of (mem s) r a"
      using c t(3) [of a] by (simp add: pte_of_def)
    moreover have "pt_upd r (\<lambda>vb. if pageno vb = pageno a then v else pte_of (mem s) r vb)
              s (t\<lparr>mem := st64 (mem t) pte v\<rparr>)" for v
      unfolding c(2)
      by (rule pt_upd_trans [OF pt_grow_upd [OF w(2)]],
          rule pt_upd_cong [OF pt_set_leaf(1) [OF t(1,2) c(1) assms(3), of v]]) (simp add: t(3))
    ultimately show ?thesis using that(2) w(1) False by blast
  qed
qed

lemma mappages_loop_spec:
  assumes "kmem_inv s" and "pt_inv s r" and "page_aligned a" and "unat a + 4096 * Suc n \<le> unat MAXVA"
    and "lst = a + of_nat (4096 * n)"
    and "\<And>vb. vb < MAXVA \<Longrightarrow> pageno a \<le> pageno vb \<Longrightarrow> pageno vb \<le> pageno a + n \<Longrightarrow>
           pte_of (mem s) r vb AND PTE_V = 0"
  shows "\<exists>k s'. k \<le> Suc n \<and> mappages_loop r a lst pa perm s = Ok (if k = Suc n then 0 else -1) s' \<and>
           pt_upd r (pte_map (pte_of (mem s) r) a k pa perm) s s' \<and> (k \<noteq> Suc n \<longrightarrow> kmem_free s' = {})"
  using assms
proof (induction n arbitrary: a pa s)
  case 0
  then have a: "a < MAXVA" "lst = a" "pte_of (mem s) r a AND PTE_V = 0"
    by (auto simp: word_less_nat_alt)
  note simps = mappages_loop.simps [of r a]
  from 0(1,2) a(1) show ?case
  proof (cases rule: walk_set_leaf)
    case (1 t)
    then have "mappages_loop r a lst pa perm s = Ok (-1) t" by (simp add: simps)
    with 1 show ?thesis by (intro exI [of _ 0] exI [of _ t]) simp
  next
    case (2 pte t)
    have "pt_upd r (pte_map (pte_of (mem s) r) a (Suc 0) pa perm) s
        (t\<lparr>mem := st64 (mem t) pte (PA2PTE pa OR perm OR PTE_V)\<rparr>)"
      by (rule pt_upd_cong [OF 2(4)]) (auto simp: pte_map_def)
    moreover have "mappages_loop r a lst pa perm s =
        Ok 0 (t\<lparr>mem := st64 (mem t) pte (PA2PTE pa OR perm OR PTE_V)\<rparr>)"
      using 2 a by (simp add: simps Let_def)
    ultimately show ?thesis by (intro exI [of _ "Suc 0"]) auto
  qed
next
  case (Suc n)
  then have a: "a < MAXVA" "unat a + 4096 < 2 ^ 64" by (auto simp: word_less_nat_alt)
  note nx = page_next [OF Suc.prems(3) a(2)]
  have lst: "lst \<noteq> a" "lst = a + PGSIZE + of_nat (4096 * n)"
  proof -
    have "unat lst = unat a + 4096 * Suc n"
      unfolding Suc.prems(5) by (rule unat_add_small) (use Suc.prems(4) in simp)
    then show "lst \<noteq> a" by auto
    show "lst = a + PGSIZE + of_nat (4096 * n)" using Suc.prems(5) by (simp add: algebra_simps)
  qed
  have un: "pte_of (mem s) r a AND PTE_V = 0" using Suc.prems(6) [of a] a(1) by simp
  note simps = mappages_loop.simps [of r a]
  from Suc.prems(1,2) a(1) show ?case
  proof (cases rule: walk_set_leaf)
    case (1 t)
    then have "mappages_loop r a lst pa perm s = Ok (-1) t" by (simp add: simps)
    with 1 show ?thesis by (intro exI [of _ 0] exI [of _ t]) simp
  next
    case (2 pte t)
    let ?t = "t\<lparr>mem := st64 (mem t) pte (PA2PTE pa OR perm OR PTE_V)\<rparr>"
    have step: "mappages_loop r a lst pa perm s = mappages_loop r (a + PGSIZE) lst (pa + PGSIZE) perm ?t"
      using 2 un lst(1) by (simp add: simps Let_def)
    note u = 2(4) [of "PA2PTE pa OR perm OR PTE_V"]
    have t: "kmem_inv ?t" "pt_inv ?t r"
      "\<And>vb. vb < MAXVA \<Longrightarrow> pte_of (mem ?t) r vb =
         (if pageno vb = pageno a then PA2PTE pa OR perm OR PTE_V else pte_of (mem s) r vb)"
      using u unfolding pt_upd_def by blast+
    obtain k s' where k: "k \<le> Suc n"
      "mappages_loop r (a + PGSIZE) lst (pa + PGSIZE) perm ?t = Ok (if k = Suc n then 0 else -1) s'"
      "pt_upd r (pte_map (pte_of (mem ?t) r) (a + PGSIZE) k (pa + PGSIZE) perm) ?t s'"
      "k \<noteq> Suc n \<longrightarrow> kmem_free s' = {}"
      using Suc.IH [OF t(1,2) nx(2) _ lst(2), of "pa + PGSIZE"] Suc.prems(4,6) nx t(3) by auto
    have "pt_upd r (pte_map (pte_of (mem s) r) a (Suc k) pa perm) ?t s'"
      by (rule pt_upd_cong [OF k(3)])
        (simp only: pte_map_Suc [OF Suc.prems(3) a(2), symmetric], simp only: pte_map_def t(3))
    from pt_upd_trans [OF u this] show ?thesis
      using k(1,2,4) step by (intro exI [of _ "Suc k"] exI [of _ s']) auto
  qed
qed

lemma mappages_spec:
  assumes "kmem_inv s" and "pt_inv s r" and "page_aligned va" and "0 < n"
    and "unat va + 4096 * n \<le> unat MAXVA"
    and "\<And>vb. vb < MAXVA \<Longrightarrow> pageno va \<le> pageno vb \<Longrightarrow> pageno vb < pageno va + n \<Longrightarrow>
           pte_of (mem s) r vb AND PTE_V = 0"
  shows "\<exists>k s'. k \<le> n \<and> mappages r va (of_nat (4096 * n)) pa perm s = Ok (if k = n then 0 else -1) s' \<and>
           pt_upd r (pte_map (pte_of (mem s) r) va k pa perm) s s' \<and> (k \<noteq> n \<longrightarrow> kmem_free s' = {})"
proof -
  obtain l where n: "n = Suc l" using assms(4) gr0_implies_Suc by blast
  let ?sz = "of_nat (4096 * n) :: u64"
  have u: "unat ?sz = 4096 * n" using assms(5) unat_add_small [of "0 :: u64" "4096 * n"] by simp
  then have "?sz mod PGSIZE = 0" "va mod PGSIZE = 0"
    unfolding mod_PGSIZE_iff using assms(3) by simp_all
  moreover have "?sz \<noteq> 0" using u assms(4) by (metis mult_is_0 not_gr_zero unat_0 zero_neq_numeral)
  moreover have "va + ?sz - PGSIZE = va + of_nat (4096 * l)" by (simp add: n)
  ultimately have "mappages r va ?sz pa perm s = mappages_loop r va (va + of_nat (4096 * l)) pa perm s"
    unfolding mappages_def by (simp only: simp_thms if_False if_True)
  then show ?thesis
    using mappages_loop_spec [OF assms(1-3), of l "va + of_nat (4096 * l)" pa perm] assms(5,6) n
    by (auto simp: less_Suc_eq_le)
qed

lemma mappages_remap:
  assumes "kmem_inv s" and "pt_inv s r" and "page_aligned va" and "va < MAXVA"
    and "sz mod PGSIZE = 0" and "sz \<noteq> 0" and "pte_of (mem s) r va AND PTE_V \<noteq> 0"
  shows "mappages r va sz pa perm s = Panic ''mappages: remap''"
proof -
  have n: "pt_node (mem s) r (lpath va) \<noteq> None" using assms(7) by (auto simp: pte_of_def split: option.splits)
  from assms(1,2,4) show ?thesis
  proof (cases rule: walk_set_leaf)
    case (1 t)
    have "\<exists>pte s'. walk r va True s = Ok pte s' \<and> pte \<noteq> 0" using n walk_existing [OF assms(2,4)] by blast
    with 1 show ?thesis by simp
  next
    case (2 pte t)
    then show ?thesis using assms
      by (simp add: mappages_def mod_PGSIZE_iff mappages_loop.simps [of r va])
  qed
qed

lemma mappages_nomem:
  assumes "page_aligned va" and "mappages r va PGSIZE pa perm s = Ok (-1) t"
  shows "walk r va True s = Ok 0 t"
  using assms
  by (auto simp: mappages_def mod_PGSIZE_iff mappages_loop.simps [of r va] res_iff Let_def split: if_splits)

end
