(* ===== verification/Uvm.thy ===== *)
theory Uvm
  imports Pagetable
begin

text \<open>
  Releasing user memory (\<open>uvmunmap\<close>, \<open>uvmdealloc\<close>, \<open>freewalk\<close>, \<open>uvmfree\<close>) and growing or copying
  it (\<open>uvmalloc\<close>, \<open>uvmcopy\<close>) in \<open>kernel/vm.c\<close>. \<open>pt_rel r f D s s'\<close> says that a step turned the
  mapping of table \<open>r\<close> into \<open>f\<close> and returned exactly the pages \<open>D\<close> to the allocator.
\<close>

subsection \<open>Unmapping\<close>

text \<open>
  The leaf pages of the addresses in \<open>P\<close> belong to this table: they are allocated, are not
  page-table pages, and no two addresses share one.
\<close>

definition leaf_owned :: "'a kmem_scheme \<Rightarrow> u64 \<Rightarrow> (u64 \<Rightarrow> bool) \<Rightarrow> bool" where
  "leaf_owned s r P \<longleftrightarrow>
     (\<forall>va. P va \<longrightarrow> pte_of (mem s) r va AND PTE_V \<noteq> 0 \<longrightarrow>
        ram_page s (PTE2PA (pte_of (mem s) r va)) \<and> PTE2PA (pte_of (mem s) r va) \<notin> kmem_free s \<and>
        PTE2PA (pte_of (mem s) r va) \<notin> pt_pages (mem s) r) \<and>
     (\<forall>va vb. P va \<longrightarrow> P vb \<longrightarrow> pte_of (mem s) r va AND PTE_V \<noteq> 0 \<longrightarrow>
        pte_of (mem s) r vb AND PTE_V \<noteq> 0 \<longrightarrow>
        PTE2PA (pte_of (mem s) r va) = PTE2PA (pte_of (mem s) r vb) \<longrightarrow> pageno va = pageno vb)"

text \<open>From \<open>s\<close> to \<open>s'\<close> the mapping became \<open>f\<close> and the pages \<open>D\<close> were freed.\<close>

definition pt_rel :: "u64 \<Rightarrow> (u64 \<Rightarrow> u64) \<Rightarrow> u64 set \<Rightarrow> 'a kmem_scheme \<Rightarrow> 'a kmem_scheme \<Rightarrow> bool" where
  "pt_rel r f D s s' \<longleftrightarrow>
     kmem_inv s' \<and> pt_inv s' r \<and> (\<forall>va<MAXVA. pte_of (mem s') r va = f va) \<and>
     kmem_free s' = kmem_free s \<union> D \<and> pt_pages (mem s') r = pt_pages (mem s) r \<and>
     (\<forall>x. pageno x \<notin> pageno ` (pt_pages (mem s) r \<union> D) \<longrightarrow> mem s' x = mem s x) \<and>
     mem_only s s'"

lemma pt_rel_refl: "kmem_inv s \<Longrightarrow> pt_inv s r \<Longrightarrow> pt_rel r (pte_of (mem s) r) {} s s"
  by (simp add: pt_rel_def)

lemma pt_rel_same:
  assumes "pt_rel r f D s t"
  shows "kend t = kend s" and "held t = held s" and "kmem.more t = kmem.more s"
proof -
  have "mem_only s t" using assms by (simp add: pt_rel_def)
  then show "kend t = kend s" "held t = held s" "kmem.more t = kmem.more s"
    by (simp_all add: mem_only_same)
qed

lemma pt_rel_cong:
  "pt_rel r f D s s' \<Longrightarrow> (\<And>va. va < MAXVA \<Longrightarrow> f va = g va) \<Longrightarrow> D = E \<Longrightarrow> pt_rel r g E s s'"
  by (auto simp: pt_rel_def)

lemma pt_rel_trans:
  assumes "pt_rel r f D s t" and "pt_rel r g E t u"
  shows "pt_rel r g (D \<union> E) s u"
proof -
  have "mem_only s u" using assms mem_only_trans unfolding pt_rel_def by blast
  then show ?thesis using assms by (auto simp: pt_rel_def image_Un Un_assoc)
qed

lemma kfree_pt_rel:
  assumes k: "kmem_inv s" and inv: "pt_inv s r" and p: "ram_page s p" "p \<notin> kmem_free s"
    "p \<notin> pt_pages (mem s) r"
  shows "\<exists>t. kfree p s = Ok () t \<and> pt_rel r (pte_of (mem s) r) {p} s t \<and>
           (\<forall>q. pt_path q \<longrightarrow> pt_node (mem t) r q = pt_node (mem s) r q)"
proof -
  obtain ps where ps: "kmem_pages s ps" using k by (auto simp: kmem_inv_def)
  have "p \<notin> set ps" using p(2) kmem_free_eq [OF ps] by simp
  note f = kfree_Ok [OF ps p(1) this]
  let ?t = "s\<lparr>mem := st64 (memset (mem s) p 1 4096) p (freelist s), freelist := p\<rparr>"
  have pa: "page_aligned p" using p(1) by (simp add: ram_page_def)
  have m: "mem ?t x = mem s x" if "pageno x \<noteq> pageno p" for x
    using that pa by (simp add: st64_other_page page_aligned_aligned8 memset_page_apply)
  have kf: "kmem_free ?t = insert p (kmem_free s)"
    using kmem_free_eq [OF f(2)] kmem_free_eq [OF ps] by simp
  have fr: "mem ?t x = mem s x" if "a \<in> pt_pages (mem s) r" "pageno x = pageno a" for a x
    using that p(3) pt_inv_aligned [OF inv that(1)] pa page_aligned_eqI by (metis m)
  have d: "kmem_free ?t \<inter> pt_pages (mem s) r = {}"
    using kf p(3) inv by (auto simp: pt_inv_def)
  note F = pt_inv_frame [OF inv fr _ d]
  have "kmem_inv ?t" using f(2) unfolding kmem_inv_def by blast
  then have "pt_rel r (pte_of (mem s) r) {p} s ?t"
    unfolding pt_rel_def using F kf m by auto
  then show ?thesis using f(1) F(4) by auto
qed

lemma leaf_owned_inj:
  "leaf_owned s r P \<Longrightarrow> P va \<Longrightarrow> P vb \<Longrightarrow> pte_of (mem s) r va AND PTE_V \<noteq> 0 \<Longrightarrow>
   pte_of (mem s) r vb AND PTE_V \<noteq> 0 \<Longrightarrow> PTE2PA (pte_of (mem s) r va) = PTE2PA (pte_of (mem s) r vb) \<Longrightarrow>
   pageno va = pageno vb"
  unfolding leaf_owned_def by blast

lemma leaf_ownedD:
  "leaf_owned s r P \<Longrightarrow> P va \<Longrightarrow> pte_of (mem s) r va AND PTE_V \<noteq> 0 \<Longrightarrow>
   ram_page s (PTE2PA (pte_of (mem s) r va)) \<and> PTE2PA (pte_of (mem s) r va) \<notin> kmem_free s \<and>
   PTE2PA (pte_of (mem s) r va) \<notin> pt_pages (mem s) r"
  unfolding leaf_owned_def by blast

lemma leaf_owned_pt_rel:
  assumes o: "leaf_owned s r P" and P: "\<And>va. P va \<Longrightarrow> va < MAXVA"
    and rel: "pt_rel r f D s t" and f: "\<And>va. P va \<Longrightarrow> f va AND PTE_V \<noteq> 0 \<Longrightarrow>
      f va = pte_of (mem s) r va \<and> PTE2PA (f va) \<notin> D"
  shows "leaf_owned t r P"
proof -
  have e: "P va \<Longrightarrow> pte_of (mem t) r va = f va" for va using P rel by (simp add: pt_rel_def)
  have *: "kmem_free t = kmem_free s \<union> D" "pt_pages (mem t) r = pt_pages (mem s) r" "kend t = kend s"
    using rel pt_rel_same [OF rel] by (simp_all add: pt_rel_def)
  have f': "pte_of (mem t) r va = pte_of (mem s) r va" "PTE2PA (pte_of (mem s) r va) \<notin> D"
    if "P va" "pte_of (mem t) r va AND PTE_V \<noteq> 0" for va
    using f [OF that(1)] that e [OF that(1)] by auto
  have o': "ram_page s (PTE2PA (pte_of (mem s) r va))" "PTE2PA (pte_of (mem s) r va) \<notin> kmem_free s"
    "PTE2PA (pte_of (mem s) r va) \<notin> pt_pages (mem s) r"
    if "P va" "pte_of (mem t) r va AND PTE_V \<noteq> 0" for va
    using leaf_ownedD [OF o that(1)] that(2) f'(1) [OF that] by auto
  show ?thesis
    unfolding leaf_owned_def *
  proof (intro conjI allI impI, goal_cases)
    case (1 va)
    then show ?case using f' [OF 1] o' [OF 1] *(3) by (simp add: ram_page_def)
  next
    case (2 va)
    then show ?case using f' [OF 2] o' [OF 2] by simp
  next
    case (3 va)
    then show ?case using f' [OF 3] o' [OF 3] by simp
  next
    case (4 va vb)
    then show ?case
      using leaf_owned_inj [OF o 4(1,2)] f'(1) [OF 4(1,3)] f'(1) [OF 4(2,4)] by auto
  qed
qed

lemma pt_set_leaf_rel:
  assumes k: "kmem_inv s" and inv: "pt_inv s r" and c: "pt_node (mem s) r (lpath va) = Some c"
    and va: "va < MAXVA"
  shows "pt_rel r (\<lambda>vb. if pageno vb = pageno va then v else pte_of (mem s) r vb) {}
           s (s\<lparr>mem := st64 (mem s) (c + 8 * PX 0 va) v\<rparr>)"
proof -
  note sl = pt_set_leaf [OF k inv c va, of v]
  have cp: "c \<in> pt_pages (mem s) r"
    unfolding pt_pages_def using c pt_path_lpath [of va] by blast
  have m: "st64 (mem s) (c + 8 * PX 0 va) v x = mem s x" if "pageno x \<notin> pageno ` pt_pages (mem s) r" for x
  proof -
    have "pageno x \<noteq> pageno c" using that cp by blast
    then show ?thesis
      using st64_other_page [OF entry_aligned8 [OF _ px_less [of 0 va]], of c x]
        pt_invD(3) [OF inv pt_path_lpath c] entry_pageno [of c "px 0 va"] by simp
  qed
  show ?thesis using sl m unfolding pt_upd_def pt_rel_def by simp
qed

lemma unmap_step:
  assumes k: "kmem_inv s" and inv: "pt_inv s r" and a: "a < MAXVA"
    and v: "pte_of (mem s) r a AND PTE_V \<noteq> 0" and P: "\<And>va. P va \<Longrightarrow> va < MAXVA"
    and o: "do_free \<Longrightarrow> leaf_owned s r P \<and> P a"
  shows "\<exists>pte t. walk r a False s = Ok pte s \<and> pte \<noteq> 0 \<and> ld64 (mem s) pte = pte_of (mem s) r a \<and>
    (if do_free then kfree (PTE2PA (pte_of (mem s) r a)) s else Ok () s) = Ok () t \<and>
    pt_rel r (\<lambda>vb. if pageno vb = pageno a then 0 else pte_of (mem s) r vb)
      (if do_free then {PTE2PA (pte_of (mem s) r a)} else {}) s (t\<lparr>mem := st64 (mem t) pte 0\<rparr>) \<and>
    (do_free \<longrightarrow> leaf_owned (t\<lparr>mem := st64 (mem t) pte 0\<rparr>) r P)"
proof -
  obtain c where c: "pt_node (mem s) r (lpath a) = Some c"
    using v by (auto simp: pte_of_def split: option.splits)
  let ?pte = "c + 8 * PX 0 a" and ?p = "PTE2PA (pte_of (mem s) r a)"
  let ?D = "if do_free then {?p} else {}"
  have w: "walk r a False s = Ok ?pte s" "?pte \<noteq> 0" "ld64 (mem s) ?pte = pte_of (mem s) r a"
    using walk_lookup [OF a, of r s] c entry_neq_0 [of c "px 0 a"] pt_invD [OF inv pt_path_lpath c]
    by (simp_all add: pte_of_def)
  have "\<exists>t. (if do_free then kfree ?p s else Ok () s) = Ok () t \<and> pt_rel r (pte_of (mem s) r) ?D s t \<and>
      pt_node (mem t) r (lpath a) = Some c"
  proof (cases do_free)
    case True
    then have "ram_page s ?p" "?p \<notin> kmem_free s" "?p \<notin> pt_pages (mem s) r"
      using o v by (auto simp: leaf_owned_def)
    from kfree_pt_rel [OF k inv this] show ?thesis using True c by auto
  qed (use c pt_rel_refl [OF k inv] in auto)
  then obtain t where t: "(if do_free then kfree ?p s else Ok () s) = Ok () t"
    "pt_rel r (pte_of (mem s) r) ?D s t" "pt_node (mem t) r (lpath a) = Some c" by blast
  have ti: "kmem_inv t" "pt_inv t r" "\<And>va. va < MAXVA \<Longrightarrow> pte_of (mem t) r va = pte_of (mem s) r va"
    using t(2) by (auto simp: pt_rel_def)
  let ?t = "t\<lparr>mem := st64 (mem t) ?pte 0\<rparr>"
  have "pt_rel r (\<lambda>vb. if pageno vb = pageno a then 0 else pte_of (mem t) r vb) {} t ?t"
    by (rule pt_set_leaf_rel [OF ti(1,2) t(3) a])
  from pt_rel_trans [OF t(2) this]
  have rel: "pt_rel r (\<lambda>vb. if pageno vb = pageno a then 0 else pte_of (mem s) r vb) ?D s ?t"
    by (rule pt_rel_cong) (auto simp: ti(3))
  have lo: "leaf_owned ?t r P" if do_free
  proof (rule leaf_owned_pt_rel [OF _ P rel])
    show "leaf_owned s r P" using that o by simp
    fix va
    assume va: "P va" "(if pageno va = pageno a then 0 else pte_of (mem s) r va) AND PTE_V \<noteq> 0"
    then have n: "pageno va \<noteq> pageno a" by auto
    then have "PTE2PA (pte_of (mem s) r va) \<noteq> ?p"
      using va v o [OF that] leaf_owned_inj [of s r P va a] by auto
    then show "(if pageno va = pageno a then 0 else pte_of (mem s) r va) = pte_of (mem s) r va \<and>
      PTE2PA (if pageno va = pageno a then 0 else pte_of (mem s) r va) \<notin> ?D"
      using n by simp
  qed
  show ?thesis
    by (intro exI [of _ ?pte] exI [of _ t] conjI impI) (fact w t(1) rel lo)+
qed

definition unmapped :: "(u64 \<Rightarrow> u64) \<Rightarrow> u64 \<Rightarrow> nat \<Rightarrow> u64 \<Rightarrow> u64" where
  "unmapped f a n vb =
     (if pageno a \<le> pageno vb \<and> pageno vb < pageno a + n \<and> f vb AND PTE_V \<noteq> 0 then 0 else f vb)"

definition leaf_pages :: "(u64 \<Rightarrow> u64) \<Rightarrow> u64 \<Rightarrow> nat \<Rightarrow> u64 set" where
  "leaf_pages f a n =
     {PTE2PA (f vb) |vb. vb < MAXVA \<and> pageno a \<le> pageno vb \<and> pageno vb < pageno a + n \<and>
        f vb AND PTE_V \<noteq> 0}"

lemma leaf_pages_cong:
  "(\<And>vb. vb < MAXVA \<Longrightarrow> f vb = g vb) \<Longrightarrow> leaf_pages f a n = leaf_pages g a n"
  unfolding leaf_pages_def by (intro Collect_cong ex_cong1) auto

lemma pte_of_same_page:
  "va < MAXVA \<Longrightarrow> vb < MAXVA \<Longrightarrow> pageno va = pageno vb \<Longrightarrow> pte_of m r va = pte_of m r vb"
proof -
  assume "va < MAXVA" "vb < MAXVA" "pageno va = pageno vb"
  then have "lpath va = lpath vb \<and> px 0 va = px 0 vb" by (simp add: lpath_eq_iff)
  then show "pte_of m r va = pte_of m r vb" by (simp only: pte_of_def)
qed

lemma unmap_skip:
  assumes "a < MAXVA" and "pte_of m r a AND PTE_V = 0" and "pageno b = Suc (pageno a)"
  shows "vb < MAXVA \<Longrightarrow> unmapped (pte_of m r) b n vb = unmapped (pte_of m r) a (Suc n) vb"
    and "leaf_pages (pte_of m r) b n = leaf_pages (pte_of m r) a (Suc n)"
proof -
  have *: "pte_of m r v AND PTE_V = 0" if "v < MAXVA" "pageno v = pageno a" for v
    using pte_of_same_page [OF that(1) assms(1) that(2), of m r] assms(2) by simp
  have i: "v < MAXVA \<and> pageno b \<le> pageno v \<and> pageno v < pageno b + n \<and> pte_of m r v AND PTE_V \<noteq> 0 \<longleftrightarrow>
    v < MAXVA \<and> pageno a \<le> pageno v \<and> pageno v < pageno a + Suc n \<and> pte_of m r v AND PTE_V \<noteq> 0" for v
    using * [of v] assms(3) by (cases "pageno v = pageno a") auto
  show "unmapped (pte_of m r) b n vb = unmapped (pte_of m r) a (Suc n) vb" if "vb < MAXVA"
    unfolding unmapped_def using i [of vb] that by (simp only: simp_thms)
  show "leaf_pages (pte_of m r) b n = leaf_pages (pte_of m r) a (Suc n)"
    unfolding leaf_pages_def i ..
qed

lemma unmap_take:
  assumes "a < MAXVA" and "pte_of m r a AND PTE_V \<noteq> 0" and "pageno b = Suc (pageno a)"
  defines "g \<equiv> \<lambda>vb. if pageno vb = pageno a then 0 else pte_of m r vb"
  shows "vb < MAXVA \<Longrightarrow> unmapped g b n vb = unmapped (pte_of m r) a (Suc n) vb"
    and "{PTE2PA (pte_of m r a)} \<union> leaf_pages g b n = leaf_pages (pte_of m r) a (Suc n)"
proof -
  have *: "pte_of m r v = pte_of m r a" if "v < MAXVA" "pageno v = pageno a" for v
    using pte_of_same_page [OF that(1) assms(1) that(2)] .
  show "unmapped g b n vb = unmapped (pte_of m r) a (Suc n) vb" if "vb < MAXVA"
    using * [OF that] assms(2,3) by (auto simp: unmapped_def g_def)
  show "{PTE2PA (pte_of m r a)} \<union> leaf_pages g b n = leaf_pages (pte_of m r) a (Suc n)"
  proof (intro set_eqI iffI)
    fix p
    assume "p \<in> {PTE2PA (pte_of m r a)} \<union> leaf_pages g b n"
    then show "p \<in> leaf_pages (pte_of m r) a (Suc n)"
      using assms by (fastforce simp: leaf_pages_def g_def split: if_splits)
  next
    fix p
    assume "p \<in> leaf_pages (pte_of m r) a (Suc n)"
    then obtain v where v: "p = PTE2PA (pte_of m r v)" "v < MAXVA" "pageno a \<le> pageno v"
      "pageno v < pageno a + Suc n" "pte_of m r v AND PTE_V \<noteq> 0"
      by (auto simp: leaf_pages_def)
    then show "p \<in> {PTE2PA (pte_of m r a)} \<union> leaf_pages g b n"
      using * [of v] assms(3)
      by (cases "pageno v = pageno a") (auto simp: leaf_pages_def g_def intro!: exI [of _ v])
  qed
qed

lemma uvmunmap_loop_spec:
  assumes "kmem_inv s" and "pt_inv s r" and "page_aligned a" and "unat a + 4096 * n \<le> unat MAXVA"
    and "lim = a + of_nat (4096 * n)" and P: "\<And>va. P va \<Longrightarrow> va < MAXVA"
    and "do_free \<Longrightarrow> leaf_owned s r P \<and>
      (\<forall>vb<MAXVA. pageno a \<le> pageno vb \<and> pageno vb < pageno a + n \<longrightarrow> P vb)"
  shows "\<exists>s'. uvmunmap_loop r a lim do_free s = Ok () s' \<and>
    pt_rel r (unmapped (pte_of (mem s) r) a n)
      (if do_free then leaf_pages (pte_of (mem s) r) a n else {}) s s' \<and>
    (do_free \<longrightarrow> leaf_owned s' r P)"
  using assms(1-5,7)
proof (induction n arbitrary: a s)
  case 0
  have "pt_rel r (unmapped (pte_of (mem s) r) a 0)
      (if do_free then leaf_pages (pte_of (mem s) r) a 0 else {}) s s"
    by (rule pt_rel_cong [OF pt_rel_refl [OF 0(1,2)]]) (auto simp: unmapped_def leaf_pages_def)
  then show ?case using 0 by (simp add: uvmunmap_loop.simps [of r a])
next
  case (Suc n)
  have a: "a < MAXVA" "unat a + 4096 < 2 ^ 64" using Suc.prems(4) by (auto simp: word_less_nat_alt)
  note nx = page_next [OF Suc.prems(3) a(2)]
  have lim: "a < lim" "lim = a + PGSIZE + of_nat (4096 * n)"
  proof -
    have "unat lim = unat a + 4096 * Suc n"
      unfolding Suc.prems(5) by (rule unat_add_small) (use Suc.prems(4) in simp)
    then show "a < lim" by (simp add: word_less_nat_alt)
    show "lim = a + PGSIZE + of_nat (4096 * n)" using Suc.prems(5) by (simp add: algebra_simps)
  qed
  have n4: "unat (a + PGSIZE) + 4096 * n \<le> unat MAXVA" using Suc.prems(4) nx(1) by simp
  note IH = Suc.IH [OF _ _ nx(2) n4 lim(2)]
  note simps = uvmunmap_loop.simps [of r a]
  show ?case
  proof (cases "pte_of (mem s) r a AND PTE_V = 0")
    case True
    have "uvmunmap_loop r a lim do_free s = uvmunmap_loop r (a + PGSIZE) lim do_free s"
      using True a(1) lim(1) by (simp add: simps walk_lookup pte_of_def Let_def split: option.splits)
    moreover obtain s' where s': "uvmunmap_loop r (a + PGSIZE) lim do_free s = Ok () s'"
      "pt_rel r (unmapped (pte_of (mem s) r) (a + PGSIZE) n)
         (if do_free then leaf_pages (pte_of (mem s) r) (a + PGSIZE) n else {}) s s'"
      "do_free \<longrightarrow> leaf_owned s' r P"
      using IH [OF Suc.prems(1,2)] Suc.prems(6) nx(3) by auto
    moreover have "pt_rel r (unmapped (pte_of (mem s) r) a (Suc n))
      (if do_free then leaf_pages (pte_of (mem s) r) a (Suc n) else {}) s s'"
      by (rule pt_rel_cong [OF s'(2) unmap_skip(1) [OF a(1) True nx(3)]])
        (simp_all only: unmap_skip(2) [OF a(1) True nx(3)])
    ultimately show ?thesis by auto
  next
    case False
    have o: "leaf_owned s r P \<and> P a" if do_free using Suc.prems(6) [OF that] a(1) by simp
    from unmap_step [OF Suc.prems(1,2) a(1) False P o]
    obtain pte t where t: "walk r a False s = Ok pte s" "pte \<noteq> 0" "ld64 (mem s) pte = pte_of (mem s) r a"
      "(if do_free then kfree (PTE2PA (pte_of (mem s) r a)) s else Ok () s) = Ok () t"
      "pt_rel r (\<lambda>vb. if pageno vb = pageno a then 0 else pte_of (mem s) r vb)
         (if do_free then {PTE2PA (pte_of (mem s) r a)} else {}) s (t\<lparr>mem := st64 (mem t) pte 0\<rparr>)"
      "do_free \<longrightarrow> leaf_owned (t\<lparr>mem := st64 (mem t) pte 0\<rparr>) r P" by blast
    let ?t = "t\<lparr>mem := st64 (mem t) pte 0\<rparr>"
    let ?g = "\<lambda>vb. if pageno vb = pageno a then 0 else pte_of (mem s) r vb"
    have step: "uvmunmap_loop r a lim do_free s = uvmunmap_loop r (a + PGSIZE) lim do_free ?t"
      using False lim(1) t(1-4) by (cases do_free) (simp_all add: simps Let_def)
    have ti: "kmem_inv ?t" "pt_inv ?t r" "\<And>vb. vb < MAXVA \<Longrightarrow> pte_of (mem ?t) r vb = ?g vb"
      using t(5) unfolding pt_rel_def by blast+
    have t6: "leaf_owned ?t r P \<and>
      (\<forall>vb<MAXVA. pageno (a + PGSIZE) \<le> pageno vb \<and> pageno vb < pageno (a + PGSIZE) + n \<longrightarrow> P vb)" if do_free
      using that t(6) Suc.prems(6) [OF that] nx(3) by simp
    obtain s' where s': "uvmunmap_loop r (a + PGSIZE) lim do_free ?t = Ok () s'"
      "pt_rel r (unmapped (pte_of (mem ?t) r) (a + PGSIZE) n)
         (if do_free then leaf_pages (pte_of (mem ?t) r) (a + PGSIZE) n else {}) ?t s'"
      "do_free \<longrightarrow> leaf_owned s' r P"
      using IH [OF ti(1,2) t6] by blast
    have lp: "leaf_pages (pte_of (mem ?t) r) (a + PGSIZE) n = leaf_pages ?g (a + PGSIZE) n"
      by (rule leaf_pages_cong) (rule ti(3))
    have um: "unmapped (pte_of (mem ?t) r) (a + PGSIZE) n vb = unmapped (pte_of (mem s) r) a (Suc n) vb"
      if "vb < MAXVA" for vb
      using unmap_take(1) [OF a(1) False nx(3) that, of n] unfolding unmapped_def ti(3) [OF that] .
    have "pt_rel r (unmapped (pte_of (mem s) r) a (Suc n))
      (if do_free then leaf_pages (pte_of (mem s) r) a (Suc n) else {}) s s'"
      by (rule pt_rel_cong [OF pt_rel_trans [OF t(5) s'(2)] um])
        (use unmap_take(2) [OF a(1) False nx(3), of n] lp in \<open>cases do_free, simp_all\<close>)
    then show ?thesis using step s'(1,3) by auto
  qed
qed

lemma uvmunmap_spec:
  assumes "kmem_inv s" and "pt_inv s r" and "page_aligned va" and "unat va + 4096 * n \<le> unat MAXVA"
    and P: "\<And>v. P v \<Longrightarrow> v < MAXVA"
    and "do_free \<Longrightarrow> leaf_owned s r P \<and>
      (\<forall>vb<MAXVA. pageno va \<le> pageno vb \<and> pageno vb < pageno va + n \<longrightarrow> P vb)"
  shows "\<exists>s'. uvmunmap r va (of_nat n) do_free s = Ok () s' \<and>
    pt_rel r (unmapped (pte_of (mem s) r) va n)
      (if do_free then leaf_pages (pte_of (mem s) r) va n else {}) s s' \<and>
    (do_free \<longrightarrow> leaf_owned s' r P)"
proof -
  have "va mod PGSIZE = 0" using assms(3) by (simp only: mod_PGSIZE_iff)
  moreover have "of_nat n * PGSIZE = (of_nat (4096 * n) :: u64)" by simp
  ultimately show ?thesis
    using uvmunmap_loop_spec [OF assms(1-4) refl P assms(6)]
    unfolding uvmunmap_def by (simp only: simp_thms if_False)
qed

subsection \<open>Empty tables\<close>

lemma pt_node_empty:
  assumes "\<And>i. i < 512 \<Longrightarrow> ld64 m (r + 8 * of_nat i) = 0" and "\<forall>i\<in>set p. i < 512"
  shows "pt_node m r p = (if p = [] then Some r else None)"
  using assms by (cases p) (auto simp: pt_child_def Let_def)

lemma pt_inv_empty:
  assumes z: "\<And>i. i < 512 \<Longrightarrow> ld64 (mem s) (r + 8 * of_nat i) = 0"
    and "ram_page s r" and "r \<notin> kmem_free s"
  shows "pt_inv s r" and "pt_pages (mem s) r = {r}" and "pte_of (mem s) r va = 0"
proof -
  have n: "pt_path p \<Longrightarrow> pt_node (mem s) r p = (if p = [] then Some r else None)" for p
    using pt_node_empty [OF z] by (simp add: pt_path_def)
  show pp: "pt_pages (mem s) r = {r}" 
    using n [of "[]"] by (auto simp: pt_pages_def n split: if_splits intro: exI [of _ "[]"])
  show "pte_of (mem s) r va = 0" 
  proof -
    have "lpath va \<noteq> []" by (simp add: lpath_def)
    then show ?thesis using n [of "lpath va"] by (simp add: pte_of_def)
  qed
  show "pt_inv s r"
    unfolding pt_inv_def pp
  proof (intro conjI allI impI ballI, goal_cases)
    case (4 p a i)
    then have "pt_path p" "i < 512" by (auto dest: pt_path_snocD)
    with 4 show ?case using n [of p] z [of i] by (auto split: if_splits)
  next
    case (5 i)
    then show ?case by (simp add: z)
  qed (use assms(2,3) in \<open>auto simp: n split: if_splits\<close>)
qed

lemma uvmcreate_spec:
  assumes "kmem_pages s ps"
  shows "case ps of [] \<Rightarrow> uvmcreate s = Ok 0 s
    | p # ps' \<Rightarrow> \<exists>s'. uvmcreate s = Ok p s' \<and> kmem_pages s' ps' \<and> pt_inv s' p \<and>
        pt_pages (mem s') p = {p} \<and> (\<forall>va. pte_of (mem s') p va = 0) \<and>
        (\<forall>x. pageno x \<noteq> pageno p \<longrightarrow> mem s' x = mem s x) \<and>
        mem_only s s'"
proof (cases ps)
  case Nil
  then show ?thesis using kalloc_empty [OF assms [unfolded Nil]] by (simp add: uvmcreate_def)
next
  case (Cons p ps')
  note k = kalloc_Cons [OF assms [unfolded Cons]]
  let ?s = "s\<lparr>freelist := ld64 (mem s) p, mem := memset (memset (mem s) p 5 4096) p 0 4096\<rparr>"
  have p: "ram_page s p" "p \<notin> set ps'" "p \<noteq> 0" "page_aligned p" "\<forall>q\<in>set ps'. ram_page s q"
    using assms Cons by (auto simp: kmem_pages_def ram_page_def)
  have u: "uvmcreate s = Ok p ?s" using k(1) p(3) by (simp add: uvmcreate_def)
  have m: "mem ?s x = mem s x" if "pageno x \<noteq> pageno p" for x
    using that p(4) by (simp add: memset_page_apply)
  have kp: "kmem_pages ?s ps'"
    using ram_page_pageno_neq [OF p(1,2,5)] p(4)
    by (intro kmem_pages_frame [OF k(2)]) (auto simp: memset_page_apply)
  have z: "ld64 (mem ?s) (p + 8 * of_nat i) = 0" if "i < 512" for i
    using ld64_memset_zero [OF p(4) entry_aligned8 entry_pageno] that p(4) by simp
  have "ram_page ?s p" "p \<notin> kmem_free ?s" using p(1,2) kmem_free_eq [OF kp] by (auto simp: ram_page_def)
  note e = pt_inv_empty [OF z this]
  show ?thesis using Cons u kp e m by (auto intro!: exI [of _ ?s])
qed

subsection \<open>Lookup\<close>

lemma walkaddr_spec:
  assumes "pt_inv s r"
  shows "walkaddr r va s =
    Ok (if va < MAXVA \<and> pte_of (mem s) r va AND PTE_V \<noteq> 0 \<and> pte_of (mem s) r va AND PTE_U \<noteq> 0
        then PTE2PA (pte_of (mem s) r va) else 0) s"
proof (cases "va < MAXVA")
  case True
  show ?thesis
  proof (cases "pt_node (mem s) r (lpath va)")
    case None
    then show ?thesis using walk_lookup [OF True, of r s] True by (simp add: walkaddr_def pte_of_def)
  next
    case (Some c)
    then show ?thesis
      using walk_lookup [OF True, of r s] True entry_neq_0 [of c "px 0 va"]
        pt_invD [OF assms pt_path_lpath Some]
      by (auto simp: walkaddr_def pte_of_def Let_def)
  qed
next
  case False
  then show ?thesis by (simp add: walkaddr_def) (simp add: not_less)
qed

lemma ismapped_spec:
  assumes "pt_inv s r" and "va < MAXVA"
  shows "ismapped r va s = Ok (pte_of (mem s) r va AND PTE_V \<noteq> 0) s"
proof (cases "pt_node (mem s) r (lpath va)")
  case None
  then show ?thesis using walk_lookup [OF assms(2), of r s] by (simp add: ismapped_def pte_of_def)
next
  case (Some c)
  then show ?thesis
    using walk_lookup [OF assms(2), of r s] entry_neq_0 [of c "px 0 va"]
      pt_invD [OF assms(1) pt_path_lpath Some]
    by (simp add: ismapped_def pte_of_def)
qed

subsection \<open>Freeing the pages of a table\<close>

text \<open>
  The pages of a subtree with \<open>d\<close> levels below its root, and the condition under which
  \<open>freewalk\<close> may free it: allocated and distinct pages, pointers above the last level, and no
  valid entry in the last level.
\<close>

definition dpath :: "nat \<Rightarrow> nat list \<Rightarrow> bool" where
  "dpath d p \<longleftrightarrow> length p \<le> d \<and> (\<forall>i\<in>set p. i < 512)"

definition tree_pages :: "memory \<Rightarrow> nat \<Rightarrow> u64 \<Rightarrow> u64 set" where
  "tree_pages m d b = {a. \<exists>p. dpath d p \<and> pt_node m b p = Some a}"

definition tree_inv :: "'a kmem_scheme \<Rightarrow> nat \<Rightarrow> u64 \<Rightarrow> bool" where
  "tree_inv s d b \<longleftrightarrow>
     (\<forall>p a. dpath d p \<longrightarrow> pt_node (mem s) b p = Some a \<longrightarrow> ram_page s a \<and> a \<notin> kmem_free s) \<and>
     (\<forall>p q a. dpath d p \<longrightarrow> dpath d q \<longrightarrow> pt_node (mem s) b p = Some a \<longrightarrow>
        pt_node (mem s) b q = Some a \<longrightarrow> p = q) \<and>
     (\<forall>p a i. dpath d p \<longrightarrow> pt_node (mem s) b p = Some a \<longrightarrow> i < 512 \<longrightarrow>
        (if length p = d then ld64 (mem s) (a + 8 * of_nat i) AND PTE_V = 0
         else ld64 (mem s) (a + 8 * of_nat i) AND (PTE_R OR PTE_W OR PTE_X) = 0))"

lemma tree_invD:
  assumes "tree_inv s d b" and "dpath d p" and "pt_node (mem s) b p = Some a"
  shows "ram_page s a" "a \<notin> kmem_free s" "page_aligned a"
  using assms by (auto simp: tree_inv_def ram_page_def)

lemma tree_inv_inj:
  "tree_inv s d b \<Longrightarrow> dpath d p \<Longrightarrow> dpath d q \<Longrightarrow> pt_node (mem s) b p = Some a \<Longrightarrow>
   pt_node (mem s) b q = Some a \<Longrightarrow> p = q"
  unfolding tree_inv_def by blast

lemma tree_inv_entry:
  assumes "tree_inv s d b" and "dpath d p" and "pt_node (mem s) b p = Some a" and "i < 512"
  shows "length p = d \<Longrightarrow> ld64 (mem s) (a + 8 * of_nat i) AND PTE_V = 0"
    and "length p < d \<Longrightarrow> ld64 (mem s) (a + 8 * of_nat i) AND (PTE_R OR PTE_W OR PTE_X) = 0"
  using assms unfolding tree_inv_def by (metis, metis less_irrefl)

lemma dpath_Nil [simp]: "dpath d []"
  by (simp add: dpath_def)

lemma dpath_Cons [simp]: "dpath d (i # p) \<longleftrightarrow> (\<exists>e. d = Suc e \<and> i < 512 \<and> dpath e p)"
  by (cases d) (auto simp: dpath_def)

lemma dpath_snocD: "dpath d (p @ [i]) \<Longrightarrow> dpath d p \<and> i < 512"
  by (auto simp: dpath_def)

text \<open>A child of the root is again such a subtree.\<close>

lemma tree_inv_child:
  assumes inv: "tree_inv s (Suc d) b" and c: "pt_child (mem s) b i = Some c" and i: "i < 512"
  shows "tree_inv s d c" and "tree_pages (mem s) d c \<subseteq> tree_pages (mem s) (Suc d) b"
proof -
  have n: "pt_node (mem s) b (i # p) = pt_node (mem s) c p" for p using c by simp
  have dp: "dpath (Suc d) (i # p) = dpath d p" for p using i by simp
  show "tree_inv s d c"
    unfolding tree_inv_def
  proof (intro conjI allI impI, goal_cases)
    case (1 p a)
    then show ?case using tree_invD(1) [OF inv, of "i # p" a] n dp i by simp
  next
    case (2 p a)
    then show ?case using tree_invD(2) [OF inv, of "i # p" a] n dp i by simp
  next
    case (3 p q a)
    then show ?case using tree_inv_inj [OF inv, of "i # p" "i # q" a] n dp i by simp
  next
    case (4 p a j)
    then have "length p \<le> d" by (simp add: dpath_def)
    with 4 show ?case using tree_inv_entry [OF inv, of "i # p" a j] n dp i by simp
  qed
  show "tree_pages (mem s) d c \<subseteq> tree_pages (mem s) (Suc d) b"
  proof
    fix a
    assume "a \<in> tree_pages (mem s) d c"
    then obtain p where "dpath (Suc d) (i # p)" "pt_node (mem s) b (i # p) = Some a"
      unfolding tree_pages_def dp n by blast
    then show "a \<in> tree_pages (mem s) (Suc d) b" unfolding tree_pages_def by blast
  qed
qed

text \<open>
  Clearing entry \<open>i\<close> of the root after its child has been freed leaves the rest of the tree.
\<close>

lemma tree_clear:
  assumes inv: "tree_inv s (Suc d) b" and c: "pt_child (mem s) b i = Some c" and i: "i < 512"
    and fr: "\<And>x. pageno x \<notin> pageno ` tree_pages (mem s) d c \<Longrightarrow> mem t x = mem s x"
    and q: "dpath (Suc d) q" "pt_node (mem s) b q = Some a" "\<forall>z. q \<noteq> i # z"
    and j: "j < 512" "(q, j) \<noteq> ([], i)"
  shows "ld64 (st64 (mem t) (b + 8 * of_nat i) 0) (a + 8 * of_nat j) = ld64 (mem s) (a + 8 * of_nat j)"
proof -
  have b: "page_aligned b" using tree_invD(3) [OF inv, of "[]"] by simp
  have a: "page_aligned a" by (rule tree_invD(3) [OF inv q(1,2)])
  have "(b, i) \<noteq> (a, j)" using tree_inv_inj [OF inv q(1) _ q(2), of "[]"] j(2) by auto
  then have "b + 8 * of_nat i \<noteq> a + 8 * of_nat j" using entry_inj [OF b i a j(1)] by auto
  then have "ld64 (st64 (mem t) (b + 8 * of_nat i) 0) (a + 8 * of_nat j) = ld64 (mem t) (a + 8 * of_nat j)"
    by (intro ld64_st64_other entry_aligned8 a b i j(1))
  also have "\<dots> = ld64 (mem s) (a + 8 * of_nat j)"
  proof (rule ld64_page_cong)
    fix x
    assume "pageno x = pageno (a + 8 * of_nat j)"
    then have x: "pageno x = pageno a" using entry_pageno [OF a j(1)] by simp
    have "pageno a \<notin> pageno ` tree_pages (mem s) d c"
    proof
      assume "pageno a \<in> pageno ` tree_pages (mem s) d c"
      then obtain z e where z: "dpath d z" "pt_node (mem s) c z = Some e" "pageno a = pageno e"
        by (auto simp: tree_pages_def)
      then have "page_aligned e" using tree_invD(3) [OF inv, of "i # z" e] c i by simp
      then have "e = a" using z(3) a page_aligned_eqI by metis
      then show False using tree_inv_inj [OF inv, of "i # z" q a] z q c i by auto
    qed
    then show "mem t x = mem s x" using fr x by simp
  qed (rule entry_aligned8 [OF a j(1)])
  finally show ?thesis .
qed

lemma tree_clear_nodes:
  assumes inv: "tree_inv s (Suc d) b" and c: "pt_child (mem s) b i = Some c" and i: "i < 512"
    and fr: "\<And>x. pageno x \<notin> pageno ` tree_pages (mem s) d c \<Longrightarrow> mem t x = mem s x"
    and q: "dpath (Suc d) q"
  shows "pt_node (st64 (mem t) (b + 8 * of_nat i) 0) b q =
    (if \<exists>z. q = i # z then None else pt_node (mem s) b q)"
proof -
  let ?m = "st64 (mem t) (b + 8 * of_nat i) 0"
  have "pt_child ?m b i = None" by (simp add: pt_child_def Let_def)
  moreover have "\<forall>z. q \<noteq> i # z \<Longrightarrow> pt_node ?m b q = pt_node (mem s) b q" using q
  proof (induction q rule: rev_induct)
    case (snoc j q)
    then have d: "dpath (Suc d) q" "j < 512" using dpath_snocD by blast+
    have ne: "\<forall>z. q \<noteq> i # z" "(q, j) \<noteq> ([], i)" using snoc.prems(1) by auto
    note IH = snoc.IH [OF ne(1) d(1)]
    show ?case
    proof (cases "pt_node (mem s) b q")
      case (Some a)
      have "pt_child ?m a j = pt_child (mem s) a j"
        using tree_clear [OF inv c i fr d(1) Some ne(1) d(2) ne(2)] by (simp add: pt_child_def)
      then show ?thesis using IH Some by (simp add: pt_node_snoc)
    qed (use IH in \<open>simp add: pt_node_snoc\<close>)
  qed simp
  ultimately show ?thesis by auto
qed

lemma kmem_st64:
  assumes "kmem_inv s" and "ram_page s b" and "b \<notin> kmem_free s" and "i < 512"
  shows "kmem_inv (s\<lparr>mem := st64 (mem s) (b + 8 * of_nat i) v\<rparr>)"
    and "kmem_free (s\<lparr>mem := st64 (mem s) (b + 8 * of_nat i) v\<rparr>) = kmem_free s"
proof -
  obtain ps where ps: "kmem_pages s ps" using assms(1) by (auto simp: kmem_inv_def)
  have b: "page_aligned b" using assms(2) by (simp add: ram_page_def)
  have nb: "b \<notin> set ps" using assms(3) kmem_free_eq [OF ps] by simp
  have ne: "pageno q \<noteq> pageno b" if "q \<in> set ps" for q
    using ram_page_pageno_neq [OF assms(2) nb _ that] ps by (simp add: kmem_pages_def)
  have "kmem_pages (s\<lparr>mem := st64 (mem s) (b + 8 * of_nat i) v\<rparr>) ps"
    using ne st64_other_page [OF entry_aligned8 [OF b assms(4)]] entry_pageno [OF b assms(4)]
    by (intro kmem_pages_frame [OF ps]) auto
  then show "kmem_inv (s\<lparr>mem := st64 (mem s) (b + 8 * of_nat i) v\<rparr>)"
    "kmem_free (s\<lparr>mem := st64 (mem s) (b + 8 * of_nat i) v\<rparr>) = kmem_free s"
    using kmem_free_eq [OF ps] kmem_free_eq unfolding kmem_inv_def by blast+
qed

text \<open>\<open>freed D s t\<close>: the pages \<open>D\<close> went to the allocator and no other byte changed.\<close>

definition freed :: "u64 set \<Rightarrow> 'a kmem_scheme \<Rightarrow> 'a kmem_scheme \<Rightarrow> bool" where
  "freed D s t \<longleftrightarrow> kmem_inv t \<and> kmem_free t = kmem_free s \<union> D \<and>
     (\<forall>x. pageno x \<notin> pageno ` D \<longrightarrow> mem t x = mem s x) \<and>
     mem_only s t"

lemma tree_clear_inv:
  assumes inv: "tree_inv s (Suc d) b" and c: "pt_child (mem s) b i = Some c" and i: "i < 512"
    and fr: "freed (tree_pages (mem s) d c) s t"
  defines "u \<equiv> t\<lparr>mem := st64 (mem t) (b + 8 * of_nat i) 0\<rparr>"
  shows "tree_inv u (Suc d) b" "kmem_inv u" "kmem_free u = kmem_free s \<union> tree_pages (mem s) d c"
    "tree_pages (mem s) (Suc d) b = tree_pages (mem u) (Suc d) b \<union> tree_pages (mem s) d c"
    "\<And>j. j < 512 \<Longrightarrow> j \<noteq> i \<Longrightarrow> ld64 (mem u) (b + 8 * of_nat j) = ld64 (mem s) (b + 8 * of_nat j)"
    "ld64 (mem u) (b + 8 * of_nat i) = 0"
proof -
  have m: "mem t x = mem s x" if "pageno x \<notin> pageno ` tree_pages (mem s) d c" for x
    using that fr by (simp add: freed_def)
  have kt: "kmem_inv t" "kmem_free t = kmem_free s \<union> tree_pages (mem s) d c" "kend t = kend s"
  proof -
    have "mem_only s t" using fr by (simp add: freed_def)
    then show "kend t = kend s" by (simp add: mem_only_same)
  qed (use fr in \<open>auto simp: freed_def\<close>)
  have N: "pt_node (mem u) b q = (if \<exists>z. q = i # z then None else pt_node (mem s) b q)"
    if "dpath (Suc d) q" for q
    using tree_clear_nodes [OF inv c i m that] by (simp add: u_def)
  have E: "ld64 (mem u) (a + 8 * of_nat j) = ld64 (mem s) (a + 8 * of_nat j)"
    if "dpath (Suc d) q" "pt_node (mem s) b q = Some a" "\<forall>z. q \<noteq> i # z" "j < 512" "(q, j) \<noteq> ([], i)" for q a j
    using tree_clear [OF inv c i m that] by (simp add: u_def)
  show E0: "ld64 (mem u) (b + 8 * of_nat i) = 0" by (simp add: u_def)
  show "ld64 (mem u) (b + 8 * of_nat j) = ld64 (mem s) (b + 8 * of_nat j)" if "j < 512" "j \<noteq> i" for j
    using E [of "[]" b j] that by simp
  have no: "a \<notin> tree_pages (mem s) d c"
    if "dpath (Suc d) q" "pt_node (mem s) b q = Some a" "\<forall>z. q \<noteq> i # z" for q a
    using tree_inv_inj [OF inv that(1) _ that(2)] that(3) c i by (force simp: tree_pages_def)
  have b: "ram_page t b" "b \<notin> kmem_free t"
    using tree_invD [OF inv, of "[]" b] no [of "[]" b] kt by (auto simp: ram_page_def)
  show ku: "kmem_inv u" "kmem_free u = kmem_free s \<union> tree_pages (mem s) d c"
    using kmem_st64 [OF kt(1) b i] kt(2) by (simp_all add: u_def)
  show "tree_pages (mem s) (Suc d) b = tree_pages (mem u) (Suc d) b \<union> tree_pages (mem s) d c"
  proof (intro set_eqI iffI)
    fix a
    assume "a \<in> tree_pages (mem s) (Suc d) b"
    then obtain q where q: "dpath (Suc d) q" "pt_node (mem s) b q = Some a" by (auto simp: tree_pages_def)
    show "a \<in> tree_pages (mem u) (Suc d) b \<union> tree_pages (mem s) d c"
    proof (cases "\<exists>z. q = i # z")
      case True
      then show ?thesis using q c by (auto simp: tree_pages_def)
    next
      case False
      then show ?thesis using q N [OF q(1)] by (auto simp: tree_pages_def)
    qed
  qed (use N tree_inv_child(2) [OF inv c i] in \<open>auto simp: tree_pages_def split: if_splits\<close>)
  show "tree_inv u (Suc d) b"
    unfolding tree_inv_def ku(2)
  proof (intro conjI allI impI, goal_cases)
    case (1 p a)
    then show ?case using N [OF 1(1)] tree_invD(1) [OF inv 1(1)] kt(3)
      by (auto simp: ram_page_def u_def split: if_splits)
  next
    case (2 p a)
    then show ?case using N [OF 2(1)] tree_invD(2) [OF inv 2(1)] no [OF 2(1)] by (auto split: if_splits)
  next
    case (3 p q a)
    then show ?case using N [OF 3(1)] N [OF 3(2)] tree_inv_inj [OF inv 3(1,2)] by (auto split: if_splits)
  next
    case (4 p a j)
    then have s: "\<forall>z. p \<noteq> i # z" "pt_node (mem s) b p = Some a"
      using N [OF 4(1)] by (auto split: if_splits)
    have "length p \<le> Suc d" using 4(1) by (simp add: dpath_def)
    then show ?case
      using E [OF 4(1) s(2,1) 4(3)] E0 tree_inv_entry [OF inv 4(1) s(2) 4(3)] s(2)
      by (cases "(p, j) = ([], i)") auto
  qed
qed

text \<open>The state of the loop of \<open>freewalk\<close> on page \<open>b\<close> between two entries.\<close>

definition clearing :: "nat \<Rightarrow> u64 \<Rightarrow> 'a kmem_scheme \<Rightarrow> 'a kmem_scheme \<Rightarrow> bool" where
  "clearing d b s t \<longleftrightarrow> kmem_inv t \<and> tree_inv t d b \<and>
     kmem_free t \<union> tree_pages (mem t) d b = kmem_free s \<union> tree_pages (mem s) d b \<and>
     kmem_free s \<subseteq> kmem_free t \<and>
     (\<forall>i<512. ld64 (mem s) (b + 8 * of_nat i) AND PTE_V = 0 \<longrightarrow>
        ld64 (mem t) (b + 8 * of_nat i) AND PTE_V = 0) \<and>
     (\<forall>x. pageno x \<notin> pageno ` tree_pages (mem s) d b \<longrightarrow> mem t x = mem s x) \<and>
     mem_only s t"

lemma clearing_refl: "kmem_inv s \<Longrightarrow> tree_inv s d b \<Longrightarrow> clearing d b s s"
  by (simp add: clearing_def)

lemma clearing_trans:
  assumes "clearing d b s t" and "clearing d b t u"
  shows "clearing d b s u"
proof -
  have "tree_pages (mem t) d b \<subseteq> tree_pages (mem s) d b"
  proof
    fix a
    assume a: "a \<in> tree_pages (mem t) d b"
    have "tree_inv t d b" and *: "kmem_free t \<union> tree_pages (mem t) d b = kmem_free s \<union> tree_pages (mem s) d b"
      "kmem_free s \<subseteq> kmem_free t"
      using assms(1) by (simp_all add: clearing_def)
    with a have "a \<notin> kmem_free t" by (auto simp: tree_pages_def dest: tree_invD(2))
    with a * show "a \<in> tree_pages (mem s) d b" by blast
  qed
  moreover have "mem_only s u" using assms mem_only_trans unfolding clearing_def by blast
  moreover have "mem u x = mem s x" if "pageno x \<notin> pageno ` tree_pages (mem s) d b" for x
  proof -
    have "pageno x \<notin> pageno ` tree_pages (mem t) d b" using that calculation(1) by blast
    then show ?thesis using that assms by (simp add: clearing_def)
  qed
  ultimately show ?thesis using assms unfolding clearing_def by auto
qed

lemma freewalk_entry_spec:
  assumes rec: "\<And>c. tree_inv s d c \<Longrightarrow> \<exists>t. rec c s = Ok () t \<and> freed (tree_pages (mem s) d c) s t"
    and k: "kmem_inv s" and inv: "tree_inv s (Suc d) b" and i: "i < 512"
  shows "\<exists>t. freewalk_entry rec b i s = Ok () t \<and> clearing (Suc d) b s t \<and>
           ld64 (mem t) (b + 8 * of_nat i) AND PTE_V = 0"
proof (cases "ld64 (mem s) (b + 8 * of_nat i) AND PTE_V = 0")
  case True
  then show ?thesis using clearing_refl [OF k inv] by (simp add: freewalk_entry_def)
next
  case False
  let ?e = "ld64 (mem s) (b + 8 * of_nat i)"
  have c: "pt_child (mem s) b i = Some (PTE2PA ?e)" using False by (simp add: pt_child_def)
  have z: "?e AND (PTE_R OR PTE_W OR PTE_X) = 0"
    using tree_inv_entry(2) [OF inv dpath_Nil _ i] by simp
  obtain t where t: "rec (PTE2PA ?e) s = Ok () t" "freed (tree_pages (mem s) d (PTE2PA ?e)) s t"
    using rec [OF tree_inv_child(1) [OF inv c i]] by blast
  let ?u = "t\<lparr>mem := st64 (mem t) (b + 8 * of_nat i) 0\<rparr>"
  note C = tree_clear_inv [OF inv c i t(2)]
  have b: "page_aligned b" "b \<in> tree_pages (mem s) (Suc d) b"
    using tree_invD(3) [OF inv dpath_Nil] by (auto simp: tree_pages_def intro: exI [of _ "[]"])
  have "mem ?u x = mem s x" if x: "pageno x \<notin> pageno ` tree_pages (mem s) (Suc d) b" for x
  proof -
    have "pageno x \<noteq> pageno b" "pageno x \<notin> pageno ` tree_pages (mem s) d (PTE2PA ?e)"
      using x b(2) tree_inv_child(2) [OF inv c i] by blast+
    then show ?thesis
      using t(2) st64_other_page [OF entry_aligned8 [OF b(1) i]] entry_pageno [OF b(1) i]
      by (simp add: freed_def)
  qed
  moreover have "mem_only s ?u"
    using t(2) mem_only_trans [OF _ mem_only_upd(1)] by (auto simp: freed_def)
  moreover have "\<forall>j<512. ld64 (mem s) (b + 8 * of_nat j) AND PTE_V = 0 \<longrightarrow>
        ld64 (mem ?u) (b + 8 * of_nat j) AND PTE_V = 0"
    using C(5) C(6) by (metis and_zero_eq bit.conj_zero_left)
  ultimately have "clearing (Suc d) b s ?u"
    unfolding clearing_def using C(1-4) by auto
  moreover have "freewalk_entry rec b i s = Ok () ?u"
    using False z t(1) by (simp add: freewalk_entry_def Let_def)
  ultimately show ?thesis using C(6) by auto
qed

lemma freewalk_loop_spec:
  fixes s :: "'a kmem_scheme"
  assumes rec: "\<And>c (s :: 'a kmem_scheme). kmem_inv s \<Longrightarrow> tree_inv s d c \<Longrightarrow>
      \<exists>t. rec c s = Ok () t \<and> freed (tree_pages (mem s) d c) s t"
    and "kmem_inv s" and "tree_inv s (Suc d) b" and "\<forall>i\<in>set is. i < 512"
  shows "\<exists>t. freewalk_loop rec b is s = Ok () t \<and> clearing (Suc d) b s t \<and>
           (\<forall>i\<in>set is. ld64 (mem t) (b + 8 * of_nat i) AND PTE_V = 0)"
  using assms(2-4)
proof (induction "is" arbitrary: s)
  case Nil
  then show ?case using clearing_refl by auto
next
  case (Cons i "is")
  then have i: "i < 512" by simp
  obtain t where t: "freewalk_entry rec b i s = Ok () t" "clearing (Suc d) b s t"
    "ld64 (mem t) (b + 8 * of_nat i) AND PTE_V = 0"
    using freewalk_entry_spec [of s d rec b i] rec Cons.prems(1,2) i by blast
  have "kmem_inv t" "tree_inv t (Suc d) b" using t(2) by (simp_all add: clearing_def)
  then obtain u where u: "freewalk_loop rec b is t = Ok () u" "clearing (Suc d) b t u"
    "\<forall>i\<in>set is. ld64 (mem u) (b + 8 * of_nat i) AND PTE_V = 0"
    using Cons.IH Cons.prems(3) by fastforce
  have "ld64 (mem u) (b + 8 * of_nat i) AND PTE_V = 0"
    using u(2) t(3) i unfolding clearing_def by blast
  then show ?case using t(1) u(1,3) clearing_trans [OF t(2) u(2)] by simp
qed

lemma tree_pages_leaf:
  assumes "\<And>i. i < 512 \<Longrightarrow> ld64 m (b + 8 * of_nat i) AND PTE_V = 0"
  shows "tree_pages m d b = {b}"
proof -
  have "pt_node m b p = (if p = [] then Some b else None)" if "dpath d p" for p
    using that assms by (cases p) (auto simp: pt_child_def Let_def)
  then show ?thesis by (auto simp: tree_pages_def split: if_splits intro: exI [of _ "[]"])
qed

lemma freewalk_loop_skip:
  "\<forall>i\<in>set is. ld64 (mem s) (b + 8 * of_nat i) AND PTE_V = 0 \<Longrightarrow> freewalk_loop rec b is s = Ok () s"
  by (induction "is") (simp_all add: freewalk_entry_def)

lemma kfree_freed:
  assumes "kmem_inv s" and "ram_page s p" and "p \<notin> kmem_free s"
  shows "\<exists>t. kfree p s = Ok () t \<and> freed {p} s t"
proof -
  obtain ps where ps: "kmem_pages s ps" using assms(1) by (auto simp: kmem_inv_def)
  have "p \<notin> set ps" using assms(3) kmem_free_eq [OF ps] by simp
  note f = kfree_Ok [OF ps assms(2) this]
  have "page_aligned p" using assms(2) by (simp add: ram_page_def)
  then have "freed {p} s (s\<lparr>mem := st64 (memset (mem s) p 1 4096) p (freelist s), freelist := p\<rparr>)"
    using f(2) kmem_free_eq [OF ps] kmem_free_eq [OF f(2)]
    by (auto simp: freed_def kmem_inv_def st64_other_page memset_page_apply page_aligned_aligned8)
  then show ?thesis using f(1) by blast
qed

lemma freewalk_spec:
  assumes "kmem_inv s" and "tree_inv s d b"
  shows "\<exists>t. freewalk (Suc d) b s = Ok () t \<and> freed (tree_pages (mem s) d b) s t"
  using assms
proof (induction d arbitrary: b s)
  case 0
  have v: "ld64 (mem s) (b + 8 * of_nat i) AND PTE_V = 0" if "i < 512" for i
    using tree_inv_entry(1) [OF 0(2) dpath_Nil _ that] by simp
  have "ram_page s b" "b \<notin> kmem_free s" using tree_invD [OF 0(2) dpath_Nil] by simp_all
  then show ?case
    using kfree_freed [OF 0(1)] v by (simp add: freewalk_loop_skip tree_pages_leaf)
next
  case (Suc d)
  have "\<forall>i\<in>set [0..<512]. i < (512::nat)" by simp
  from freewalk_loop_spec [of d "freewalk (Suc d)", OF Suc.IH Suc.prems this]
  obtain t where t: "freewalk_loop (freewalk (Suc d)) b [0..<512] s = Ok () t" "clearing (Suc d) b s t"
    "\<forall>i\<in>set [0..<512]. ld64 (mem t) (b + 8 * of_nat i) AND PTE_V = 0" by blast
  have ti: "kmem_inv t" "tree_inv t (Suc d) b" using t(2) by (simp_all add: clearing_def)
  have "tree_pages (mem t) (Suc d) b = {b}" using t(3) by (intro tree_pages_leaf) simp
  then have kf: "insert b (kmem_free t) = kmem_free s \<union> tree_pages (mem s) (Suc d) b"
    using t(2) by (simp add: clearing_def)
  obtain u where u: "kfree b t = Ok () u" "freed {b} t u"
    using kfree_freed [OF ti(1)] tree_invD [OF ti(2) dpath_Nil] by fastforce
  have b: "b \<in> tree_pages (mem s) (Suc d) b" by (auto simp: tree_pages_def intro: exI [of _ "[]"])
  have "mem_only s u"
    using t(2) u(2) mem_only_trans [of s t u] by (simp add: clearing_def freed_def)
  moreover have "mem u x = mem s x" if x: "pageno x \<notin> pageno ` tree_pages (mem s) (Suc d) b" for x
  proof -
    have "pageno x \<noteq> pageno b" using x b by blast
    then show ?thesis using x t(2) u(2) by (simp add: clearing_def freed_def)
  qed
  ultimately have "freed (tree_pages (mem s) (Suc d) b) s u"
    using u(2) kf by (simp add: freed_def)
  then show ?case using t(1) u(1) by auto
qed

subsection \<open>\<open>uvmfree\<close>\<close>

lemma lpath_surj:
  assumes "j < 256" and "k < 512" and "i < 512"
  shows "\<exists>va<MAXVA. lpath va = [j, k] \<and> px 0 va = i"
proof -
  define n where "n = (j * 512 + k) * 512 + i"
  define va :: u64 where "va = of_nat (4096 * n)"
  have "j * 512 + k \<le> 131071" using assms by simp
  then have "n \<le> 67108863" using assms(3) unfolding n_def by simp
  then have "unat va = 4096 * n" using unat_add_small [of "0 :: u64" "4096 * n"] by (simp add: va_def)
  then have va: "va < MAXVA" "pageno va = n"
    using \<open>n \<le> 67108863\<close> by (simp_all add: word_less_nat_alt pageno_def)
  have "(x * 512 + i) mod 512 = i" "(x * 512 + i) div 512 = x" for x :: nat using assms by simp_all
  then have "n mod 512 = i" "n div 512 = j * 512 + k" unfolding n_def by blast+
  moreover have "(j * 512 + k) mod 512 = k" "(j * 512 + k) div 512 = j" using assms by simp_all
  ultimately show ?thesis
    using va px_pageno [OF va(1)] by (auto simp: lpath_def)
qed

lemma tree_inv_pt_inv:
  assumes inv: "pt_inv s r" and u: "\<And>va. va < MAXVA \<Longrightarrow> pte_of (mem s) r va AND PTE_V = 0"
  shows "tree_inv s 2 r" and "tree_pages (mem s) 2 r = pt_pages (mem s) r"
proof -
  have dp: "dpath 2 = pt_path" by (simp add: fun_eq_iff dpath_def pt_path_def)
  show "tree_pages (mem s) 2 r = pt_pages (mem s) r" by (simp add: tree_pages_def pt_pages_def dp)
  show "tree_inv s 2 r"
    unfolding tree_inv_def dp
  proof (intro conjI allI impI, goal_cases)
    case (4 p a i)
    show ?case
    proof (cases "length p = 2")
      case True
      then obtain j k where p: "p = [j, k]" by (auto simp: length_Suc_conv numeral_2_eq_2)
      have jk: "j < 512" "k < 512" using 4(1) p by (simp_all add: pt_path_def)
      have "j < 256"
      proof (rule ccontr)
        assume "\<not> j < 256"
        then have "pt_child (mem s) r j = None"
          using inv jk(1) by (simp add: pt_inv_def pt_child_def)
        then show False using 4(2) p by simp
      qed
      then obtain va where va: "va < MAXVA" "lpath va = [j, k]" "px 0 va = i"
        using lpath_surj jk(2) 4(3) by blast
      then have "pte_of (mem s) r va = ld64 (mem s) (a + 8 * of_nat i)"
        using 4(2) p by (simp only: pte_of_def option.case)
      then show ?thesis using u [OF va(1)] True by simp
    next
      case False
      then have "pt_path (p @ [i])" using 4 by (auto simp: pt_path_def)
      then show ?thesis using inv 4(2) False by (simp add: pt_inv_def)
    qed
  qed (use inv pt_inv_inj pt_invD in blast)+
qed

lemma PGROUNDUP_facts:
  assumes "sz \<le> MAXVA"
  shows "unat (PGROUNDUP sz) = (unat sz + 4095) div 4096 * 4096"
    and "PGROUNDUP sz div PGSIZE = of_nat ((unat sz + 4095) div 4096)"
proof -
  have le: "unat sz \<le> 274877906944" using assms by (simp add: word_le_nat_alt)
  then show u: "unat (PGROUNDUP sz) = (unat sz + 4095) div 4096 * 4096" by (subst unat_PGROUNDUP) auto
  have "unat (PGROUNDUP sz div PGSIZE) = (unat sz + 4095) div 4096" using u by (simp add: unat_div)
  then show "PGROUNDUP sz div PGSIZE = of_nat ((unat sz + 4095) div 4096)" by (metis of_nat_unat ucast_id)
qed

lemma uvmfree_spec:
  assumes k: "kmem_inv s" and inv: "pt_inv s r" and sz: "sz \<le> MAXVA"
    and o: "leaf_owned s r (\<lambda>va. va < MAXVA)"
    and low: "\<And>va. va < MAXVA \<Longrightarrow> pte_of (mem s) r va AND PTE_V \<noteq> 0 \<Longrightarrow> va < PGROUNDUP sz"
  shows "\<exists>t. uvmfree r sz s = Ok () t \<and> kmem_inv t \<and>
    kmem_free t = kmem_free s \<union> pt_pages (mem s) r \<union>
      {PTE2PA (pte_of (mem s) r va) |va. va < MAXVA \<and> pte_of (mem s) r va AND PTE_V \<noteq> 0} \<and>
    (\<forall>x. pageno x \<notin> pageno ` (kmem_free t - kmem_free s) \<longrightarrow> mem t x = mem s x) \<and>
    mem_only s t"
proof -
  define n where "n = (unat sz + 4095) div 4096"
  have n: "unat (PGROUNDUP sz) = n * 4096" "PGROUNDUP sz div PGSIZE = of_nat n" "4096 * n \<le> unat MAXVA"
    using PGROUNDUP_facts [OF sz] sz by (simp_all add: n_def word_le_nat_alt)
  have lo: "pageno va < n" if "va < MAXVA" "pte_of (mem s) r va AND PTE_V \<noteq> 0" for va
    using low [OF that] n(1) by (simp add: word_less_nat_alt pageno_def less_mult_imp_div_less)
  define L where "L = {PTE2PA (pte_of (mem s) r va) |va. va < MAXVA \<and> pte_of (mem s) r va AND PTE_V \<noteq> 0}"
  have L: "leaf_pages (pte_of (mem s) r) 0 n = L"
    unfolding leaf_pages_def L_def using lo by (auto simp: pageno_def)
  have U: "\<exists>t. (if sz > 0 then uvmunmap r 0 (PGROUNDUP sz div PGSIZE) True s else Ok () s) = Ok () t \<and>
      pt_rel r (unmapped (pte_of (mem s) r) 0 n) L s t"
  proof (cases "sz > 0")
    case True
    then show ?thesis
      using uvmunmap_spec [OF k inv, of 0 n "\<lambda>va. va < MAXVA" True] n o by (auto simp: L)
  next
    case False
    then have "sz = 0" by (simp add: word_gt_0_no word_gt_0)
    then have "n = 0" by (simp add: n_def)
    then have "unmapped (pte_of (mem s) r) 0 n = pte_of (mem s) r" "L = {}"
      by (auto simp: unmapped_def fun_eq_iff leaf_pages_def simp flip: L)
    then show ?thesis using False pt_rel_refl [OF k inv] by auto
  qed
  then obtain t where t: "(if sz > 0 then uvmunmap r 0 (PGROUNDUP sz div PGSIZE) True s else Ok () s) = Ok () t"
    "pt_rel r (unmapped (pte_of (mem s) r) 0 n) L s t" by blast
  have ti: "kmem_inv t" "pt_inv t r" "pt_pages (mem t) r = pt_pages (mem s) r" "kmem_free t = kmem_free s \<union> L"
    using t(2) by (auto simp: pt_rel_def)
  have "pte_of (mem t) r va AND PTE_V = 0" if "va < MAXVA" for va
    using t(2) lo [OF that] that by (auto simp: pt_rel_def unmapped_def pageno_def)
  note T = tree_inv_pt_inv [OF ti(2) this]
  obtain u where u: "freewalk 3 r t = Ok () u" "freed (pt_pages (mem s) r) t u"
    using freewalk_spec [OF ti(1) T(1)] T(2) ti(3) by (auto simp: eval_nat_numeral simp del: freewalk.simps)
  have rec: "mem_only s u"
    using u(2) t(2) mem_only_trans [of s t u] by (simp add: freed_def pt_rel_def)
  have fr: "mem u x = mem s x" if "pageno x \<notin> pageno ` (pt_pages (mem s) r \<union> L)" for x
  proof -
    have "pageno x \<notin> pageno ` pt_pages (mem s) r" using that by blast
    then show ?thesis using that t(2) u(2) by (simp add: pt_rel_def freed_def)
  qed
  have kf: "kmem_inv u" "kmem_free u = kmem_free s \<union> pt_pages (mem s) r \<union> L"
    using u(2) ti(4) by (auto simp: freed_def)
  have "kmem_free s \<inter> (pt_pages (mem s) r \<union> L) = {}"
    using inv o by (auto simp: pt_inv_def L_def dest: leaf_ownedD)
  then have "kmem_free u - kmem_free s = pt_pages (mem s) r \<union> L" using kf(2) by blast
  then show ?thesis using t(1) u(1) kf rec fr by (auto simp: uvmfree_def L_def)
qed

subsection \<open>Mapping one page\<close>

lemma mappages_one:
  assumes "kmem_inv s" and "pt_inv s r" and "page_aligned va" and "va < MAXVA"
    and "pte_of (mem s) r va AND PTE_V = 0"
  obtains (ok) t where "mappages r va PGSIZE pa perm s = Ok 0 t"
      "pt_upd r (\<lambda>vb. if pageno vb = pageno va then PA2PTE pa OR perm OR PTE_V else pte_of (mem s) r vb) s t"
  | (nomem) t where "mappages r va PGSIZE pa perm s = Ok (-1) t"
      "pt_upd r (pte_of (mem s) r) s t" "kmem_free t = {}"
proof -
  obtain i where i: "unat va = 4096 * i" using assms(3) by (auto elim: dvdE)
  then have rng: "unat va + 4096 * 1 \<le> unat MAXVA" using assms(4) by (simp add: word_less_nat_alt)
  have "pte_of (mem s) r vb AND PTE_V = 0"
    if "vb < MAXVA" "pageno va \<le> pageno vb" "pageno vb < pageno va + 1" for vb
    using pte_of_same_page [OF that(1) assms(4), of "mem s" r] that(2,3) assms(5) by simp
  from mappages_spec [OF assms(1-3) zero_less_one rng this, of pa perm]
  obtain k t where k: "k \<le> 1" "mappages r va PGSIZE pa perm s = Ok (if k = 1 then 0 else -1) t"
    "pt_upd r (pte_map (pte_of (mem s) r) va k pa perm) s t" "k \<noteq> 1 \<longrightarrow> kmem_free t = {}"
    by auto
  show ?thesis
  proof (cases "k = 1")
    case True
    have "pte_map (pte_of (mem s) r) va 1 pa perm =
      (\<lambda>vb. if pageno vb = pageno va then PA2PTE pa OR perm OR PTE_V else pte_of (mem s) r vb)"
      by (auto simp: pte_map_def fun_eq_iff)
    then show ?thesis using ok k True by simp
  next
    case False
    then have "k = 0" using k(1) by simp
    then show ?thesis using nomem k by simp
  qed
qed

lemma pt_updD:
  assumes "pt_upd r f s t"
  shows "kmem_inv t" and "pt_inv t r" and "\<And>va. va < MAXVA \<Longrightarrow> pte_of (mem t) r va = f va"
    and "kmem_free t \<subseteq> kmem_free s"
    and "pt_pages (mem t) r = pt_pages (mem s) r \<union> (kmem_free s - kmem_free t)"
    and "\<And>x. pageno x \<notin> pageno ` (pt_pages (mem s) r \<union> kmem_free s) \<Longrightarrow> mem t x = mem s x"
    and "mem_only s t"
  using assms unfolding pt_upd_def by blast+

text \<open>An empty table can be freed: \<open>uvmfree(pagetable, 0)\<close>.\<close>

lemma uvmfree_empty:
  assumes "kmem_inv s" and "pt_inv s r" and z: "\<And>va. va < MAXVA \<Longrightarrow> pte_of (mem s) r va AND PTE_V = 0"
  shows "\<exists>t. uvmfree r 0 s = Ok () t \<and> kmem_inv t \<and> kmem_free t = kmem_free s \<union> pt_pages (mem s) r \<and>
    (\<forall>x. pageno x \<notin> pageno ` pt_pages (mem s) r \<longrightarrow> mem t x = mem s x) \<and>
    mem_only s t"
proof -
  have lo: "leaf_owned s r (\<lambda>va. va < MAXVA)" using z by (simp add: leaf_owned_def)
  have e: "{PTE2PA (pte_of (mem s) r va) |va. va < MAXVA \<and> pte_of (mem s) r va AND PTE_V \<noteq> 0} = {}"
    using z by auto
  have d: "kmem_free s \<union> pt_pages (mem s) r - kmem_free s = pt_pages (mem s) r"
    using assms(2) by (auto simp: pt_inv_def)
  obtain t where "uvmfree r 0 s = Ok () t" "kmem_inv t" "kmem_free t = kmem_free s \<union> pt_pages (mem s) r"
    "\<forall>x. pageno x \<notin> pageno ` (kmem_free t - kmem_free s) \<longrightarrow> mem t x = mem s x"
    "mem_only s t"
    using uvmfree_spec [OF assms(1,2), of 0, OF _ lo] z e by auto
  then show ?thesis using d by metis
qed

subsection \<open>Properties\<close>

lemma PTE_bits:
  "(e :: u64) AND PTE_V \<noteq> 0 \<longleftrightarrow> bit e 0" "e AND PTE_R \<noteq> 0 \<longleftrightarrow> bit e 1" "e AND PTE_W \<noteq> 0 \<longleftrightarrow> bit e 2"
  "e AND PTE_X \<noteq> 0 \<longleftrightarrow> bit e 3" "e AND PTE_U \<noteq> 0 \<longleftrightarrow> bit e 4" "e AND PTE_D \<noteq> 0 \<longleftrightarrow> bit e 7"
  using and_exp_eq_0_iff_not_bit [of e 0] and_exp_eq_0_iff_not_bit [of e 1]
    and_exp_eq_0_iff_not_bit [of e 2] and_exp_eq_0_iff_not_bit [of e 3]
    and_exp_eq_0_iff_not_bit [of e 4] and_exp_eq_0_iff_not_bit [of e 7] by simp_all

lemma flags_lt: "unat (f :: u64) < 1024 \<Longrightarrow> unat (f OR PTE_V) < 1024"
proof -
  assume "unat f < 1024"
  then have "unat (take_bit 10 f) = unat f"
    by (simp only: unsigned_take_bit_eq) (simp add: take_bit_nat_eq_self)
  then have "take_bit 10 f = f" by (simp only: word_unat_eq_iff)
  then have "f OR 1 = take_bit 10 (f OR 1)" by (simp add: take_bit_or)
  moreover have "unat (take_bit 10 (f OR 1)) < 2 ^ 10"
    by (metis take_bit_nat_less_exp unsigned_take_bit_eq)
  ultimately show ?thesis by simp
qed

text \<open>C25: \<open>mappages\<close> and \<open>walkaddr\<close> agree. Mapping \<open>n\<close> pages at \<open>va\<close> where nothing is mapped either
  succeeds, and then looking up any address of the range gives the page it was mapped to, or
  returns -1 with memory exhausted and a prefix of the range mapped; in both cases every address
  outside translates as before and the table is well formed.\<close>

theorem mappages_walkaddr:
  assumes "kmem_inv s" and "pt_inv s r" and "page_aligned va" and "0 < n"
    and rng: "unat va + 4096 * n \<le> unat MAXVA"
    and "\<And>vb. vb < MAXVA \<Longrightarrow> pageno va \<le> pageno vb \<Longrightarrow> pageno vb < pageno va + n \<Longrightarrow>
           pte_of (mem s) r vb AND PTE_V = 0"
    and pa: "page_aligned pa" "unat pa + 4096 * n \<le> 2 ^ 56" and pm: "unat perm < 1024" "perm AND PTE_U \<noteq> 0"
  shows "\<exists>k s'. k \<le> n \<and> mappages r va (of_nat (4096 * n)) pa perm s = Ok (if k = n then 0 else -1) s' \<and>
           kmem_inv s' \<and> pt_inv s' r \<and> (k \<noteq> n \<longrightarrow> kmem_free s' = {}) \<and>
           (\<forall>vb. walkaddr r vb s' =
              (if pageno va \<le> pageno vb \<and> pageno vb < pageno va + k
               then Ok (pa + of_nat (4096 * (pageno vb - pageno va))) s'
               else kbind (walkaddr r vb s) (\<lambda>p _. Ok p s')))"
proof -
  obtain k s' where k: "k \<le> n"
    "mappages r va (of_nat (4096 * n)) pa perm s = Ok (if k = n then 0 else -1) s'"
    "pt_upd r (pte_map (pte_of (mem s) r) va k pa perm) s s'" "k \<noteq> n \<longrightarrow> kmem_free s' = {}"
    using mappages_spec [OF assms(1-6), of pa perm] by auto
  have i: "kmem_inv s'" "pt_inv s' r"
    and m: "\<And>vb. vb < MAXVA \<Longrightarrow> pte_of (mem s') r vb = pte_map (pte_of (mem s) r) va k pa perm vb"
    using k(3) by (auto simp: pt_upd_def)
  have "walkaddr r vb s' = (if pageno va \<le> pageno vb \<and> pageno vb < pageno va + k
               then Ok (pa + of_nat (4096 * (pageno vb - pageno va))) s'
               else kbind (walkaddr r vb s) (\<lambda>p _. Ok p s'))" for vb
  proof (cases "pageno va \<le> pageno vb \<and> pageno vb < pageno va + k")
    case True
    define d where "d = pageno vb - pageno va"
    have d: "d < n" using True k(1) by (auto simp: d_def)
    have u: "unat (pa + of_nat (4096 * d)) = unat pa + 4096 * d"
      by (rule unat_add_small) (use d pa(2) in simp)
    then have p: "page_aligned (pa + of_nat (4096 * d))" "unat (pa + of_nat (4096 * d)) < 2 ^ 56"
      using pa d by simp_all
    have "pageno va + n \<le> 67108864"
      using rng assms(3) by (auto simp: pageno_def)
    then have vb: "vb < MAXVA" using True k(1) by (simp add: pageno_def word_less_nat_alt div_less_iff_less_mult)
    have e: "pte_of (mem s') r vb = PA2PTE (pa + of_nat (4096 * d)) OR (perm OR PTE_V)"
      using m [OF vb] True by (simp only: pte_map_def d_def if_True simp_thms)
    moreover have "bit (PA2PTE (pa + of_nat (4096 * d)) OR (perm OR PTE_V)) 0"
      by (simp add: bit_simps)
    moreover have "bit (PA2PTE (pa + of_nat (4096 * d)) OR (perm OR PTE_V)) 4"
      using pm(2) by (simp only: PTE_bits bit_or_iff simp_thms)
    ultimately show ?thesis
      using vb True PTE2PA_PA2PTE [OF p flags_lt [OF pm(1)]]
      by (simp add: walkaddr_spec [OF i(2)] PTE_bits d_def)
  next
    case False
    then show ?thesis using m [of vb]
      by (auto simp: walkaddr_spec [OF i(2)] walkaddr_spec [OF assms(2)] pte_map_def)
  qed
  then show ?thesis using k(1,2,4) i by blast
qed

text \<open>A machine with an empty page table at \<open>0x80002000\<close> and two free pages.\<close>

definition pt_boot :: kmem where
  "pt_boot = \<lparr>mem = st64 (\<lambda>_. 0) 0x80003000 0x80004000, kend = 0x80001000, held = [], uart_out = [],
              freelist = 0x80003000\<rparr>"

lemma pt_boot_pages: "kmem_pages pt_boot [0x80003000, 0x80004000]"
proof -
  have "ld64 (st64 (\<lambda>_. 0) 0x80003000 0x80004000) 0x80004000 = 0"
    by (subst ld64_st64_other) simp_all
  then show ?thesis by (simp add: kmem_pages_def pt_boot_def ram_page_def)
qed

lemma pt_boot_empty: "i < 512 \<Longrightarrow> ld64 (mem pt_boot) (0x80002000 + 8 * of_nat i) = 0"
proof -
  assume i: "i < 512"
  have "ld64 (mem pt_boot) (0x80002000 + 8 * of_nat i) = ld64 (\<lambda>_. 0) (0x80002000 + 8 * of_nat i)"
  proof (rule ld64_page_cong)
    show "aligned8 (0x80002000 + 8 * of_nat i)" using entry_aligned8 [of "0x80002000" i] i by simp
    fix x
    assume "pageno x = pageno (0x80002000 + 8 * of_nat i)"
    then have "pageno x = 0x80002" using entry_pageno [of "0x80002000" i] i by (simp add: pageno_def)
    then show "mem pt_boot x = 0"
      using st64_other_page [of "0x80003000" x] by (simp add: pt_boot_def pageno_def)
  qed
  then show ?thesis by simp
qed

lemma pt_boot_inv:
  "kmem_inv pt_boot" "pt_inv pt_boot 0x80002000" "pte_of (mem pt_boot) 0x80002000 va = 0"
  "pt_pages (mem pt_boot) 0x80002000 = {0x80002000}" "kmem_free pt_boot = {0x80003000, 0x80004000}"
proof -
  show f: "kmem_free pt_boot = {0x80003000, 0x80004000}" using kmem_free_eq [OF pt_boot_pages] by simp
  have r: "ram_page pt_boot 0x80002000" "0x80002000 \<notin> kmem_free pt_boot"
    using f by (simp_all add: ram_page_def pt_boot_def)
  show "kmem_inv pt_boot" using pt_boot_pages by (auto simp: kmem_inv_def)
  show "pt_inv pt_boot 0x80002000" "pte_of (mem pt_boot) 0x80002000 va = 0"
    "pt_pages (mem pt_boot) 0x80002000 = {0x80002000}"
    using pt_inv_empty [OF pt_boot_empty r] by simp_all
qed

theorem mappages_walkaddr_witness:
  "\<exists>s'. mappages 0x80002000 0x1000 0x1000 0x80005000 0x16 pt_boot = Ok 0 s' \<and>
     walkaddr 0x80002000 0x1234 s' = Ok 0x80005000 s'"
proof -
  have "\<exists>k s'. k \<le> 1 \<and> mappages 0x80002000 0x1000 (of_nat (4096 * 1)) 0x80005000 0x16 pt_boot =
        Ok (if k = 1 then 0 else -1) s' \<and> kmem_inv s' \<and> pt_inv s' 0x80002000 \<and>
        (k \<noteq> 1 \<longrightarrow> kmem_free s' = {}) \<and>
        (\<forall>vb. walkaddr 0x80002000 vb s' =
              (if pageno 0x1000 \<le> pageno vb \<and> pageno vb < pageno 0x1000 + k
               then Ok (0x80005000 + of_nat (4096 * (pageno vb - pageno 0x1000))) s'
               else kbind (walkaddr 0x80002000 vb pt_boot) (\<lambda>p _. Ok p s')))"
    by (rule mappages_walkaddr) (simp_all add: pt_boot_inv)
  then obtain k s' where k: "k \<le> 1"
    "mappages 0x80002000 0x1000 (of_nat (4096 * 1)) 0x80005000 0x16 pt_boot = Ok (if k = 1 then 0 else -1) s'"
    "\<And>vb. walkaddr 0x80002000 vb s' =
              (if pageno 0x1000 \<le> pageno vb \<and> pageno vb < pageno 0x1000 + k
               then Ok (0x80005000 + of_nat (4096 * (pageno vb - pageno 0x1000))) s'
               else kbind (walkaddr 0x80002000 vb pt_boot) (\<lambda>p _. Ok p s'))"
    by blast
  have "k = 1"
  proof (rule ccontr)
    assume "k \<noteq> 1"
    then have "mappages 0x80002000 0x1000 PGSIZE 0x80005000 0x16 pt_boot = Ok (-1) s'" using k(2) by simp
    then have "walk 0x80002000 0x1000 True pt_boot = Ok 0 s'" by (intro mappages_nomem) simp_all
    then have "card (kmem_free pt_boot) < 2" by (intro walk_fail_card [OF pt_boot_inv(1,2)]) simp_all
    then show False by (simp add: pt_boot_inv)
  qed
  then show ?thesis using k(2) k(3) [of "0x1234"] by (simp add: pageno_def)
qed

text \<open>
  A page table with one mapping: its root \<open>r\<close>, a page \<open>a\<close> and a page \<open>b\<close> with the leaf entry \<open>e\<close> for the virtual
  addresses from \<open>0x1000\<close> on.
\<close>

definition onepage :: "memory \<Rightarrow> u64 \<Rightarrow> u64 \<Rightarrow> u64 \<Rightarrow> u64 \<Rightarrow> bool" where
  "onepage m r a b e \<longleftrightarrow>
     (\<forall>i<512. ld64 m (r + 8 * of_nat i) = (if i = 0 then PA2PTE a OR PTE_V else 0)) \<and>
     (\<forall>i<512. ld64 m (a + 8 * of_nat i) = (if i = 0 then PA2PTE b OR PTE_V else 0)) \<and>
     (\<forall>i<512. ld64 m (b + 8 * of_nat i) = (if i = 1 then e else 0))"

lemma onepage_node:
  assumes "onepage m r a b e" and "ram_page s a" and "ram_page s b" and "pt_path p"
  shows "pt_node m r p = (if p = [] then Some r else if p = [0] then Some a else if p = [0, 0] then Some b else None)"
proof -
  have pa: "PTE2PA (PA2PTE x OR PTE_V) = x" if "ram_page s x" for x
    using PTE2PA_PA2PTE [of x PTE_V] ram_page_lt [OF that] that by (simp add: ram_page_def)
  have c: "pt_child m r i = (if i = 0 then Some a else None)" "pt_child m a i = (if i = 0 then Some b else None)" if "i < 512" for i
    using assms(1) that pa [OF assms(2)] pa [OF assms(3)] PTE_V_set by (simp_all add: pt_child_def Let_def onepage_def)
  consider "p = []" | i where "p = [i]" "i < 512" | i j where "p = [i, j]" "i < 512" "j < 512"
    using assms(4) by (cases p rule: remdups_adj.cases) (auto simp: pt_path_def)
  then show ?thesis by cases (simp_all add: c)
qed

lemma onepage_pte:
  assumes "onepage m r a b e" and "ram_page s a" and "ram_page s b" and "va < MAXVA"
  shows "pte_of m r va = (if pageno va = 1 then e else 0)"
proof -
  have "lpath va = [0, 0] \<and> px 0 va = 1 \<longleftrightarrow> pageno va = 1"
    using px_eq_iff [of va "0x1000"] assms(4) px_pageno [of "0x1000"] by (auto simp: lpath_def pageno_def [of "0x1000"])
  moreover have "lpath va \<noteq> []" "lpath va \<noteq> [0]" by (simp_all add: lpath_def)
  moreover have "ld64 m (b + 8 * of_nat (px 0 va)) = (if px 0 va = 1 then e else 0)"
    using assms(1) px_less unfolding onepage_def by blast
  ultimately show ?thesis
    using onepage_node [OF assms(1-3), of "lpath va"] unfolding pte_of_def by auto
qed

lemma onepage_pages:
  assumes "onepage m r a b e" and "ram_page s a" and "ram_page s b"
  shows "pt_pages m r = {r, a, b}"
proof -
  note N = onepage_node [OF assms]
  have p: "pt_path []" "pt_path [0]" "pt_path [0, 0]" by (simp_all add: pt_path_def)
  have q: "x \<in> pt_pages m r" if "pt_path q" "pt_node m r q = Some x" for q x using that unfolding pt_pages_def by blast
  have "{r, a, b} \<subseteq> pt_pages m r" using q [OF p(1)] q [OF p(2)] q [OF p(3)] N [OF p(2)] N [OF p(3)] by simp
  moreover have "x \<in> {r, a, b}" if "x \<in> pt_pages m r" for x
    using that N unfolding pt_pages_def by (auto split: if_splits)
  ultimately show ?thesis by blast
qed

lemma onepage_inv:
  assumes o: "onepage (mem s) r a b e" and d: "distinct [r, a, b]"
    and ram: "\<forall>x\<in>{r, a, b}. ram_page s x \<and> x \<notin> kmem_free s"
  shows "pt_inv s r"
proof -
  have ab: "ram_page s a" "ram_page s b" using ram by auto
  note N = onepage_node [OF o ab]
  have "ld64 (mem s) (x + 8 * of_nat i) AND (PTE_R OR PTE_W OR PTE_X) = 0"
    if "pt_path (p @ [i])" "pt_node (mem s) r p = Some x" for p x i
  proof -
    have "length p \<le> 1" "i < 512" "pt_path p" using that(1) pt_path_snocD [OF that(1)] by (auto simp: pt_path_def)
    then have "x = r \<or> x = a" using N [of p] that(2) by (auto split: if_splits)
    then have "ld64 (mem s) (x + 8 * of_nat i) \<in> {PA2PTE a OR PTE_V, PA2PTE b OR PTE_V, 0}"
      using o \<open>i < 512\<close> unfolding onepage_def by auto
    then show ?thesis using PA2PTE_not_leaf by auto
  qed
  moreover have "p = q" if "pt_path p" "pt_path q" "pt_node (mem s) r p = Some x" "pt_node (mem s) r q = Some x" for p q x
    using N [OF that(1)] N [OF that(2)] that(3,4) d by (auto split: if_splits)
  moreover have "ld64 (mem s) (r + 8 * of_nat i) AND PTE_V = 0" if "256 \<le> i" "i < 512" for i
    using o that by (simp add: onepage_def)
  ultimately show ?thesis
    unfolding pt_inv_def onepage_pages [OF o ab] using ram by blast
qed

text \<open>
  A machine in which the page at virtual address \<open>0x1000\<close> is mapped, readable and writable, to the
  physical page \<open>0x80005000\<close>; the page table occupies the pages \<open>0x80002000\<close> to \<open>0x80004000\<close>, and no
  page is free.
\<close>

definition user_mem :: memory where
  "user_mem = st64 (st64 (st64 (\<lambda>_. 0) (0x80002000 + 8 * of_nat 0) 0x20000C01)
     (0x80003000 + 8 * of_nat 0) 0x20001001) (0x80004000 + 8 * of_nat 1) 0x20001417"

lemma user_entry:
  assumes "page_aligned a" and "i < 512"
  shows "ld64 user_mem (a + 8 * of_nat i) =
    (if a = 0x80004000 \<and> i = 1 then 0x20001417 else if a = 0x80003000 \<and> i = 0 then 0x20001001
     else if a = 0x80002000 \<and> i = 0 then 0x20000C01 else 0)"
proof -
  have st: "ld64 (st64 m (b + 8 * of_nat j) v) (a + 8 * of_nat i) = (if a = b \<and> i = j then v else ld64 m (a + 8 * of_nat i))"
    if "page_aligned b" "j < 512" for m b j v
    using ld64_st64_other [of "b + 8 * of_nat j" "a + 8 * of_nat i" m v] entry_inj [OF that assms] entry_aligned8 [OF that]
      entry_aligned8 [OF assms] by auto
  show ?thesis unfolding user_mem_def by (subst st, simp, simp)+ simp
qed

lemma user_onepage: "onepage user_mem 0x80002000 0x80003000 0x80004000 0x20001417"
  by (simp add: onepage_def user_entry PA2PTE_def)

lemma user_mem_inv:
  assumes m: "mem s = user_mem" "kend s = 0x80001000" "freelist s = 0" "held s = []"
  shows "kmem_inv s" and "kmem_free s = {}" and "pt_inv s 0x80002000"
proof -
  have e: "kmem_pages s []" using m by (simp add: kmem_pages_def)
  then show i: "kmem_inv s" by (auto simp: kmem_inv_def)
  show f: "kmem_free s = {}" using kmem_free_eq [OF e] by simp
  show "pt_inv s 0x80002000"
    by (rule onepage_inv [of s _ "0x80003000" "0x80004000" "0x20001417"])
      (simp_all add: m user_onepage f ram_page_def)
qed

lemma user_pte:
  assumes "va < MAXVA"
  shows "pte_of user_mem 0x80002000 va = (if pageno va = 1 then 0x20001417 else 0)"
  using onepage_pte [OF user_onepage _ _ assms, of "pt_boot"] by (simp add: ram_page_def pt_boot_def)

lemma user_pages: "pt_pages user_mem 0x80002000 = {0x80002000, 0x80003000, 0x80004000}"
  using onepage_pages [OF user_onepage, of "pt_boot"] by (simp add: ram_page_def pt_boot_def)

definition user_page :: kmem where
  "user_page = \<lparr>mem = user_mem, kend = 0x80001000, held = [], uart_out = [], freelist = 0\<rparr>"

lemma user_page_inv:
  "kmem_inv user_page" "kmem_free user_page = {}" "pt_inv user_page 0x80002000" "mem user_page = user_mem"
  "kend user_page = 0x80001000"
  using user_mem_inv [of user_page] by (simp_all add: user_page_def)

lemma user_page_owned: "leaf_owned user_page 0x80002000 (\<lambda>v. v < MAXVA \<and> Q v)"
  unfolding leaf_owned_def
  by (auto simp: user_pte user_page_inv ram_page_def PTE2PA_def user_pages split: if_splits)

text \<open>C24: \<open>uvmunmap\<close> removes exactly the mappings of its range and keeps every other mapping. It is called
  on a well-formed page table with a page-aligned range below \<open>MAXVA\<close>, as the code's callers do; when \<open>do_free\<close> is set,
  every page mapped in the range must be allocated memory that no other mapping of the range and no page table
  uses. Then it ends without a panic, also where addresses of the range have no mapping, returns exactly
  the physical pages of the removed mappings to the allocator when \<open>do_free\<close> is set and none otherwise,
  and keeps the pages of the table.\<close>

theorem uvmunmap_correct:
  assumes "kmem_inv s" and "pt_inv s r" and "page_aligned va" and "unat va + 4096 * n \<le> unat MAXVA"
    and "do_free \<Longrightarrow>
      leaf_owned s r (\<lambda>v. v < MAXVA \<and> pageno va \<le> pageno v \<and> pageno v < pageno va + n)"
  shows "\<exists>s'. uvmunmap r va (of_nat n) do_free s = Ok () s' \<and> kmem_inv s' \<and> pt_inv s' r \<and>
    (\<forall>vb<MAXVA. pte_of (mem s') r vb = unmapped (pte_of (mem s) r) va n vb) \<and>
    kmem_free s' = kmem_free s \<union> (if do_free then leaf_pages (pte_of (mem s) r) va n else {}) \<and>
    pt_pages (mem s') r = pt_pages (mem s) r"
  using uvmunmap_spec [OF assms(1-4),
      of "\<lambda>v. v < MAXVA \<and> pageno va \<le> pageno v \<and> pageno v < pageno va + n" do_free] assms(5)
  by (auto simp: pt_rel_def)

theorem uvmunmap_correct_witness:
  "pte_of (mem user_page) 0x80002000 0x1000 = 0x20001417 \<and> kmem_free user_page = {} \<and>
   (\<exists>s'. uvmunmap 0x80002000 0 3 True user_page = Ok () s' \<and> kmem_inv s' \<and>
     pte_of (mem s') 0x80002000 0x1000 = 0 \<and> kmem_free s' = {0x80005000})"
proof -
  have "\<exists>s'. uvmunmap 0x80002000 0 (of_nat 3) True user_page = Ok () s' \<and> kmem_inv s' \<and> pt_inv s' 0x80002000 \<and>
    (\<forall>vb<MAXVA. pte_of (mem s') 0x80002000 vb = unmapped (pte_of (mem user_page) 0x80002000) 0 3 vb) \<and>
    kmem_free s' = kmem_free user_page \<union> (if True then leaf_pages (pte_of (mem user_page) 0x80002000) 0 3 else {}) \<and>
    pt_pages (mem s') 0x80002000 = pt_pages (mem user_page) 0x80002000"
    by (rule uvmunmap_correct) (simp_all add: user_page_inv user_page_owned)
  then obtain s' where s': "uvmunmap 0x80002000 0 3 True user_page = Ok () s'" "kmem_inv s'"
    "\<forall>vb<MAXVA. pte_of (mem s') 0x80002000 vb = unmapped (pte_of user_mem 0x80002000) 0 3 vb"
    "kmem_free s' = leaf_pages (pte_of user_mem 0x80002000) 0 3"
    by (auto simp: user_page_inv)
  have "pte_of (mem s') 0x80002000 0x1000 = 0"
    using s'(3) by (simp add: unmapped_def user_pte pageno_def)
  moreover have "leaf_pages (pte_of user_mem 0x80002000) 0 3 = {0x80005000}"
    unfolding leaf_pages_def
    by (auto simp: user_pte pageno_def PTE2PA_def split: if_splits intro: exI [of _ "0x1000"])
  ultimately show ?thesis using s' by (auto simp: user_page_inv user_pte pageno_def)
qed

text \<open>C3: \<open>uvmfree\<close> leaks nothing: when every mapping lies below the process size, it ends without
  a panic and returns to the allocator exactly the mapped pages and all page-table pages.\<close>

theorem uvmfree_no_leak:
  assumes "kmem_inv s" and "pt_inv s r" and "sz \<le> MAXVA" and "leaf_owned s r (\<lambda>va. va < MAXVA)"
    and "\<And>va. va < MAXVA \<Longrightarrow> pte_of (mem s) r va AND PTE_V \<noteq> 0 \<Longrightarrow> va < PGROUNDUP sz"
  shows "\<exists>t. uvmfree r sz s = Ok () t \<and> kmem_inv t \<and>
    kmem_free t = kmem_free s \<union> pt_pages (mem s) r \<union>
      {PTE2PA (pte_of (mem s) r va) |va. va < MAXVA \<and> pte_of (mem s) r va AND PTE_V \<noteq> 0} \<and>
    held t = held s"
proof -
  obtain t where t: "uvmfree r sz s = Ok () t" "kmem_inv t"
    "kmem_free t = kmem_free s \<union> pt_pages (mem s) r \<union>
      {PTE2PA (pte_of (mem s) r va) |va. va < MAXVA \<and> pte_of (mem s) r va AND PTE_V \<noteq> 0}"
    "mem_only s t"
    using uvmfree_spec [OF assms] by auto
  show ?thesis using t(1-3) mem_only_same(2) [OF t(4)] by auto
qed

theorem uvmfree_no_leak_witness:
  "\<exists>t. uvmfree 0x80002000 0x1234 user_page = Ok () t \<and> kmem_inv t \<and>
     kmem_free t = {0x80002000, 0x80003000, 0x80004000, 0x80005000}"
proof -
  have "\<exists>t. uvmfree 0x80002000 0x1234 user_page = Ok () t \<and> kmem_inv t \<and>
    kmem_free t = kmem_free user_page \<union> pt_pages (mem user_page) 0x80002000 \<union>
      {PTE2PA (pte_of (mem user_page) 0x80002000 va) |va. va < MAXVA \<and>
         pte_of (mem user_page) 0x80002000 va AND PTE_V \<noteq> 0} \<and>
    held t = held user_page"
  proof (rule uvmfree_no_leak)
    show "leaf_owned user_page 0x80002000 (\<lambda>va. va < MAXVA)" using user_page_owned [of "\<lambda>_. True"] by simp
    fix va
    assume "va < MAXVA" "pte_of (mem user_page) 0x80002000 va AND PTE_V \<noteq> 0"
    then have "pageno va = 1" by (simp add: user_page_inv user_pte split: if_splits)
    then have "unat va < 0x2000" by (simp add: pageno_def) 
    moreover have "PGROUNDUP 0x1234 = (0x2000 :: u64)" by code_simp
    ultimately show "va < PGROUNDUP 0x1234" by (simp add: word_less_nat_alt)
  qed (simp_all add: user_page_inv)
  moreover have "{PTE2PA (pte_of user_mem 0x80002000 va) |va. va < MAXVA \<and>
      pte_of user_mem 0x80002000 va AND PTE_V \<noteq> 0} = {0x80005000}"
    by (auto simp: user_pte pageno_def PTE2PA_def split: if_splits intro: exI [of _ "0x1000"])
  ultimately show ?thesis by (auto simp: user_page_inv user_pages)
qed

end
