(* ===== verification/Strings.thy ===== *)
theory Strings
  imports Machine
begin

text \<open>
  The C string routines of \<open>kernel/string.c\<close>: \<open>strncmp\<close>, \<open>strncpy\<close>, \<open>safestrcpy\<close> and
  \<open>strlen\<close>. A \<open>char*\<close> argument is the array it points into, a function from the offset to the
  byte. \<open>cstr p n\<close> is the string an array of \<open>n\<close> bytes holds: the bytes before the first NUL, or
  all \<open>n\<close> of them, which is how directory entries keep names.
\<close>

type_synonym bytes = "nat \<Rightarrow> u8"

text \<open>\<open>while(n > 0 && *p && *p == *q) n--, p++, q++;\<close>\<close>

fun strncmp :: "bytes \<Rightarrow> bytes \<Rightarrow> nat \<Rightarrow> int" where
  "strncmp p q 0 = 0"
| "strncmp p q (Suc n) =
     (if p 0 \<noteq> 0 \<and> p 0 = q 0 then strncmp (\<lambda>i. p (Suc i)) (\<lambda>i. q (Suc i)) n
      else uint (p 0) - uint (q 0))"

text \<open>\<open>while(n-- > 0) *s++ = 0;\<close>\<close>

fun strncpy_pad :: "bytes \<Rightarrow> nat \<Rightarrow> nat \<Rightarrow> bytes" where
  "strncpy_pad s i 0 = s"
| "strncpy_pad s i (Suc n) = strncpy_pad (s(i := 0)) (Suc i) n"

text \<open>\<open>while(n-- > 0 && (*s++ = *t++) != 0) ;\<close> followed by the padding loop.\<close>

fun strncpy_loop :: "bytes \<Rightarrow> bytes \<Rightarrow> nat \<Rightarrow> nat \<Rightarrow> bytes" where
  "strncpy_loop s t i 0 = s"
| "strncpy_loop s t i (Suc n) =
     (if t i \<noteq> 0 then strncpy_loop (s(i := t i)) t (Suc i) n
      else strncpy_pad (s(i := t i)) (Suc i) n)"

definition strncpy :: "bytes \<Rightarrow> bytes \<Rightarrow> int \<Rightarrow> bytes" where
  "strncpy s t n = strncpy_loop s t 0 (nat n)"

text \<open>\<open>while(--n > 0 && (*s++ = *t++) != 0) ; *s = 0;\<close>\<close>

fun safestrcpy_loop :: "bytes \<Rightarrow> bytes \<Rightarrow> nat \<Rightarrow> nat \<Rightarrow> bytes" where
  "safestrcpy_loop s t i 0 = s(i := 0)"
| "safestrcpy_loop s t i (Suc n) =
     (if t i \<noteq> 0 then safestrcpy_loop (s(i := t i)) t (Suc i) n
      else s(i := t i, Suc i := 0))"

definition safestrcpy :: "bytes \<Rightarrow> bytes \<Rightarrow> int \<Rightarrow> bytes" where
  "safestrcpy s t n = (if n \<le> 0 then s else safestrcpy_loop s t 0 (nat (n - 1)))"

text \<open>\<open>for(n = 0; s[n]; n++) ;\<close>: no result when the array holds no NUL.\<close>

partial_function (option) strlen_from :: "bytes \<Rightarrow> nat \<Rightarrow> nat option" where
  "strlen_from s n = (if s n = 0 then Some n else strlen_from s (Suc n))"

definition strlen :: "bytes \<Rightarrow> nat option" where
  "strlen s = strlen_from s 0"

subsection \<open>The string an array holds\<close>

definition cstr :: "bytes \<Rightarrow> nat \<Rightarrow> u8 list" where
  "cstr p n = takeWhile (\<lambda>b. b \<noteq> 0) (map p [0..<n])"

lemma cstr_0 [simp]: "cstr p 0 = []"
  by (simp add: cstr_def)

lemma cstr_Suc: "cstr p (Suc n) = (if p 0 = 0 then [] else p 0 # cstr (\<lambda>i. p (Suc i)) n)"
proof -
  have "map p [0..<Suc n] = p 0 # map (\<lambda>i. p (Suc i)) [0..<n]"
    by (simp add: upt_conv_Cons map_Suc_upt [symmetric] del: upt_Suc)
  then show ?thesis by (simp add: cstr_def del: upt_Suc)
qed

lemma strncmp_eq_0_iff: "strncmp p q n = 0 \<longleftrightarrow> cstr p n = cstr q n"
proof (induction p q n rule: strncmp.induct)
  case (1 p q)
  then show ?case by simp
next
  case (2 p q n)
  then show ?case by (auto simp: cstr_Suc word_uint_eq_iff)
qed

lemma strncpy_pad_apply: "strncpy_pad s i n j = (if i \<le> j \<and> j < i + n then 0 else s j)"
  by (induction n arbitrary: s i) auto

lemma strncpy_loop_apply:
  "strncpy_loop s t i n j =
     (if i \<le> j \<and> j < i + n then (if \<exists>k. i \<le> k \<and> k < j \<and> t k = 0 then 0 else t j) else s j)"
proof (induction n arbitrary: s i)
  case 0
  then show ?case by auto
next
  case (Suc n)
  show ?case
  proof (cases "t i = 0")
    case True
    then have "i < j \<Longrightarrow> \<exists>k. i \<le> k \<and> k < j \<and> t k = 0" by blast
    with True show ?thesis by (cases "j = i") (auto simp: strncpy_pad_apply)
  next
    case False
    have "(\<exists>k. i \<le> k \<and> k < j \<and> t k = 0) = (\<exists>k. Suc i \<le> k \<and> k < j \<and> t k = 0)"
      using False by (metis Suc_leI Suc_leD le_eq_less_or_eq)
    with False show ?thesis by (auto simp: Suc.IH)
  qed
qed

lemma strncpy_apply:
  "strncpy s t n j = (if int j < n then (if \<exists>k<j. t k = 0 then 0 else t j) else s j)"
  by (auto simp: strncpy_def strncpy_loop_apply)

lemma cstr_strncpy: "cstr (strncpy s t (int n)) n = cstr t n"
proof -
  have "cstr (\<lambda>j. if int j < m then (if \<exists>k<j. t k = 0 then 0 else t j) else s j) n = cstr t n"
    if "int n \<le> m" for m
    using that
  proof (induction n arbitrary: m s t)
    case (Suc n)
    show ?case
    proof (cases "t 0 = 0")
      case True
      then show ?thesis using Suc.prems by (simp add: cstr_Suc)
    next
      case False
      have "(\<lambda>j. if int (Suc j) < m then (if \<exists>k<Suc j. t k = 0 then 0 else t (Suc j)) else s (Suc j))
          = (\<lambda>j. if int j < m - 1 then (if \<exists>k<j. t (Suc k) = 0 then 0 else t (Suc j)) else s (Suc j))"
        using False by (auto simp: fun_eq_iff less_Suc_eq_0_disj)
      then show ?thesis
        using False Suc.prems Suc.IH [of "m - 1" "\<lambda>i. t (Suc i)" "\<lambda>i. s (Suc i)"]
        by (simp add: cstr_Suc)
    qed
  qed simp
  from this [of "int n"] show ?thesis by (simp add: strncpy_apply [abs_def])
qed

lemma safestrcpy_loop_prefix: "j < i \<Longrightarrow> safestrcpy_loop s t i n j = s j"
  by (induction n arbitrary: s i) auto

lemma safestrcpy_loop_terminates: "\<exists>j. i \<le> j \<and> j \<le> i + n \<and> safestrcpy_loop s t i n j = 0"
proof (induction n arbitrary: s i)
  case 0
  then show ?case by auto
next
  case (Suc n)
  show ?case
  proof (cases "t i = 0")
    case True
    then show ?thesis by (intro exI [of _ i]) auto
  next
    case False
    with Suc.IH obtain j where "Suc i \<le> j" "j \<le> Suc i + n"
      "safestrcpy_loop (s(i := t i)) t (Suc i) n j = 0" by blast
    with False show ?thesis by (intro exI [of _ j]) auto
  qed
qed

lemma strlen_from_Some:
  "s (n + k) = 0 \<Longrightarrow> (\<And>j. j < k \<Longrightarrow> s (n + j) \<noteq> 0) \<Longrightarrow> strlen_from s n = Some (n + k)"
proof (induction k arbitrary: n)
  case 0
  then show ?case by (subst strlen_from.simps) simp
next
  case (Suc k)
  have "s n \<noteq> 0" using Suc.prems(2) [of 0] by simp
  moreover have "strlen_from s (Suc n) = Some (Suc n + k)"
    using Suc.prems(1) Suc.prems(2) [of "Suc _"] by (intro Suc.IH) auto
  ultimately show ?case by (subst strlen_from.simps) simp
qed

lemma cstr_safestrcpy_loop:
  "cstr (\<lambda>j. safestrcpy_loop s t i n (i + j)) (Suc n) = cstr (\<lambda>j. t (i + j)) n"
proof (induction n arbitrary: s i)
  case 0
  then show ?case by (simp add: cstr_Suc)
next
  case (Suc n)
  show ?case
  proof (cases "t i = 0")
    case True
    then show ?thesis by (simp add: cstr_Suc)
  next
    case False
    define s' where "s' = s(i := t i)"
    have "safestrcpy_loop s t i (Suc n) = safestrcpy_loop s' t (Suc i) n"
      "safestrcpy_loop s' t (Suc i) n i = t i"
      using False by (simp_all add: safestrcpy_loop_prefix s'_def)
    then show ?thesis using False Suc.IH [of s' "Suc i"]
      by (simp add: cstr_Suc [of _ "Suc n"] cstr_Suc [of "\<lambda>j. t (i + j)"])
  qed
qed

lemma safestrcpy_loop_suffix: "i + n < j \<Longrightarrow> safestrcpy_loop s t i n j = s j"
  by (induction n arbitrary: s i) auto

subsection \<open>Properties\<close>

text \<open>C34: Directory names survive their 14-byte slots: a name stored by \<open>strncpy\<close> compares equal by
  \<open>strncmp\<close> to exactly the strings with the same first \<open>n\<close> bytes up to the first NUL, whatever
  the slot held before and with no terminator in a full slot.\<close>

theorem strncpy_strncmp_roundtrip:
  "strncmp (strncpy s t (int n)) u n = 0 \<longleftrightarrow> cstr t n = cstr u n"
  by (simp add: strncmp_eq_0_iff cstr_strncpy)

text \<open>C35: \<open>safestrcpy\<close> never writes past the \<open>n\<close> bytes of its destination, always leaves a
  NUL-terminated string there, and that string is the source cut to \<open>n - 1\<close> bytes.\<close>

theorem safestrcpy_correct:
  assumes "0 < n"
  shows "cstr (safestrcpy s t (int n)) n = cstr t (n - 1) \<and>
         (\<exists>j<n. safestrcpy s t (int n) j = 0) \<and>
         (\<forall>j. n \<le> j \<longrightarrow> safestrcpy s t (int n) j = s j)"
proof -
  obtain k where n: "n = Suc k" using assms gr0_implies_Suc by blast
  then have s: "safestrcpy s t (int n) = safestrcpy_loop s t 0 k" by (simp add: safestrcpy_def)
  then show ?thesis
    using cstr_safestrcpy_loop [of s t 0 k] safestrcpy_loop_terminates [of 0 k s t] n
    by (auto simp: less_Suc_eq_le safestrcpy_loop_suffix)
qed

theorem safestrcpy_correct_witness:
  "cstr (safestrcpy (\<lambda>_. 9) (\<lambda>i. if i < 5 then 7 else 0) 4) 4 = [7, 7, 7] \<and>
   safestrcpy (\<lambda>_. 9) (\<lambda>i. if i < 5 then 7 else 0) 4 4 = 9"
  using safestrcpy_correct [of 4 "\<lambda>_. 9" "\<lambda>i. if i < 5 then 7 else 0"]
  by (simp add: cstr_def upt_rec)

end
