(* ===== verification/Proc.thy ===== *)
theory Proc
  imports Uvm Strings
begin

text \<open>
  Processes (\<open>kernel/proc.c\<close>, \<open>kernel/proc.h\<close>): the process table, allocation and release of its
  slots, sleep and wakeup, killing, the checks of \<open>sched\<close>, and the kernel page table with one
  stack per slot. Pointers to \<open>struct proc\<close> are indices into the table, \<open>None\<close> the null pointer;
  files and inodes that a process points to are indices into their own tables. \<open>fork\<close>, \<open>exit\<close>
  and \<open>wait\<close> also use files and user memory and are in a later theory.
\<close>

subsection \<open>Process state\<close>

datatype procstate = UNUSED | USED | SLEEPING | RUNNABLE | RUNNING | ZOMBIE

abbreviation (input) NVMA :: nat where "NVMA \<equiv> 16"

record VMA =
  vma_valid :: bool
  vma_start :: u64
  vma_end :: u64
  vma_prot :: int
  vma_flags :: int
  vma_f :: "nat option"
  vma_offset :: int

text \<open>The callee-saved registers \<open>s0\<close> to \<open>s11\<close> are a list.\<close>

record swctx =
  ctx_ra :: u64
  ctx_sp :: u64
  ctx_s :: "u64 list"

definition zero_context :: swctx where
  "zero_context = \<lparr>ctx_ra = 0, ctx_sp = 0, ctx_s = replicate 12 0\<rparr>"

text \<open>Offsets of the fields of \<open>struct trapframe\<close>, which lives in a page of memory.\<close>

abbreviation (input) TF_kernel_satp :: u64 where "TF_kernel_satp \<equiv> 0"
abbreviation (input) TF_kernel_sp :: u64 where "TF_kernel_sp \<equiv> 8"
abbreviation (input) TF_kernel_trap :: u64 where "TF_kernel_trap \<equiv> 16"
abbreviation (input) TF_epc :: u64 where "TF_epc \<equiv> 24"
abbreviation (input) TF_kernel_hartid :: u64 where "TF_kernel_hartid \<equiv> 32"
abbreviation (input) TF_sp :: u64 where "TF_sp \<equiv> 48"
abbreviation (input) TF_a0 :: u64 where "TF_a0 \<equiv> 112"
abbreviation (input) TF_a1 :: u64 where "TF_a1 \<equiv> 120"
abbreviation (input) TF_a7 :: u64 where "TF_a7 \<equiv> 168"
abbreviation (input) TF_size :: nat where "TF_size \<equiv> 288"

record proc =
  p_state :: procstate
  p_chan :: "chan option"
  p_killed :: int
  p_xstate :: int
  p_pid :: int
  p_parent :: "nat option"
  p_kstack :: u64
  p_sz :: u64
  p_pagetable :: u64
  p_trapframe :: u64
  p_context :: swctx
  p_ofile :: "nat \<Rightarrow> nat option"
  p_cwd :: "nat option"
  p_name :: bytes
  p_mmap_base :: u64
  p_vma :: "nat \<Rightarrow> VMA"

text \<open>
  The kernel state of this layer. \<open>curproc\<close> is the \<open>proc\<close> field of the running CPU; \<open>trampoline\<close>,
  \<open>forkret_addr\<close> and \<open>etext\<close> are addresses fixed by the linker.
\<close>

record kproc = kmem +
  procs :: "nat \<Rightarrow> proc"
  curproc :: "nat option"
  initproc :: "nat option"
  nextpid :: int
  kernel_pagetable :: u64
  trampoline :: u64
  forkret_addr :: u64
  etext :: u64

definition upd_proc :: "nat \<Rightarrow> (proc \<Rightarrow> proc) \<Rightarrow> 'a kproc_scheme \<Rightarrow> 'a kproc_scheme" where
  "upd_proc i f s = s\<lparr>procs := (procs s)(i := f (procs s i))\<rparr>"

text \<open>\<open>myproc()\<close>, where the caller goes on to dereference the result.\<close>

definition myproc :: "'a kproc_scheme \<Rightarrow> ('a kproc_scheme, nat) res" where
  "myproc s = (case curproc s of None \<Rightarrow> UB | Some p \<Rightarrow> Ok p s)"

subsection \<open>The kernel page table\<close>

primrec proc_mapstacks_loop :: "u64 \<Rightarrow> nat list \<Rightarrow> 'a kproc_scheme \<Rightarrow> ('a kproc_scheme, unit) res" where
  "proc_mapstacks_loop kpgtbl [] s = Ok () s"
| "proc_mapstacks_loop kpgtbl (p # ps) s =
     kbind (kalloc s) (\<lambda>pa s.
       if pa = 0 then Panic ''kalloc''
       else kbind (kvmmap kpgtbl (KSTACK p) pa PGSIZE (PTE_R OR PTE_W) s) (\<lambda>_ s.
         proc_mapstacks_loop kpgtbl ps s))"

definition proc_mapstacks :: "u64 \<Rightarrow> 'a kproc_scheme \<Rightarrow> ('a kproc_scheme, unit) res" where
  "proc_mapstacks kpgtbl s = proc_mapstacks_loop kpgtbl [0..<NPROC] s"

definition kvmmake :: "'a kproc_scheme \<Rightarrow> ('a kproc_scheme, u64) res" where
  "kvmmake s =
     kbind (kalloc s) (\<lambda>kpgtbl s.
     if kpgtbl = 0 then UB
     else
     let s = s\<lparr>mem := memset (mem s) kpgtbl 0 4096\<rparr> in
     kbind (kvmmap kpgtbl UART0 UART0 PGSIZE (PTE_R OR PTE_W) s) (\<lambda>_ s.
     kbind (kvmmap kpgtbl VIRTIO0 VIRTIO0 PGSIZE (PTE_R OR PTE_W) s) (\<lambda>_ s.
     kbind (kvmmap kpgtbl PLIC PLIC 0x4000000 (PTE_R OR PTE_W) s) (\<lambda>_ s.
     kbind (kvmmap kpgtbl KERNBASE KERNBASE (etext s - KERNBASE) (PTE_R OR PTE_X) s) (\<lambda>_ s.
     kbind (kvmmap kpgtbl (etext s) (etext s) (PHYSTOP - etext s) (PTE_R OR PTE_W) s) (\<lambda>_ s.
     kbind (kvmmap kpgtbl TRAMPOLINE (trampoline s) PGSIZE (PTE_R OR PTE_X) s) (\<lambda>_ s.
     kbind (proc_mapstacks kpgtbl s) (\<lambda>_ s.
     Ok kpgtbl s))))))))"

definition kvminit :: "'a kproc_scheme \<Rightarrow> ('a kproc_scheme, unit) res" where
  "kvminit s = kbind (kvmmake s) (\<lambda>kpgtbl s. Ok () (s\<lparr>kernel_pagetable := kpgtbl\<rparr>))"

subsection \<open>Slots of the process table\<close>

definition procinit :: "'a kproc_scheme \<Rightarrow> 'a kproc_scheme" where
  "procinit s =
     s\<lparr>procs := (\<lambda>i. if i < NPROC then (procs s i)\<lparr>p_state := UNUSED, p_kstack := KSTACK i\<rparr>
                    else procs s i)\<rparr>"

text \<open>\<open>nextpid\<close> is an \<open>int\<close> that is never reused: handing out the largest one overflows it.\<close>

definition allocpid :: "'a kproc_scheme \<Rightarrow> ('a kproc_scheme, int) res" where
  "allocpid s =
     kbind (acquire L_pid s) (\<lambda>_ s.
     let pid = nextpid s in
     if nextpid s = INT_MAX then UB
     else
       let s = s\<lparr>nextpid := nextpid s + 1\<rparr> in
       kbind (release L_pid s) (\<lambda>_ s. Ok pid s))"

definition proc_pagetable :: "nat \<Rightarrow> 'a kproc_scheme \<Rightarrow> ('a kproc_scheme, u64) res" where
  "proc_pagetable p s =
     kbind (uvmcreate s) (\<lambda>pt s.
     if pt = 0 then Ok 0 s
     else kbind (mappages pt TRAMPOLINE PGSIZE (trampoline s) (PTE_R OR PTE_X) s) (\<lambda>r s.
     if r < 0 then kbind (uvmfree pt 0 s) (\<lambda>_ s. Ok 0 s)
     else kbind (mappages pt TRAPFRAME PGSIZE (p_trapframe (procs s p)) (PTE_R OR PTE_W) s) (\<lambda>r s.
     if r < 0 then
       kbind (uvmunmap pt TRAMPOLINE 1 False s) (\<lambda>_ s.
       kbind (uvmfree pt 0 s) (\<lambda>_ s. Ok 0 s))
     else Ok pt s)))"

definition proc_freepagetable :: "u64 \<Rightarrow> u64 \<Rightarrow> 'a kproc_scheme \<Rightarrow> ('a kproc_scheme, unit) res" where
  "proc_freepagetable pt sz s =
     kbind (uvmunmap pt TRAMPOLINE 1 False s) (\<lambda>_ s.
     kbind (uvmunmap pt TRAPFRAME 1 False s) (\<lambda>_ s.
     uvmfree pt sz s))"

definition freeproc :: "nat \<Rightarrow> 'a kproc_scheme \<Rightarrow> ('a kproc_scheme, unit) res" where
  "freeproc p s =
     kbind (if p_trapframe (procs s p) \<noteq> 0 then kfree (p_trapframe (procs s p)) s else Ok () s) (\<lambda>_ s.
     let s = upd_proc p (p_trapframe_update (\<lambda>_. 0)) s in
     kbind (if p_pagetable (procs s p) \<noteq> 0
            then proc_freepagetable (p_pagetable (procs s p)) (p_sz (procs s p)) s else Ok () s) (\<lambda>_ s.
     Ok () (upd_proc p (\<lambda>q. q\<lparr>p_pagetable := 0, p_sz := 0, p_pid := 0, p_parent := None,
       p_name := (p_name q)(0 := 0), p_chan := None, p_killed := 0, p_xstate := 0,
       p_state := UNUSED\<rparr>) s)))"

text \<open>The scan of \<open>allocproc\<close>: a found slot is returned with its lock held.\<close>

primrec allocproc_scan :: "nat list \<Rightarrow> 'a kproc_scheme \<Rightarrow> ('a kproc_scheme, nat option) res" where
  "allocproc_scan [] s = Ok None s"
| "allocproc_scan (p # ps) s =
     kbind (acquire (L_proc p) s) (\<lambda>_ s.
       if p_state (procs s p) = UNUSED then Ok (Some p) s
       else kbind (release (L_proc p) s) (\<lambda>_ s. allocproc_scan ps s))"

definition allocproc :: "'a kproc_scheme \<Rightarrow> ('a kproc_scheme, nat option) res" where
  "allocproc s =
     kbind (allocproc_scan [0..<NPROC] s) (\<lambda>found s.
     case found of None \<Rightarrow> Ok None s
     | Some p \<Rightarrow>
       kbind (allocpid s) (\<lambda>pid s.
       let s = upd_proc p (\<lambda>q. q\<lparr>p_pid := pid, p_state := USED\<rparr>) s in
       kbind (kalloc s) (\<lambda>tf s.
       let s = upd_proc p (p_trapframe_update (\<lambda>_. tf)) s in
       if tf = 0 then
         kbind (freeproc p s) (\<lambda>_ s. kbind (release (L_proc p) s) (\<lambda>_ s. Ok None s))
       else kbind (proc_pagetable p s) (\<lambda>pt s.
       let s = upd_proc p (p_pagetable_update (\<lambda>_. pt)) s in
       if pt = 0 then
         kbind (freeproc p s) (\<lambda>_ s. kbind (release (L_proc p) s) (\<lambda>_ s. Ok None s))
       else
         Ok (Some p) (upd_proc p (\<lambda>q. q\<lparr>p_mmap_base := TRAPFRAME,
           p_context := zero_context\<lparr>ctx_ra := forkret_addr s, ctx_sp := p_kstack q + PGSIZE\<rparr>\<rparr>) s)))))"

definition growproc :: "int \<Rightarrow> 'a kproc_scheme \<Rightarrow> ('a kproc_scheme, int) res" where
  "growproc n s =
     kbind (myproc s) (\<lambda>p s.
     if p_sz (procs s p) + word_of_int n \<ge> p_mmap_base (procs s p) then Ok (-1) s
     else
       let sz = p_sz (procs s p); pt = p_pagetable (procs s p) in
       if n > 0 then
         kbind (uvmalloc pt sz (sz + word_of_int n) PTE_W s) (\<lambda>sz s.
         if sz = 0 then Ok (-1) s
         else Ok 0 (upd_proc p (p_sz_update (\<lambda>_. sz)) s))
       else if n < 0 then
         kbind (uvmdealloc pt sz (sz + word_of_int n) s) (\<lambda>sz s.
         Ok 0 (upd_proc p (p_sz_update (\<lambda>_. sz)) s))
       else Ok 0 s)"

subsection \<open>Sleeping, waking and killing\<close>

text \<open>
  \<open>sched\<close> up to the \<open>swtch\<close>: its checks. \<open>noff\<close> is the number of held locks, and interrupts are off
  while any is held, so the last check cannot fail when the second passes.
\<close>

definition sched :: "'a kproc_scheme \<Rightarrow> ('a kproc_scheme, unit) res" where
  "sched s =
     kbind (myproc s) (\<lambda>p s.
     if L_proc p \<notin> set (held s) then Panic ''sched p->lock''
     else if length (held s) \<noteq> 1 then Panic ''sched locks''
     else if p_state (procs s p) = RUNNING then Panic ''sched RUNNING''
     else Ok () s)"

text \<open>The scheduler resumes the thread with its state set to \<open>RUNNING\<close> and its lock held.\<close>

definition yield :: "'a kproc_scheme \<Rightarrow> ('a kproc_scheme, unit) res" where
  "yield s =
     kbind (myproc s) (\<lambda>p s.
     kbind (acquire (L_proc p) s) (\<lambda>_ s.
     let s = upd_proc p (p_state_update (\<lambda>_. RUNNABLE)) s in
     kbind (sched s) (\<lambda>_ s.
     let s = upd_proc p (p_state_update (\<lambda>_. RUNNING)) s in
     release (L_proc p) s)))"

text \<open>\<open>sleep\<close> up to the \<open>swtch\<close>, and from there on once another thread has woken this one.\<close>

definition sleep :: "chan \<Rightarrow> lock \<Rightarrow> 'a kproc_scheme \<Rightarrow> ('a kproc_scheme, 'b) res" where
  "sleep chan lk s =
     kbind (myproc s) (\<lambda>p s.
     kbind (acquire (L_proc p) s) (\<lambda>_ s.
     kbind (release lk s) (\<lambda>_ s.
     let s = upd_proc p (\<lambda>q. q\<lparr>p_chan := Some chan, p_state := SLEEPING\<rparr>) s in
     kbind (sched s) (\<lambda>_ s. Sleep chan s))))"

definition sleep_resume :: "lock \<Rightarrow> 'a kproc_scheme \<Rightarrow> ('a kproc_scheme, unit) res" where
  "sleep_resume lk s =
     kbind (myproc s) (\<lambda>p s.
     let s = upd_proc p (p_chan_update (\<lambda>_. None)) s in
     kbind (release (L_proc p) s) (\<lambda>_ s. acquire lk s))"

primrec wakeup_loop :: "chan \<Rightarrow> nat list \<Rightarrow> 'a kproc_scheme \<Rightarrow> ('a kproc_scheme, unit) res" where
  "wakeup_loop chan [] s = Ok () s"
| "wakeup_loop chan (p # ps) s =
     (if curproc s \<noteq> Some p then
        kbind (acquire (L_proc p) s) (\<lambda>_ s.
        let s = (if p_state (procs s p) = SLEEPING \<and> p_chan (procs s p) = Some chan
                 then upd_proc p (p_state_update (\<lambda>_. RUNNABLE)) s else s) in
        kbind (release (L_proc p) s) (\<lambda>_ s. wakeup_loop chan ps s))
      else wakeup_loop chan ps s)"

definition wakeup :: "chan \<Rightarrow> 'a kproc_scheme \<Rightarrow> ('a kproc_scheme, unit) res" where
  "wakeup chan s = wakeup_loop chan [0..<NPROC] s"

primrec kkill_loop :: "int \<Rightarrow> nat list \<Rightarrow> 'a kproc_scheme \<Rightarrow> ('a kproc_scheme, int) res" where
  "kkill_loop pid [] s = Ok (-1) s"
| "kkill_loop pid (p # ps) s =
     kbind (acquire (L_proc p) s) (\<lambda>_ s.
     if p_pid (procs s p) = pid then
       let s = upd_proc p (p_killed_update (\<lambda>_. 1)) s;
           s = (if p_state (procs s p) = SLEEPING
                then upd_proc p (p_state_update (\<lambda>_. RUNNABLE)) s else s) in
       kbind (release (L_proc p) s) (\<lambda>_ s. Ok 0 s)
     else kbind (release (L_proc p) s) (\<lambda>_ s. kkill_loop pid ps s))"

definition kkill :: "int \<Rightarrow> 'a kproc_scheme \<Rightarrow> ('a kproc_scheme, int) res" where
  "kkill pid s = kkill_loop pid [0..<NPROC] s"

definition setkilled :: "nat \<Rightarrow> 'a kproc_scheme \<Rightarrow> ('a kproc_scheme, unit) res" where
  "setkilled p s =
     kbind (acquire (L_proc p) s) (\<lambda>_ s.
     release (L_proc p) (upd_proc p (p_killed_update (\<lambda>_. 1)) s))"

definition killed :: "nat \<Rightarrow> 'a kproc_scheme \<Rightarrow> ('a kproc_scheme, bool) res" where
  "killed p s =
     kbind (acquire (L_proc p) s) (\<lambda>_ s.
     let k = p_killed (procs s p) \<noteq> 0 in
     kbind (release (L_proc p) s) (\<lambda>_ s. Ok k s))"

text \<open>\<open>reparent\<close>; waking \<open>initproc\<close> uses its address as the channel.\<close>

primrec reparent_loop :: "nat \<Rightarrow> nat list \<Rightarrow> 'a kproc_scheme \<Rightarrow> ('a kproc_scheme, unit) res" where
  "reparent_loop p [] s = Ok () s"
| "reparent_loop p (pp # pps) s =
     (if p_parent (procs s pp) = Some p then
        let s = upd_proc pp (p_parent_update (\<lambda>_. initproc s)) s in
        kbind (case initproc s of None \<Rightarrow> UB | Some i \<Rightarrow> wakeup (Ch_proc i) s) (\<lambda>_ s.
        reparent_loop p pps s)
      else reparent_loop p pps s)"

definition reparent :: "nat \<Rightarrow> 'a kproc_scheme \<Rightarrow> ('a kproc_scheme, unit) res" where
  "reparent p s = reparent_loop p [0..<NPROC] s"

subsection \<open>Lemmas on the table\<close>

lemma upd_proc_simps [simp]:
  "mem (upd_proc i f s) = mem s" "kend (upd_proc i f s) = kend s" "held (upd_proc i f s) = held s"
  "freelist (upd_proc i f s) = freelist s" "curproc (upd_proc i f s) = curproc s"
  "initproc (upd_proc i f s) = initproc s" "nextpid (upd_proc i f s) = nextpid s"
  "trampoline (upd_proc i f s) = trampoline s"
  "procs (upd_proc i f s) = (procs s)(i := f (procs s i))"
  by (simp_all add: upd_proc_def)

lemma kmem_inv_same:
  assumes "mem t = mem s" and "freelist t = freelist s" and "kend t = kend s" and "held t = held s"
  shows "kmem_inv t \<longleftrightarrow> kmem_inv s" and "kmem_free t = kmem_free s" and "pt_inv t r \<longleftrightarrow> pt_inv s r"
    and "ram_page t p \<longleftrightarrow> ram_page s p"
proof -
  show ram: "ram_page t p \<longleftrightarrow> ram_page s p" for p using assms by (simp add: ram_page_def)
  show kf: "kmem_free t = kmem_free s" using assms by (simp add: kmem_free_def)
  show "kmem_inv t \<longleftrightarrow> kmem_inv s" using assms ram by (simp add: kmem_inv_def kmem_pages_def)
  show "pt_inv t r \<longleftrightarrow> pt_inv s r" unfolding pt_inv_def using assms ram kf by simp
qed

lemma kmem_inv_upd_proc [simp]:
  "kmem_inv (upd_proc i f s) \<longleftrightarrow> kmem_inv s" "kmem_free (upd_proc i f s) = kmem_free s"
  "pt_inv (upd_proc i f s) r \<longleftrightarrow> pt_inv s r" "ram_page (upd_proc i f s) p \<longleftrightarrow> ram_page s p"
  by (intro kmem_inv_same; simp)+

text \<open>What \<open>wakeup\<close> does to one process.\<close>

definition woken :: "chan \<Rightarrow> proc \<Rightarrow> proc" where
  "woken chan p = (if p_state p = SLEEPING \<and> p_chan p = Some chan then p\<lparr>p_state := RUNNABLE\<rparr> else p)"

lemma wakeup_loop_spec:
  assumes "\<forall>p\<in>set ps. L_proc p \<notin> set (held s)" and "distinct ps"
  shows "wakeup_loop chan ps s =
    Ok () (s\<lparr>procs := (\<lambda>i. if i \<in> set ps \<and> curproc s \<noteq> Some i then woken chan (procs s i) else procs s i)\<rparr>)"
  using assms
proof (induction ps arbitrary: s)
  case Nil
  then show ?case by simp
next
  case (Cons p ps)
  show ?case
  proof (cases "curproc s = Some p")
    case True
    have "(\<lambda>i. if i \<in> set ps \<and> curproc s \<noteq> Some i then woken chan (procs s i) else procs s i) =
      (\<lambda>i. if i \<in> set (p # ps) \<and> curproc s \<noteq> Some i then woken chan (procs s i) else procs s i)"
      using True by auto
    then show ?thesis using True Cons by simp
  next
    case False
    let ?s = "s\<lparr>procs := (procs s)(p := woken chan (procs s p))\<rparr>"
    have "wakeup_loop chan (p # ps) s = wakeup_loop chan ps ?s"
      using False Cons.prems(1)
      by (auto simp: upd_proc_def woken_def Let_def fun_upd_idem)
    also have "\<dots> = Ok () (?s\<lparr>procs := (\<lambda>i. if i \<in> set ps \<and> curproc ?s \<noteq> Some i
        then woken chan (procs ?s i) else procs ?s i)\<rparr>)"
      using Cons by (intro Cons.IH) auto
    also have "(\<lambda>i. if i \<in> set ps \<and> curproc ?s \<noteq> Some i then woken chan (procs ?s i) else procs ?s i) =
      (\<lambda>i. if i \<in> set (p # ps) \<and> curproc s \<noteq> Some i then woken chan (procs s i) else procs s i)"
      using False Cons.prems(2) by (auto simp: fun_eq_iff)
    finally show ?thesis by simp
  qed
qed

lemma wakeup_spec:
  assumes "\<And>p. L_proc p \<notin> set (held s)"
  shows "wakeup chan s =
    Ok () (s\<lparr>procs := (\<lambda>i. if i < NPROC \<and> curproc s \<noteq> Some i then woken chan (procs s i) else procs s i)\<rparr>)"
  using wakeup_loop_spec [of "[0..<NPROC]" s chan] assms by (simp add: wakeup_def)

lemma wakeup_frame:
  assumes "wakeup chan s = Ok v t"
  shows "\<exists>P. t = s\<lparr>procs := P\<rparr>"
proof -
  have "wakeup_loop chan ps s = Ok v t \<Longrightarrow> \<exists>P. t = s\<lparr>procs := P\<rparr>" for ps
  proof (induction ps arbitrary: s)
    case Nil
    then show ?case by (auto intro: exI [of _ "procs s"])
  next
    case (Cons p ps)
    show ?case
    proof (cases "curproc s = Some p")
      case True
      then show ?thesis using Cons by simp
    next
      case False
      have h: "L_proc p \<notin> set (held s)" using Cons.prems False by (auto simp: acquire_def)
      obtain Q where "wakeup_loop chan ps (s\<lparr>procs := Q\<rparr>) = Ok v t"
      proof -
        have "wakeup_loop chan (p # ps) s = wakeup_loop chan ps (s\<lparr>procs := (procs s)(p := woken chan (procs s p))\<rparr>)"
          using False h by (auto simp: upd_proc_def woken_def Let_def fun_upd_idem)
        then show ?thesis using that Cons.prems by simp
      qed
      then obtain P where "t = s\<lparr>procs := Q\<rparr>\<lparr>procs := P\<rparr>" using Cons.IH by blast
      then show ?thesis by auto
    qed
  qed
  then show ?thesis using assms by (simp add: wakeup_def)
qed

text \<open>The scans of \<open>kkill\<close> and \<open>allocproc\<close> find the first slot with a property.\<close>

lemma kkill_loop_spec:
  assumes "\<forall>p\<in>set ps. L_proc p \<notin> set (held s)"
  shows "kkill_loop pid ps s =
    (case List.find (\<lambda>i. p_pid (procs s i) = pid) ps of None \<Rightarrow> Ok (-1) s
     | Some i \<Rightarrow> Ok 0 (upd_proc i (\<lambda>p. p\<lparr>p_killed := 1,
         p_state := (if p_state p = SLEEPING then RUNNABLE else p_state p)\<rparr>) s))"
  using assms by (induction ps) (auto simp: upd_proc_def Let_def)

lemma allocproc_scan_spec:
  assumes "\<forall>p\<in>set ps. L_proc p \<notin> set (held s)"
  shows "allocproc_scan ps s =
    (case List.find (\<lambda>i. p_state (procs s i) = UNUSED) ps of None \<Rightarrow> Ok None s
     | Some i \<Rightarrow> Ok (Some i) (s\<lparr>held := L_proc i # held s\<rparr>))"
  using assms by (induction ps) (auto simp: Let_def)

subsection \<open>User page tables\<close>

definition upt_map :: "u64 \<Rightarrow> u64 \<Rightarrow> u64 \<Rightarrow> u64" where
  "upt_map tramp tf va =
     (if pageno va = pageno TRAPFRAME then PA2PTE tf OR (PTE_R OR PTE_W) OR PTE_V
      else if pageno va = pageno TRAMPOLINE then PA2PTE tramp OR (PTE_R OR PTE_X) OR PTE_V
      else 0)"

lemma TRAMPOLINE_facts:
  "page_aligned TRAMPOLINE" "(TRAMPOLINE :: u64) < MAXVA" "page_aligned TRAPFRAME" "(TRAPFRAME :: u64) < MAXVA"
  "pageno TRAPFRAME \<noteq> pageno TRAMPOLINE" "unat TRAMPOLINE + 4096 * 1 \<le> unat MAXVA"
  "unat TRAPFRAME + 4096 * 1 \<le> unat MAXVA"
  by (simp_all add: pageno_def)

text \<open>Undoing a mapping of the trampoline and freeing the table.\<close>

lemma uvmunmap_one:
  assumes "kmem_inv s" and "pt_inv s r" and "page_aligned va" and "unat va + 4096 * 1 \<le> unat MAXVA"
  shows "\<exists>t. uvmunmap r va 1 False s = Ok () t \<and>
    pt_rel r (\<lambda>vb. if pageno vb = pageno va \<and> pte_of (mem s) r vb AND PTE_V \<noteq> 0 then 0
                   else pte_of (mem s) r vb) {} s t"
proof -
  have "unmapped (pte_of (mem s) r) va 1 = (\<lambda>vb. if pageno vb = pageno va \<and> pte_of (mem s) r vb AND PTE_V \<noteq> 0
      then 0 else pte_of (mem s) r vb)"
    by (auto simp: unmapped_def fun_eq_iff)
  then show ?thesis using uvmunmap_spec [OF assms, of "\<lambda>_. False" False] by simp
qed

lemma mem_only_kproc:
  assumes "mem_only s t"
  shows "procs t = procs s" "curproc t = curproc s" "nextpid t = nextpid s" "trampoline t = trampoline s"
    "initproc t = initproc s" "forkret_addr t = forkret_addr s"
  using assms by (auto simp: mem_only_def)

lemma kmem_pages_ex:
  assumes "kmem_inv s"
  obtains ps where "kmem_pages s ps" "kmem_free s = set ps"
  using assms kmem_free_eq by (auto simp: kmem_inv_def)

text \<open>A step that may only touch the pages \<open>F\<close>.\<close>

definition within :: "u64 set \<Rightarrow> 'a kmem_scheme \<Rightarrow> 'a kmem_scheme \<Rightarrow> bool" where
  "within F s t \<longleftrightarrow> kmem_inv t \<and> mem_only s t \<and> (\<forall>x. pageno x \<notin> pageno ` F \<longrightarrow> mem t x = mem s x)"

lemma within_trans: "within F s t \<Longrightarrow> within G t u \<Longrightarrow> G \<subseteq> F \<Longrightarrow> within F s u"
  unfolding within_def by (metis image_mono mem_only_trans subsetD)

lemma pt_upd_within: "pt_upd r f s t \<Longrightarrow> within (pt_pages (mem s) r \<union> kmem_free s) s t"
  by (simp add: pt_upd_def within_def)

lemma pt_rel_within: "pt_rel r f D s t \<Longrightarrow> within (pt_pages (mem s) r \<union> D) s t"
  by (simp add: pt_rel_def within_def)

lemma uvmfree_undo:
  assumes "kmem_inv s" and "pt_inv s r" and "\<And>va. va < MAXVA \<Longrightarrow> pte_of (mem s) r va AND PTE_V = 0"
  shows "\<exists>t. uvmfree r 0 s = Ok () t \<and> within (pt_pages (mem s) r) s t \<and>
    kmem_free t = kmem_free s \<union> pt_pages (mem s) r"
  using uvmfree_empty [OF assms] by (auto simp: within_def)

lemma proc_pagetable_fail1:
  assumes a: "kmem_inv a" "pt_inv a pt" "\<And>va. va < MAXVA \<Longrightarrow> pte_of (mem a) pt va = 0"
    and u: "pt_upd pt (pte_of (mem a) pt) a b"
  shows "\<exists>t. uvmfree pt 0 b = Ok () t \<and> within (pt_pages (mem a) pt \<union> kmem_free a) a t \<and>
    kmem_free t = kmem_free a \<union> pt_pages (mem a) pt"
proof -
  note U = pt_updD [OF u]
  have "pte_of (mem b) pt va AND PTE_V = 0" if "va < MAXVA" for va using U(3) a(3) that by simp
  then obtain t where t: "uvmfree pt 0 b = Ok () t" "within (pt_pages (mem b) pt) b t"
    "kmem_free t = kmem_free b \<union> pt_pages (mem b) pt"
    using uvmfree_undo [OF U(1,2)] by blast
  have "kmem_free t = kmem_free a \<union> pt_pages (mem a) pt" using t(3) U(4,5) by blast
  moreover have "within (pt_pages (mem a) pt \<union> kmem_free a) a t"
    by (rule within_trans [OF pt_upd_within [OF u] t(2)]) (use U(5) in blast)
  ultimately show ?thesis using t(1) by blast
qed

text \<open>The trapframe is mapped by the last-level table of the trampoline.\<close>

lemma lpath_TRAPFRAME: "lpath TRAPFRAME = lpath TRAMPOLINE"
  by (simp add: lpath_def px_def unat_PX)

lemma mapped_card:
  assumes "pt_inv s r" and "pte_of (mem s) r va \<noteq> 0"
  shows "\<exists>c. pt_node (mem s) r (lpath va) = Some c" and "\<exists>c d. c \<noteq> d \<and> c \<noteq> r \<and> d \<noteq> r \<and> {c, d} \<subseteq> pt_pages (mem s) r"
proof -
  show "\<exists>c. pt_node (mem s) r (lpath va) = Some c"
    using assms(2) by (auto simp: pte_of_def split: option.splits)
  then obtain d where d: "pt_node (mem s) r [px 2 va, px 1 va] = Some d" unfolding lpath_def by blast
  then obtain c where c: "pt_node (mem s) r [px 2 va] = Some c"
    using pt_node_prefix_Some [of "mem s" r "[px 2 va]" "[px 1 va]" d] by auto
  have p: "pt_path []" "pt_path [px 2 va]" "pt_path [px 2 va, px 1 va]" by (simp_all add: pt_path_def)
  have r: "pt_node (mem s) r [] = Some r" by simp
  have "c \<noteq> d" "c \<noteq> r" "d \<noteq> r"
    using pt_inv_inj [OF assms(1) p(2) c p(3)] pt_inv_inj [OF assms(1) p(2) c p(1)]
      pt_inv_inj [OF assms(1) p(3) d p(1)] c d r by auto
  moreover have "{c, d} \<subseteq> pt_pages (mem s) r" using c d p(2,3) by (auto simp: pt_pages_def)
  ultimately show "\<exists>c d. c \<noteq> d \<and> c \<noteq> r \<and> d \<noteq> r \<and> {c, d} \<subseteq> pt_pages (mem s) r" by blast
qed

lemma map_trapframe:
  assumes k: "kmem_inv b" "pt_inv b pt" and m: "pte_of (mem b) pt TRAMPOLINE \<noteq> 0" and z: "pte_of (mem b) pt TRAPFRAME AND PTE_V = 0"
  obtains c where "mappages pt TRAPFRAME PGSIZE pa perm b = Ok 0 c"
    and "pt_upd pt (\<lambda>vb. if pageno vb = pageno TRAPFRAME then PA2PTE pa OR perm OR PTE_V else pte_of (mem b) pt vb) b c"
proof -
  note T = TRAMPOLINE_facts
  obtain d where d: "pt_node (mem b) pt (lpath TRAPFRAME) = Some d"
    using mapped_card(1) [OF k(2) m] unfolding lpath_TRAPFRAME by blast
  from k T(3,4) z show ?thesis
  proof (cases rule: mappages_one [where pa = pa and perm = perm])
    case (ok c)
    then show ?thesis using that by blast
  next
    case (nomem c)
    from mappages_nomem [OF T(3) nomem(1)] walk_existing [OF k(2) T(4) d] show ?thesis by (metis res.inject(1))
  qed
qed

text \<open>
  The first mapping needs exactly two more pages, and the second one none: \<open>proc_pagetable\<close> succeeds
  exactly when three pages are free.
\<close>

lemma proc_pagetable_spec:
  assumes "kmem_inv s"
  shows "\<exists>pt t. proc_pagetable p s = Ok pt t \<and> within (kmem_free s) s t \<and>
    (if card (kmem_free s) < 3 then pt = 0 \<and> kmem_free t = kmem_free s
     else pt \<noteq> 0 \<and> pt_inv t pt \<and> kmem_free t \<subseteq> kmem_free s \<and> pt_pages (mem t) pt = kmem_free s - kmem_free t \<and>
       (\<forall>va<MAXVA. pte_of (mem t) pt va = upt_map (trampoline s) (p_trapframe (procs s p)) va))"
proof -
  obtain ps where ps: "kmem_pages s ps" "kmem_free s = set ps" by (rule kmem_pages_ex [OF assms])
  show ?thesis
  proof (cases ps)
    case Nil
    then show ?thesis using uvmcreate_spec [OF ps(1)] ps(2) assms by (auto simp: proc_pagetable_def within_def)
  next
    case (Cons pt qs)
    obtain a where a: "uvmcreate s = Ok pt a" "kmem_pages a qs" "pt_inv a pt" "pt_pages (mem a) pt = {pt}"
      "\<forall>va. pte_of (mem a) pt va = 0" "\<forall>x. pageno x \<noteq> pageno pt \<longrightarrow> mem a x = mem s x" "mem_only s a"
      using uvmcreate_spec [OF ps(1)] Cons by auto
    have pt0: "pt \<noteq> 0" "pt \<notin> set qs" using ps(1) Cons by (auto simp: kmem_pages_def)
    have ka: "kmem_inv a" "kmem_free a = set qs" using a(2) kmem_free_eq by (auto simp: kmem_inv_def)
    have F: "kmem_free s = pt_pages (mem a) pt \<union> kmem_free a" using ps(2) Cons a(4) ka(2) by simp
    have card: "card (kmem_free s) = Suc (card (kmem_free a))" using F a(4) ka(2) pt0(2) by simp
    have wa: "within (kmem_free s) s a" using ka a(6,7) F a(4) by (simp add: within_def)
    note T = TRAMPOLINE_facts and mo = mem_only_kproc [OF a(7)]
    have z: "pte_of (mem a) pt TRAMPOLINE AND PTE_V = 0" using a(5) by simp
    from ka(1) a(3) T(1,2) z
    show ?thesis
    proof (cases rule: mappages_one [where pa = "trampoline s" and perm = "PTE_R OR PTE_X"])
      case (nomem b)
      obtain t where t: "uvmfree pt 0 b = Ok () t" "within (kmem_free s) a t" "kmem_free t = kmem_free s"
        using proc_pagetable_fail1 [OF ka(1) a(3) _ nomem(2)] a(5) F by (auto simp: Un_commute)
      have "card (kmem_free a) < 2"
        by (rule walk_fail_card [OF ka(1) a(3) T(2) mappages_nomem [OF T(1) nomem(1)]])
      then show ?thesis using within_trans [OF wa t(2)] a(1) pt0 nomem(1) mo(4) t(1,3) card
        by (auto simp: proc_pagetable_def)
    next
      case (ok b)
      note B = pt_updD [OF ok(2)]
      have bs: "mem_only a b" using ok(2) by (simp add: pt_upd_def)
      note mb = mem_only_kproc [OF bs]
      have zb: "pte_of (mem b) pt TRAPFRAME AND PTE_V = 0" using B(3) [OF T(4)] T(5) a(5) by simp
      have nz: "pte_of (mem b) pt TRAMPOLINE \<noteq> 0" using B(3) [OF T(2)] by (auto simp: or_eq_0_iff)
      obtain x y where "x \<noteq> y" "{x, y} \<subseteq> kmem_free a" using mapped_card(2) [OF B(2) nz] B(5) a(4) by auto
      then have "2 \<le> card (kmem_free a)" using card_mono [of "kmem_free a" "{x, y}"] ka(2) by simp
      with card have three: "\<not> card (kmem_free s) < 3" by simp
      have wb: "within (kmem_free s) s b" by (rule within_trans [OF wa pt_upd_within [OF ok(2)]]) (simp add: F)
      obtain c where c: "mappages pt TRAPFRAME PGSIZE (p_trapframe (procs s p)) (PTE_R OR PTE_W) b = Ok 0 c"
        "pt_upd pt (\<lambda>vb. if pageno vb = pageno TRAPFRAME then PA2PTE (p_trapframe (procs s p)) OR (PTE_R OR PTE_W) OR PTE_V
           else pte_of (mem b) pt vb) b c"
        using map_trapframe [OF B(1,2) nz zb] by blast
      note C = pt_updD [OF c(2)]
      have "within (kmem_free s) s c"
        by (rule within_trans [OF wb pt_upd_within [OF c(2)]]) (use B(4,5) F in blast)
      moreover have "pt_pages (mem c) pt = kmem_free s - kmem_free c" "kmem_free c \<subseteq> kmem_free s"
        using C(4,5) B(4,5) F a(4) ka(2) pt0(2) by auto
      moreover have "pte_of (mem c) pt va = upt_map (trampoline s) (p_trapframe (procs s p)) va"
        if "va < MAXVA" for va
        using C(3) [OF that] B(3) [OF that] a(5) unfolding upt_map_def by simp
      ultimately show ?thesis using a(1) pt0 ok(1) c(1) mo mb C(2) three by (simp add: proc_pagetable_def)
    qed
  qed
qed

subsection \<open>Allocating a slot\<close>

lemma kmem_inv_held:
  assumes "L_kmem \<notin> set h" and "kmem_inv s"
  shows "kmem_inv (s\<lparr>held := h\<rparr>)"
  using assms by (auto simp: kmem_inv_def kmem_pages_def ram_page_def)

lemma kmem_free_held [simp]: "kmem_free (s\<lparr>held := h\<rparr>) = kmem_free s"
  by (simp add: kmem_free_def)

lemma kmem_free_nextpid [simp]:
  "kmem_free (s\<lparr>nextpid := n\<rparr>) = kmem_free s" "kmem_inv (s\<lparr>nextpid := n\<rparr>) \<longleftrightarrow> kmem_inv s"
  by (intro kmem_inv_same; simp)+

lemma allocpid_spec:
  "L_pid \<notin> set (held s) \<Longrightarrow> nextpid s < INT_MAX \<Longrightarrow> allocpid s = Ok (nextpid s) (s\<lparr>nextpid := nextpid s + 1\<rparr>)"
  by (simp add: allocpid_def)

lemma kalloc_cases:
  assumes "kmem_inv s"
  obtains (none) "kalloc s = Ok 0 s" "kmem_free s = {}"
  | (page) p t where "kalloc s = Ok p t" "p \<noteq> 0" "p \<in> kmem_free s" "ram_page s p" "within {p} s t"
      "kmem_free t = kmem_free s - {p}"
proof -
  obtain ps where ps: "kmem_pages s ps" "kmem_free s = set ps" by (rule kmem_pages_ex [OF assms])
  show ?thesis
  proof (cases ps)
    case Nil
    then show ?thesis using none kalloc_empty [OF ps(1) [unfolded Nil]] ps(2) by simp
  next
    case (Cons p qs)
    note k = kalloc_Cons [OF ps(1) [unfolded Cons]]
    have p: "p \<noteq> 0" "ram_page s p" "page_aligned p" "p \<notin> set qs"
      using ps(1) Cons by (auto simp: kmem_pages_def ram_page_def)
    have "within {p} s (s\<lparr>freelist := ld64 (mem s) p, mem := memset (mem s) p 5 4096\<rparr>)"
      using k(2) p by (auto simp: within_def kmem_inv_def memset_page_apply)
    then show ?thesis
      using page [OF k(1)] p Cons ps(2) kmem_free_eq [OF k(2)] by auto
  qed
qed

lemma kfree_within:
  assumes "kmem_inv s" and "ram_page s p" and "p \<notin> kmem_free s"
  shows "\<exists>t. kfree p s = Ok () t \<and> within {p} s t \<and> kmem_free t = insert p (kmem_free s)"
  using kfree_freed [OF assms] by (auto simp: freed_def within_def)

text \<open>A slot with no page table: \<open>freeproc\<close> gives back the trapframe page, if there is one.\<close>

definition empty_slot :: "proc \<Rightarrow> proc" where
  "empty_slot q = q\<lparr>p_trapframe := 0, p_pagetable := 0, p_sz := 0, p_pid := 0, p_parent := None,
     p_name := (p_name q)(0 := 0), p_chan := None, p_killed := 0, p_xstate := 0, p_state := UNUSED\<rparr>"

lemma freeproc_no_table:
  assumes "kmem_inv s" and "p_pagetable (procs s i) = 0"
    and tf: "p_trapframe (procs s i) \<noteq> 0 \<Longrightarrow>
      ram_page s (p_trapframe (procs s i)) \<and> p_trapframe (procs s i) \<notin> kmem_free s"
  shows "\<exists>t. freeproc i s = Ok () t \<and> kmem_inv t \<and>
    kmem_free t = kmem_free s \<union> (if p_trapframe (procs s i) = 0 then {} else {p_trapframe (procs s i)}) \<and>
    held t = held s \<and> procs t = (procs s)(i := empty_slot (procs s i)) \<and> nextpid t = nextpid s"
proof (cases "p_trapframe (procs s i) = 0")
  case True
  then show ?thesis using assms
    by (simp add: freeproc_def empty_slot_def Let_def)
next
  case False
  obtain t where t: "kfree (p_trapframe (procs s i)) s = Ok () t" "within {p_trapframe (procs s i)} s t"
    "kmem_free t = insert (p_trapframe (procs s i)) (kmem_free s)"
    using kfree_within [OF assms(1)] tf [OF False] by blast
  have m: "mem_only s t" using t(2) by (simp add: within_def)
  show ?thesis
    using False t assms(2) mem_only_kproc [OF m] mem_only_same [OF m]
    by (auto simp: freeproc_def empty_slot_def Let_def within_def)
qed

text \<open>
  The outcomes of \<open>allocproc\<close> once a free slot \<open>i\<close> has been found. It needs four pages: the trapframe and
  the three pages of the table.
\<close>

definition allocproc_failed :: "nat \<Rightarrow> 'a kproc_scheme \<Rightarrow> 'a kproc_scheme \<Rightarrow> bool" where
  "allocproc_failed i s t \<longleftrightarrow> kmem_inv t \<and> kmem_free t = kmem_free s \<and> held t = held s \<and>
     p_state (procs t i) = UNUSED \<and> p_pid (procs t i) = 0 \<and> (\<forall>j. j \<noteq> i \<longrightarrow> procs t j = procs s j)"

definition allocproc_done :: "nat \<Rightarrow> 'a kproc_scheme \<Rightarrow> 'a kproc_scheme \<Rightarrow> bool" where
  "allocproc_done i s t \<longleftrightarrow> kmem_inv t \<and> held t = L_proc i # held s \<and>
     p_state (procs t i) = USED \<and> p_pid (procs t i) = nextpid s \<and> nextpid t = nextpid s + 1 \<and>
     p_mmap_base (procs t i) = TRAPFRAME \<and>
     p_killed (procs t i) = p_killed (procs s i) \<and> p_vma (procs t i) = p_vma (procs s i) \<and>
     pt_inv t (p_pagetable (procs t i)) \<and>
     (\<forall>va<MAXVA. pte_of (mem t) (p_pagetable (procs t i)) va =
        upt_map (trampoline s) (p_trapframe (procs t i)) va) \<and>
     kmem_free t \<subseteq> kmem_free s \<and> p_trapframe (procs t i) \<in> kmem_free s \<and>
     p_trapframe (procs t i) \<notin> pt_pages (mem t) (p_pagetable (procs t i)) \<and>
     kmem_free s - kmem_free t = insert (p_trapframe (procs t i)) (pt_pages (mem t) (p_pagetable (procs t i))) \<and>
     (\<forall>j. j \<noteq> i \<longrightarrow> procs t j = procs s j)"

lemma find_UNUSED:
  "List.find (\<lambda>i. p_state (procs s i) = UNUSED) [0..<NPROC] = Some i \<Longrightarrow>
   i < NPROC \<and> p_state (procs s i) = UNUSED"
  by (auto simp: find_Some_iff)

lemma release_proc_failed:
  assumes "kmem_inv a" and "held a = L_proc i # held s" and "kmem_free a = kmem_free s"
    and "procs a = (procs b)(i := empty_slot q)" and "\<And>j. j \<noteq> i \<Longrightarrow> procs b j = procs s j"
    and "L_proc i \<notin> set (held s)"
  shows "\<exists>t. release (L_proc i) a = Ok () t \<and> allocproc_failed i s t"
proof -
  have "L_kmem \<notin> set (held s)" using assms(1,2) by (auto simp: kmem_inv_def kmem_pages_def)
  then show ?thesis using assms
    by (auto simp: allocproc_failed_def empty_slot_def intro: kmem_inv_held)
qed

lemma allocproc_spec:
  assumes k: "kmem_inv s" and l: "\<And>p. L_proc p \<notin> set (held s)" "L_pid \<notin> set (held s)"
    and n: "nextpid s < INT_MAX"
    and i: "List.find (\<lambda>i. p_state (procs s i) = UNUSED) [0..<NPROC] = Some i"
    and pt0: "p_pagetable (procs s i) = 0"
  shows "if card (kmem_free s) < 4 then \<exists>t. allocproc s = Ok None t \<and> allocproc_failed i s t
         else \<exists>t. allocproc s = Ok (Some i) t \<and> allocproc_done i s t"
proof -
  define s3 where "s3 = upd_proc i (\<lambda>q. q\<lparr>p_pid := nextpid s, p_state := USED\<rparr>)
    (s\<lparr>held := L_proc i # held s, nextpid := nextpid s + 1\<rparr>)"
  have scan: "allocproc_scan [0..<NPROC] s = Ok (Some i) (s\<lparr>held := L_proc i # held s\<rparr>)"
    using allocproc_scan_spec [of "[0..<NPROC]" s] l(1) i by simp
  have start: "allocproc s = kbind (kalloc s3) (\<lambda>tf s.
       let s = upd_proc i (p_trapframe_update (\<lambda>_. tf)) s in
       if tf = 0 then
         kbind (freeproc i s) (\<lambda>_ s. kbind (release (L_proc i) s) (\<lambda>_ s. Ok None s))
       else kbind (proc_pagetable i s) (\<lambda>pt s.
       let s = upd_proc i (p_pagetable_update (\<lambda>_. pt)) s in
       if pt = 0 then
         kbind (freeproc i s) (\<lambda>_ s. kbind (release (L_proc i) s) (\<lambda>_ s. Ok None s))
       else
         Ok (Some i) (upd_proc i (\<lambda>q. q\<lparr>p_mmap_base := TRAPFRAME,
           p_context := zero_context\<lparr>ctx_ra := forkret_addr s, ctx_sp := p_kstack q + PGSIZE\<rparr>\<rparr>) s)))"
    using l(2) n by (simp add: allocproc_def scan allocpid_spec s3_def)
  have s3: "kmem_inv s3" "kmem_free s3 = kmem_free s" "held s3 = L_proc i # held s" "nextpid s3 = nextpid s + 1"
    "procs s3 = (procs s)(i := (procs s i)\<lparr>p_pid := nextpid s, p_state := USED\<rparr>)" "trampoline s3 = trampoline s"
  proof -
    have "L_kmem \<notin> set (L_proc i # held s)" using k by (auto simp: kmem_inv_def kmem_pages_def)
    then have "kmem_inv (s\<lparr>held := L_proc i # held s\<rparr>)" using k by (rule kmem_inv_held)
    then show "kmem_inv s3" by (simp add: s3_def)
  qed (simp_all add: s3_def)
  from s3(1) show ?thesis
  proof (cases rule: kalloc_cases)
    case none
    let ?a = "upd_proc i (p_trapframe_update (\<lambda>_. 0)) s3"
    obtain b where b: "freeproc i ?a = Ok () b" "kmem_inv b" "kmem_free b = kmem_free s"
      "held b = L_proc i # held s" "procs b = (procs ?a)(i := empty_slot (procs ?a i))"
      using freeproc_no_table [of ?a i] s3 pt0 by auto
    have "\<exists>t. release (L_proc i) b = Ok () t \<and> allocproc_failed i s t"
      by (rule release_proc_failed [OF b(2,4,3,5)]) (use s3 l in auto)
    then show ?thesis using start none b(1) s3(2) by auto
  next
    case (page tf t)
    note mt = mem_only_kproc [of s3 t] and wt = page(5) [unfolded within_def]
    let ?a = "upd_proc i (p_trapframe_update (\<lambda>_. tf)) t"
    have a: "kmem_inv ?a" "kmem_free ?a = kmem_free s - {tf}" "held ?a = L_proc i # held s"
      "procs ?a = (procs s3)(i := (procs s3 i)\<lparr>p_trapframe := tf\<rparr>)" "nextpid ?a = nextpid s + 1"
      "trampoline ?a = trampoline s" "kend ?a = kend s3"
      using wt s3 page(6) mt mem_only_same [of s3 t] by auto
    obtain pt c where c: "proc_pagetable i ?a = Ok pt c" "within (kmem_free ?a) ?a c"
      "if card (kmem_free ?a) < 3 then pt = 0 \<and> kmem_free c = kmem_free ?a
       else pt \<noteq> 0 \<and> pt_inv c pt \<and> kmem_free c \<subseteq> kmem_free ?a \<and> pt_pages (mem c) pt = kmem_free ?a - kmem_free c \<and>
         (\<forall>va<MAXVA. pte_of (mem c) pt va = upt_map (trampoline ?a) (p_trapframe (procs ?a i)) va)"
      using proc_pagetable_spec [OF a(1), of i] by blast
    have ck: "kmem_inv c" "mem_only ?a c" using c(2) by (auto simp: within_def)
    note mc = mem_only_kproc [OF ck(2)]
    let ?d = "upd_proc i (p_pagetable_update (\<lambda>_. pt)) c"
    have tf: "ram_page ?d tf" "tf \<in> kmem_free s"
      using page(3,4) s3(2) mem_only_same(1) [OF ck(2)] a(7) by (auto simp: ram_page_def)
    have "finite (kmem_free s)" using kmem_pages_ex [OF k] by (metis List.finite_set)
    then have three: "card (kmem_free ?a) < 3 \<longleftrightarrow> card (kmem_free s) < 4"
      using tf(2) card_Suc_Diff1 [of "kmem_free s" tf] unfolding a(2) by linarith
    show ?thesis
    proof (cases "card (kmem_free ?a) < 3")
      case less: True
      then have True: "pt = 0" using c(3) by simp
      obtain b where b: "freeproc i ?d = Ok () b" "kmem_inv b" "kmem_free b = kmem_free ?d \<union> {tf}"
        "held b = L_proc i # held s" "procs b = (procs ?d)(i := empty_slot (procs ?d i))"
        using freeproc_no_table [of ?d i] less c(3) a ck tf(1) page(2) mc mem_only_same(2) [OF ck(2)] by auto
      have "kmem_free b = kmem_free s" using b(3) less c(3) a(2) tf(2) by auto
      then have "\<exists>t. release (L_proc i) b = Ok () t \<and> allocproc_failed i s t"
        by (rule release_proc_failed [OF b(2,4) _ b(5)]) (use a s3 l mc in auto)
      then show ?thesis using start page(1,2) c(1) True b(1) less three by auto
    next
      case more: False
      then have False: "pt \<noteq> 0" using c(3) by simp
      let ?e = "upd_proc i (\<lambda>q. q\<lparr>p_mmap_base := TRAPFRAME, p_context :=
        zero_context\<lparr>ctx_ra := forkret_addr ?d, ctx_sp := p_kstack q + PGSIZE\<rparr>\<rparr>) ?d"
      have C: "pt_inv c pt" "kmem_free c \<subseteq> kmem_free ?a" "pt_pages (mem c) pt = kmem_free ?a - kmem_free c"
        "\<forall>va<MAXVA. pte_of (mem c) pt va = upt_map (trampoline ?a) (p_trapframe (procs ?a i)) va"
        using c(3) more by simp_all
      have P: "p_state (procs ?e i) = USED" "p_pid (procs ?e i) = nextpid s" "p_mmap_base (procs ?e i) = TRAPFRAME"
        "p_killed (procs ?e i) = p_killed (procs s i)" "p_vma (procs ?e i) = p_vma (procs s i)"
        "p_pagetable (procs ?e i) = pt" "p_trapframe (procs ?e i) = tf"
        "\<forall>j. j \<noteq> i \<longrightarrow> procs ?e j = procs s j" "mem ?e = mem c" "kmem_free ?e = kmem_free c"
        "pt_inv ?e pt = pt_inv c pt" "kmem_inv ?e = kmem_inv c" "held ?e = L_proc i # held s"
        "nextpid ?e = nextpid s + 1"
        using mc a s3(5) mem_only_same(2) [OF ck(2)] by simp_all
      have "kmem_free s - kmem_free c = insert tf (pt_pages (mem c) pt)"
        using C(2,3) a(2) tf(2) by auto
      then have "allocproc_done i s ?e"
        unfolding allocproc_done_def P(1-7,9-) using C ck(1) a(2,4,6) tf(2) P(8) by auto
      moreover have "allocproc s = Ok (Some i) ?e" using start page(1,2) c(1) False by (simp add: Let_def)
      ultimately show ?thesis using more three by auto
    qed
  qed
qed

subsection \<open>Properties\<close>

text \<open>C22: \<open>allocproc\<close> succeeds exactly when it can and leaks nothing, called with no process lock and
  not the lock of the process ids held, with free slots that have no page table, and while process ids are
  left. When the table is full it returns 0 and changes nothing. Otherwise it takes the first free slot. With
  at least four free pages it returns the slot locked, in state \<open>USED\<close>, with the next process id
  and a page table that maps exactly the trampoline and the trapframe, and the pages it took are exactly the
  trapframe and those of the table. With fewer it returns 0, every page it took is back on
  the free list, the slot is free again and no lock is left held.\<close>

theorem allocproc_no_leak:
  assumes "kmem_inv s" and "\<And>p. L_proc p \<notin> set (held s)" and "L_pid \<notin> set (held s)"
    and "\<And>i. i < NPROC \<Longrightarrow> p_state (procs s i) = UNUSED \<Longrightarrow> p_pagetable (procs s i) = 0"
    and "nextpid s < INT_MAX"
  shows "case List.find (\<lambda>i. p_state (procs s i) = UNUSED) [0..<NPROC] of
      None \<Rightarrow> allocproc s = Ok None s
    | Some i \<Rightarrow> if card (kmem_free s) < 4 then \<exists>t. allocproc s = Ok None t \<and> allocproc_failed i s t
                else \<exists>t. allocproc s = Ok (Some i) t \<and> allocproc_done i s t"
proof (cases "List.find (\<lambda>i. p_state (procs s i) = UNUSED) [0..<NPROC]")
  case None
  then show ?thesis
    using allocproc_scan_spec [of "[0..<NPROC]" s] assms(2) by (simp add: allocproc_def)
next
  case (Some i)
  then show ?thesis
    using allocproc_spec [OF assms(1-3,5) Some] find_UNUSED [OF Some] assms(4) by simp
qed

definition blank_proc :: proc where
  "blank_proc = \<lparr>p_state = UNUSED, p_chan = None, p_killed = 0, p_xstate = 0, p_pid = 0, p_parent = None,
     p_kstack = 0, p_sz = 0, p_pagetable = 0, p_trapframe = 0, p_context = zero_context,
     p_ofile = (\<lambda>_. None), p_cwd = None, p_name = (\<lambda>_. 0), p_mmap_base = 0,
     p_vma = (\<lambda>_. \<lparr>vma_valid = False, vma_start = 0, vma_end = 0, vma_prot = 0, vma_flags = 0,
                     vma_f = None, vma_offset = 0\<rparr>)\<rparr>"

definition kproc_boot :: kproc where
  "kproc_boot = kmem.extend pt_boot
     \<lparr>procs = (\<lambda>_. blank_proc), curproc = None, initproc = None, nextpid = 1, kernel_pagetable = 0,
      trampoline = 0x80007000, forkret_addr = 0x80001abc, etext = 0x80008000\<rparr>"

lemma kproc_boot_fields:
  "mem kproc_boot = mem pt_boot" "freelist kproc_boot = freelist pt_boot" "kend kproc_boot = kend pt_boot"
  "held kproc_boot = []" "procs kproc_boot = (\<lambda>_. blank_proc)" "curproc kproc_boot = None"
  by (simp_all add: kproc_boot_def kmem.defs pt_boot_def)

lemma kproc_boot_inv: "kmem_inv kproc_boot"
proof -
  have "kmem_pages kproc_boot [0x80003000, 0x80004000]"
    using pt_boot_pages by (simp add: kmem_pages_def kproc_boot_fields ram_page_def)
  then show ?thesis by (auto simp: kmem_inv_def)
qed

lemma find_UNUSED_boot: "List.find (\<lambda>i. p_state (procs kproc_boot i) = UNUSED) [0..<NPROC] = Some 0"
  by (simp add: upt_conv_Cons kproc_boot_fields blank_proc_def)

text \<open>The same machine with four free pages.\<close>

definition kproc_roomy :: kproc where
  "kproc_roomy = kproc_boot\<lparr>mem := st64 (st64 (st64 (\<lambda>_. 0) 0x80003000 0x80004000) 0x80004000 0x80005000)
     0x80005000 0x80006000\<rparr>"

lemma kproc_roomy_fields:
  "held kproc_roomy = []" "procs kproc_roomy = (\<lambda>_. blank_proc)" "nextpid kproc_roomy = 1"
  by (simp_all add: kproc_roomy_def kproc_boot_fields) (simp add: kproc_boot_def kmem.defs)

lemma kproc_roomy_inv: "kmem_inv kproc_roomy" "card (kmem_free kproc_roomy) = 4"
proof -
  let ?m = "st64 (st64 (st64 (\<lambda>_. 0) 0x80003000 0x80004000) 0x80004000 0x80005000) 0x80005000 0x80006000"
  have "ld64 ?m 0x80003000 = 0x80004000" "ld64 ?m 0x80004000 = 0x80005000" "ld64 ?m 0x80005000 = 0x80006000"
    "ld64 ?m 0x80006000 = 0"
    by (simp_all add: ld64_st64_other)
  then have p: "kmem_pages kproc_roomy [0x80003000, 0x80004000, 0x80005000, 0x80006000]"
    by (simp add: kmem_pages_def kproc_roomy_def kproc_boot_fields pt_boot_def ram_page_def)
  then show "kmem_inv kproc_roomy" by (auto simp: kmem_inv_def)
  show "card (kmem_free kproc_roomy) = 4" using kmem_free_eq [OF p] by simp
qed

lemma find_UNUSED_roomy: "List.find (\<lambda>i. p_state (procs kproc_roomy i) = UNUSED) [0..<NPROC] = Some 0"
  by (simp add: upt_conv_Cons kproc_roomy_fields blank_proc_def)

theorem allocproc_no_leak_witness:
  "\<exists>t. allocproc kproc_roomy = Ok (Some 0) t \<and> allocproc_done 0 kproc_roomy t"
  using allocproc_no_leak [of kproc_roomy, OF kproc_roomy_inv(1)] find_UNUSED_roomy kproc_roomy_inv(2)
  by (simp add: kproc_roomy_fields blank_proc_def)

text \<open>C36: \<open>wakeup\<close> makes runnable exactly the processes that sleep on the channel, apart from the
  caller; no other process changes in any field and all locks are released.\<close>

theorem wakeup_correct:
  assumes "\<And>p. L_proc p \<notin> set (held s)"
  shows "\<exists>t. wakeup chan s = Ok () t \<and> held t = held s \<and> mem t = mem s \<and>
    (\<forall>i. procs t i =
       (if i < NPROC \<and> curproc s \<noteq> Some i \<and> p_state (procs s i) = SLEEPING \<and> p_chan (procs s i) = Some chan
        then (procs s i)\<lparr>p_state := RUNNABLE\<rparr> else procs s i))"
  using wakeup_spec [OF assms] by (auto simp: woken_def)

theorem wakeup_correct_witness:
  "\<exists>t. wakeup Ch_ticks (upd_proc 5 (\<lambda>q. q\<lparr>p_state := SLEEPING, p_chan := Some Ch_ticks\<rparr>) kproc_boot) = Ok () t \<and>
     p_state (procs t 5) = RUNNABLE"
proof -
  let ?s = "upd_proc 5 (\<lambda>q. q\<lparr>p_state := SLEEPING, p_chan := Some Ch_ticks\<rparr>) kproc_boot"
  obtain t where t: "wakeup Ch_ticks ?s = Ok () t" "\<And>i. procs t i =
       (if i < NPROC \<and> curproc ?s \<noteq> Some i \<and> p_state (procs ?s i) = SLEEPING \<and> p_chan (procs ?s i) = Some Ch_ticks
        then (procs ?s i)\<lparr>p_state := RUNNABLE\<rparr> else procs ?s i)"
    using wakeup_correct [of ?s Ch_ticks] by (auto simp: kproc_boot_fields)
  have "p_state (procs t 5) = RUNNABLE" using t(2) [of 5] by (simp add: kproc_boot_fields)
  then show ?thesis using t(1) by blast
qed

text \<open>C37: \<open>kill(0)\<close> succeeds on a free slot of the process table and marks it as killed, since free slots have
  process id 0: with some free slot, free slots being exactly those with process id 0, and four free pages,
  \<open>kkill\<close> of 0 returns success, the \<open>allocproc\<close> that follows returns that slot, and the new process
  in it starts out killed.\<close>

theorem kkill_marks_free_slot:
  assumes "\<And>p. L_proc p \<notin> set (held s)" and "L_pid \<notin> set (held s)" and "kmem_inv s"
    and n: "nextpid s < INT_MAX" and m: "4 \<le> card (kmem_free s)"
    and i: "List.find (\<lambda>i. p_state (procs s i) = UNUSED) [0..<NPROC] = Some i"
    and f: "\<And>j. j < NPROC \<Longrightarrow> p_pid (procs s j) = 0 \<longleftrightarrow> p_state (procs s j) = UNUSED"
    and pt: "p_pagetable (procs s i) = 0"
  shows "\<exists>t u. kkill 0 s = Ok 0 t \<and> p_state (procs t i) = UNUSED \<and> p_killed (procs t i) = 1 \<and>
    allocproc t = Ok (Some i) u \<and> p_state (procs u i) = USED \<and> p_killed (procs u i) = 1"
proof -
  have pid: "List.find (\<lambda>j. p_pid (procs s j) = 0) [0..<NPROC] = Some i"
    unfolding i [symmetric] by (rule find_cong) (auto simp: f)
  let ?t = "upd_proc i (\<lambda>p. p\<lparr>p_killed := 1,
         p_state := (if p_state p = SLEEPING then RUNNABLE else p_state p)\<rparr>) s"
  have k: "kkill 0 s = Ok 0 ?t"
    using kkill_loop_spec [of "[0..<NPROC]" s 0] assms(1) pid by (simp add: kkill_def)
  have u: "p_state (procs s i) = UNUSED" using find_UNUSED [OF i] by simp
  have "procs ?t j = procs s j" if "j \<noteq> i" for j using that by simp
  then have "List.find (\<lambda>i. p_state (procs ?t i) = UNUSED) [0..<NPROC] = Some i"
    unfolding i [symmetric] using u by (intro find_cong) auto
  then have "if card (kmem_free ?t) < 4 then \<exists>u. allocproc ?t = Ok None u \<and> allocproc_failed i ?t u
         else \<exists>u. allocproc ?t = Ok (Some i) u \<and> allocproc_done i ?t u"
    using assms pt by (intro allocproc_spec) auto
  then obtain w where "allocproc ?t = Ok (Some i) w" "allocproc_done i ?t w" using m by auto
  then show ?thesis using k u by (intro exI [of _ ?t] exI [of _ w]) (simp add: allocproc_done_def)
qed

theorem kkill_marks_free_slot_witness:
  "\<exists>t u. kkill 0 kproc_roomy = Ok 0 t \<and> p_state (procs t 0) = UNUSED \<and> p_killed (procs t 0) = 1 \<and>
    allocproc t = Ok (Some 0) u \<and> p_state (procs u 0) = USED \<and> p_killed (procs u 0) = 1"
  by (rule kkill_marks_free_slot [OF _ _ kproc_roomy_inv(1) _ _ find_UNUSED_roomy])
    (simp_all add: kproc_roomy_fields kproc_roomy_inv blank_proc_def)

end
