(* ===== verification/Bio.thy ===== *)
theory Bio
  imports Proc
begin

text \<open>
  Sleep-locks (\<open>kernel/sleeplock.c\<close>) and the buffer cache (\<open>kernel/bio.c\<close>). The cache keeps its
  buffers on a doubly linked list, most recently used first, threaded through the \<open>prev\<close> and \<open>next\<close>
  fields; the list head is the buffer with index \<open>NBUF\<close>. \<open>lru B xs\<close> says that the pointers of the
  buffers \<open>B\<close> represent the list \<open>xs\<close>, and the operations are shown to work on that list.

  The disk is a map from block numbers to blocks of 1024 bytes. \<open>disk_rw\<close> is the contract of the
  driver: a completed transfer of one whole block. \<open>dhist\<close> is a history variable, the list of
  completed block writes, in which a crash can be placed after any of them.
\<close>

abbreviation (input) BSIZE :: nat where "BSIZE \<equiv> 1024"

type_synonym block = "u8 list"

subsection \<open>Sleep-locks\<close>

record sleeplock =
  sl_locked :: bool
  sl_pid :: int

definition initsleeplock :: sleeplock where
  "initsleeplock = \<lparr>sl_locked = False, sl_pid = 0\<rparr>"

text \<open>
  A sleep-lock is a field of a buffer or an inode: \<open>get\<close> and \<open>put\<close> read and write that field, and
  the channel, its address, names it. A thread that finds the lock taken goes to sleep; when it
  is woken it runs the loop of \<open>acquiresleep\<close> again.
\<close>

definition acquiresleep ::
  "chan \<Rightarrow> ('a kproc_scheme \<Rightarrow> sleeplock) \<Rightarrow> (sleeplock \<Rightarrow> 'a kproc_scheme \<Rightarrow> 'a kproc_scheme) \<Rightarrow>
   'a kproc_scheme \<Rightarrow> ('a kproc_scheme, unit) res" where
  "acquiresleep ch get put s =
     kbind (acquire (L_inner ch) s) (\<lambda>_ s.
     if sl_locked (get s) then sleep ch (L_inner ch) s
     else kbind (myproc s) (\<lambda>p s.
       let s = put \<lparr>sl_locked = True, sl_pid = p_pid (procs s p)\<rparr> s in
       release (L_inner ch) s))"

definition releasesleep ::
  "chan \<Rightarrow> (sleeplock \<Rightarrow> 'a kproc_scheme \<Rightarrow> 'a kproc_scheme) \<Rightarrow> 'a kproc_scheme \<Rightarrow>
   ('a kproc_scheme, unit) res" where
  "releasesleep ch put s =
     kbind (acquire (L_inner ch) s) (\<lambda>_ s.
     let s = put \<lparr>sl_locked = False, sl_pid = 0\<rparr> s in
     kbind (wakeup ch s) (\<lambda>_ s. release (L_inner ch) s))"

definition holdingsleep ::
  "chan \<Rightarrow> ('a kproc_scheme \<Rightarrow> sleeplock) \<Rightarrow> 'a kproc_scheme \<Rightarrow> ('a kproc_scheme, bool) res" where
  "holdingsleep ch get s =
     kbind (acquire (L_inner ch) s) (\<lambda>_ s.
     kbind (myproc s) (\<lambda>p s.
     let r = sl_locked (get s) \<and> sl_pid (get s) = p_pid (procs s p) in
     kbind (release (L_inner ch) s) (\<lambda>_ s. Ok r s)))"

subsection \<open>Buffers\<close>

record buf =
  b_valid :: bool
  b_disk :: bool
  b_dev :: u32
  b_blockno :: u32
  b_lock :: sleeplock
  b_refcnt :: u32
  b_prev :: nat
  b_next :: nat
  b_data :: block

text \<open>\<open>bcache.head\<close>.\<close>

abbreviation (input) BHEAD :: nat where "BHEAD \<equiv> 30"

record kbio = kproc +
  bufs :: "nat \<Rightarrow> buf"
  disk :: "u32 \<Rightarrow> block"
  dhist :: "(u32 \<times> block) list"

definition upd_buf :: "nat \<Rightarrow> (buf \<Rightarrow> buf) \<Rightarrow> 'a kbio_scheme \<Rightarrow> 'a kbio_scheme" where
  "upd_buf i f s = s\<lparr>bufs := (bufs s)(i := f (bufs s i))\<rparr>"

definition buf_lock :: "nat \<Rightarrow> 'a kbio_scheme \<Rightarrow> sleeplock" where
  "buf_lock i s = b_lock (bufs s i)"

definition set_buf_lock :: "nat \<Rightarrow> sleeplock \<Rightarrow> 'a kbio_scheme \<Rightarrow> 'a kbio_scheme" where
  "set_buf_lock i l s = upd_buf i (b_lock_update (\<lambda>_. l)) s"

text \<open>The disk driver's contract: one whole block is transferred.\<close>

definition disk_rw :: "nat \<Rightarrow> bool \<Rightarrow> 'a kbio_scheme \<Rightarrow> 'a kbio_scheme" where
  "disk_rw b write s =
     (if write then
        s\<lparr>disk := (disk s)(b_blockno (bufs s b) := b_data (bufs s b)),
          dhist := dhist s @ [(b_blockno (bufs s b), b_data (bufs s b))]\<rparr>
      else upd_buf b (b_data_update (\<lambda>_. disk s (b_blockno (bufs s b)))) s)"

text \<open>
  Access to \<open>n\<close> bytes of \<open>uchar data[BSIZE]\<close> at offset \<open>off\<close>, as a field of some type: \<open>get d off\<close> reads
  the field from the data \<open>d\<close>, and \<open>put d off\<close> is the data with the field changed. An access that is not inside
  of the array is \<open>Oob\<close>.
\<close>

definition bdata_read ::
  "nat \<Rightarrow> (block \<Rightarrow> nat \<Rightarrow> 'v) \<Rightarrow> nat \<Rightarrow> nat \<Rightarrow> 'a kbio_scheme \<Rightarrow> ('a kbio_scheme, 'v) res" where
  "bdata_read n get b off s = (if off + n \<le> BSIZE then Ok (get (b_data (bufs s b)) off) s else Oob)"

definition bdata_write ::
  "nat \<Rightarrow> (block \<Rightarrow> nat \<Rightarrow> block) \<Rightarrow> nat \<Rightarrow> nat \<Rightarrow> 'a kbio_scheme \<Rightarrow> ('a kbio_scheme, unit) res" where
  "bdata_write n put b off s =
     (if off + n \<le> BSIZE then Ok () (upd_buf b (b_data_update (\<lambda>d. put d off)) s) else Oob)"

lemma bdata_read_inside [simp]:
  "off + n \<le> BSIZE \<Longrightarrow> bdata_read n get b off s = Ok (get (b_data (bufs s b)) off) s"
  by (simp add: bdata_read_def)

lemma bdata_write_inside [simp]:
  "off + n \<le> BSIZE \<Longrightarrow> bdata_write n put b off s = Ok () (upd_buf b (b_data_update (\<lambda>d. put d off)) s)"
  by (simp add: bdata_write_def)

text \<open>Inserting buffer \<open>b\<close> right after the head; the assignments are in the order of the code.\<close>

definition link_front :: "nat \<Rightarrow> (nat \<Rightarrow> buf) \<Rightarrow> nat \<Rightarrow> buf" where
  "link_front b B =
     (let B = B(b := (B b)\<lparr>b_next := b_next (B BHEAD)\<rparr>);
          B = B(b := (B b)\<lparr>b_prev := BHEAD\<rparr>);
          h = b_next (B BHEAD);
          B = B(h := (B h)\<lparr>b_prev := b\<rparr>) in
      B(BHEAD := (B BHEAD)\<lparr>b_next := b\<rparr>))"

definition unlink :: "nat \<Rightarrow> (nat \<Rightarrow> buf) \<Rightarrow> nat \<Rightarrow> buf" where
  "unlink b B =
     (let n = b_next (B b);
          B = B(n := (B n)\<lparr>b_prev := b_prev (B b)\<rparr>);
          p = b_prev (B b) in
      B(p := (B p)\<lparr>b_next := b_next (B b)\<rparr>))"

primrec binit_loop :: "nat list \<Rightarrow> (nat \<Rightarrow> buf) \<Rightarrow> nat \<Rightarrow> buf" where
  "binit_loop [] B = B"
| "binit_loop (b # bs) B =
     binit_loop bs (link_front b (B(b := (B b)\<lparr>b_lock := initsleeplock\<rparr>)))"

definition binit :: "'a kbio_scheme \<Rightarrow> 'a kbio_scheme" where
  "binit s =
     (let B = bufs s;
          B = B(BHEAD := (B BHEAD)\<lparr>b_prev := BHEAD, b_next := BHEAD\<rparr>) in
      s\<lparr>bufs := binit_loop [0..<NBUF] B\<rparr>)"

text \<open>The two scans of \<open>bget\<close>; the inner \<open>None\<close> is the end of the list.\<close>

partial_function (option) bget_cached :: "(nat \<Rightarrow> buf) \<Rightarrow> u32 \<Rightarrow> u32 \<Rightarrow> nat \<Rightarrow> nat option option" where
  "bget_cached B dev blockno b =
     (if b = BHEAD then Some None
      else if b_dev (B b) = dev \<and> b_blockno (B b) = blockno then Some (Some b)
      else bget_cached B dev blockno (b_next (B b)))"

partial_function (option) bget_unused :: "(nat \<Rightarrow> buf) \<Rightarrow> nat \<Rightarrow> nat option option" where
  "bget_unused B b =
     (if b = BHEAD then Some None
      else if b_refcnt (B b) = 0 then Some (Some b)
      else bget_unused B (b_prev (B b)))"

definition bget :: "u32 \<Rightarrow> u32 \<Rightarrow> 'a kbio_scheme \<Rightarrow> ('a kbio_scheme, nat) res" where
  "bget dev blockno s =
     kbind (acquire L_bcache s) (\<lambda>_ s.
     case bget_cached (bufs s) dev blockno (b_next (bufs s BHEAD)) of
       None \<Rightarrow> UB
     | Some (Some b) \<Rightarrow>
         let s = upd_buf b (\<lambda>x. x\<lparr>b_refcnt := b_refcnt x + 1\<rparr>) s in
         kbind (release L_bcache s) (\<lambda>_ s.
         kbind (acquiresleep (Ch_buflock b) (buf_lock b) (set_buf_lock b) s) (\<lambda>_ s. Ok b s))
     | Some None \<Rightarrow>
       (case bget_unused (bufs s) (b_prev (bufs s BHEAD)) of
          None \<Rightarrow> UB
        | Some None \<Rightarrow> Panic ''bget: no buffers''
        | Some (Some b) \<Rightarrow>
            let s = upd_buf b (\<lambda>x. x\<lparr>b_dev := dev, b_blockno := blockno, b_valid := False, b_refcnt := 1\<rparr>) s in
            kbind (release L_bcache s) (\<lambda>_ s.
            kbind (acquiresleep (Ch_buflock b) (buf_lock b) (set_buf_lock b) s) (\<lambda>_ s. Ok b s))))"

definition bread :: "u32 \<Rightarrow> u32 \<Rightarrow> 'a kbio_scheme \<Rightarrow> ('a kbio_scheme, nat) res" where
  "bread dev blockno s =
     kbind (bget dev blockno s) (\<lambda>b s.
     Ok b (if \<not> b_valid (bufs s b)
           then upd_buf b (b_valid_update (\<lambda>_. True)) (disk_rw b False s) else s))"

definition bwrite :: "nat \<Rightarrow> 'a kbio_scheme \<Rightarrow> ('a kbio_scheme, unit) res" where
  "bwrite b s =
     kbind (holdingsleep (Ch_buflock b) (buf_lock b) s) (\<lambda>h s.
     if \<not> h then Panic ''bwrite'' else Ok () (disk_rw b True s))"

definition brelse :: "nat \<Rightarrow> 'a kbio_scheme \<Rightarrow> ('a kbio_scheme, unit) res" where
  "brelse b s =
     kbind (holdingsleep (Ch_buflock b) (buf_lock b) s) (\<lambda>h s.
     if \<not> h then Panic ''brelse''
     else kbind (releasesleep (Ch_buflock b) (set_buf_lock b) s) (\<lambda>_ s.
       kbind (acquire L_bcache s) (\<lambda>_ s.
       let s = upd_buf b (\<lambda>x. x\<lparr>b_refcnt := b_refcnt x - 1\<rparr>) s;
           s = (if b_refcnt (bufs s b) = 0
                then s\<lparr>bufs := link_front b (unlink b (bufs s))\<rparr> else s) in
       release L_bcache s)))"

definition bpin :: "nat \<Rightarrow> 'a kbio_scheme \<Rightarrow> ('a kbio_scheme, unit) res" where
  "bpin b s =
     kbind (acquire L_bcache s) (\<lambda>_ s.
     release L_bcache (upd_buf b (\<lambda>x. x\<lparr>b_refcnt := b_refcnt x + 1\<rparr>) s))"

definition bunpin :: "nat \<Rightarrow> 'a kbio_scheme \<Rightarrow> ('a kbio_scheme, unit) res" where
  "bunpin b s =
     kbind (acquire L_bcache s) (\<lambda>_ s.
     release L_bcache (upd_buf b (\<lambda>x. x\<lparr>b_refcnt := b_refcnt x - 1\<rparr>) s))"

subsection \<open>The list of buffers\<close>

text \<open>\<open>links B a xs z\<close>: from \<open>a\<close> the \<open>next\<close> pointers lead through \<open>xs\<close> to \<open>z\<close>, and the \<open>prev\<close> pointers back.\<close>

fun links :: "(nat \<Rightarrow> buf) \<Rightarrow> nat \<Rightarrow> nat list \<Rightarrow> nat \<Rightarrow> bool" where
  "links B a [] z \<longleftrightarrow> b_next (B a) = z \<and> b_prev (B z) = a"
| "links B a (x # xs) z \<longleftrightarrow> b_next (B a) = x \<and> b_prev (B x) = a \<and> links B x xs z"

definition lru :: "(nat \<Rightarrow> buf) \<Rightarrow> nat list \<Rightarrow> bool" where
  "lru B xs \<longleftrightarrow> links B BHEAD xs BHEAD \<and> distinct xs \<and> set xs = {..<NBUF}"

lemma links_append: "links B a (xs @ y # ys) z \<longleftrightarrow> links B a xs y \<and> links B y ys z"
  by (induction xs arbitrary: a) auto

lemma links_cong:
  assumes "\<And>i. i \<in> insert a (set xs) \<Longrightarrow> b_next (B' i) = b_next (B i)"
    and "\<And>i. i \<in> insert z (set xs) \<Longrightarrow> b_prev (B' i) = b_prev (B i)"
  shows "links B' a xs z = links B a xs z"
  using assms by (induction xs arbitrary: a) auto

lemma bget_cached_find:
  assumes "links B a xs BHEAD" and "BHEAD \<notin> set xs"
  shows "bget_cached B dev blockno (b_next (B a)) =
    Some (List.find (\<lambda>b. b_dev (B b) = dev \<and> b_blockno (B b) = blockno) xs)"
  using assms
proof (induction xs arbitrary: a)
  case Nil
  then show ?case by (simp add: bget_cached.simps)
next
  case (Cons x xs)
  then show ?case by (subst bget_cached.simps) auto
qed

lemma bget_unused_find:
  assumes "links B BHEAD xs z" and "BHEAD \<notin> set xs"
  shows "bget_unused B (b_prev (B z)) = Some (List.find (\<lambda>b. b_refcnt (B b) = 0) (rev xs))"
  using assms
proof (induction xs arbitrary: z rule: rev_induct)
  case Nil
  then show ?case by (simp add: bget_unused.simps)
next
  case (snoc x xs)
  then have "links B BHEAD xs x" "b_prev (B z) = x" by (simp_all add: links_append)
  with snoc show ?case by (subst bget_unused.simps) auto
qed

text \<open>Relinking changes nothing but the two pointers.\<close>

definition same_data :: "buf \<Rightarrow> buf \<Rightarrow> bool" where
  "same_data x y \<longleftrightarrow> b_valid x = b_valid y \<and> b_disk x = b_disk y \<and> b_dev x = b_dev y \<and>
     b_blockno x = b_blockno y \<and> b_lock x = b_lock y \<and> b_refcnt x = b_refcnt y \<and> b_data x = b_data y"

lemma same_data_link_front: "same_data (link_front b B i) (B i)"
  by (simp add: link_front_def same_data_def Let_def)

lemma same_data_unlink: "same_data (unlink b B i) (B i)"
  by (simp add: unlink_def same_data_def Let_def)

lemma links_unlink:
  assumes "links B BHEAD (xs @ b # ys) BHEAD" and "distinct (xs @ b # ys)" and "BHEAD \<notin> set (xs @ b # ys)"
  shows "links (unlink b B) BHEAD (xs @ ys) BHEAD"
proof -
  have l: "links B BHEAD xs b" "links B b ys BHEAD" using assms(1) by (simp_all add: links_append)
  define p n where "p = b_prev (B b)" and "n = b_next (B b)"
  have p: "p = (if xs = [] then BHEAD else last xs)"
    using l(1) unfolding p_def by (induction xs arbitrary: B rule: rev_induct) (auto simp: links_append)
  have n: "n = (if ys = [] then BHEAD else hd ys)" using l(2) unfolding n_def by (cases ys) auto
  have ne: "p \<noteq> b" "n \<noteq> b" using p n assms(2,3) by (auto dest: last_in_set hd_in_set split: if_splits)
  have N: "b_next (unlink b B i) = (if i = p then n else b_next (B i))"
    and P: "b_prev (unlink b B i) = (if i = n then p else b_prev (B i))" for i
    using ne unfolding p_def n_def by (auto simp: unlink_def Let_def)
  show ?thesis
  proof (cases xs rule: rev_cases)
    case Nil
    show ?thesis
    proof (cases ys)
      case (Cons y ys')
      have "links (unlink b B) y ys' BHEAD = links B y ys' BHEAD"
        by (rule links_cong) (use p n Nil Cons assms(2,3) N P in auto)
      then show ?thesis using Nil Cons l(2) p n N P assms(3) by auto
    qed (use Nil p n N P in simp)
  next
    case (snoc xs' x)
    have 1: "links (unlink b B) BHEAD xs' x = links B BHEAD xs' x"
      by (rule links_cong) (use p n snoc assms(2,3) N P in \<open>auto dest: hd_in_set split: if_splits\<close>)
    show ?thesis
    proof (cases ys)
      case Nil
      then show ?thesis using 1 snoc l(1) p n N P by (simp add: links_append)
    next
      case (Cons y ys')
      have "links (unlink b B) y ys' BHEAD = links B y ys' BHEAD"
        by (rule links_cong) (use p n snoc Cons assms(2,3) N P in auto)
      then show ?thesis using 1 snoc Cons l p n N P by (simp add: links_append)
    qed
  qed
qed

lemma links_link_front:
  assumes "links B BHEAD xs BHEAD" and "BHEAD \<notin> set xs" and "b \<notin> set xs" and "b \<noteq> BHEAD" and "distinct xs"
  shows "links (link_front b B) BHEAD (b # xs) BHEAD"
proof -
  define h where "h = b_next (B BHEAD)"
  have h: "h = (if xs = [] then BHEAD else hd xs)" using assms(1) unfolding h_def by (cases xs) auto
  have hb: "h \<noteq> b" using h assms(3,4) by (auto dest: hd_in_set split: if_splits)
  have N: "b_next (link_front b B i) = (if i = BHEAD then b else if i = b then h else b_next (B i))"
    and P: "b_prev (link_front b B i) = (if i = h then b else if i = b then BHEAD else b_prev (B i))" for i
    using assms(4) hb unfolding h_def by (auto simp: link_front_def Let_def)
  show ?thesis
  proof (cases xs)
    case Nil
    then show ?thesis using h N P assms(4) by simp
  next
    case (Cons x xs')
    have "links (link_front b B) x xs' BHEAD = links B x xs' BHEAD"
      by (rule links_cong) (use h Cons assms N P in auto)
    then show ?thesis using Cons assms h N P by auto
  qed
qed

lemma lru_touch:
  assumes "lru B xs" and "b < NBUF"
  shows "lru (link_front b (unlink b B)) (b # remove1 b xs)"
proof -
  obtain ys zs where x: "xs = ys @ b # zs" "b \<notin> set ys"
    using assms by (metis lessThan_iff lru_def split_list_first)
  have d: "distinct (ys @ b # zs)" "set (ys @ b # zs) = {..<NBUF}" "links B BHEAD (ys @ b # zs) BHEAD"
    using assms(1) x(1) by (auto simp: lru_def)
  have "BHEAD \<notin> set (ys @ b # zs)" unfolding d(2) by simp
  note u = links_unlink [OF d(3,1) this]
  have "links (link_front b (unlink b B)) BHEAD (b # ys @ zs) BHEAD"
    by (rule links_link_front [OF u]) (use d assms(2) in auto)
  moreover have "remove1 b xs = ys @ zs" using x by (simp add: remove1_append)
  ultimately show ?thesis using d by (auto simp: lru_def)
qed

lemma binit_loop_links:
  assumes "links B BHEAD xs BHEAD" and "distinct (bs @ xs)" and "BHEAD \<notin> set (bs @ xs)"
  shows "links (binit_loop bs B) BHEAD (rev bs @ xs) BHEAD"
  using assms
proof (induction bs arbitrary: B xs)
  case (Cons b bs)
  let ?B = "B(b := (B b)\<lparr>b_lock := initsleeplock\<rparr>)"
  have "links ?B BHEAD xs BHEAD"
    using Cons.prems by (subst links_cong [of _ _ ?B B]) auto
  then have "links (link_front b ?B) BHEAD (b # xs) BHEAD"
    using Cons.prems by (intro links_link_front) auto
  then have "links (binit_loop bs (link_front b ?B)) BHEAD (rev bs @ b # xs) BHEAD"
    using Cons.prems by (intro Cons.IH) auto
  then show ?case by simp
qed simp

lemma lru_binit: "lru (bufs (binit s)) (rev [0..<NBUF])"
proof -
  let ?B = "(bufs s)(BHEAD := (bufs s BHEAD)\<lparr>b_prev := BHEAD, b_next := BHEAD\<rparr>)"
  have "links ?B BHEAD [] BHEAD" by simp
  then have "links (binit_loop [0..<NBUF] ?B) BHEAD (rev [0..<NBUF] @ []) BHEAD"
    by (intro binit_loop_links) simp_all
  then show ?thesis by (auto simp: lru_def binit_def Let_def)
qed

lemma lru_cong:
  "(\<And>i. b_next (B' i) = b_next (B i)) \<Longrightarrow> (\<And>i. b_prev (B' i) = b_prev (B i)) \<Longrightarrow> lru B' xs = lru B xs"
  unfolding lru_def by (subst links_cong [of _ _ B' B]) auto

subsection \<open>The cache as a map from blocks\<close>

text \<open>
  The views of the cache on device \<open>ROOTDEV\<close>, by block number: the buffer of a block, its current
  contents (the buffer if it is valid, else the disk), its reference count, and the holder of its
  lock.
\<close>

definition slot_of :: "(nat \<Rightarrow> buf) \<Rightarrow> u32 \<Rightarrow> nat option" where
  "slot_of B n = List.find (\<lambda>i. b_dev (B i) = ROOTDEV \<and> b_blockno (B i) = n) [0..<NBUF]"

definition cache_blk :: "(nat \<Rightarrow> buf) \<Rightarrow> (u32 \<Rightarrow> block) \<Rightarrow> u32 \<Rightarrow> block" where
  "cache_blk B D n = (case slot_of B n of None \<Rightarrow> D n | Some i \<Rightarrow> if b_valid (B i) then b_data (B i) else D n)"

definition cache_refs :: "(nat \<Rightarrow> buf) \<Rightarrow> u32 \<Rightarrow> nat" where
  "cache_refs B n = (case slot_of B n of None \<Rightarrow> 0 | Some i \<Rightarrow> unat (b_refcnt (B i)))"

definition cache_lock :: "(nat \<Rightarrow> buf) \<Rightarrow> u32 \<Rightarrow> int option" where
  "cache_lock B n = (case slot_of B n of None \<Rightarrow> None
     | Some i \<Rightarrow> if sl_locked (b_lock (B i)) then Some (sl_pid (b_lock (B i))) else None)"

definition cache_inv :: "(nat \<Rightarrow> buf) \<Rightarrow> (u32 \<Rightarrow> block) \<Rightarrow> bool" where
  "cache_inv B D \<longleftrightarrow>
     (\<exists>xs. lru B xs) \<and>
     (\<forall>i<NBUF. \<forall>j<NBUF. b_dev (B i) = ROOTDEV \<longrightarrow> b_dev (B j) = ROOTDEV \<longrightarrow>
        b_blockno (B i) = b_blockno (B j) \<longrightarrow> i = j) \<and>
     (\<forall>i<NBUF. b_dev (B i) \<noteq> ROOTDEV \<longrightarrow> b_refcnt (B i) = 0) \<and>
     (\<forall>i<NBUF. b_refcnt (B i) = 0 \<longrightarrow> \<not> sl_locked (b_lock (B i))) \<and>
     (\<forall>i<NBUF. b_dev (B i) = ROOTDEV \<longrightarrow> b_refcnt (B i) = 0 \<longrightarrow> b_valid (B i) \<longrightarrow>
        b_data (B i) = D (b_blockno (B i)))"

abbreviation bslot :: "'a kbio_scheme \<Rightarrow> u32 \<Rightarrow> nat option" where "bslot s \<equiv> slot_of (bufs s)"
abbreviation blk :: "'a kbio_scheme \<Rightarrow> u32 \<Rightarrow> block" where "blk s \<equiv> cache_blk (bufs s) (disk s)"
abbreviation refs :: "'a kbio_scheme \<Rightarrow> u32 \<Rightarrow> nat" where "refs s \<equiv> cache_refs (bufs s)"
abbreviation lockedby :: "'a kbio_scheme \<Rightarrow> u32 \<Rightarrow> int option" where "lockedby s \<equiv> cache_lock (bufs s)"
abbreviation bcache_inv :: "'a kbio_scheme \<Rightarrow> bool" where "bcache_inv s \<equiv> cache_inv (bufs s) (disk s)"

lemma slot_of_SomeD: "slot_of B n = Some i \<Longrightarrow> i < NBUF \<and> b_dev (B i) = ROOTDEV \<and> b_blockno (B i) = n"
  by (auto simp: slot_of_def find_Some_iff)

lemma slot_of_None: "slot_of B n = None \<longleftrightarrow> (\<forall>i<NBUF. b_dev (B i) = ROOTDEV \<longrightarrow> b_blockno (B i) \<noteq> n)"
  by (auto simp: slot_of_def find_None_iff)

lemma slot_of_eq:
  assumes "cache_inv B D" and "i < NBUF" and "b_dev (B i) = ROOTDEV" and "b_blockno (B i) = n"
  shows "slot_of B n = Some i"
proof (cases "slot_of B n")
  case None
  then show ?thesis using assms by (auto simp: slot_of_None)
next
  case (Some j)
  then show ?thesis using slot_of_SomeD [OF Some] assms by (auto simp: cache_inv_def)
qed

lemma slot_of_cong:
  "(\<And>i. i < NBUF \<Longrightarrow> b_dev (B' i) = b_dev (B i) \<and> b_blockno (B' i) = b_blockno (B i)) \<Longrightarrow> slot_of B' n = slot_of B n"
  unfolding slot_of_def by (rule find_cong) auto

lemma slot_of_inj: "slot_of B n = Some i \<Longrightarrow> slot_of B m = Some i \<Longrightarrow> m = n"
  using slot_of_SomeD by blast

lemma find_lru:
  assumes "cache_inv B D" and "lru B xs"
  shows "List.find (\<lambda>b. b_dev (B b) = ROOTDEV \<and> b_blockno (B b) = n) xs = slot_of B n"
proof (cases "List.find (\<lambda>b. b_dev (B b) = ROOTDEV \<and> b_blockno (B b) = n) xs")
  case None
  then have "slot_of B n = None" using assms(2) by (auto simp: find_None_iff lru_def slot_of_None)
  then show ?thesis using None by simp
next
  case (Some i)
  then have "i \<in> set xs" "b_dev (B i) = ROOTDEV" "b_blockno (B i) = n"
    by (auto simp: find_Some_iff)
  then show ?thesis using Some slot_of_eq [OF assms(1)] assms(2) by (auto simp: lru_def)
qed

text \<open>There is a free buffer unless \<open>NBUF\<close> different blocks are in use.\<close>

definition used_blocks :: "'a kbio_scheme \<Rightarrow> u32 set" where
  "used_blocks s = {n. 0 < refs s n}"

lemma used_blocks_image:
  assumes "bcache_inv s"
  shows "used_blocks s = (\<lambda>i. b_blockno (bufs s i)) ` {i. i < NBUF \<and> b_refcnt (bufs s i) \<noteq> 0}"
proof (intro set_eqI iffI)
  fix n
  assume "n \<in> used_blocks s"
  then obtain i where i: "bslot s n = Some i" "b_refcnt (bufs s i) \<noteq> 0"
    by (auto simp: used_blocks_def cache_refs_def unat_gt_0 split: option.splits)
  then show "n \<in> (\<lambda>i. b_blockno (bufs s i)) ` {i. i < NBUF \<and> b_refcnt (bufs s i) \<noteq> 0}"
    using slot_of_SomeD [OF i(1)] by auto
next
  fix n
  assume "n \<in> (\<lambda>i. b_blockno (bufs s i)) ` {i. i < NBUF \<and> b_refcnt (bufs s i) \<noteq> 0}"
  then obtain i where i: "i < NBUF" "b_refcnt (bufs s i) \<noteq> 0" "n = b_blockno (bufs s i)" by auto
  then have "b_dev (bufs s i) = ROOTDEV" using assms by (auto simp: cache_inv_def)
  then have "bslot s n = Some i" using slot_of_eq [OF assms i(1)] i(3) by simp
  then show "n \<in> used_blocks s" using i(2) by (simp add: used_blocks_def cache_refs_def unat_gt_0)
qed

lemma free_buffer:
  assumes "bcache_inv s" and "card (used_blocks s) < NBUF"
  shows "\<exists>i<NBUF. b_refcnt (bufs s i) = 0"
proof (rule ccontr)
  assume "\<not> (\<exists>i<NBUF. b_refcnt (bufs s i) = 0)"
  then have r: "b_refcnt (bufs s i) \<noteq> 0" if "i < NBUF" for i using that by blast
  then have "{i. i < NBUF \<and> b_refcnt (bufs s i) \<noteq> 0} = {..<NBUF}" by auto
  moreover have "inj_on (\<lambda>i. b_blockno (bufs s i)) {..<NBUF}"
    using assms(1) r by (auto simp: cache_inv_def inj_on_def)
  ultimately have "card (used_blocks s) = NBUF"
    using used_blocks_image [OF assms(1)] card_image by fastforce
  then show False using assms(2) by simp
qed

lemma finite_used_blocks: "bcache_inv s \<Longrightarrow> finite (used_blocks s)"
  by (simp add: used_blocks_image)

subsection \<open>How the views change\<close>

lemma views_same_data:
  assumes "\<And>i. same_data (B' i) (B i)"
  shows "slot_of B' = slot_of B" and "cache_blk B' D = cache_blk B D" and "cache_refs B' = cache_refs B"
    and "cache_lock B' = cache_lock B"
proof -
  show s: "slot_of B' = slot_of B"
    using assms by (intro ext slot_of_cong) (simp add: same_data_def)
  show "cache_blk B' D = cache_blk B D" "cache_refs B' = cache_refs B" "cache_lock B' = cache_lock B"
    using assms by (auto simp: fun_eq_iff cache_blk_def cache_refs_def cache_lock_def s same_data_def split: option.split)
qed

lemma cache_inv_same_data:
  assumes "\<And>i. same_data (B' i) (B i)" and "lru B' xs" and "cache_inv B D"
  shows "cache_inv B' D"
proof -
  have "b_valid (B' i) = b_valid (B i)" "b_dev (B' i) = b_dev (B i)" "b_blockno (B' i) = b_blockno (B i)"
    "b_lock (B' i) = b_lock (B i)" "b_refcnt (B' i) = b_refcnt (B i)" "b_data (B' i) = b_data (B i)" for i
    using assms(1) [of i] by (simp_all add: same_data_def)
  then show ?thesis using assms(2,3) unfolding cache_inv_def by simp blast
qed

lemma slot_views:
  assumes "slot_of B n = Some b"
  shows "(if b_valid (B b) then b_data (B b) else D n) = cache_blk B D n" and "unat (b_refcnt (B b)) = cache_refs B n"
    and "(if sl_locked (b_lock (B b)) then Some (sl_pid (b_lock (B b))) else None) = cache_lock B n"
  using assms by (simp_all add: cache_blk_def cache_refs_def cache_lock_def)

text \<open>Changing the buffer of block \<open>n\<close> in place.\<close>

lemma views_upd:
  assumes "slot_of B n = Some b" and "b_dev x = ROOTDEV" and "b_blockno x = n"
  shows "slot_of (B(b := x)) = slot_of B"
    and "cache_blk (B(b := x)) D = (cache_blk B D)(n := if b_valid x then b_data x else D n)"
    and "cache_refs (B(b := x)) = (cache_refs B)(n := unat (b_refcnt x))"
    and "cache_lock (B(b := x)) = (cache_lock B)(n := if sl_locked (b_lock x) then Some (sl_pid (b_lock x)) else None)"
proof -
  have b: "b_dev (B b) = ROOTDEV" "b_blockno (B b) = n" using slot_of_SomeD [OF assms(1)] by auto
  show s: "slot_of (B(b := x)) = slot_of B"
    using b assms by (intro ext slot_of_cong) auto
  have o: "i \<noteq> b" if "slot_of B m = Some i" "m \<noteq> n" for i m using slot_of_inj assms(1) that by blast
  show "cache_blk (B(b := x)) D = (cache_blk B D)(n := if b_valid x then b_data x else D n)"
    "cache_refs (B(b := x)) = (cache_refs B)(n := unat (b_refcnt x))"
    "cache_lock (B(b := x)) = (cache_lock B)(n := if sl_locked (b_lock x) then Some (sl_pid (b_lock x)) else None)"
    using o assms(1)
    by (auto simp: fun_eq_iff cache_blk_def cache_refs_def cache_lock_def s split: option.split)
qed

lemma views_keep:
  assumes "slot_of B n = Some b" and "b_dev x = ROOTDEV" and "b_blockno x = n"
  shows "b_valid x = b_valid (B b) \<Longrightarrow> b_data x = b_data (B b) \<Longrightarrow> cache_blk (B(b := x)) D = cache_blk B D"
    and "b_refcnt x = b_refcnt (B b) \<Longrightarrow> cache_refs (B(b := x)) = cache_refs B"
    and "b_lock x = b_lock (B b) \<Longrightarrow> cache_lock (B(b := x)) = cache_lock B"
proof -
  have e: "cache_blk B D n = (if b_valid (B b) then b_data (B b) else D n)"
    "cache_refs B n = unat (b_refcnt (B b))"
    "cache_lock B n = (if sl_locked (b_lock (B b)) then Some (sl_pid (b_lock (B b))) else None)"
    using slot_views [OF assms(1)] by simp_all
  show "b_valid x = b_valid (B b) \<Longrightarrow> b_data x = b_data (B b) \<Longrightarrow> cache_blk (B(b := x)) D = cache_blk B D"
    "b_refcnt x = b_refcnt (B b) \<Longrightarrow> cache_refs (B(b := x)) = cache_refs B"
    "b_lock x = b_lock (B b) \<Longrightarrow> cache_lock (B(b := x)) = cache_lock B"
    unfolding views_upd [OF assms] using e by (simp_all add: fun_upd_idem_iff)
qed

lemma cache_inv_upd:
  assumes "cache_inv B D" and "slot_of B n = Some b" and "b_dev x = ROOTDEV" and "b_blockno x = n"
    and "b_next x = b_next (B b)" and "b_prev x = b_prev (B b)"
    and "b_refcnt x = 0 \<Longrightarrow> \<not> sl_locked (b_lock x) \<and> (b_valid x \<longrightarrow> b_data x = D' n)"
    and "\<And>m. m \<noteq> n \<Longrightarrow> D' m = D m"
  shows "cache_inv (B(b := x)) D'"
proof -
  have b: "b < NBUF" "b_dev (B b) = ROOTDEV" "b_blockno (B b) = n" using slot_of_SomeD [OF assms(2)] by auto
  have o: "b_blockno (B i) \<noteq> n" if "i < NBUF" "i \<noteq> b" "b_dev (B i) = ROOTDEV" for i
    using slot_of_eq [OF assms(1) that(1,3) refl] assms(2) that(2) by auto
  obtain xs where "lru B xs" using assms(1) by (auto simp: cache_inv_def)
  then have "lru (B(b := x)) xs" using assms(5,6) by (subst lru_cong) auto
  then show ?thesis
    unfolding cache_inv_def
    using assms(1) b o assms(3,4,7,8) by (intro conjI) (auto simp: cache_inv_def)
qed

text \<open>Giving the unused buffer \<open>b\<close> to the block \<open>n\<close>, which no buffer holds.\<close>

lemma views_recycle:
  assumes "cache_inv B D" and "slot_of B n = None" and "b < NBUF" and "b_refcnt (B b) = 0"
    and x: "x = (B b)\<lparr>b_dev := ROOTDEV, b_blockno := n, b_valid := False, b_refcnt := 1\<rparr>"
  shows "slot_of (B(b := x)) n = Some b" and "cache_blk (B(b := x)) D = cache_blk B D"
    and "cache_refs (B(b := x)) = (cache_refs B)(n := 1)" and "cache_lock (B(b := x)) = cache_lock B"
    and "cache_inv (B(b := x)) D"
proof -
  let ?B = "B(b := x)"
  have nn: "b_blockno (B i) \<noteq> n" if "i < NBUF" "b_dev (B i) = ROOTDEV" for i
    using assms(2) that by (auto simp: slot_of_None)
  obtain xs where "lru B xs" using assms(1) by (auto simp: cache_inv_def)
  then have "lru ?B xs" using x by (subst lru_cong) auto
  then show inv: "cache_inv ?B D"
    unfolding cache_inv_def using assms(1,3,4) x nn
    by (intro conjI) (auto simp: cache_inv_def)
  show n: "slot_of ?B n = Some b" by (rule slot_of_eq [OF inv assms(3)]) (simp_all add: x)
  have other: "slot_of ?B m = (if slot_of B m = Some b then None else slot_of B m)" if "m \<noteq> n" for m
  proof (cases "slot_of B m")
    case None
    then have "slot_of ?B m = None" using that x by (auto simp: slot_of_None)
    then show ?thesis using None by simp
  next
    case (Some i)
    note i = slot_of_SomeD [OF Some]
    show ?thesis
    proof (cases "i = b")
      case True
      have "b_blockno (B j) \<noteq> m" if "j < NBUF" "j \<noteq> b" "b_dev (B j) = ROOTDEV" for j
        using slot_of_eq [OF assms(1) that(1,3) refl] Some True that(2) by auto
      then have "slot_of ?B m = None" using that x by (auto simp: slot_of_None)
      then show ?thesis using Some True by simp
    next
      case False
      then have "slot_of ?B m = Some i" using i by (intro slot_of_eq [OF inv]) auto
      then show ?thesis using Some False by simp
    qed
  qed
  have unl: "\<not> sl_locked (b_lock (B b))" using assms(1,3,4) by (auto simp: cache_inv_def)
  have coh: "b_valid (B b) \<Longrightarrow> slot_of B m = Some b \<Longrightarrow> b_data (B b) = D m" for m
    using assms(1,3,4) slot_of_SomeD [of B m b] by (auto simp: cache_inv_def)
  have "cache_blk ?B D m = cache_blk B D m \<and> cache_refs ?B m = ((cache_refs B)(n := 1)) m \<and> cache_lock ?B m = cache_lock B m" for m
  proof (cases "m = n")
    case True
    then show ?thesis using n assms(2) x unl by (simp add: cache_blk_def cache_refs_def cache_lock_def)
  next
    case False
    show ?thesis
    proof (cases "slot_of B m = Some b")
      case True
      then show ?thesis using other [OF False] False assms(4) unl coh [OF _ True]
        by (simp add: cache_blk_def cache_refs_def cache_lock_def)
    next
      case f: False
      then show ?thesis using other [OF False] False
        by (auto simp: cache_blk_def cache_refs_def cache_lock_def split: option.split)
    qed
  qed
  then show "cache_blk ?B D = cache_blk B D" "cache_refs ?B = (cache_refs B)(n := 1)" "cache_lock ?B = cache_lock B"
    by (simp_all add: fun_eq_iff)
qed

subsection \<open>The operations on the views\<close>

text \<open>The state of a process inside a system call that holds no spin-lock, and its process id.\<close>

definition ready :: "'a kproc_scheme \<Rightarrow> bool" where
  "ready s \<longleftrightarrow> held s = [] \<and> curproc s \<noteq> None"

definition mypid :: "'a kproc_scheme \<Rightarrow> int" where
  "mypid s = p_pid (procs s (the (curproc s)))"

text \<open>What the cache operations leave alone: everything but the cache, the disk and the process states.\<close>

definition bframe :: "'a kbio_scheme \<Rightarrow> 'a kbio_scheme \<Rightarrow> bool" where
  "bframe s t \<longleftrightarrow> mem t = mem s \<and> kend t = kend s \<and> held t = held s \<and> freelist t = freelist s \<and>
     curproc t = curproc s \<and> initproc t = initproc s \<and> nextpid t = nextpid s \<and>
     kernel_pagetable t = kernel_pagetable s \<and> trampoline t = trampoline s \<and>
     forkret_addr t = forkret_addr s \<and> etext t = etext s \<and> kbio.more t = kbio.more s \<and>
     (\<forall>i. \<exists>x. procs t i = (procs s i)\<lparr>p_state := x\<rparr>)"

lemma p_state_self: "\<exists>x. (p :: proc) = p\<lparr>p_state := x\<rparr>"
  by (rule exI [of _ "p_state p"]) simp

lemma bframe_refl [simp, intro]: "bframe s s"
  unfolding bframe_def using p_state_self by simp

lemma bframe_trans [trans]:
  assumes "bframe s t" and "bframe t u"
  shows "bframe s u"
proof -
  have "\<exists>x. procs u i = (procs s i)\<lparr>p_state := x\<rparr>" for i
  proof -
    obtain x y where "procs u i = (procs t i)\<lparr>p_state := x\<rparr>" "procs t i = (procs s i)\<lparr>p_state := y\<rparr>"
      using assms unfolding bframe_def by blast
    then have "procs u i = (procs s i)\<lparr>p_state := x\<rparr>" by simp
    then show ?thesis ..
  qed
  then show ?thesis using assms unfolding bframe_def by simp
qed

lemma bframeI:
  assumes "\<And>i. \<exists>x. P i = (procs s i)\<lparr>p_state := x\<rparr>"
  shows "bframe s (s\<lparr>procs := P, bufs := B\<rparr>)"
  using assms by (simp add: bframe_def)

lemma bframe_bufs [simp]: "bframe s (s\<lparr>bufs := B\<rparr>)" "bframe s (s\<lparr>disk := D\<rparr>)" "bframe s (s\<lparr>dhist := H\<rparr>)"
  "bframe s (s\<lparr>disk := D, dhist := H\<rparr>)"
  using p_state_self by (simp_all add: bframe_def)

lemma bframe_ready:
  assumes "bframe s t"
  shows "ready t \<longleftrightarrow> ready s" and "mypid t = mypid s"
proof -
  show "ready t \<longleftrightarrow> ready s" using assms by (simp add: bframe_def ready_def)
  have "p_pid (procs t i) = p_pid (procs s i)" for i
  proof -
    obtain x where "procs t i = (procs s i)\<lparr>p_state := x\<rparr>" using assms unfolding bframe_def by blast
    then show ?thesis by simp
  qed
  then show "mypid t = mypid s" using assms by (simp add: mypid_def bframe_def)
qed

lemma acquiresleep_buf:
  assumes "ready s" and "\<not> sl_locked (b_lock (bufs s b))"
  shows "acquiresleep (Ch_buflock b) (buf_lock b) (set_buf_lock b) s =
    Ok () (set_buf_lock b \<lparr>sl_locked = True, sl_pid = mypid s\<rparr> s)"
proof -
  obtain p where p: "held s = []" "curproc s = Some p" using assms(1) by (auto simp: ready_def)
  have "s\<lparr>held := [], bufs := B\<rparr> = s\<lparr>bufs := B\<rparr>" for B using p(1) by simp
  then show ?thesis using p assms(2)
    by (simp add: acquiresleep_def buf_lock_def set_buf_lock_def upd_buf_def myproc_def mypid_def)
qed

lemma holdingsleep_buf:
  assumes "ready s"
  shows "holdingsleep (Ch_buflock b) (buf_lock b) s =
    Ok (sl_locked (b_lock (bufs s b)) \<and> sl_pid (b_lock (bufs s b)) = mypid s) s"
  using assms by (auto simp: holdingsleep_def buf_lock_def myproc_def mypid_def ready_def)

lemma releasesleep_buf:
  assumes "ready s"
  shows "\<exists>P. releasesleep (Ch_buflock b) (set_buf_lock b) s =
      Ok () ((set_buf_lock b \<lparr>sl_locked = False, sl_pid = 0\<rparr> s)\<lparr>procs := P\<rparr>) \<and>
    (\<forall>i. \<exists>x. P i = (procs s i)\<lparr>p_state := x\<rparr>)"
proof -
  let ?u = "set_buf_lock b \<lparr>sl_locked = False, sl_pid = 0\<rparr> (s\<lparr>held := [L_inner (Ch_buflock b)]\<rparr>)"
  let ?P = "\<lambda>i. if i < NPROC \<and> curproc ?u \<noteq> Some i then woken (Ch_buflock b) (procs ?u i) else procs ?u i"
  have h: "held s = []" using assms by (simp add: ready_def)
  have "wakeup (Ch_buflock b) ?u = Ok () (?u\<lparr>procs := ?P\<rparr>)"
    by (rule wakeup_spec) (simp add: set_buf_lock_def upd_buf_def)
  moreover have "s\<lparr>held := [], bufs := B, procs := Q\<rparr> = s\<lparr>bufs := B, procs := Q\<rparr>" for B Q using h by simp
  ultimately have "releasesleep (Ch_buflock b) (set_buf_lock b) s =
      Ok () ((set_buf_lock b \<lparr>sl_locked = False, sl_pid = 0\<rparr> s)\<lparr>procs := ?P\<rparr>)"
    using h by (simp add: releasesleep_def set_buf_lock_def upd_buf_def Let_def)
  moreover have "\<exists>x. ?P i = (procs s i)\<lparr>p_state := x\<rparr>" for i
    using p_state_self [of "procs s i"] by (auto simp: set_buf_lock_def upd_buf_def woken_def)
  ultimately show ?thesis by blast
qed

text \<open>\<open>bread\<close> returns the locked buffer of the block, with its current contents.\<close>

definition can_bread :: "'a kbio_scheme \<Rightarrow> u32 \<Rightarrow> bool" where
  "can_bread s n \<longleftrightarrow> lockedby s n = None \<and> refs s n < 0xFFFFFFFF \<and> (0 < refs s n \<or> card (used_blocks s) < NBUF)"

lemma bget_locks:
  assumes "ready s" and "slot_of (bufs s) n = Some b" and "cache_lock (bufs s) n = None"
  shows "acquiresleep (Ch_buflock b) (buf_lock b) (set_buf_lock b) s =
    Ok () (s\<lparr>bufs := (bufs s)(b := (bufs s b)\<lparr>b_lock := \<lparr>sl_locked = True, sl_pid = mypid s\<rparr>\<rparr>)\<rparr>)"
  using assms by (subst acquiresleep_buf) (auto simp: cache_lock_def set_buf_lock_def upd_buf_def split: if_splits)

lemma bget_spec:
  assumes inv: "bcache_inv s" and r: "ready s" and c: "can_bread s n"
  obtains b t where "bget ROOTDEV n s = Ok b t" and "bcache_inv t" and "bframe s t" and "bslot t n = Some b"
    and "blk t = blk s" and "refs t = (refs s)(n := refs s n + 1)"
    and "lockedby t = (lockedby s)(n := Some (mypid s))" and "disk t = disk s" and "dhist t = dhist s"
    and "\<forall>k c. bslot s k = Some c \<longrightarrow> 0 < refs s k \<longrightarrow> bslot t k = Some c \<and> b_valid (bufs t c) = b_valid (bufs s c)"
proof -
  have h: "held s = []" using r by (simp add: ready_def)
  have h': "s\<lparr>bufs := B, held := []\<rparr> = s\<lparr>bufs := B\<rparr>" for B using h by simp
  obtain xs where lru: "lru (bufs s) xs" using inv by (auto simp: cache_inv_def)
  then have l: "links (bufs s) BHEAD xs BHEAD" and hd: "BHEAD \<notin> set xs" by (auto simp: lru_def)
  define lk where "lk = \<lparr>sl_locked = True, sl_pid = mypid s\<rparr>"
  \<comment> \<open>The buffer, with its reference count up by one, before it is locked.\<close>
  have "\<exists>b B. cache_inv B (disk s) \<and> slot_of B n = Some b \<and> cache_blk B (disk s) = blk s \<and>
      cache_refs B = (refs s)(n := refs s n + 1) \<and> cache_lock B = lockedby s \<and>
      (\<forall>k c. bslot s k = Some c \<longrightarrow> 0 < refs s k \<longrightarrow> slot_of B k = Some c \<and> b_valid (B c) = b_valid (bufs s c)) \<and>
      bget ROOTDEV n s = Ok b (s\<lparr>bufs := B(b := (B b)\<lparr>b_lock := lk\<rparr>)\<rparr>)"
  proof (cases "bslot s n")
    case (Some b)
    let ?x = "(bufs s b)\<lparr>b_refcnt := b_refcnt (bufs s b) + 1\<rparr>"
    let ?B = "(bufs s)(b := ?x)"
    note b = slot_of_SomeD [OF Some]
    have e: "refs s n = unat (b_refcnt (bufs s b))" using Some by (simp add: cache_refs_def)
    have rc: "unat (b_refcnt (bufs s b) + 1) = refs s n + 1"
      using c unat_add_small [of "b_refcnt (bufs s b)" 1] by (simp add: can_bread_def e)
    then have nz: "b_refcnt (bufs s b) + 1 \<noteq> 0" by (metis add_is_0 one_neq_zero unat_0)
    have v: "slot_of ?B = bslot s" "cache_blk ?B (disk s) = blk s" "cache_refs ?B = (refs s)(n := refs s n + 1)"
      "cache_lock ?B = lockedby s"
      using views_upd [OF Some, of ?x] b rc Some
      by (auto simp: cache_blk_def cache_lock_def fun_eq_iff)
    have i: "cache_inv ?B (disk s)"
      by (rule cache_inv_upd [OF inv Some]) (use b nz in simp_all)
    have "bget_cached (bufs s) ROOTDEV n (b_next (bufs s BHEAD)) = Some (Some b)"
      using bget_cached_find [OF l hd] find_lru [OF inv lru] Some by simp
    moreover have "acquiresleep (Ch_buflock b) (buf_lock b) (set_buf_lock b) (s\<lparr>bufs := ?B\<rparr>) =
        Ok () ((s\<lparr>bufs := ?B\<rparr>)\<lparr>bufs := ?B(b := (?B b)\<lparr>b_lock := lk\<rparr>)\<rparr>)"
      using bget_locks [of "s\<lparr>bufs := ?B\<rparr>" n b] r v Some c
      by (simp add: ready_def can_bread_def lk_def mypid_def)
    ultimately have "bget ROOTDEV n s = Ok b (s\<lparr>bufs := ?B(b := (?B b)\<lparr>b_lock := lk\<rparr>)\<rparr>)"
      using h by (simp add: bget_def upd_buf_def h')
    then show ?thesis using i v Some by (intro exI [of _ b] exI [of _ ?B]) auto
  next
    case None
    then have r0: "refs s n = 0" by (simp add: cache_refs_def)
    then obtain j where j: "j < NBUF" "b_refcnt (bufs s j) = 0" using c free_buffer [OF inv] by (auto simp: can_bread_def)
    then have "List.find (\<lambda>b. b_refcnt (bufs s b) = 0) (rev xs) \<noteq> None"
      using lru by (auto simp: find_None_iff lru_def)
    then obtain b where f: "List.find (\<lambda>b. b_refcnt (bufs s b) = 0) (rev xs) = Some b" by auto
    then have b: "b < NBUF" "b_refcnt (bufs s b) = 0" using lru by (auto simp: find_Some_iff lru_def) (metis lessThan_iff nth_mem rev_nth set_rev length_rev)
    let ?x = "(bufs s b)\<lparr>b_dev := ROOTDEV, b_blockno := n, b_valid := False, b_refcnt := 1\<rparr>"
    let ?B = "(bufs s)(b := ?x)"
    note v = views_recycle [OF inv None b refl]
    have "bget_cached (bufs s) ROOTDEV n (b_next (bufs s BHEAD)) = Some None"
      using bget_cached_find [OF l hd] find_lru [OF inv lru] None by simp
    moreover have "bget_unused (bufs s) (b_prev (bufs s BHEAD)) = Some (Some b)"
      using bget_unused_find [OF l hd] f by simp
    moreover have "acquiresleep (Ch_buflock b) (buf_lock b) (set_buf_lock b) (s\<lparr>bufs := ?B\<rparr>) =
        Ok () ((s\<lparr>bufs := ?B\<rparr>)\<lparr>bufs := ?B(b := (?B b)\<lparr>b_lock := lk\<rparr>)\<rparr>)"
      using bget_locks [of "s\<lparr>bufs := ?B\<rparr>" n b] r v c
      by (simp add: ready_def can_bread_def lk_def mypid_def)
    ultimately have "bget ROOTDEV n s = Ok b (s\<lparr>bufs := ?B(b := (?B b)\<lparr>b_lock := lk\<rparr>)\<rparr>)"
      using h by (simp add: bget_def upd_buf_def h')
    moreover have "slot_of ?B k = Some c \<and> b_valid (?B c) = b_valid (bufs s c)"
      if "bslot s k = Some c" "0 < refs s k" for k c
    proof -
      have "c \<noteq> b" using that b by (auto simp: cache_refs_def)
      moreover from this have "slot_of ?B k = Some c"
        using slot_of_SomeD [OF that(1)] by (intro slot_of_eq [OF v(5)]) auto
      ultimately show ?thesis by simp
    qed
    ultimately show ?thesis using v r0 by (intro exI [of _ b] exI [of _ ?B]) simp
  qed
  then obtain b B where B: "cache_inv B (disk s)" "slot_of B n = Some b" "cache_blk B (disk s) = blk s"
      "cache_refs B = (refs s)(n := refs s n + 1)" "cache_lock B = lockedby s"
      "\<And>k c. bslot s k = Some c \<Longrightarrow> 0 < refs s k \<Longrightarrow> slot_of B k = Some c \<and> b_valid (B c) = b_valid (bufs s c)"
      "bget ROOTDEV n s = Ok b (s\<lparr>bufs := B(b := (B b)\<lparr>b_lock := lk\<rparr>)\<rparr>)" by blast
  let ?y = "(B b)\<lparr>b_lock := lk\<rparr>"
  note b = slot_of_SomeD [OF B(2)]
  have "cache_refs B n = refs s n + 1" using B(4) by simp
  then have nz: "b_refcnt (B b) \<noteq> 0" using B(2) by (auto simp: cache_refs_def)
  note v = views_upd [OF B(2), of ?y]
  show ?thesis
  proof (rule that [OF B(7)])
    show "bcache_inv (s\<lparr>bufs := B(b := ?y)\<rparr>)"
      using cache_inv_upd [OF B(1,2), of ?y "disk s"] b nz by simp
    show "blk (s\<lparr>bufs := B(b := ?y)\<rparr>) = blk s"
      using views_keep(1) [OF B(2), of ?y] b B(3) by simp
    show "refs (s\<lparr>bufs := B(b := ?y)\<rparr>) = (refs s)(n := refs s n + 1)"
      using views_keep(2) [OF B(2), of ?y] b B(4) by simp
    have "bslot (s\<lparr>bufs := B(b := ?y)\<rparr>) k = Some c \<and> b_valid (bufs (s\<lparr>bufs := B(b := ?y)\<rparr>) c) = b_valid (bufs s c)"
      if "bslot s k = Some c" "0 < refs s k" for k c
      using B(6) [OF that] v(1) b by (cases "c = b") simp_all
    then show "\<forall>k c. bslot s k = Some c \<longrightarrow> 0 < refs s k \<longrightarrow>
        bslot (s\<lparr>bufs := B(b := ?y)\<rparr>) k = Some c \<and> b_valid (bufs (s\<lparr>bufs := B(b := ?y)\<rparr>) c) = b_valid (bufs s c)"
      by blast
  qed (use v b B(1-5) in \<open>simp_all add: lk_def\<close>)
qed

lemma bread_spec:
  assumes inv: "bcache_inv s" and r: "ready s" and c: "can_bread s n"
  obtains b t where "bread ROOTDEV n s = Ok b t" and "bcache_inv t" and "bframe s t" and "bslot t n = Some b"
    and "b_valid (bufs t b)" and "b_data (bufs t b) = blk s n"
    and "blk t = blk s" and "refs t = (refs s)(n := refs s n + 1)"
    and "lockedby t = (lockedby s)(n := Some (mypid s))" and "disk t = disk s" and "dhist t = dhist s"
    and "\<forall>k c. bslot s k = Some c \<longrightarrow> 0 < refs s k \<longrightarrow> k \<noteq> n \<longrightarrow> bslot t k = Some c \<and> b_valid (bufs t c) = b_valid (bufs s c)"
proof -
  obtain b t where t: "bget ROOTDEV n s = Ok b t" "bcache_inv t" "bframe s t" "bslot t n = Some b"
    "blk t = blk s" "refs t = (refs s)(n := refs s n + 1)"
    "lockedby t = (lockedby s)(n := Some (mypid s))" "disk t = disk s" "dhist t = dhist s"
    "\<forall>k c. bslot s k = Some c \<longrightarrow> 0 < refs s k \<longrightarrow> bslot t k = Some c \<and> b_valid (bufs t c) = b_valid (bufs s c)"
    using bget_spec [OF assms] .
  note b = slot_of_SomeD [OF t(4)]
  show ?thesis
  proof (cases "b_valid (bufs t b)")
    case True
    then have "b_data (bufs t b) = blk t n" using t(4) by (simp add: cache_blk_def)
    then show ?thesis using True t by (intro that [of b t]) (simp_all add: bread_def)
  next
    case False
    let ?x = "(bufs t b)\<lparr>b_data := disk t n, b_valid := True\<rparr>"
    let ?t = "t\<lparr>bufs := (bufs t)(b := ?x)\<rparr>"
    have "refs t n = refs s n + 1" using t(6) by simp
    then have "b_refcnt (bufs t b) \<noteq> 0" using t(4) by (auto simp: cache_refs_def)
    then have i: "bcache_inv ?t" using cache_inv_upd [OF t(2,4), of ?x "disk t"] b by simp
    have "blk ?t = blk t"
      using views_upd(2) [OF t(4), of ?x "disk t"] b False t(4) by (auto simp: cache_blk_def fun_eq_iff)
    moreover have "refs ?t = refs t" "lockedby ?t = lockedby t" "bslot ?t = bslot t"
      using views_keep(2,3) [OF t(4), of ?x] views_upd(1) [OF t(4), of ?x] b by simp_all
    moreover have "b_data ?x = blk s n" using False t(4,5) slot_views(1) [OF t(4), of "disk t"] by simp
    moreover have "bread ROOTDEV n s = Ok b ?t"
      using t(1) False b by (simp add: bread_def disk_rw_def upd_buf_def)
    moreover have "bslot ?t k = Some c \<and> b_valid (bufs ?t c) = b_valid (bufs s c)"
      if "bslot s k = Some c" "0 < refs s k" "k \<noteq> n" for k c
    proof -
      have c: "bslot t k = Some c" "b_valid (bufs t c) = b_valid (bufs s c)" using t(10) that(1,2) by blast+
      then have "c \<noteq> b" using t(4) that(3) slot_of_inj by blast
      then show ?thesis using c \<open>bslot ?t = bslot t\<close> by simp
    qed
    ultimately show ?thesis using i t(1-9) bframe_trans [OF t(3) bframe_bufs(1)] by (intro that [of b ?t]) simp_all
  qed
qed

lemma set_data_spec:
  fixes f :: "block \<Rightarrow> block"
  assumes inv: "bcache_inv s" and b: "bslot s n = Some b" and v: "b_valid (bufs s b)" and l: "0 < refs s n"
  defines "t \<equiv> upd_buf b (b_data_update f) s"
  shows "bcache_inv t" and "bframe s t" and "bslot t = bslot s" and "b_valid (bufs t b)"
    and "b_data (bufs t b) = f (blk s n)" and "blk t = (blk s)(n := f (blk s n))" and "refs t = refs s"
    and "lockedby t = lockedby s" and "disk t = disk s" and "dhist t = dhist s"
proof -
  let ?x = "b_data_update f (bufs s b)"
  note d = slot_of_SomeD [OF b]
  have e: "b_data (bufs s b) = blk s n" using v b by (simp add: cache_blk_def)
  have "b_refcnt (bufs s b) \<noteq> 0" using l b by (auto simp: cache_refs_def)
  then show "bcache_inv t" using cache_inv_upd [OF inv b, of ?x "disk s"] d by (simp add: t_def upd_buf_def)
  show "blk t = (blk s)(n := f (blk s n))"
    using views_upd(2) [OF b, of ?x "disk s"] d v e by (simp add: t_def upd_buf_def)
  show "refs t = refs s" "lockedby t = lockedby s" "bslot t = bslot s"
    using views_keep(2,3) [OF b, of ?x] views_upd(1) [OF b, of ?x] d by (simp_all add: t_def upd_buf_def)
qed (use v in \<open>simp_all add: t_def upd_buf_def slot_views(1) [OF b, of "disk s", symmetric]\<close>)

lemma refs_locked:
  assumes "bcache_inv s" and "lockedby s n \<noteq> None"
  shows "0 < refs s n"
proof -
  obtain b where b: "bslot s n = Some b" "sl_locked (b_lock (bufs s b))"
    using assms(2) by (auto simp: cache_lock_def split: option.splits if_splits)
  then have "b_refcnt (bufs s b) \<noteq> 0" using assms(1) slot_of_SomeD [OF b(1)] by (auto simp: cache_inv_def)
  then show ?thesis using b(1) by (simp add: cache_refs_def unat_gt_0)
qed

lemma holdingsleep_mine:
  assumes "ready s" and "bslot s n = Some b"
  shows "holdingsleep (Ch_buflock b) (buf_lock b) s = Ok (lockedby s n = Some (mypid s)) s"
  using holdingsleep_buf [OF assms(1), of b] assms(2) by (simp add: cache_lock_def)

lemma bwrite_spec:
  assumes inv: "bcache_inv s" and r: "ready s" and b: "bslot s n = Some b" and v: "b_valid (bufs s b)"
    and l: "lockedby s n = Some (mypid s)"
  obtains t where "bwrite b s = Ok () t" and "bcache_inv t" and "bframe s t" and "bufs t = bufs s"
    and "blk t = blk s" and "disk t = (disk s)(n := blk s n)" and "dhist t = dhist s @ [(n, blk s n)]"
proof -
  note d = slot_of_SomeD [OF b]
  have e: "b_data (bufs s b) = blk s n" using v b by (simp add: cache_blk_def)
  let ?D = "(disk s)(n := blk s n)"
  let ?t = "s\<lparr>disk := ?D, dhist := dhist s @ [(n, blk s n)]\<rparr>"
  have w: "bwrite b s = Ok () ?t"
    using holdingsleep_mine [OF r b] l d e by (simp add: bwrite_def disk_rw_def)
  have "0 < refs s n" using refs_locked [OF inv] l by simp
  then have "b_refcnt (bufs s b) \<noteq> 0" using b by (auto simp: cache_refs_def)
  then have "cache_inv ((bufs s)(b := bufs s b)) ?D"
    using d by (intro cache_inv_upd [OF inv b]) simp_all
  then have i: "bcache_inv ?t" by simp
  have "blk ?t m = blk s m" for m
    using b v by (cases "m = n") (auto simp: cache_blk_def split: option.split)
  then show ?thesis using w i by (intro that [of ?t]) (simp_all add: fun_eq_iff)
qed

lemma bwrite_unlocked:
  assumes "ready s" and "bslot s n = Some b" and "lockedby s n \<noteq> Some (mypid s)"
  shows "bwrite b s = Panic ''bwrite''" and "brelse b s = Panic ''brelse''"
  using holdingsleep_mine [OF assms(1,2)] assms(3) by (simp_all add: bwrite_def brelse_def)

lemma refcnt_dec: "0 < unat (x :: u32) \<Longrightarrow> unat (x - 1) = unat x - 1"
  by (simp add: unat_minus_one unat_gt_0)

lemma brelse_spec:
  assumes inv: "bcache_inv s" and r: "ready s" and b: "bslot s n = Some b" and v: "b_valid (bufs s b)"
    and l: "lockedby s n = Some (mypid s)" and clean: "refs s n = 1 \<Longrightarrow> blk s n = disk s n"
  obtains t where "brelse b s = Ok () t" and "bcache_inv t" and "bframe s t" and "blk t = blk s"
    and "refs t = (refs s)(n := refs s n - 1)" and "lockedby t = (lockedby s)(n := None)"
    and "disk t = disk s" and "dhist t = dhist s" and "\<forall>i. b_valid (bufs t i) = b_valid (bufs s i)" and "bslot t = bslot s"
proof -
  note d = slot_of_SomeD [OF b]
  have h: "held s = []" using r by (simp add: ready_def)
  have pos: "0 < refs s n" using refs_locked [OF inv] l by simp
  obtain P where P: "releasesleep (Ch_buflock b) (set_buf_lock b) s =
      Ok () ((set_buf_lock b \<lparr>sl_locked = False, sl_pid = 0\<rparr> s)\<lparr>procs := P\<rparr>)"
    "\<And>i. \<exists>x. P i = (procs s i)\<lparr>p_state := x\<rparr>"
    using releasesleep_buf [OF r, of b] by blast
  define x where "x = (bufs s b)\<lparr>b_lock := \<lparr>sl_locked = False, sl_pid = 0\<rparr>, b_refcnt := b_refcnt (bufs s b) - 1\<rparr>"
  define B where "B = (bufs s)(b := x)"
  define B' where "B' = (if b_refcnt x = 0 then link_front b (unlink b B) else B)"
  let ?t = "s\<lparr>procs := P, bufs := B'\<rparr>"
  have h1: "s\<lparr>bufs := B1, procs := Q, held := [], bufs := B2\<rparr> = s\<lparr>procs := Q, bufs := B2\<rparr>"
    and h2: "s\<lparr>procs := Q, bufs := B2, held := []\<rparr> = s\<lparr>procs := Q, bufs := B2\<rparr>" for B1 Q B2
    using h by simp_all
  have br: "brelse b s = Ok () ?t"
    using holdingsleep_mine [OF r b] l P(1) h
    by (simp add: brelse_def set_buf_lock_def upd_buf_def Let_def B'_def B_def x_def h1 h2)
  have rx: "unat (b_refcnt x) = refs s n - 1"
    using pos refcnt_dec b by (simp add: x_def cache_refs_def)
  have xz: "b_refcnt x = 0 \<Longrightarrow> refs s n = 1" using rx pos by simp
  have e: "b_data (bufs s b) = blk s n" using v b by (simp add: cache_blk_def)
  have Bi: "cache_inv B (disk s)" unfolding B_def
    by (rule cache_inv_upd [OF inv b]) (use d e clean xz in \<open>auto simp: x_def\<close>)
  have Bv: "cache_blk B (disk s) = blk s" "cache_refs B = (refs s)(n := refs s n - 1)"
    "cache_lock B = (lockedby s)(n := None)" "slot_of B = bslot s"
    unfolding B_def using views_keep(1) [OF b, of x] views_upd [OF b, of x] d rx by (simp_all add: x_def)
  have sd: "same_data (B' i) (B i)" for i
  proof (cases "b_refcnt x = 0")
    case True
    have "same_data (link_front b (unlink b B) i) (unlink b B i)" "same_data (unlink b B i) (B i)"
      by (rule same_data_link_front same_data_unlink)+
    then show ?thesis using True by (simp add: B'_def same_data_def)
  qed (simp add: B'_def same_data_def)
  obtain xs where "lru B xs" using Bi by (auto simp: cache_inv_def)
  then have "\<exists>ys. lru B' ys" using lru_touch [of B xs b] d by (auto simp: B'_def)
  then have inv': "cache_inv B' (disk s)" using cache_inv_same_data [OF sd _ Bi] by blast
  note w = views_same_data [OF sd]
  have "b_valid (B' i) = b_valid (bufs s i)" for i using sd [of i] v by (simp add: same_data_def B_def x_def)
  then show ?thesis
    using br inv' bframeI [OF P(2), of B'] w Bv b by (intro that [of ?t]) simp_all
qed

lemma bpin_spec:
  assumes inv: "bcache_inv s" and r: "L_bcache \<notin> set (held s)" and b: "bslot s n = Some b" and c: "refs s n < 0xFFFFFFFF"
  obtains t where "bpin b s = Ok () t" and "bcache_inv t" and "bframe s t" and "blk t = blk s"
    and "refs t = (refs s)(n := refs s n + 1)" and "lockedby t = lockedby s"
    and "disk t = disk s" and "dhist t = dhist s" and "bslot t = bslot s" and "\<forall>i. b_valid (bufs t i) = b_valid (bufs s i)"
proof -
  note d = slot_of_SomeD [OF b]
  let ?x = "(bufs s b)\<lparr>b_refcnt := b_refcnt (bufs s b) + 1\<rparr>"
  let ?t = "s\<lparr>bufs := (bufs s)(b := ?x)\<rparr>"
  have rc: "unat (b_refcnt (bufs s b) + 1) = refs s n + 1"
    using c b unat_add_small [of "b_refcnt (bufs s b)" 1] by (simp add: cache_refs_def)
  then have nz: "b_refcnt (bufs s b) + 1 \<noteq> 0" by (metis add_is_0 one_neq_zero unat_0)
  have h1: "s\<lparr>bufs := B, held := held s\<rparr> = s\<lparr>bufs := B\<rparr>" for B by simp
  have 1: "bpin b s = Ok () ?t" using r by (simp add: bpin_def upd_buf_def h1)
  have 2: "bcache_inv ?t" using cache_inv_upd [OF inv b, of ?x "disk s"] d nz by simp
  show ?thesis
    using views_keep [OF b, of ?x] views_upd [OF b, of ?x] d rc
    by (intro that [OF 1 2]) simp_all
qed

lemma bunpin_spec:
  assumes inv: "bcache_inv s" and r: "ready s" and b: "bslot s n = Some b" and c: "1 < refs s n"
  obtains t where "bunpin b s = Ok () t" and "bcache_inv t" and "bframe s t" and "blk t = blk s"
    and "refs t = (refs s)(n := refs s n - 1)" and "lockedby t = lockedby s"
    and "disk t = disk s" and "dhist t = dhist s" and "bslot t = bslot s" and "\<forall>i. b_valid (bufs t i) = b_valid (bufs s i)"
proof -
  note d = slot_of_SomeD [OF b]
  have h: "held s = []" using r by (simp add: ready_def)
  let ?x = "(bufs s b)\<lparr>b_refcnt := b_refcnt (bufs s b) - 1\<rparr>"
  let ?t = "s\<lparr>bufs := (bufs s)(b := ?x)\<rparr>"
  have rc: "unat (b_refcnt (bufs s b) - 1) = refs s n - 1"
    using c b refcnt_dec [of "b_refcnt (bufs s b)"] by (simp add: cache_refs_def)
  then have nz: "b_refcnt (bufs s b) - 1 \<noteq> 0" using c by auto
  have h1: "s\<lparr>bufs := B, held := []\<rparr> = s\<lparr>bufs := B\<rparr>" for B using h by simp
  have 1: "bunpin b s = Ok () ?t" using h by (simp add: bunpin_def upd_buf_def h1)
  have 2: "bcache_inv ?t" using cache_inv_upd [OF inv b, of ?x "disk s"] d nz by simp
  show ?thesis
    using views_keep [OF b, of ?x] views_upd [OF b, of ?x] d rc
    by (intro that [OF 1 2]) simp_all
qed

subsection \<open>The interface for the clients of the cache\<close>

text \<open>
  \<open>has_buf s n b\<close>: the running process holds the locked, valid buffer \<open>b\<close> of block \<open>n\<close>.
  \<open>bupd s t C R L D H\<close>: from \<open>s\<close> to \<open>t\<close> only the cache, the disk and process states change, to the
  contents \<open>C\<close>, the reference counts \<open>R\<close>, the lock holders \<open>L\<close>, the disk \<open>D\<close> and the history \<open>H\<close>,
  and the process keeps the buffers that it holds by \<open>L\<close>.
\<close>

definition has_buf :: "'a kbio_scheme \<Rightarrow> u32 \<Rightarrow> nat \<Rightarrow> bool" where
  "has_buf s n b \<longleftrightarrow> bslot s n = Some b \<and> b_valid (bufs s b) \<and> lockedby s n = Some (mypid s)"

definition bupd ::
  "'a kbio_scheme \<Rightarrow> 'a kbio_scheme \<Rightarrow> (u32 \<Rightarrow> block) \<Rightarrow> (u32 \<Rightarrow> nat) \<Rightarrow> (u32 \<Rightarrow> int option) \<Rightarrow>
   (u32 \<Rightarrow> block) \<Rightarrow> (u32 \<times> block) list \<Rightarrow> bool" where
  "bupd s t C R L D H \<longleftrightarrow> bcache_inv t \<and> bframe s t \<and> blk t = C \<and> refs t = R \<and> lockedby t = L \<and>
     disk t = D \<and> dhist t = H \<and> (\<forall>k c. has_buf s k c \<longrightarrow> L k = Some (mypid s) \<longrightarrow> has_buf t k c)"

lemma bupdD:
  assumes "bupd s t C R L D H"
  shows "bcache_inv t" and "bframe s t" and "blk t = C" and "refs t = R" and "lockedby t = L"
    and "disk t = D" and "dhist t = H" and "ready t \<longleftrightarrow> ready s" and "mypid t = mypid s"
proof -
  show f: "bframe s t" and "bcache_inv t" and "blk t = C" and "refs t = R" and "lockedby t = L"
    and "disk t = D" and "dhist t = H"
    using assms unfolding bupd_def by blast+
  show "ready t \<longleftrightarrow> ready s" and "mypid t = mypid s" by (rule bframe_ready [OF f])+
qed

lemma bupd_has_buf: "bupd s t C R L D H \<Longrightarrow> has_buf s k c \<Longrightarrow> L k = Some (mypid s) \<Longrightarrow> has_buf t k c"
  by (simp add: bupd_def)

lemma has_bufD:
  assumes "has_buf s n b"
  shows "bslot s n = Some b" and "b_valid (bufs s b)" and "lockedby s n = Some (mypid s)"
    and "b_data (bufs s b) = blk s n" and "b_blockno (bufs s b) = n" and "b_dev (bufs s b) = ROOTDEV"
proof -
  show s: "bslot s n = Some b" and v: "b_valid (bufs s b)" and "lockedby s n = Some (mypid s)"
    using assms by (simp_all add: has_buf_def)
  show "b_data (bufs s b) = blk s n" using s v by (simp add: cache_blk_def)
  show "b_blockno (bufs s b) = n" "b_dev (bufs s b) = ROOTDEV" using slot_of_SomeD [OF s] by simp_all
qed

lemma bread_ok:
  assumes "bcache_inv s" and "ready s" and "can_bread s n"
  obtains b t where "bread ROOTDEV n s = Ok b t" and "has_buf t n b"
    and "bupd s t (blk s) ((refs s)(n := refs s n + 1)) ((lockedby s)(n := Some (mypid s))) (disk s) (dhist s)"
proof -
  obtain b t where t: "bread ROOTDEV n s = Ok b t" "bcache_inv t" "bframe s t" "bslot t n = Some b"
    "b_valid (bufs t b)" "b_data (bufs t b) = blk s n" "blk t = blk s" "refs t = (refs s)(n := refs s n + 1)"
    "lockedby t = (lockedby s)(n := Some (mypid s))" "disk t = disk s" "dhist t = dhist s"
    "\<forall>k c. bslot s k = Some c \<longrightarrow> 0 < refs s k \<longrightarrow> k \<noteq> n \<longrightarrow> bslot t k = Some c \<and> b_valid (bufs t c) = b_valid (bufs s c)"
    using bread_spec [OF assms] .
  note m = bframe_ready(2) [OF t(3)]
  have hb: "has_buf t n b" using t(4,5,9) m by (simp add: has_buf_def)
  have "has_buf t k c" if "has_buf s k c" for k c
  proof (cases "k = n")
    case True
    then show ?thesis using that assms(3) by (simp add: has_buf_def can_bread_def)
  next
    case False
    have "0 < refs s k" using refs_locked [OF assms(1)] that by (simp add: has_buf_def)
    then have "bslot t k = Some c" "b_valid (bufs t c) = b_valid (bufs s c)"
      using t(12) that False by (auto simp: has_buf_def)
    then show ?thesis using that False t(9) m by (simp add: has_buf_def)
  qed
  then show ?thesis using t hb by (intro that [of b t]) (simp_all add: bupd_def)
qed

lemma set_data_ok:
  assumes "bcache_inv s" and "has_buf s n b"
  shows "bupd s (upd_buf b (b_data_update f) s) ((blk s)(n := f (blk s n))) (refs s) (lockedby s) (disk s) (dhist s)"
proof -
  have "0 < refs s n" using refs_locked [OF assms(1)] assms(2) by (simp add: has_buf_def)
  note sd = set_data_spec [OF assms(1) has_bufD(1,2) [OF assms(2)] this, of f]
  have "b_valid (bufs (upd_buf b (b_data_update f) s) c) = b_valid (bufs s c)" for c by (simp add: upd_buf_def)
  then show ?thesis using sd bframe_ready(2) [OF sd(2)] by (simp add: bupd_def has_buf_def)
qed

lemma bwrite_ok:
  assumes "bcache_inv s" and "ready s" and "has_buf s n b"
  obtains t where "bwrite b s = Ok () t"
    and "bupd s t (blk s) (refs s) (lockedby s) ((disk s)(n := blk s n)) (dhist s @ [(n, blk s n)])"
proof -
  obtain t where t: "bwrite b s = Ok () t" "bcache_inv t" "bframe s t" "bufs t = bufs s"
    "blk t = blk s" "disk t = (disk s)(n := blk s n)" "dhist t = dhist s @ [(n, blk s n)]"
    using bwrite_spec [OF assms(1,2) has_bufD(1-3) [OF assms(3)]] .
  then show ?thesis using bframe_ready(2) [OF t(3)] by (intro that [of t]) (simp_all add: bupd_def has_buf_def)
qed

lemma brelse_ok:
  assumes "bcache_inv s" and "ready s" and "has_buf s n b" and "refs s n = 1 \<Longrightarrow> blk s n = disk s n"
  obtains t where "brelse b s = Ok () t"
    and "bupd s t (blk s) ((refs s)(n := refs s n - 1)) ((lockedby s)(n := None)) (disk s) (dhist s)"
proof -
  obtain t where t: "brelse b s = Ok () t" "bcache_inv t" "bframe s t" "blk t = blk s"
    "refs t = (refs s)(n := refs s n - 1)" "lockedby t = (lockedby s)(n := None)"
    "disk t = disk s" "dhist t = dhist s" "\<forall>i. b_valid (bufs t i) = b_valid (bufs s i)" "bslot t = bslot s"
    using brelse_spec [OF assms(1,2) has_bufD(1-3) [OF assms(3)] assms(4)] .
  then show ?thesis using bframe_ready(2) [OF t(3)] by (intro that [of t]) (simp_all add: bupd_def has_buf_def)
qed

lemma bpin_ok:
  assumes "bcache_inv s" and "L_bcache \<notin> set (held s)" and "bslot s n = Some b" and "refs s n < 0xFFFFFFFF"
  obtains t where "bpin b s = Ok () t"
    and "bupd s t (blk s) ((refs s)(n := refs s n + 1)) (lockedby s) (disk s) (dhist s)"
proof -
  obtain t where t: "bpin b s = Ok () t" "bcache_inv t" "bframe s t" "blk t = blk s"
    "refs t = (refs s)(n := refs s n + 1)" "lockedby t = lockedby s"
    "disk t = disk s" "dhist t = dhist s" "bslot t = bslot s" "\<forall>i. b_valid (bufs t i) = b_valid (bufs s i)"
    using bpin_spec [OF assms] .
  then show ?thesis using bframe_ready(2) [OF t(3)] by (intro that [of t]) (simp_all add: bupd_def has_buf_def)
qed

lemma bunpin_ok:
  assumes "bcache_inv s" and "ready s" and "bslot s n = Some b" and "1 < refs s n"
  obtains t where "bunpin b s = Ok () t"
    and "bupd s t (blk s) ((refs s)(n := refs s n - 1)) (lockedby s) (disk s) (dhist s)"
proof -
  obtain t where t: "bunpin b s = Ok () t" "bcache_inv t" "bframe s t" "blk t = blk s"
    "refs t = (refs s)(n := refs s n - 1)" "lockedby t = lockedby s"
    "disk t = disk s" "dhist t = dhist s" "bslot t = bslot s" "\<forall>i. b_valid (bufs t i) = b_valid (bufs s i)"
    using bunpin_spec [OF assms] .
  then show ?thesis using bframe_ready(2) [OF t(3)] by (intro that [of t]) (simp_all add: bupd_def has_buf_def)
qed

subsection \<open>The cache after boot\<close>

lemma link_front_fields [simp]:
  "b_valid (link_front b B i) = b_valid (B i)" "b_dev (link_front b B i) = b_dev (B i)"
  "b_blockno (link_front b B i) = b_blockno (B i)" "b_lock (link_front b B i) = b_lock (B i)"
  "b_refcnt (link_front b B i) = b_refcnt (B i)" "b_data (link_front b B i) = b_data (B i)"
  using same_data_link_front [of b B i] by (simp_all add: same_data_def)

lemma binit_loop_fields:
  "b_valid (binit_loop bs B i) = b_valid (B i) \<and> b_dev (binit_loop bs B i) = b_dev (B i) \<and>
   b_blockno (binit_loop bs B i) = b_blockno (B i) \<and> b_refcnt (binit_loop bs B i) = b_refcnt (B i) \<and>
   b_data (binit_loop bs B i) = b_data (B i) \<and>
   b_lock (binit_loop bs B i) = (if i \<in> set bs then initsleeplock else b_lock (B i))"
  by (induction bs arbitrary: B) auto

lemma binit_fields:
  "b_valid (bufs (binit s) i) = b_valid (bufs s i)" "b_dev (bufs (binit s) i) = b_dev (bufs s i)"
  "b_blockno (bufs (binit s) i) = b_blockno (bufs s i)" "b_refcnt (bufs (binit s) i) = b_refcnt (bufs s i)"
  "b_data (bufs (binit s) i) = b_data (bufs s i)" "i < NBUF \<Longrightarrow> b_lock (bufs (binit s) i) = initsleeplock"
  using binit_loop_fields [of "[0..<NBUF]" "(bufs s)(BHEAD := (bufs s BHEAD)\<lparr>b_prev := BHEAD, b_next := BHEAD\<rparr>)" i]
  by (simp_all add: binit_def Let_def)

text \<open>Static storage is zero at boot: no buffer belongs to a device or is referenced.\<close>

lemma binit_cache:
  assumes z: "\<And>i. i < NBUF \<Longrightarrow> b_dev (bufs s i) = 0 \<and> b_refcnt (bufs s i) = 0"
  shows "cache_inv (bufs (binit s)) D" and "slot_of (bufs (binit s)) = (\<lambda>_. None)"
    and "cache_refs (bufs (binit s)) = (\<lambda>_. 0)" and "cache_lock (bufs (binit s)) = (\<lambda>_. None)"
    and "cache_blk (bufs (binit s)) D = D"
proof -
  show "cache_inv (bufs (binit s)) D"
    unfolding cache_inv_def using lru_binit z by (auto simp: binit_fields initsleeplock_def)
  show n: "slot_of (bufs (binit s)) = (\<lambda>_. None)" using z by (auto simp: fun_eq_iff slot_of_None binit_fields)
  show "cache_refs (bufs (binit s)) = (\<lambda>_. 0)" "cache_lock (bufs (binit s)) = (\<lambda>_. None)"
    "cache_blk (bufs (binit s)) D = D"
    by (simp_all add: fun_eq_iff cache_refs_def cache_lock_def cache_blk_def n)
qed

definition blank_buf :: buf where
  "blank_buf = \<lparr>b_valid = False, b_disk = False, b_dev = 0, b_blockno = 0, b_lock = initsleeplock,
     b_refcnt = 0, b_prev = 0, b_next = 0, b_data = replicate BSIZE 0\<rparr>"

definition zero_block :: block where
  "zero_block = replicate BSIZE 0"

definition bio_boot :: kbio where
  "bio_boot = binit (kproc.extend (kproc_boot\<lparr>curproc := Some 0\<rparr>)
     \<lparr>bufs = (\<lambda>_. blank_buf), disk = (\<lambda>_. zero_block), dhist = []\<rparr>)"

lemma bio_boot_views:
  "bcache_inv bio_boot" "ready bio_boot" "refs bio_boot = (\<lambda>_. 0)" "lockedby bio_boot = (\<lambda>_. None)"
  "blk bio_boot = (\<lambda>_. zero_block)" "disk bio_boot = (\<lambda>_. zero_block)" "dhist bio_boot = []"
proof -
  let ?s = "kproc.extend (kproc_boot\<lparr>curproc := Some 0\<rparr>)
     \<lparr>bufs = (\<lambda>_. blank_buf), disk = (\<lambda>_. zero_block), dhist = []\<rparr> :: kbio"
  have z: "b_dev (bufs ?s i) = 0 \<and> b_refcnt (bufs ?s i) = 0" for i by (simp add: kproc.defs blank_buf_def)
  show d: "disk bio_boot = (\<lambda>_. zero_block)" and "dhist bio_boot = []"
    by (simp_all add: bio_boot_def binit_def Let_def kproc.defs)
  note c = binit_cache [of ?s, OF z, folded bio_boot_def]
  show "bcache_inv bio_boot" "refs bio_boot = (\<lambda>_. 0)" "lockedby bio_boot = (\<lambda>_. None)" "blk bio_boot = (\<lambda>_. zero_block)"
    using c d by simp_all
  show "ready bio_boot"
    by (simp add: ready_def bio_boot_def binit_def Let_def kproc.defs kproc_boot_def kmem.defs pt_boot_def)
qed

subsection \<open>Properties\<close>

text \<open>C12: \<open>bread\<close> on a block that nobody has locked, with a buffer to spare, returns a locked buffer
  with the current contents of the block; it changes the contents of no block, no byte of the
  disk, and only this block's reference count and lock, and it keeps the invariant of the cache.\<close>

theorem bread_correct:
  assumes "bcache_inv s" and "ready s" and "can_bread s n"
  shows "\<exists>b t. bread ROOTDEV n s = Ok b t \<and> has_buf t n b \<and> b_data (bufs t b) = blk s n \<and> bcache_inv t \<and>
    blk t = blk s \<and> refs t = (refs s)(n := refs s n + 1) \<and>
    lockedby t = (lockedby s)(n := Some (mypid s)) \<and> disk t = disk s"
proof -
  obtain b t where t: "bread ROOTDEV n s = Ok b t" "has_buf t n b"
    "bupd s t (blk s) ((refs s)(n := refs s n + 1)) ((lockedby s)(n := Some (mypid s))) (disk s) (dhist s)"
    using bread_ok [OF assms] .
  note u = bupdD [OF t(3)]
  have "b_data (bufs t b) = blk s n" using has_bufD(4) [OF t(2)] u(3) by simp
  then show ?thesis using t u by blast
qed

lemma can_bread_boot: "can_bread bio_boot n"
  using bio_boot_views by (simp add: can_bread_def used_blocks_def)

theorem bread_correct_witness:
  "\<exists>b t. bread ROOTDEV 5 bio_boot = Ok b t \<and> has_buf t 5 b \<and> b_data (bufs t b) = blk bio_boot 5 \<and> bcache_inv t \<and>
    blk t = blk bio_boot \<and> refs t = (refs bio_boot)(5 := refs bio_boot 5 + 1) \<and>
    lockedby t = (lockedby bio_boot)(5 := Some (mypid bio_boot)) \<and> disk t = disk bio_boot"
  by (rule bread_correct [OF bio_boot_views(1,2) can_bread_boot])

lemma bget_miss_run:
  assumes inv: "bcache_inv s" and r: "ready s" and xs: "lru (bufs s) xs" and miss: "bslot s n = None"
    and f: "List.find (\<lambda>b. b_refcnt (bufs s b) = 0) (rev xs) = Some b"
  shows "\<exists>t. bget ROOTDEV n s = Ok b t \<and> lru (bufs t) xs"
proof -
  have l: "links (bufs s) BHEAD xs BHEAD" and hd: "BHEAD \<notin> set xs" using xs by (auto simp: lru_def)
  have h: "held s = []" using r by (simp add: ready_def)
  have h': "s\<lparr>bufs := B, held := []\<rparr> = s\<lparr>bufs := B\<rparr>" for B using h by simp
  have "b \<in> set (rev xs)" "b_refcnt (bufs s b) = 0"
    using f unfolding find_Some_iff by (metis nth_mem, metis)
  then have b: "b < NBUF" "b_refcnt (bufs s b) = 0" using xs by (auto simp: lru_def)
  let ?x = "(bufs s b)\<lparr>b_dev := ROOTDEV, b_blockno := n, b_valid := False, b_refcnt := 1\<rparr>"
  let ?s = "s\<lparr>bufs := (bufs s)(b := ?x)\<rparr>"
  have "\<not> sl_locked (b_lock (bufs s b))" using inv b by (auto simp: cache_inv_def)
  then have a: "acquiresleep (Ch_buflock b) (buf_lock b) (set_buf_lock b) ?s =
      Ok () (set_buf_lock b \<lparr>sl_locked = True, sl_pid = mypid ?s\<rparr> ?s)"
    using r by (intro acquiresleep_buf) (simp_all add: ready_def)
  have "bget_cached (bufs s) ROOTDEV n (b_next (bufs s BHEAD)) = Some None"
    using bget_cached_find [OF l hd] find_lru [OF inv xs] miss by simp
  moreover have "bget_unused (bufs s) (b_prev (bufs s BHEAD)) = Some (Some b)"
    using bget_unused_find [OF l hd] f by simp
  ultimately have "bget ROOTDEV n s = Ok b (set_buf_lock b \<lparr>sl_locked = True, sl_pid = mypid ?s\<rparr> ?s)"
    using h a by (simp add: bget_def upd_buf_def h')
  moreover have "lru (bufs (set_buf_lock b \<lparr>sl_locked = True, sl_pid = mypid ?s\<rparr> ?s)) xs"
    using xs by (subst lru_cong [of _ "bufs s"]) (auto simp: set_buf_lock_def upd_buf_def)
  ultimately show ?thesis by blast
qed

lemma bget_none_run:
  assumes inv: "bcache_inv s" and r: "ready s" and xs: "lru (bufs s) xs" and miss: "bslot s n = None"
    and f: "List.find (\<lambda>b. b_refcnt (bufs s b) = 0) (rev xs) = None"
  shows "bget ROOTDEV n s = Panic ''bget: no buffers''"
proof -
  have l: "links (bufs s) BHEAD xs BHEAD" and hd: "BHEAD \<notin> set xs" using xs by (auto simp: lru_def)
  have "bget_cached (bufs s) ROOTDEV n (b_next (bufs s BHEAD)) = Some None"
    using bget_cached_find [OF l hd] find_lru [OF inv xs] miss by simp
  moreover have "bget_unused (bufs s) (b_prev (bufs s BHEAD)) = Some None"
    using bget_unused_find [OF l hd] f by simp
  ultimately show ?thesis using r by (simp add: bget_def ready_def)
qed

lemma brelse_run:
  assumes r: "ready s" and b: "has_buf s n b" and one: "refs s n = 1" and xs: "lru (bufs s) xs"
  shows "\<exists>t. brelse b s = Ok () t \<and> lru (bufs t) (b # remove1 b xs)"
proof -
  have h: "held s = []" using r by (simp add: ready_def)
  note bd = has_bufD [OF b]
  have lt: "b < NBUF" using slot_of_SomeD [OF bd(1)] by simp
  have one': "b_refcnt (bufs s b) = 1" using one bd(1) by (simp add: cache_refs_def word_unat_eq_iff)
  obtain P where P: "releasesleep (Ch_buflock b) (set_buf_lock b) s =
      Ok () ((set_buf_lock b \<lparr>sl_locked = False, sl_pid = 0\<rparr> s)\<lparr>procs := P\<rparr>)"
    using releasesleep_buf [OF r, of b] by blast
  let ?B = "(bufs s)(b := (bufs s b)\<lparr>b_lock := \<lparr>sl_locked = False, sl_pid = 0\<rparr>, b_refcnt := 0\<rparr>)"
  have h1: "s\<lparr>bufs := B1, procs := Q, held := [], bufs := B2\<rparr> = s\<lparr>procs := Q, bufs := B2\<rparr>"
    and h2: "s\<lparr>procs := Q, bufs := B2, held := []\<rparr> = s\<lparr>procs := Q, bufs := B2\<rparr>" for B1 Q B2
    using h by simp_all
  have "brelse b s = Ok () (s\<lparr>procs := P, bufs := link_front b (unlink b ?B)\<rparr>)"
    using holdingsleep_mine [OF r bd(1)] bd(3) P h one'
    by (simp add: brelse_def set_buf_lock_def upd_buf_def Let_def h1 h2)
  moreover have "lru ?B xs" using xs by (subst lru_cong [of _ "bufs s"]) auto
  then have "lru (link_front b (unlink b ?B)) (b # remove1 b xs)" using lru_touch lt by blast
  ultimately show ?thesis
    by (intro exI [of _ "s\<lparr>procs := P, bufs := link_front b (unlink b ?B)\<rparr>"]) simp
qed

text \<open>C27: The pointers of the cache implement a list in order of last use: a miss in \<open>bget\<close> recycles
  the last buffer of the list with no references and panics if there is none, and releasing the
  last reference to a buffer moves it to the front.\<close>

theorem bcache_lru:
  assumes "bcache_inv s" and "ready s" and "lru (bufs s) xs"
  shows "(bslot s n = None \<longrightarrow>
      (case List.find (\<lambda>b. b_refcnt (bufs s b) = 0) (rev xs) of
         None \<Rightarrow> bget ROOTDEV n s = Panic ''bget: no buffers''
       | Some b \<Rightarrow> \<exists>t. bget ROOTDEV n s = Ok b t \<and> lru (bufs t) xs)) \<and>
    (has_buf s m c \<and> refs s m = 1 \<longrightarrow> (\<exists>t. brelse c s = Ok () t \<and> lru (bufs t) (c # remove1 c xs)))"
  using bget_miss_run [OF assms] bget_none_run [OF assms] brelse_run [OF assms(2) _ _ assms(3)]
  by (auto split: option.split)

lemma lru_boot: "lru (bufs bio_boot) (rev [0..<NBUF])"
  unfolding bio_boot_def by (rule lru_binit)

theorem bcache_lru_witness:
  "\<exists>t. bget ROOTDEV 5 bio_boot = Ok 0 t \<and> lru (bufs t) (rev [0..<NBUF])"
proof -
  have "List.find (\<lambda>b. b_refcnt (bufs bio_boot b) = 0) (rev (rev [0..<NBUF])) = Some 0"
    by (simp add: upt_conv_Cons bio_boot_def binit_fields kproc.defs blank_buf_def)
  moreover have "bslot bio_boot 5 = None"
    using binit_cache(2) by (auto simp: slot_of_None bio_boot_def binit_fields kproc.defs blank_buf_def)
  ultimately show ?thesis
    using bcache_lru [OF bio_boot_views(1,2) lru_boot, of 5] by simp
qed

end
