(* ===== verification/Bytes.thy ===== *)
theory Bytes
  imports Prelude
begin

text \<open>
  Fields of byte arrays: structures laid over the data of a block, a directory entry or a file
  header. \<open>getb\<close> and \<open>putb\<close> read and overwrite bytes at an offset, \<open>getw\<close> and \<open>putw\<close> integers in
  little-endian order. The lemmas are those of a store: a field reads back what was written to it
  and disjoint fields do not interfere.
\<close>

definition getb :: "nat \<Rightarrow> u8 list \<Rightarrow> nat \<Rightarrow> u8 list" where
  "getb k d off = take k (drop off d)"

definition putb :: "u8 list \<Rightarrow> nat \<Rightarrow> u8 list \<Rightarrow> u8 list" where
  "putb d off bs = take off d @ bs @ drop (off + length bs) d"

definition getw :: "nat \<Rightarrow> u8 list \<Rightarrow> nat \<Rightarrow> 'a::len word" where
  "getw k d off = le_word (getb k d off)"

definition putw :: "nat \<Rightarrow> u8 list \<Rightarrow> nat \<Rightarrow> 'a::len word \<Rightarrow> u8 list" where
  "putw k d off v = putb d off (word_le k v)"

abbreviation get32 :: "u8 list \<Rightarrow> nat \<Rightarrow> u32" where "get32 \<equiv> getw 4"
abbreviation put32 :: "u8 list \<Rightarrow> nat \<Rightarrow> u32 \<Rightarrow> u8 list" where "put32 \<equiv> putw 4"
abbreviation get16 :: "u8 list \<Rightarrow> nat \<Rightarrow> u16" where "get16 \<equiv> getw 2"
abbreviation put16 :: "u8 list \<Rightarrow> nat \<Rightarrow> u16 \<Rightarrow> u8 list" where "put16 \<equiv> putw 2"
abbreviation get64 :: "u8 list \<Rightarrow> nat \<Rightarrow> u64" where "get64 \<equiv> getw 8"

lemma length_putb [simp]: "off + length bs \<le> length d \<Longrightarrow> length (putb d off bs) = length d"
  by (simp add: putb_def)

lemma length_putw [simp]: "off + k \<le> length d \<Longrightarrow> length (putw k d off v) = length d"
  by (simp add: putw_def)

lemma length_getb: "length (getb k d off) = min k (length d - off)"
  by (simp add: getb_def)

lemma getb_putb_same: "off + length bs \<le> length d \<Longrightarrow> getb (length bs) (putb d off bs) off = bs"
  by (simp add: getb_def putb_def)

lemma getb_putb_before:
  assumes "o1 + k \<le> o2" and "o2 + length bs \<le> length d"
  shows "getb k (putb d o2 bs) o1 = getb k d o1"
proof -
  have "drop o1 (take o2 d) = take (o2 - o1) (drop o1 d)" by (simp add: drop_take)
  then show ?thesis using assms by (simp add: getb_def putb_def min_absorb1)
qed

lemma getb_putb_after:
  assumes "o2 + length bs \<le> o1" and "o2 + length bs \<le> length d"
  shows "getb k (putb d o2 bs) o1 = getb k d o1"
  using assms by (simp add: getb_def putb_def)

lemma getb_putb_other:
  assumes "o1 + k \<le> o2 \<or> o2 + length bs \<le> o1" and "o2 + length bs \<le> length d"
  shows "getb k (putb d o2 bs) o1 = getb k d o1"
  using assms getb_putb_before getb_putb_after by blast

lemma getw_putw_same:
  fixes v :: "'a::len word"
  assumes "off + k \<le> length d" and "LENGTH('a) \<le> 8 * k"
  shows "getw k (putw k d off v) off = v"
  using assms getb_putb_same [of off "word_le k v" d] by (simp add: getw_def putw_def le_word_word_le)

lemma getw_putb_other:
  "o1 + k \<le> o2 \<or> o2 + length bs \<le> o1 \<Longrightarrow> o2 + length bs \<le> length d \<Longrightarrow> getw k (putb d o2 bs) o1 = getw k d o1"
  by (simp add: getw_def getb_putb_other)

lemma getw_putw_other:
  "o1 + k \<le> o2 \<or> o2 + j \<le> o1 \<Longrightarrow> o2 + j \<le> length d \<Longrightarrow> getw k (putw j d o2 v) o1 = getw k d o1"
  by (simp add: putw_def getw_putb_other)

lemma getb_putw_other:
  "o1 + k \<le> o2 \<or> o2 + j \<le> o1 \<Longrightarrow> o2 + j \<le> length d \<Longrightarrow> getb k (putw j d o2 v) o1 = getb k d o1"
  by (simp add: putw_def getb_putb_other)

lemma putb_getb_same: "off + k \<le> length d \<Longrightarrow> putb d off (getb k d off) = d"
  by (simp add: putb_def getb_def) (metis add.commute append_take_drop_id drop_drop)

lemma nth_putb:
  assumes "off + length bs \<le> length d" and "i < length d"
  shows "putb d off bs ! i = (if off \<le> i \<and> i < off + length bs then bs ! (i - off) else d ! i)"
  using assms by (auto simp: putb_def nth_append min_absorb1)

end
