(* ===== verification/Printf.thy ===== *)
theory Printf
  imports Spinlock Strings
begin

text \<open>
  Formatted output of the kernel (\<open>kernel/printf.c\<close>) down to the serial port (\<open>consputc\<close> of
  \<open>kernel/console.c\<close>, \<open>uartputc_sync\<close> of \<open>kernel/uart.c\<close>): the bytes sent are the list \<open>uart_out\<close>. The
  variable arguments of \<open>printf\<close> are a list. A run of the model ends with the first panic, so
  \<open>panicking\<close> is always 0 and \<open>printf\<close> takes the lock; \<open>panic\<close> itself is the result \<open>Panic\<close>.
\<close>

abbreviation (input) BACKSPACE :: int where "BACKSPACE \<equiv> 0x100"

subsection \<open>Characters\<close>

text \<open>The wait for the transmit register to be empty ends, so it is no step of the model.\<close>

definition uartputc_sync :: "int \<Rightarrow> 'a machine_scheme \<Rightarrow> 'a machine_scheme" where
  "uartputc_sync c s = s\<lparr>uart_out := uart_out s @ [word_of_int c]\<rparr>"

definition consputc :: "int \<Rightarrow> 'a machine_scheme \<Rightarrow> 'a machine_scheme" where
  "consputc c s =
     (if c = BACKSPACE then uartputc_sync 8 (uartputc_sync 32 (uartputc_sync 8 s)) else uartputc_sync c s)"

subsection \<open>Numbers\<close>

definition digits :: "nat \<Rightarrow> u8" where
  "digits i = map of_char ''0123456789abcdef'' ! i"

text \<open>
  The loop of \<open>printint\<close> that stores digits, least significant first. The kernel only uses the bases
  10 and 16; a base below 2 would not end.
\<close>

function printint_loop :: "u64 \<Rightarrow> u64 \<Rightarrow> u8 list \<Rightarrow> u8 list" where
  "printint_loop x base buf =
     (let buf = buf @ [digits (unat (x mod base))] in
      if x div base \<noteq> 0 \<and> 2 \<le> base then printint_loop (x div base) base buf else buf)"
  by pat_completeness auto
termination
proof (relation "measure (\<lambda>(x, base, buf). unat x)")
  fix x base :: u64 and buf buf' :: "u8 list"
  assume a: "buf' = buf @ [digits (unat (x mod base))]" "x div base \<noteq> 0 \<and> 2 \<le> base"
  then have b: "unat (x div base) \<noteq> 0" "2 \<le> unat base" by (auto simp: word_le_nat_alt unat_eq_0)
  then have "unat x \<noteq> 0" by (metis div_0 unat_div)
  then show "((x div base, base, buf'), (x, base, buf)) \<in> measure (\<lambda>(x, base, buf). unat x)"
    using b by (simp add: unat_div)
qed simp

declare printint_loop.simps [simp del]

definition putbuf :: "u8 list \<Rightarrow> 'a machine_scheme \<Rightarrow> 'a machine_scheme" where
  "putbuf bs s = fold (\<lambda>b. consputc (uint b)) bs s"

text \<open>
  \<open>char buf[20]\<close> must hold the digits and the sign. The negation of the smallest \<open>long long\<close> overflows.
\<close>

definition printint :: "u64 \<Rightarrow> u64 \<Rightarrow> bool \<Rightarrow> 'a machine_scheme \<Rightarrow> ('a machine_scheme, unit) res" where
  "printint xx base sign s =
     (let neg = (sign \<and> sint xx < 0);
          x = (if neg then - xx else xx);
          buf = printint_loop x base [];
          buf = (if neg then buf @ [of_char (CHR ''-'')] else buf) in
      if neg \<and> xx = 0x8000000000000000 \<or> length buf > 20 then UB else Ok () (putbuf (rev buf) s))"

primrec printptr_loop :: "nat \<Rightarrow> u64 \<Rightarrow> 'a machine_scheme \<Rightarrow> 'a machine_scheme" where
  "printptr_loop 0 x s = s"
| "printptr_loop (Suc i) x s =
     printptr_loop i (push_bit 4 x) (consputc (uint (digits (unat (drop_bit 60 x)))) s)"

definition printptr :: "u64 \<Rightarrow> 'a machine_scheme \<Rightarrow> 'a machine_scheme" where
  "printptr x s =
     printptr_loop 16 x (consputc (of_char (CHR ''x'')) (consputc (of_char (CHR ''0'')) s))"

subsection \<open>printf\<close>

text \<open>An argument is an integer or pointer as passed in a register, or a string, \<open>None\<close> the null pointer.\<close>

datatype parg = Aint u64 | Astr "u8 list option"

text \<open>
  One conversion: the values are the number of characters of the format after \<open>c0\<close> that it uses and
  the arguments left. Reading an argument that was not passed is undefined.
\<close>

definition va_int :: "parg list \<Rightarrow> (u64 \<times> parg list) option" where
  "va_int ap = (case ap of Aint x # r \<Rightarrow> Some (x, r) | _ \<Rightarrow> None)"

definition conv_int ::
  "nat \<Rightarrow> (u64 \<Rightarrow> u64) \<Rightarrow> u64 \<Rightarrow> bool \<Rightarrow> parg list \<Rightarrow> 'a machine_scheme \<Rightarrow> ('a machine_scheme, nat \<times> parg list) res" where
  "conv_int k cast base sign ap s =
     (case va_int ap of None \<Rightarrow> UB
      | Some (x, r) \<Rightarrow> kbind (printint (cast x) base sign s) (\<lambda>_ s. Ok (k, r) s))"

definition printf_conv ::
  "char \<Rightarrow> char \<Rightarrow> char \<Rightarrow> parg list \<Rightarrow> 'a machine_scheme \<Rightarrow> ('a machine_scheme, nat \<times> parg list) res" where
  "printf_conv c0 c1 c2 ap s =
     (if c0 = CHR ''d'' then conv_int 0 (\<lambda>x. scast (ucast x :: u32)) 10 True ap s
      else if c0 = CHR ''l'' \<and> c1 = CHR ''d'' then conv_int 1 id 10 True ap s
      else if c0 = CHR ''l'' \<and> c1 = CHR ''l'' \<and> c2 = CHR ''d'' then conv_int 2 id 10 True ap s
      else if c0 = CHR ''u'' then conv_int 0 (\<lambda>x. ucast (ucast x :: u32)) 10 False ap s
      else if c0 = CHR ''l'' \<and> c1 = CHR ''u'' then conv_int 1 id 10 False ap s
      else if c0 = CHR ''l'' \<and> c1 = CHR ''l'' \<and> c2 = CHR ''u'' then conv_int 2 id 10 False ap s
      else if c0 = CHR ''x'' then conv_int 0 (\<lambda>x. ucast (ucast x :: u32)) 16 False ap s
      else if c0 = CHR ''l'' \<and> c1 = CHR ''x'' then conv_int 1 id 16 False ap s
      else if c0 = CHR ''l'' \<and> c1 = CHR ''l'' \<and> c2 = CHR ''x'' then conv_int 2 id 16 False ap s
      else if c0 = CHR ''p'' then
        (case va_int ap of None \<Rightarrow> UB | Some (x, r) \<Rightarrow> Ok (0, r) (printptr x s))
      else if c0 = CHR ''c'' then
        (case va_int ap of None \<Rightarrow> UB | Some (x, r) \<Rightarrow> Ok (0, r) (consputc (sint (ucast x :: u32)) s))
      else if c0 = CHR ''s'' then
        (case ap of
           Astr (Some bs) # r \<Rightarrow> Ok (0, r) (putbuf bs s)
         | Astr None # r \<Rightarrow> Ok (0, r) (putbuf (map of_char ''(null)'') s)
         | _ \<Rightarrow> UB)
      else if c0 = CHR ''%'' then Ok (0, ap) (consputc (of_char (CHR ''%'')) s)
      else Ok (0, ap) (consputc (of_char c0) (consputc (of_char (CHR ''%'')) s)))"

definition nul :: char where
  "nul = CHR 0x00"

text \<open>The format is the list of its characters up to the NUL.\<close>

function printf_loop :: "string \<Rightarrow> parg list \<Rightarrow> 'a machine_scheme \<Rightarrow> ('a machine_scheme, unit) res" where
  "printf_loop fmt ap s =
     (case fmt of
        [] \<Rightarrow> Ok () s
      | cx # r \<Rightarrow>
          if cx \<noteq> CHR ''%'' then printf_loop r ap (consputc (of_char cx) s)
          else
            (case r of
               [] \<Rightarrow> Ok () s
             | c0 # r' \<Rightarrow>
                 let c1 = (if r' = [] then nul else hd r');
                     c2 = (if tl r' = [] then nul else hd (tl r')) in
                 kbind (printf_conv c0 c1 c2 ap s) (\<lambda>x s. printf_loop (drop (fst x) r') (snd x) s)))"
  by pat_completeness auto
termination
  by (relation "measure (\<lambda>(fmt, ap, s). length fmt)") auto

declare printf_loop.simps [simp del]

definition printf :: "string \<Rightarrow> parg list \<Rightarrow> 'a machine_scheme \<Rightarrow> ('a machine_scheme, int) res" where
  "printf fmt ap s =
     kbind (acquire L_pr s) (\<lambda>_ s.
     kbind (printf_loop fmt ap s) (\<lambda>_ s.
     kbind (release L_pr s) (\<lambda>_ s. Ok 0 s)))"

subsection \<open>The digits of a number\<close>

lemma digit_step:
  assumes "unat base = b" and "2 \<le> b" and "unat x < b ^ Suc k" and "0 < k"
  shows "unat (x div base) < b ^ k"
  using assms by (simp add: unat_div less_mult_imp_div_less mult.commute)

text \<open>
  The digits, least significant first: their value is the number, only a lone digit is a leading
  zero, and \<open>k\<close> of them are enough below \<open>b ^ k\<close>.
\<close>

lemma printint_loop_spec:
  assumes "unat base = b" and "2 \<le> b" and "unat x < b ^ k" and "0 < k"
  shows "\<exists>ds. printint_loop x base buf = buf @ map digits ds \<and> ds \<noteq> [] \<and> length ds \<le> k \<and>
    (\<forall>d \<in> set ds. d < b) \<and> foldr (\<lambda>d n. d + b * n) ds 0 = unat x \<and> (last ds = 0 \<longrightarrow> ds = [0])"
  using assms(3,4)
proof (induction k arbitrary: x buf)
  case (Suc k)
  let ?d = "unat (x mod base)"
  have base: "2 \<le> base" using assms(1,2) by (simp add: word_le_nat_alt)
  have d: "?d < b" "?d = unat x mod b" using assms(1,2) by (simp_all add: unat_mod)
  have q: "unat (x div base) = unat x div b" using assms(1) by (simp add: unat_div)
  show ?case
  proof (cases "x div base = 0")
    case True
    then have "unat x div b = 0" using q by simp
    then have "?d = unat x" using d(2) by (metis div_mult_mod_eq mult_0 add_0)
    then have "printint_loop x base buf = buf @ map digits [?d] \<and> [?d] \<noteq> [] \<and> length [?d] \<le> Suc k \<and>
      (\<forall>d \<in> set [?d]. d < b) \<and> foldr (\<lambda>d n. d + b * n) [?d] 0 = unat x \<and> (last [?d] = 0 \<longrightarrow> [?d] = [0])"
      using True d(1) by (simp add: printint_loop.simps [of x])
    then show ?thesis by (rule exI)
  next
    case False
    then have nz: "unat x div b \<noteq> 0" using q by (metis unat_eq_zero)
    have k: "0 < k" using Suc.prems(1) nz assms(2) by (cases k) auto
    have lt: "unat (x div base) < b ^ k" using digit_step [OF assms(1,2) Suc.prems(1) k] .
    obtain ds where ds: "printint_loop (x div base) base (buf @ [digits ?d]) = (buf @ [digits ?d]) @ map digits ds"
      "ds \<noteq> []" "length ds \<le> k" "\<forall>d \<in> set ds. d < b" "foldr (\<lambda>d n. d + b * n) ds 0 = unat (x div base)"
      "last ds = 0 \<longrightarrow> ds = [0]"
      using Suc.IH [OF lt k, of "buf @ [digits ?d]"] by (elim exE conjE) (rule that)
    have "last ds \<noteq> 0" using ds(5,6) nz q by auto
    then have "printint_loop x base buf = buf @ map digits (?d # ds) \<and> ?d # ds \<noteq> [] \<and> length (?d # ds) \<le> Suc k \<and>
      (\<forall>d \<in> set (?d # ds). d < b) \<and> foldr (\<lambda>d n. d + b * n) (?d # ds) 0 = unat x \<and>
      (last (?d # ds) = 0 \<longrightarrow> ?d # ds = [0])"
      using False base ds d q by (simp add: printint_loop.simps [of x])
    then show ?thesis by (rule exI)
  qed
qed simp

text \<open>Reading a numeral back.\<close>

definition digit_val :: "u8 \<Rightarrow> nat" where
  "digit_val c = (if unat c < 58 then unat c - 48 else unat c - 87)"

definition num_val :: "nat \<Rightarrow> u8 list \<Rightarrow> nat" where
  "num_val b cs = foldl (\<lambda>n c. b * n + digit_val c) 0 cs"

definition int_val :: "nat \<Rightarrow> u8 list \<Rightarrow> int" where
  "int_val b cs = (if cs \<noteq> [] \<and> hd cs = 45 then - int (num_val b (tl cs)) else int (num_val b cs))"

lemma upt16: "d < 16 \<Longrightarrow> d \<in> {0, 1, 2, 3, 4, 5, 6, 7, 8, 9, 10, 11, 12, 13, 14, 15 :: nat}"
  by (simp, presburger)

lemma digit_val_digits [simp]:
  assumes "d < 16" shows "digit_val (digits d) = d" and "digits d \<noteq> 45"
  using upt16 [OF assms] by (auto simp: digit_val_def digits_def)

lemma num_val_digits:
  assumes "\<forall>d \<in> set ds. d < b" and "b \<le> 16"
  shows "num_val b (rev (map digits ds)) = foldr (\<lambda>d n. d + b * n) ds 0"
  using assms(1)
proof (induction ds)
  case (Cons d ds)
  then have "d < 16" using assms(2) by simp
  then show ?case using Cons by (simp add: num_val_def)
qed (simp add: num_val_def)

text \<open>What \<open>printint\<close> sends, for the bases of the kernel.\<close>

lemma putbuf_out: "putbuf bs s = s\<lparr>uart_out := uart_out s @ bs\<rparr>"
proof (induction bs arbitrary: s)
  case (Cons b bs)
  have "uint b \<noteq> 0x100" using uint_lt2p [of b] by simp
  then have "consputc (uint b) s = s\<lparr>uart_out := uart_out s @ [b]\<rparr>"
    by (simp add: consputc_def uartputc_sync_def)
  then show ?case using Cons by (simp add: putbuf_def)
qed (simp add: putbuf_def)

lemma uint_of_int64: "0 \<le> k \<Longrightarrow> k < 18446744073709551616 \<Longrightarrow> uint (of_int k :: u64) = k"
  by (simp add: unsigned_of_int take_bit_int_eq_self)

lemma printint_out:
  assumes "base = 10 \<or> base = 16" and "sign \<longrightarrow> base = 10" and "\<not> (sign \<and> xx = 0x8000000000000000)"
  shows "\<exists>bs. printint xx base sign s = Ok () (s\<lparr>uart_out := uart_out s @ bs\<rparr>) \<and> length bs \<le> 20 \<and>
    int_val (unat base) bs = (if sign then sint xx else uint xx)"
proof -
  define neg where "neg = (sign \<and> sint xx < 0)"
  define x where "x = (if neg then - xx else xx)"
  have b: "2 \<le> unat base" "unat base \<le> 16" using assms(1) by auto
  have x: "int (unat x) = (if neg then - sint xx else if sign then sint xx else uint xx)"
  proof (cases neg)
    case True
    then have s: "sint xx < 0" by (simp add: neg_def)
    have l: "- 9223372036854775808 \<le> sint xx" using sint_greater_eq [of xx] by simp
    have "- xx = of_int (- sint xx)" by simp
    then have "uint (- xx) = - sint xx" using uint_of_int64 [of "- sint xx"] s l by simp
    then show ?thesis using True by (simp add: x_def)
  next
    case False
    have "xx = of_int (sint xx)" by simp
    then have "uint xx = sint xx" if "0 \<le> sint xx"
      using that sint_less [of xx] uint_of_int64 [of "sint xx"] by simp
    then show ?thesis using False by (auto simp: x_def neg_def not_less)
  qed
  have "unat x < 2 ^ 64" using unsigned_less [of x, where 'a = nat] by simp
  moreover have "unat x \<le> 2 ^ 63" if neg
    unfolding of_nat_le_iff [symmetric, where 'a = int] using x that sint_greater_eq [of xx] by simp
  moreover have "base = 10" if neg using assms(2) that by (simp add: neg_def)
  ultimately have lt: "unat x < unat base ^ (if neg then 19 else 20)"
    using assms(1) by (cases neg) auto
  obtain ds where ds: "printint_loop x base [] = map digits ds" "ds \<noteq> []" "length ds \<le> (if neg then 19 else 20)"
    "\<forall>d \<in> set ds. d < unat base" "foldr (\<lambda>d n. d + unat base * n) ds 0 = unat x"
    using printint_loop_spec [OF refl b(1) lt, of "[]"] by (cases neg; simp; blast)
  define bs where "bs = rev (if neg then map digits ds @ [45] else map digits ds)"
  have "\<not> (neg \<and> xx = 0x8000000000000000)" using assms(3) by (simp add: neg_def)
  then have p: "printint xx base sign s = Ok () (s\<lparr>uart_out := uart_out s @ bs\<rparr>)"
    using ds(1,3) by (auto simp: printint_def neg_def [symmetric] x_def putbuf_out bs_def Let_def split: if_splits)
  have "last ds < 16" using last_in_set [OF ds(2)] ds(4) b(2) by force
  then have hd: "hd (rev (map digits ds)) \<noteq> 45"
    using ds(2) by (simp add: hd_rev last_map)
  have "num_val (unat base) (rev (map digits ds)) = unat x" using num_val_digits [OF ds(4) b(2)] ds(5) by simp
  then have "int_val (unat base) bs = (if sign then sint xx else uint xx)"
    using x hd ds(2) by (auto simp: int_val_def bs_def neg_def)
  moreover have "length bs \<le> 20" using ds(3) by (simp add: bs_def split: if_splits)
  ultimately show ?thesis using p by blast
qed

text \<open>C29: \<open>printint\<close> prints numbers correctly and never overruns its buffer of 20 characters: for every
  64-bit argument, signed or unsigned decimal and hexadecimal output is at most 20 characters, and
  reading the characters sent as a numeral of that base gives back the number. The one exception
  is the signed output of the smallest 64-bit number, whose negation \<open>-xx\<close> overflows.\<close>

theorem printint_correct:
  "(if xx = 0x8000000000000000 then printint xx 10 True s = UB
    else \<exists>bs. printint xx 10 True s = Ok () (s\<lparr>uart_out := uart_out s @ bs\<rparr>) \<and> length bs \<le> 20 \<and> int_val 10 bs = sint xx) \<and>
   (\<exists>bs. printint xx 10 False s = Ok () (s\<lparr>uart_out := uart_out s @ bs\<rparr>) \<and> length bs \<le> 20 \<and> int_val 10 bs = uint xx) \<and>
   (\<exists>bs. printint xx 16 False s = Ok () (s\<lparr>uart_out := uart_out s @ bs\<rparr>) \<and> length bs \<le> 20 \<and> int_val 16 bs = uint xx)"
proof -
  have "printint 0x8000000000000000 10 True s = UB"
    by (simp add: printint_def Let_def)
  then show ?thesis
    using printint_out [of 10 True xx s] printint_out [of 10 False xx s] printint_out [of 16 False xx s]
    by (cases "xx = 0x8000000000000000") auto
qed

subsection \<open>Frame facts\<close>

text \<open>Printing changes nothing but the output of the serial port.\<close>

definition printed :: "'a machine_scheme \<Rightarrow> 'a machine_scheme \<Rightarrow> bool" where
  "printed s t \<longleftrightarrow> (\<exists>bs. t = s\<lparr>uart_out := uart_out s @ bs\<rparr>)"

lemma printed_refl [simp]: "printed s s"
  by (auto simp: printed_def intro!: exI [of _ "[]"])

lemma printed_trans [trans]: "printed s t \<Longrightarrow> printed t u \<Longrightarrow> printed s u"
  by (auto simp: printed_def)

lemma printed_consputc [simp]: "printed s (consputc c s)"
  by (auto simp: printed_def consputc_def uartputc_sync_def)

lemma printed_putbuf [simp]: "printed s (putbuf bs s)"
proof (induction bs arbitrary: s)
  case (Cons b bs)
  have "printed s (consputc (uint b) s)" by simp
  also have "printed \<dots> (putbuf bs (consputc (uint b) s))" by (rule Cons.IH)
  finally show ?case by (simp add: putbuf_def)
qed (simp add: putbuf_def)

lemma printed_printptr_loop [simp]: "printed s (printptr_loop i x s)"
  by (induction i arbitrary: x s) (auto intro: printed_trans [OF printed_consputc])

lemma printed_printptr [simp]: "printed s (printptr x s)"
  unfolding printptr_def
  by (rule printed_trans [OF printed_trans [OF printed_consputc printed_consputc] printed_printptr_loop])

lemma printed_printint: "printint xx base sign s = Ok v t \<Longrightarrow> printed s t"
  by (auto simp: printint_def Let_def split: if_splits)

lemma printed_conv_int: "conv_int k c b g ap s = Ok x t \<Longrightarrow> printed s t"
  by (auto simp: conv_int_def res_iff split: option.splits dest: printed_printint)

lemma printed_conv:
  assumes "printf_conv c0 c1 c2 ap s = Ok x t"
  shows "printed s t"
proof -
  have "printed s (consputc a (consputc b s))" for a b
    by (rule printed_trans [OF printed_consputc printed_consputc])
  then show ?thesis using assms unfolding printf_conv_def
    by (auto split: if_splits option.splits list.splits parg.splits dest: printed_conv_int)
qed

lemma printed_loop: "printf_loop fmt ap s = Ok v t \<Longrightarrow> printed s t"
proof (induction fmt ap s rule: printf_loop.induct)
  case (1 fmt ap s)
  show ?case
  proof (cases fmt)
    case Nil then show ?thesis using 1 by (simp add: printf_loop.simps)
  next
    case c: (Cons cx r)
    show ?thesis
    proof (cases "cx = CHR ''%''")
      case False
      then have "printed (consputc (of_char cx) s) t"
        using 1 c by (simp add: printf_loop.simps [of "cx # r"])
      then show ?thesis by (rule printed_trans [OF printed_consputc])
    next
      case True
      show ?thesis
      proof (cases r)
        case Nil then show ?thesis using 1 c True by (simp add: printf_loop.simps [of "[CHR ''%'']"])
      next
        case r: (Cons c0 r')
        from 1(3) [unfolded printf_loop.simps [of fmt]] obtain x u where
          "printf_conv c0 (if r' = [] then nul else hd r') (if tl r' = [] then nul else hd (tl r')) ap s = Ok x u"
          "printf_loop (drop (fst x) r') (snd x) u = Ok v t"
          using c True r by (auto simp: res_iff Let_def)
        then show ?thesis using 1(2) [OF c _ r refl refl] True by (meson printed_conv printed_trans)
      qed
    qed
  qed
qed

lemma printed_printf:
  assumes "printf fmt ap s = Ok v t"
  shows "printed s t"
proof -
  obtain u w where h: "L_pr \<notin> set (held s)" and u: "printf_loop fmt ap (s\<lparr>held := L_pr # held s\<rparr>) = Ok w u"
    and t: "release L_pr u = Ok () t"
    using assms by (auto simp: printf_def kbind_Ok_iff acquire_def split: if_splits)
  obtain bs where "u = s\<lparr>held := L_pr # held s, uart_out := uart_out s @ bs\<rparr>"
    using printed_loop [OF u] by (auto simp: printed_def)
  then have "t = s\<lparr>uart_out := uart_out s @ bs\<rparr>" using t by (simp add: release_def)
  then show ?thesis by (auto simp: printed_def)
qed

subsection \<open>Calls that cannot fail\<close>

lemma conv_int_ok:
  "base = 10 \<or> base = 16 \<Longrightarrow> sign \<longrightarrow> base = 10 \<Longrightarrow> \<not> (sign \<and> c x = 0x8000000000000000) \<Longrightarrow>
   \<exists>bs. conv_int k c base sign (Aint x # ap) s = Ok (k, ap) (s\<lparr>uart_out := uart_out s @ bs\<rparr>)"
  using printint_out [of base sign "c x" s] by (auto simp: conv_int_def va_int_def)

lemma int_arg_not_min: "scast (w :: u32) \<noteq> (0x8000000000000000 :: u64)"
proof
  assume a: "scast w = (0x8000000000000000 :: u64)"
  have "sint (scast w :: u64) = sint w" by (simp add: sint_up_scast is_up)
  then show False using a sint_greater_eq [of w] by simp
qed

text \<open>
  The arguments a format needs: \<open>args_ok\<close> follows the format like \<open>printf_loop\<close> and checks that every
  conversion finds an argument of its kind, and a long conversion none that could be the smallest
  number. Then \<open>printf\<close> returns.
\<close>

definition conv_len :: "char \<Rightarrow> char \<Rightarrow> char \<Rightarrow> nat" where
  "conv_len c0 c1 c2 =
     (if c0 \<noteq> CHR ''l'' then 0 else if c1 \<in> {CHR ''d'', CHR ''u'', CHR ''x''} then 1
      else if c1 = CHR ''l'' \<and> c2 \<in> {CHR ''d'', CHR ''u'', CHR ''x''} then 2 else 0)"

definition conv_args :: "char \<Rightarrow> char \<Rightarrow> char \<Rightarrow> parg list \<Rightarrow> parg list option" where
  "conv_args c0 c1 c2 ap =
     (if c0 \<in> {CHR ''d'', CHR ''u'', CHR ''x'', CHR ''p'', CHR ''c''} \<or> 0 < conv_len c0 c1 c2 then
        (case ap of Aint x # r \<Rightarrow> if 0 < conv_len c0 c1 c2 \<and> x = 0x8000000000000000 then None else Some r | _ \<Rightarrow> None)
      else if c0 = CHR ''s'' then (case ap of Astr x # r \<Rightarrow> Some r | _ \<Rightarrow> None)
      else Some ap)"

lemma printf_conv_ok:
  assumes "conv_args c0 c1 c2 ap = Some r"
  shows "\<exists>t. printf_conv c0 c1 c2 ap s = Ok (conv_len c0 c1 c2, r) t"
proof -
  have ci: "\<exists>t. conv_int k c base sign (Aint x # r) s = Ok (k, r) t"
    if "base = 10 \<or> base = 16" "sign \<longrightarrow> base = 10" "\<not> (sign \<and> c x = 0x8000000000000000)" for k c base sign x
    using conv_int_ok [OF that(1,2), of c x] that(3) by blast
  note defs = printf_conv_def conv_args_def conv_len_def va_int_def
  consider (i) "c0 \<in> {CHR ''d'', CHR ''u'', CHR ''x'', CHR ''p'', CHR ''c''}" | (s) "c0 = CHR ''s''"
    | (l) "c0 = CHR ''l''" | (other) "c0 \<notin> {CHR ''d'', CHR ''u'', CHR ''x'', CHR ''p'', CHR ''c'', CHR ''s'', CHR ''l''}"
    by blast
  then show ?thesis
  proof cases
    case i
    then obtain x where "ap = Aint x # r"
      using assms by (auto simp: conv_args_def split: list.splits parg.splits if_splits)
    then show ?thesis using i by (elim insertE emptyE) (simp_all add: defs ci int_arg_not_min)
  next
    case s
    then obtain x where "ap = Astr x # r"
      using assms by (auto simp: conv_args_def conv_len_def split: list.splits parg.splits)
    then show ?thesis using s by (cases x) (simp_all add: defs)
  next
    case l
    show ?thesis
    proof (cases "0 < conv_len c0 c1 c2")
      case True
      then obtain x where x: "ap = Aint x # r" "x \<noteq> 0x8000000000000000"
        using assms by (auto simp: conv_args_def split: list.splits parg.splits if_splits)
      have "c1 \<in> {CHR ''d'', CHR ''u'', CHR ''x''} \<or> c1 = CHR ''l'' \<and> c2 \<in> {CHR ''d'', CHR ''u'', CHR ''x''}"
        using True unfolding conv_len_def by (simp only: split: if_splits) blast+
      then show ?thesis using l x by (elim disjE conjE insertE emptyE) (simp_all add: defs ci)
    next
      case False
      then have "c1 \<notin> {CHR ''d'', CHR ''u'', CHR ''x''}" "\<not> (c1 = CHR ''l'' \<and> c2 \<in> {CHR ''d'', CHR ''u'', CHR ''x''})"
        using l by (simp_all add: conv_len_def split: if_splits)
      then show ?thesis using l assms False
        by (cases "c1 = CHR ''l''") (simp_all add: printf_conv_def conv_args_def conv_len_def)
    qed
  next
    case other
    then show ?thesis using assms by (simp add: printf_conv_def conv_args_def conv_len_def)
  qed
qed

function args_ok :: "string \<Rightarrow> parg list \<Rightarrow> bool" where
  "args_ok fmt ap =
     (case fmt of
        [] \<Rightarrow> True
      | cx # r \<Rightarrow>
          if cx \<noteq> CHR ''%'' then args_ok r ap
          else
            (case r of
               [] \<Rightarrow> True
             | c0 # r' \<Rightarrow>
                 let c1 = (if r' = [] then nul else hd r');
                     c2 = (if tl r' = [] then nul else hd (tl r')) in
                 (case conv_args c0 c1 c2 ap of
                    None \<Rightarrow> False
                  | Some ap' \<Rightarrow> args_ok (drop (conv_len c0 c1 c2) r') ap')))"
  by pat_completeness auto
termination
  by (relation "measure (\<lambda>(fmt, ap). length fmt)") auto

declare args_ok.simps [simp del]

lemma printf_loop_ok: "args_ok fmt ap \<Longrightarrow> \<exists>t. printf_loop fmt ap s = Ok () t"
proof (induction fmt ap arbitrary: s rule: args_ok.induct)
  case (1 fmt ap)
  show ?case
  proof (cases fmt)
    case Nil then show ?thesis by (simp add: printf_loop.simps)
  next
    case c: (Cons cx r)
    show ?thesis
    proof (cases "cx = CHR ''%'' \<and> r \<noteq> []")
      case False
      then show ?thesis
        using 1(1) [OF c] 1(3) c
        by (auto simp: printf_loop.simps [of "cx # r"] args_ok.simps [of "cx # r"])
    next
      case True
      then obtain c0 r' where r: "r = c0 # r'" by (cases r) auto
      define c1 c2 where cs: "c1 = (if r' = [] then nul else hd r')" "c2 = (if tl r' = [] then nul else hd (tl r'))"
      obtain ap' where ap: "conv_args c0 c1 c2 ap = Some ap'" "args_ok (drop (conv_len c0 c1 c2) r') ap'"
        using 1(3) True c r by (auto simp: args_ok.simps [of "CHR ''%'' # c0 # r'"] cs Let_def split: option.splits)
      obtain u where u: "printf_conv c0 c1 c2 ap s = Ok (conv_len c0 c1 c2, ap') u"
        using printf_conv_ok [OF ap(1)] by blast
      obtain t where "printf_loop (drop (conv_len c0 c1 c2) r') ap' u = Ok () t"
        using 1(2) [OF c _ r cs ap] True by blast
      then show ?thesis
        using u True c r by (auto simp: printf_loop.simps [of "CHR ''%'' # c0 # r'"] cs [symmetric] Let_def)
    qed
  qed
qed

lemma printf_ok:
  assumes "args_ok fmt ap" and "L_pr \<notin> set (held s)"
  shows "\<exists>t. printf fmt ap s = Ok 0 t \<and> printed s t"
proof -
  obtain u where u: "printf_loop fmt ap (s\<lparr>held := L_pr # held s\<rparr>) = Ok () u" using printf_loop_ok [OF assms(1)] by blast
  then have "held u = L_pr # held s" using printed_loop by (fastforce simp: printed_def)
  then have "printf fmt ap s = Ok 0 (u\<lparr>held := held s\<rparr>)"
    using u assms(2) by (simp add: printf_def acquire_def release_def)
  then show ?thesis using printed_printf by blast
qed

end
