(* ===== verification/Log.thy ===== *)
theory Log
  imports Bio Bytes Printf
begin

text \<open>
  The write-ahead log (\<open>kernel/log.c\<close>). A transaction collects the numbers of the blocks it has
  changed in the in-memory header and pins their buffers; \<open>commit\<close> copies them to the log area,
  writes the header, installs them and clears the header. The definitions follow the code one
  function each. The main lemmas describe the sequence of disk writes of \<open>commit\<close> and of recovery,
  from which follows that a crash between any two of them is repaired to the state before or
  after the transaction.
\<close>

subsection \<open>State\<close>

record logheader =
  lh_n :: int
  lh_block :: "nat \<Rightarrow> u32"

record logstate =
  lg_start :: u32
  lg_outstanding :: int
  lg_committing :: bool
  lg_dev :: u32
  lg_lh :: logheader

record klog = kbio +
  lg :: logstate

definition upd_lg :: "(logstate \<Rightarrow> logstate) \<Rightarrow> 'a klog_scheme \<Rightarrow> 'a klog_scheme" where
  "upd_lg f s = s\<lparr>lg := f (lg s)\<rparr>"

definition upd_lh :: "(logheader \<Rightarrow> logheader) \<Rightarrow> 'a klog_scheme \<Rightarrow> 'a klog_scheme" where
  "upd_lh f s = upd_lg (lg_lh_update f) s"

text \<open>\<open>log.lh.n\<close> and the block number \<open>log.start+tail+1\<close>.\<close>

abbreviation lgn :: "'a klog_scheme \<Rightarrow> int" where "lgn s \<equiv> lh_n (lg_lh (lg s))"

abbreviation lblock :: "'a klog_scheme \<Rightarrow> nat \<Rightarrow> u32" where "lblock s i \<equiv> lh_block (lg_lh (lg s)) i"

definition log_data :: "u32 \<Rightarrow> nat \<Rightarrow> u32" where
  "log_data start tail = start + of_nat tail + 1"

subsection \<open>Operations\<close>

text \<open>
  Copying committed blocks to their home location. The bound of the loop does not change in it,
  so the loop runs over the list of the tails.
\<close>

definition install_block :: "bool \<Rightarrow> nat \<Rightarrow> 'a klog_scheme \<Rightarrow> ('a klog_scheme, unit) res" where
  "install_block recovering tail s =
     kbind (bread (lg_dev (lg s)) (log_data (lg_start (lg s)) tail) s) (\<lambda>lbuf s.
     kbind (bread (lg_dev (lg s)) (lblock s tail) s) (\<lambda>dbuf s.
     let s = upd_buf dbuf (b_data_update (\<lambda>_. b_data (bufs s lbuf))) s in
     kbind (bwrite dbuf s) (\<lambda>_ s.
     kbind (if \<not> recovering then bunpin dbuf s else Ok () s) (\<lambda>_ s.
     kbind (brelse lbuf s) (\<lambda>_ s. brelse dbuf s)))))"

definition recovery_message :: "bool \<Rightarrow> nat \<Rightarrow> 'a klog_scheme \<Rightarrow> ('a klog_scheme, int) res" where
  "recovery_message recovering tail s =
     (if recovering
      then printf (''recovering tail %d dst %d'' @ [CHR 0x0A]) [Aint (of_nat tail), Aint (scast (lblock s tail))] s
      else Ok 0 s)"

primrec install_trans_loop :: "bool \<Rightarrow> nat list \<Rightarrow> 'a klog_scheme \<Rightarrow> ('a klog_scheme, unit) res" where
  "install_trans_loop recovering [] s = Ok () s"
| "install_trans_loop recovering (tail # tails) s =
     (if LOGBLOCKS \<le> tail then UB
      else
        kbind (recovery_message recovering tail s) (\<lambda>_ s.
        kbind (install_block recovering tail s) (\<lambda>_ s.
        install_trans_loop recovering tails s)))"

definition install_trans :: "bool \<Rightarrow> 'a klog_scheme \<Rightarrow> ('a klog_scheme, unit) res" where
  "install_trans recovering s = install_trans_loop recovering [0..<nat (lgn s)] s"

text \<open>
  The header block: \<open>n\<close> at offset 0 and \<open>block[i]\<close> at offset \<open>4 + 4 * i\<close>. An index past the arrays
  is undefined behaviour.
\<close>

primrec read_head_loop :: "block \<Rightarrow> nat list \<Rightarrow> 'a klog_scheme \<Rightarrow> ('a klog_scheme, unit) res" where
  "read_head_loop d [] s = Ok () s"
| "read_head_loop d (i # is) s =
     (if LOGBLOCKS \<le> i then UB
      else read_head_loop d is (upd_lh (\<lambda>h. h\<lparr>lh_block := (lh_block h)(i := get32 d (4 + 4 * i))\<rparr>) s))"

definition read_head :: "'a klog_scheme \<Rightarrow> ('a klog_scheme, unit) res" where
  "read_head s =
     kbind (bread (lg_dev (lg s)) (lg_start (lg s)) s) (\<lambda>buf s.
     let lh = b_data (bufs s buf);
         s = upd_lh (lh_n_update (\<lambda>_. sint (get32 lh 0))) s in
     kbind (read_head_loop lh [0..<nat (lgn s)] s) (\<lambda>_ s. brelse buf s))"

primrec write_head_loop :: "(nat \<Rightarrow> u32) \<Rightarrow> nat list \<Rightarrow> block \<Rightarrow> block" where
  "write_head_loop bl [] d = d"
| "write_head_loop bl (i # is) d = write_head_loop bl is (put32 d (4 + 4 * i) (bl i))"

definition write_head :: "'a klog_scheme \<Rightarrow> ('a klog_scheme, unit) res" where
  "write_head s =
     kbind (bread (lg_dev (lg s)) (lg_start (lg s)) s) (\<lambda>buf s.
     if int LOGBLOCKS < lgn s then UB else
     let s = upd_buf buf (b_data_update (\<lambda>d.
               write_head_loop (lh_block (lg_lh (lg s))) [0..<nat (lgn s)] (put32 d 0 (word_of_int (lgn s))))) s in
     kbind (bwrite buf s) (\<lambda>_ s. brelse buf s))"

definition recover_from_log :: "'a klog_scheme \<Rightarrow> ('a klog_scheme, unit) res" where
  "recover_from_log s =
     kbind (read_head s) (\<lambda>_ s.
     kbind (install_trans True s) (\<lambda>_ s.
     let s = upd_lh (lh_n_update (\<lambda>_. 0)) s in
     write_head s))"

text \<open>\<open>initlog\<close>; the size check is a constant, \<open>4 + 4 * LOGBLOCKS < BSIZE\<close>.\<close>

definition initlog :: "u32 \<Rightarrow> u32 \<Rightarrow> 'a klog_scheme \<Rightarrow> ('a klog_scheme, unit) res" where
  "initlog dev logstart s =
     (if 4 + 4 * LOGBLOCKS \<ge> BSIZE then Panic ''initlog: too big logheader''
      else recover_from_log (upd_lg (\<lambda>l. l\<lparr>lg_start := logstart, lg_dev := dev\<rparr>) s))"

text \<open>A thread that finds the log committing or short of space sleeps, and runs the loop again when woken.\<close>

definition begin_op :: "'a klog_scheme \<Rightarrow> ('a klog_scheme, unit) res" where
  "begin_op s =
     kbind (acquire L_log s) (\<lambda>_ s.
     if lg_committing (lg s) then sleep Ch_log L_log s
     else if lgn s + (lg_outstanding (lg s) + 1) * int MAXOPBLOCKS > int LOGBLOCKS then sleep Ch_log L_log s
     else release L_log (upd_lg (\<lambda>l. l\<lparr>lg_outstanding := lg_outstanding l + 1\<rparr>) s))"

primrec write_log_loop :: "nat list \<Rightarrow> 'a klog_scheme \<Rightarrow> ('a klog_scheme, unit) res" where
  "write_log_loop [] s = Ok () s"
| "write_log_loop (tail # tails) s =
     (if LOGBLOCKS \<le> tail then UB else
      kbind (bread (lg_dev (lg s)) (log_data (lg_start (lg s)) tail) s) (\<lambda>to s.
      kbind (bread (lg_dev (lg s)) (lblock s tail) s) (\<lambda>from s.
      let s = upd_buf to (b_data_update (\<lambda>_. b_data (bufs s from))) s in
      kbind (bwrite to s) (\<lambda>_ s.
      kbind (brelse from s) (\<lambda>_ s.
      kbind (brelse to s) (\<lambda>_ s. write_log_loop tails s))))))"

definition write_log :: "'a klog_scheme \<Rightarrow> ('a klog_scheme, unit) res" where
  "write_log s = write_log_loop [0..<nat (lgn s)] s"

definition commit :: "'a klog_scheme \<Rightarrow> ('a klog_scheme, unit) res" where
  "commit s =
     (if lgn s > 0 then
        kbind (write_log s) (\<lambda>_ s.
        kbind (write_head s) (\<lambda>_ s.
        kbind (install_trans False s) (\<lambda>_ s.
        let s = upd_lh (lh_n_update (\<lambda>_. 0)) s in
        write_head s)))
      else Ok () s)"

definition end_op :: "'a klog_scheme \<Rightarrow> ('a klog_scheme, unit) res" where
  "end_op s =
     kbind (acquire L_log s) (\<lambda>_ s.
     let s = upd_lg (\<lambda>l. l\<lparr>lg_outstanding := lg_outstanding l - 1\<rparr>) s in
     if lg_committing (lg s) then Panic ''log.committing''
     else if lg_outstanding (lg s) = 0 then
       let s = upd_lg (lg_committing_update (\<lambda>_. True)) s in
       kbind (release L_log s) (\<lambda>_ s.
       kbind (commit s) (\<lambda>_ s.
       kbind (acquire L_log s) (\<lambda>_ s.
       let s = upd_lg (lg_committing_update (\<lambda>_. False)) s in
       kbind (wakeup Ch_log s) (\<lambda>_ s. release L_log s))))
     else kbind (wakeup Ch_log s) (\<lambda>_ s. release L_log s))"

text \<open>The scan of \<open>log_write\<close>: the first index that holds the block, or \<open>log.lh.n\<close>.\<close>

primrec log_write_scan :: "(nat \<Rightarrow> u32) \<Rightarrow> u32 \<Rightarrow> nat list \<Rightarrow> nat \<Rightarrow> nat" where
  "log_write_scan bl blockno [] n = n"
| "log_write_scan bl blockno (i # is) n = (if bl i = blockno then i else log_write_scan bl blockno is n)"

definition log_write :: "nat \<Rightarrow> 'a klog_scheme \<Rightarrow> ('a klog_scheme, unit) res" where
  "log_write b s =
     kbind (acquire L_log s) (\<lambda>_ s.
     if lgn s \<ge> int LOGBLOCKS then Panic ''too big a transaction''
     else if lg_outstanding (lg s) < 1 then Panic ''log_write outside of trans''
     else
       let blockno = b_blockno (bufs s b);
           i = log_write_scan (lh_block (lg_lh (lg s))) blockno [0..<nat (lgn s)] (nat (lgn s));
           s = upd_lh (\<lambda>h. h\<lparr>lh_block := (lh_block h)(i := blockno)\<rparr>) s in
       kbind (if int i = lgn s
              then kbind (bpin b s) (\<lambda>_ s. Ok () (upd_lh (\<lambda>h. h\<lparr>lh_n := lh_n h + 1\<rparr>) s))
              else Ok () s) (\<lambda>_ s.
       release L_log s))"

subsection \<open>Sequences of disk writes\<close>

definition apply_writes :: "(u32 \<times> block) list \<Rightarrow> (u32 \<Rightarrow> block) \<Rightarrow> u32 \<Rightarrow> block" where
  "apply_writes ws D = fold (\<lambda>(n, d) D. D(n := d)) ws D"

lemma apply_writes_simps [simp]:
  "apply_writes [] D = D" "apply_writes ((n, d) # ws) D = apply_writes ws (D(n := d))"
  "apply_writes (ws @ ws') D = apply_writes ws' (apply_writes ws D)"
  by (simp_all add: apply_writes_def)

lemma apply_writes_other: "m \<notin> fst ` set ws \<Longrightarrow> apply_writes ws D m = D m"
  by (induction ws arbitrary: D) auto

lemma apply_writes_distinct:
  assumes "distinct (map fst ws)" and "(m, d) \<in> set ws"
  shows "apply_writes ws D m = d"
  using assms
proof (induction ws arbitrary: D)
  case (Cons w ws)
  obtain n e where w: "w = (n, e)" by fastforce
  show ?case
  proof (cases "(m, d) \<in> set ws")
    case True
    then show ?thesis using Cons w by simp
  next
    case False
    then have "m = n" "d = e" using Cons.prems(2) w by auto
    then show ?thesis using Cons.prems(1) w by (simp add: apply_writes_other)
  qed
qed simp

lemma bframe_lg:
  assumes "bframe s t"
  shows "lg t = lg s" and "klog.more t = klog.more s"
  using assms by (cases s; cases t; simp add: bframe_def)+

text \<open>
  A quiet cache: no buffer is locked. \<open>wrote ws s t\<close>: from \<open>s\<close> to \<open>t\<close> the block writes \<open>ws\<close> reached
  both the cache and the disk, and nothing else changed but reference counts.
\<close>

definition quiet :: "'a kbio_scheme \<Rightarrow> bool" where
  "quiet s \<longleftrightarrow> bcache_inv s \<and> ready s \<and> lockedby s = (\<lambda>_. None)"

definition wrote :: "(u32 \<times> block) list \<Rightarrow> 'a kbio_scheme \<Rightarrow> 'a kbio_scheme \<Rightarrow> bool" where
  "wrote ws s t \<longleftrightarrow> quiet t \<and> bframe s t \<and> blk t = apply_writes ws (blk s) \<and>
     disk t = apply_writes ws (disk s) \<and> dhist t = dhist s @ ws"

lemma wrote_Nil: "quiet s \<Longrightarrow> wrote [] s s"
  by (simp add: wrote_def)

lemma wrote_trans: "wrote ws s t \<Longrightarrow> wrote ws' t u \<Longrightarrow> wrote (ws @ ws') s u"
  unfolding wrote_def by (auto intro: bframe_trans)

lemma wrote_lg: "wrote ws s t \<Longrightarrow> lg t = lg s"
  by (simp add: wrote_def bframe_lg)

lemma write_log_step:
  assumes q: "quiet s" and dev: "lg_dev (lg s) = ROOTDEV" and i: "i < LOGBLOCKS"
    and a: "a = log_data (lg_start (lg s)) i" and m: "m = lblock s i" and am: "a \<noteq> m"
    and ra: "refs s a = 0" and rm: "0 < refs s m" "refs s m < 1000" and free: "card (used_blocks s) < NBUF"
  obtains t where "write_log_loop [i] s = Ok () t" and "wrote [(a, blk s m)] s t" and "refs t = refs s"
proof -
  have s: "bcache_inv s" "ready s" "lockedby s = (\<lambda>_. None)" using q by (simp_all add: quiet_def)
  have c1: "can_bread s a" using s ra free by (simp add: can_bread_def)
  obtain b1 s1 where 1: "bread ROOTDEV a s = Ok b1 s1" "has_buf s1 a b1"
    "bupd s s1 (blk s) ((refs s)(a := refs s a + 1)) ((lockedby s)(a := Some (mypid s))) (disk s) (dhist s)"
    using bread_ok [OF s(1,2) c1] .
  note u1 = bupdD [OF 1(3)]
  have c2: "can_bread s1 m" using u1 s am rm by (simp add: can_bread_def)
  obtain b2 s2 where 2: "bread ROOTDEV m s1 = Ok b2 s2" "has_buf s2 m b2"
    "bupd s1 s2 (blk s1) ((refs s1)(m := refs s1 m + 1)) ((lockedby s1)(m := Some (mypid s1))) (disk s1) (dhist s1)"
    using bread_ok [OF u1(1) _ c2] u1(8) s(2) by blast
  note u2 = bupdD [OF 2(3)]
  have h2: "has_buf s2 a b1" using bupd_has_buf [OF 2(3) 1(2)] am u1 by simp
  define s3 where "s3 = upd_buf b1 (b_data_update (\<lambda>_. b_data (bufs s2 b2))) s2"
  have 3: "bupd s2 s3 ((blk s2)(a := b_data (bufs s2 b2))) (refs s2) (lockedby s2) (disk s2) (dhist s2)"
    using set_data_ok [OF u2(1) h2, of "\<lambda>_. b_data (bufs s2 b2)"] unfolding s3_def .
  note u3 = bupdD [OF 3]
  have h3: "has_buf s3 a b1" "has_buf s3 m b2"
    using bupd_has_buf [OF 3 h2] bupd_has_buf [OF 3 2(2)] u1 u2 am by simp_all
  have d: "b_data (bufs s2 b2) = blk s m" using has_bufD(4) [OF 2(2)] u2(3) u1(3) by simp
  obtain s4 where 4: "bwrite b1 s3 = Ok () s4"
    "bupd s3 s4 (blk s3) (refs s3) (lockedby s3) ((disk s3)(a := blk s3 a)) (dhist s3 @ [(a, blk s3 a)])"
    using bwrite_ok [OF u3(1) _ h3(1)] u3(8) u2(8) u1(8) s(2) by blast
  note u4 = bupdD [OF 4(2)]
  have h4: "has_buf s4 a b1" "has_buf s4 m b2"
    using bupd_has_buf [OF 4(2) h3(1)] bupd_has_buf [OF 4(2) h3(2)] u1 u2 u3 am by simp_all
  obtain s5 where 5: "brelse b2 s4 = Ok () s5"
    "bupd s4 s5 (blk s4) ((refs s4)(m := refs s4 m - 1)) ((lockedby s4)(m := None)) (disk s4) (dhist s4)"
    using brelse_ok [OF u4(1) _ h4(2)] u4 u3 u2 u1 s rm am by auto
  note u5 = bupdD [OF 5(2)]
  have h5: "has_buf s5 a b1" using bupd_has_buf [OF 5(2) h4(1)] u1 u2 u3 u4 am by simp
  obtain s6 where 6: "brelse b1 s5 = Ok () s6"
    "bupd s5 s6 (blk s5) ((refs s5)(a := refs s5 a - 1)) ((lockedby s5)(a := None)) (disk s5) (dhist s5)"
    using brelse_ok [OF u5(1) _ h5] u5 u4 u3 u2 u1 s by auto
  note u6 = bupdD [OF 6(2)]
  have fr: "bframe s s6" using u1(2) u2(2) u3(2) u4(2) u5(2) u6(2) by (meson bframe_trans)
  have lgs: "lg s1 = lg s" "lg s2 = lg s" using bframe_lg(1) [OF u1(2)] bframe_lg(1) [OF u2(2)] by simp_all
  have run: "write_log_loop [i] s = Ok () s6"
    using i 1(1) 2(1) 4(1) [unfolded s3_def] 5(1) 6(1) dev lgs by (simp add: a m Let_def)
  have C: "blk s6 = (blk s)(a := blk s m)" by (simp only: u6(3) u5(3) u4(3) u3(3) u2(3) u1(3) d)
  have "lockedby s6 = (\<lambda>_. None)"
    unfolding u6(5) u5(5) u4(5) u3(5) u2(5) u1(5) s(3) by (auto simp: fun_eq_iff)
  moreover have "blk s3 a = blk s m" by (simp add: u3(3) d)
  ultimately have w: "wrote [(a, blk s m)] s s6"
    unfolding wrote_def quiet_def using u6 u5 u4 u3 u2 u1 s C fr by simp
  have "refs s6 = refs s" using u6 u5 u4 u3 u2 u1 ra am by (auto simp: fun_eq_iff)
  then show ?thesis using that run w by blast
qed

lemma blk_unreferenced:
  assumes "bcache_inv s" and "refs s n = 0"
  shows "blk s n = disk s n"
proof (cases "bslot s n")
  case (Some b)
  then have "b_refcnt (bufs s b) = 0" using assms(2) by (simp add: cache_refs_def unat_eq_0)
  then show ?thesis using assms(1) Some slot_of_SomeD [OF Some] by (auto simp: cache_blk_def cache_inv_def)
qed (simp add: cache_blk_def)

lemma install_block_ok:
  assumes q: "quiet s" and dev: "lg_dev (lg s) = ROOTDEV"
    and a: "a = log_data (lg_start (lg s)) i" and m: "m = lblock s i" and am: "a \<noteq> m"
    and ra: "refs s a = 0" and rm: "refs s m = (if recovering then 0 else 1)"
    and free: "card (used_blocks s) < (if recovering then 29 else 30)"
  obtains t where "install_block recovering i s = Ok () t" and "wrote [(m, blk s a)] s t"
    and "refs t = (refs s)(m := 0)"
proof -
  have s: "bcache_inv s" "ready s" "lockedby s = (\<lambda>_. None)" using q by (simp_all add: quiet_def)
  have c1: "can_bread s a" using s ra free by (simp add: can_bread_def split: if_splits)
  obtain b1 s1 where 1: "bread ROOTDEV a s = Ok b1 s1" "has_buf s1 a b1"
    "bupd s s1 (blk s) ((refs s)(a := refs s a + 1)) ((lockedby s)(a := Some (mypid s))) (disk s) (dhist s)"
    using bread_ok [OF s(1,2) c1] .
  note u1 = bupdD [OF 1(3)]
  have "used_blocks s1 = insert a (used_blocks s)" by (auto simp: used_blocks_def u1(4))
  then have "card (used_blocks s1) \<le> card (used_blocks s) + 1"
    using finite_used_blocks [OF s(1)] by (simp add: card_insert_if)
  then have c2: "can_bread s1 m" using u1 s am rm free by (simp add: can_bread_def split: if_splits)
  obtain b2 s2 where 2: "bread ROOTDEV m s1 = Ok b2 s2" "has_buf s2 m b2"
    "bupd s1 s2 (blk s1) ((refs s1)(m := refs s1 m + 1)) ((lockedby s1)(m := Some (mypid s1))) (disk s1) (dhist s1)"
    using bread_ok [OF u1(1) _ c2] u1(8) s(2) by blast
  note u2 = bupdD [OF 2(3)]
  have h2: "has_buf s2 a b1" using bupd_has_buf [OF 2(3) 1(2)] am u1 by simp
  define s3 where "s3 = upd_buf b2 (b_data_update (\<lambda>_. b_data (bufs s2 b1))) s2"
  have 3: "bupd s2 s3 ((blk s2)(m := b_data (bufs s2 b1))) (refs s2) (lockedby s2) (disk s2) (dhist s2)"
    using set_data_ok [OF u2(1) 2(2), of "\<lambda>_. b_data (bufs s2 b1)"] unfolding s3_def .
  note u3 = bupdD [OF 3]
  have h3: "has_buf s3 a b1" "has_buf s3 m b2"
    using bupd_has_buf [OF 3 h2] bupd_has_buf [OF 3 2(2)] u1 u2 am by simp_all
  have d: "b_data (bufs s2 b1) = blk s a" using has_bufD(4) [OF h2] u2(3) u1(3) by simp
  obtain s4 where 4: "bwrite b2 s3 = Ok () s4"
    "bupd s3 s4 (blk s3) (refs s3) (lockedby s3) ((disk s3)(m := blk s3 m)) (dhist s3 @ [(m, blk s3 m)])"
    using bwrite_ok [OF u3(1) _ h3(2)] u3(8) u2(8) u1(8) s(2) by blast
  note u4 = bupdD [OF 4(2)]
  have h4: "has_buf s4 a b1" "has_buf s4 m b2"
    using bupd_has_buf [OF 4(2) h3(1)] bupd_has_buf [OF 4(2) h3(2)] u1 u2 u3 am by simp_all
  obtain s5 where 5: "(if \<not> recovering then bunpin b2 s4 else Ok () s4) = Ok () s5"
    "bupd s4 s5 (blk s4) ((refs s4)(m := 1)) (lockedby s4) (disk s4) (dhist s4)"
  proof (cases recovering)
    case True
    have "(refs s4)(m := 1) = refs s4" using u4 u3 u2 u1 rm True am by (simp add: fun_eq_iff)
    then have "bupd s4 s4 (blk s4) ((refs s4)(m := 1)) (lockedby s4) (disk s4) (dhist s4)"
      using u4(1) by (simp add: bupd_def)
    then show ?thesis using that True by simp
  next
    case False
    have r4: "refs s4 m = 2" using u4 u3 u2 u1 rm False am by simp
    then show ?thesis
      using bunpin_ok [OF u4(1) _ has_bufD(1) [OF h4(2)]] u4(8) u3(8) u2(8) u1(8) s(2) that False by auto
  qed
  note u5 = bupdD [OF 5(2)]
  have h5: "has_buf s5 a b1" "has_buf s5 m b2"
    using bupd_has_buf [OF 5(2) h4(1)] bupd_has_buf [OF 5(2) h4(2)] u1 u2 u3 u4 am by simp_all
  have C5: "blk s5 = (blk s)(m := blk s a)" by (simp only: u5(3) u4(3) u3(3) u2(3) u1(3) d)
  have C3: "blk s3 m = blk s a" by (simp add: u3(3) d)
  have cl: "blk s5 a = disk s5 a"
    using C5 blk_unreferenced [OF s(1) ra] am by (simp add: u5(6) u4(6) u3(6) u2(6) u1(6))
  obtain s6 where 6: "brelse b1 s5 = Ok () s6"
    "bupd s5 s6 (blk s5) ((refs s5)(a := refs s5 a - 1)) ((lockedby s5)(a := None)) (disk s5) (dhist s5)"
    using brelse_ok [OF u5(1) _ h5(1)] u5(8) u4(8) u3(8) u2(8) u1(8) s(2) cl by blast
  note u6 = bupdD [OF 6(2)]
  have h6: "has_buf s6 m b2" using bupd_has_buf [OF 6(2) h5(2)] u1 u2 u3 u4 u5 am by simp
  have cl6: "blk s6 m = disk s6 m" using u6(3) C5 C3 by (simp add: u6(6) u5(6) u4(6))
  obtain s7 where 7: "brelse b2 s6 = Ok () s7"
    "bupd s6 s7 (blk s6) ((refs s6)(m := refs s6 m - 1)) ((lockedby s6)(m := None)) (disk s6) (dhist s6)"
    using brelse_ok [OF u6(1) _ h6] u6(8) u5(8) u4(8) u3(8) u2(8) u1(8) s(2) cl6 by blast
  note u7 = bupdD [OF 7(2)]
  have fr: "bframe s s7" using u1(2) u2(2) u3(2) u4(2) u5(2) u6(2) u7(2) by (meson bframe_trans)
  have lgs: "lg s1 = lg s" using bframe_lg(1) [OF u1(2)] .
  have run: "install_block recovering i s = Ok () s7"
    using 1(1) 2(1) 4(1) [unfolded s3_def] 5(1) 6(1) 7(1) dev lgs by (simp add: a m Let_def install_block_def)
  have C: "blk s7 = (blk s)(m := blk s a)" using u7(3) u6(3) C5 by simp
  have "lockedby s7 = (\<lambda>_. None)"
    unfolding u7(5) u6(5) u5(5) u4(5) u3(5) u2(5) u1(5) s(3) by (auto simp: fun_eq_iff)
  then have w: "wrote [(m, blk s a)] s s7"
    unfolding wrote_def quiet_def using u7 u6 u5 u4 u3 u2 u1 s C C3 fr by simp
  have "refs s7 = (refs s)(m := 0)"
    unfolding u7(4) u6(4) u5(4) u4(4) u3(4) u2(4) u1(4) using ra am by (auto simp: fun_eq_iff)
  then show ?thesis using that run w by blast
qed

lemma recovery_message_ok:
  assumes "held s = []"
  obtains t where "recovery_message recovering i s = Ok 0 t" and "printed s t"
proof (cases recovering)
  case True
  let ?f = "''recovering tail %d dst %d'' @ [CHR 0x0A]" and ?a = "[Aint (of_nat i), Aint (scast (lblock s i))]"
  have "args_ok ?f ?a" by (simp add: args_ok.simps conv_args_def conv_len_def)
  then obtain t where "printf ?f ?a s = Ok 0 t" "printed s t" using printf_ok [of ?f ?a s] assms by fastforce
  then show ?thesis using that True by (simp add: recovery_message_def)
qed (simp add: recovery_message_def that)

lemma install_trans_step:
  assumes q: "quiet s" and dev: "lg_dev (lg s) = ROOTDEV" and i: "i < LOGBLOCKS"
    and a: "a = log_data (lg_start (lg s)) i" and m: "m = lblock s i" and am: "a \<noteq> m"
    and ra: "refs s a = 0" and rm: "refs s m = (if recovering then 0 else 1)"
    and free: "card (used_blocks s) < (if recovering then 29 else 30)"
  obtains t where "install_trans_loop recovering [i] s = Ok () t" and "wrote [(m, blk s a)] s t"
    and "refs t = (refs s)(m := 0)"
proof -
  have "held s = []" using q by (simp add: quiet_def ready_def)
  then obtain u where u: "recovery_message recovering i s = Ok 0 u" "printed s u" by (rule recovery_message_ok)
  then obtain bs where ue: "u = s\<lparr>uart_out := bs\<rparr>" by (auto simp: printed_def)
  have fr: "bframe s u" using ue p_state_self by (simp add: bframe_def)
  have same: "lg u = lg s" "bufs u = bufs s" "disk u = disk s" "dhist u = dhist s" by (simp_all add: ue)
  have q': "quiet u" using q by (simp add: ue quiet_def ready_def)
  obtain t where t: "install_block recovering i u = Ok () t" "wrote [(m, blk u a)] u t" "refs t = (refs u)(m := 0)"
    using install_block_ok [OF q', of a i m recovering] dev a m am ra rm free same
    by (auto simp: used_blocks_def)
  have "wrote [(m, blk s a)] s t" using t(2) fr same by (auto simp: wrote_def intro: bframe_trans)
  moreover have "install_trans_loop recovering [i] s = Ok () t" using i u(1) t(1) by simp
  ultimately show ?thesis using that t(3) same by simp
qed

subsection \<open>The log area and the header block\<close>

definition log_area :: "u32 \<Rightarrow> u32 set" where
  "log_area start = insert start (log_data start ` {..<LOGBLOCKS})"

lemma of_nat_u32_eq: "i < 2 ^ 32 \<Longrightarrow> j < 2 ^ 32 \<Longrightarrow> (of_nat i :: u32) = of_nat j \<longleftrightarrow> i = j"
  by (auto simp: word_unat_eq_iff unat_of_nat)

lemma log_data_eq [simp]:
  "i < LOGBLOCKS \<Longrightarrow> j < LOGBLOCKS \<Longrightarrow> log_data start i = log_data start j \<longleftrightarrow> i = j"
  by (simp add: log_data_def of_nat_u32_eq)

lemma log_data_start [simp]: "i < LOGBLOCKS \<Longrightarrow> log_data start i \<noteq> start"
proof
  assume i: "i < LOGBLOCKS" and "log_data start i = start"
  then have "(of_nat (Suc i) :: u32) = of_nat 0" by (simp add: log_data_def add.commute)
  then show False using i by (subst (asm) of_nat_u32_eq) simp_all
qed

lemma log_data_in [simp]: "i < LOGBLOCKS \<Longrightarrow> log_data start i \<in> log_area start"
  by (simp add: log_area_def)

text \<open>What a header block says.\<close>

definition hdr_n :: "block \<Rightarrow> int" where
  "hdr_n d = sint (get32 d 0)"

definition hdr_blocks :: "block \<Rightarrow> u32 list" where
  "hdr_blocks d = map (\<lambda>i. get32 d (4 + 4 * i)) [0..<nat (hdr_n d)]"

definition hdr_write :: "nat \<Rightarrow> (nat \<Rightarrow> u32) \<Rightarrow> block \<Rightarrow> block" where
  "hdr_write n bl d = write_head_loop bl [0..<n] (put32 d 0 (word_of_int (int n)))"

lemma write_head_loop_spec:
  assumes "length d = BSIZE" and "\<forall>i\<in>set is. i < LOGBLOCKS"
  shows "length (write_head_loop bl is d) = BSIZE \<and> get32 (write_head_loop bl is d) 0 = get32 d 0 \<and>
    (\<forall>j<LOGBLOCKS. get32 (write_head_loop bl is d) (4 + 4 * j) = (if j \<in> set is then bl j else get32 d (4 + 4 * j)))"
  using assms
proof (induction "is" arbitrary: d)
  case (Cons i "is")
  let ?d = "put32 d (4 + 4 * i) (bl i)"
  have i: "4 + 4 * i + 4 \<le> length d" using Cons.prems by simp
  have l: "length ?d = BSIZE" using i Cons.prems(1) by simp
  have "get32 ?d (4 + 4 * j) = (if j = i then bl i else get32 d (4 + 4 * j))" for j
  proof (cases "j = i")
    case True
    then show ?thesis using getw_putw_same [OF i, of "bl i"] by simp
  next
    case False
    then have "4 + 4 * j + 4 \<le> 4 + 4 * i \<or> 4 + 4 * i + 4 \<le> 4 + 4 * j" by linarith
    then show ?thesis using False i by (simp only: getw_putw_other if_False)
  qed
  moreover have "get32 ?d 0 = get32 d 0" using i by (intro getw_putw_other) simp_all
  ultimately show ?case using Cons.IH [OF l] Cons.prems(2) by auto
qed simp

lemma hdr_write:
  assumes "length d = BSIZE" and "n \<le> LOGBLOCKS"
  shows "length (hdr_write n bl d) = BSIZE" and "hdr_n (hdr_write n bl d) = int n"
    and "hdr_blocks (hdr_write n bl d) = map bl [0..<n]"
proof -
  let ?d = "put32 d 0 (word_of_int (int n))"
  have l: "length ?d = BSIZE" using assms(1) by simp
  have 0: "get32 ?d 0 = word_of_int (int n)" using assms(1) by (intro getw_putw_same) simp_all
  note w = write_head_loop_spec [OF l, of "[0..<n]" bl]
  have si: "sint (word_of_int (int n) :: u32) = int n"
    using assms(2) by (simp add: signed_of_nat signed_take_bit_int_eq_self)
  show "length (hdr_write n bl d) = BSIZE" using w assms(2) by (simp add: hdr_write_def)
  show n: "hdr_n (hdr_write n bl d) = int n"
    using w assms(2) 0 si by (simp add: hdr_write_def hdr_n_def)
  show "hdr_blocks (hdr_write n bl d) = map bl [0..<n]"
    unfolding hdr_blocks_def n using w assms(2) by (simp add: hdr_write_def)
qed

lemma upd_lh_upd_lh: "upd_lh f (upd_lh g s) = upd_lh (\<lambda>h. f (g h)) s"
  by (simp add: upd_lh_def upd_lg_def comp_def)

lemma read_head_loop_spec:
  assumes "\<forall>i\<in>set is. i < LOGBLOCKS"
  shows "read_head_loop d is s =
    Ok () (upd_lh (\<lambda>h. h\<lparr>lh_block := (\<lambda>i. if i \<in> set is then get32 d (4 + 4 * i) else lh_block h i)\<rparr>) s)"
  using assms
proof (induction "is" arbitrary: s)
  case Nil
  then show ?case by (simp add: upd_lh_def upd_lg_def)
next
  case (Cons i "is")
  let ?f = "\<lambda>h. h\<lparr>lh_block := (lh_block h)(i := get32 d (4 + 4 * i))\<rparr>"
  let ?g = "\<lambda>is h. h\<lparr>lh_block := (\<lambda>i. if i \<in> set is then get32 d (4 + 4 * i) else lh_block h i)\<rparr>"
  have "?g is (?f h) = ?g (i # is) h" for h :: logheader by (cases h) (auto simp: fun_eq_iff)
  then have "upd_lh (?g is) (upd_lh ?f s) = upd_lh (?g (i # is)) s" unfolding upd_lh_upd_lh by presburger
  then show ?case using Cons.IH [of "upd_lh ?f s"] Cons.prems by simp
qed

lemma upd_lg_fields [simp]:
  "lg (upd_lg f s) = f (lg s)" "bufs (upd_lg f s) = bufs s" "disk (upd_lg f s) = disk s" "dhist (upd_lg f s) = dhist s"
  "held (upd_lg f s) = held s" "procs (upd_lg f s) = procs s" "curproc (upd_lg f s) = curproc s"
  "mem (upd_lg f s) = mem s" "freelist (upd_lg f s) = freelist s" "klog.more (upd_lg f s) = klog.more s"
  "ready (upd_lg f s) = ready s" "mypid (upd_lg f s) = mypid s" "has_buf (upd_lg f s) = has_buf s"
  "quiet (upd_lg f s) = quiet s" "used_blocks (upd_lg f s) = used_blocks s"
  by (simp_all add: upd_lg_def ready_def mypid_def has_buf_def fun_eq_iff quiet_def used_blocks_def)

lemma upd_lh_fields [simp]:
  "lg (upd_lh f s) = lg_lh_update f (lg s)" "bufs (upd_lh f s) = bufs s" "disk (upd_lh f s) = disk s" "dhist (upd_lh f s) = dhist s"
  "held (upd_lh f s) = held s" "procs (upd_lh f s) = procs s" "curproc (upd_lh f s) = curproc s"
  "mem (upd_lh f s) = mem s" "freelist (upd_lh f s) = freelist s" "klog.more (upd_lh f s) = klog.more s"
  "ready (upd_lh f s) = ready s" "mypid (upd_lh f s) = mypid s" "has_buf (upd_lh f s) = has_buf s"
  "quiet (upd_lh f s) = quiet s" "used_blocks (upd_lh f s) = used_blocks s"
  by (simp_all add: upd_lh_def)

lemma bframe_upd_lg: "bframe s t \<Longrightarrow> bframe (upd_lg f s) (upd_lg f t)"
  by (cases s; cases t; simp add: bframe_def upd_lg_def)

lemma bframe_upd_lh: "bframe s t \<Longrightarrow> bframe (upd_lh f s) (upd_lh f t)"
  by (simp add: upd_lh_def bframe_upd_lg)

lemma write_head_spec:
  assumes q: "quiet s" and dev: "lg_dev (lg s) = ROOTDEV" and n: "0 \<le> lgn s" "lgn s \<le> int LOGBLOCKS"
    and st: "st = lg_start (lg s)" "refs s st = 0" and free: "card (used_blocks s) < NBUF"
  obtains t where "write_head s = Ok () t" and "refs t = refs s"
    and "wrote [(st, hdr_write (nat (lgn s)) (lblock s) (blk s st))] s t"
proof -
  have s: "bcache_inv s" "ready s" "lockedby s = (\<lambda>_. None)" using q by (simp_all add: quiet_def)
  define f where "f = hdr_write (nat (lgn s)) (lblock s)"
  have c1: "can_bread s st" using s st(2) free by (simp add: can_bread_def)
  obtain b s1 where 1: "bread ROOTDEV st s = Ok b s1" "has_buf s1 st b"
    "bupd s s1 (blk s) ((refs s)(st := refs s st + 1)) ((lockedby s)(st := Some (mypid s))) (disk s) (dhist s)"
    using bread_ok [OF s(1,2) c1] .
  note u1 = bupdD [OF 1(3)]
  have lgs: "lg s1 = lg s" using bframe_lg(1) [OF u1(2)] .
  define s2 where "s2 = upd_buf b (b_data_update f) s1"
  have 2: "bupd s1 s2 ((blk s1)(st := f (blk s1 st))) (refs s1) (lockedby s1) (disk s1) (dhist s1)"
    using set_data_ok [OF u1(1) 1(2), of f] unfolding s2_def .
  note u2 = bupdD [OF 2]
  have h2: "has_buf s2 st b" using bupd_has_buf [OF 2 1(2)] u1 by simp
  obtain s3 where 3: "bwrite b s2 = Ok () s3"
    "bupd s2 s3 (blk s2) (refs s2) (lockedby s2) ((disk s2)(st := blk s2 st)) (dhist s2 @ [(st, blk s2 st)])"
    using bwrite_ok [OF u2(1) _ h2] u2(8) u1(8) s(2) by blast
  note u3 = bupdD [OF 3(2)]
  have h3: "has_buf s3 st b" using bupd_has_buf [OF 3(2) h2] u1 u2 by simp
  have C3: "blk s3 = (blk s)(st := f (blk s st))" by (simp only: u3(3) u2(3) u1(3))
  have C2: "blk s2 st = f (blk s st)" by (simp only: u2(3) u1(3) fun_upd_same)
  have cl: "blk s3 st = disk s3 st" using C3 C2 by (simp add: u3(6))
  obtain s4 where 4: "brelse b s3 = Ok () s4"
    "bupd s3 s4 (blk s3) ((refs s3)(st := refs s3 st - 1)) ((lockedby s3)(st := None)) (disk s3) (dhist s3)"
    using brelse_ok [OF u3(1) _ h3] u3(8) u2(8) u1(8) s(2) cl by blast
  note u4 = bupdD [OF 4(2)]
  have fr: "bframe s s4" using u1(2) u2(2) u3(2) u4(2) by (meson bframe_trans)
  have f': "(\<lambda>d. write_head_loop (lh_block (lg_lh (lg s))) [0..<nat (lgn s)] (put32 d 0 (word_of_int (lgn s)))) = f"
    using n by (simp add: f_def hdr_write_def fun_eq_iff)
  have run: "write_head s = Ok () s4"
    using 1(1) 3(1) [unfolded s2_def] 4(1) dev lgs n f' by (simp add: write_head_def st(1) [symmetric] Let_def)
  have L: "lockedby s4 = (\<lambda>_. None)" unfolding u4(5) u3(5) u2(5) u1(5) s(3) by (auto simp: fun_eq_iff)
  have C: "blk s4 = (blk s)(st := f (blk s st))" by (simp only: u4(3) C3)
  have D: "disk s4 = (disk s)(st := f (blk s st))" unfolding u4(6) u3(6) C2 unfolding u2(6) u1(6) ..
  have H: "dhist s4 = dhist s @ [(st, f (blk s st))]" unfolding u4(7) u3(7) C2 unfolding u2(7) u1(7) ..
  have r: "ready s4" using u4(8) u3(8) u2(8) u1(8) s(2) by simp
  have "wrote [(st, f (blk s st))] s s4"
    unfolding wrote_def quiet_def apply_writes_simps by (intro conjI u4(1) r L fr C D H)
  moreover have "refs s4 = refs s" unfolding u4(4) u3(4) u2(4) u1(4) by (auto simp: fun_eq_iff)
  ultimately show ?thesis using that run by (simp add: f_def)
qed

lemma read_head_spec:
  assumes q: "quiet s" and dev: "lg_dev (lg s) = ROOTDEV"
    and st: "st = lg_start (lg s)" "refs s st = 0" and free: "card (used_blocks s) < NBUF"
    and n: "hdr_n (blk s st) \<le> int LOGBLOCKS"
  obtains t f where "read_head s = Ok () t" and "refs t = refs s" and "wrote [] (upd_lh f s) t"
    and "lgn t = hdr_n (blk s st)" and "map (lblock t) [0..<nat (lgn t)] = hdr_blocks (blk s st)"
proof -
  have s: "bcache_inv s" "ready s" "lockedby s = (\<lambda>_. None)" using q by (simp_all add: quiet_def)
  have c1: "can_bread s st" using s st(2) free by (simp add: can_bread_def)
  obtain b s1 where 1: "bread ROOTDEV st s = Ok b s1" "has_buf s1 st b"
    "bupd s s1 (blk s) ((refs s)(st := refs s st + 1)) ((lockedby s)(st := Some (mypid s))) (disk s) (dhist s)"
    using bread_ok [OF s(1,2) c1] .
  note u1 = bupdD [OF 1(3)]
  have d: "b_data (bufs s1 b) = blk s st" using has_bufD(4) [OF 1(2)] u1(3) by simp
  let ?d = "blk s st"
  let ?n = "hdr_n ?d"
  define f :: "logheader \<Rightarrow> logheader" where "f = (\<lambda>h. h\<lparr>lh_n := ?n, lh_block := (\<lambda>i. if i \<in> set [0..<nat ?n] then get32 ?d (4 + 4 * i) else lh_block h i)\<rparr>)"
  let ?s2 = "upd_lh f s1"
  have loop: "read_head_loop ?d [0..<nat ?n] (upd_lh (lh_n_update (\<lambda>_. ?n)) s1) = Ok () ?s2"
    using n by (subst read_head_loop_spec) (auto simp: upd_lh_upd_lh f_def cong: if_cong)
  have h2: "has_buf ?s2 st b" using 1(2) by simp
  have i2: "bcache_inv ?s2" "ready ?s2" using u1 s by simp_all
  have cl: "blk ?s2 st = disk ?s2 st" using u1(3,6) blk_unreferenced [OF s(1) st(2)] by simp
  obtain s3 where 3: "brelse b ?s2 = Ok () s3"
    "bupd ?s2 s3 (blk ?s2) ((refs ?s2)(st := refs ?s2 st - 1)) ((lockedby ?s2)(st := None)) (disk ?s2) (dhist ?s2)"
    using brelse_ok [OF i2 h2] cl by blast
  note u3 = bupdD [OF 3(2)]
  have run: "read_head s = Ok () s3"
    using 1(1) 3(1) dev loop d by (simp add: read_head_def st(1) [symmetric] Let_def hdr_n_def)
  have fr: "bframe (upd_lh f s) s3" using bframe_upd_lh [OF u1(2), of f] u3(2) by (rule bframe_trans)
  have "lockedby s3 = (\<lambda>_. None)" unfolding u3(5) upd_lh_fields u1(5) s(3) by (auto simp: fun_eq_iff)
  moreover have "blk s3 = blk s" using u3(3) u1(3) by simp
  ultimately have w: "wrote [] (upd_lh f s) s3" unfolding wrote_def quiet_def using fr u3 u1 s by simp
  have R: "refs s3 = refs s" unfolding u3(4) upd_lh_fields u1(4) by (auto simp: fun_eq_iff)
  have "lg s3 = lg_lh_update f (lg s)" using bframe_lg(1) [OF u3(2)] bframe_lg(1) [OF u1(2)] by simp
  then have "lgn s3 = ?n" and "map (lblock s3) [0..<nat ?n] = hdr_blocks ?d" by (simp_all add: f_def hdr_blocks_def)
  then show ?thesis using that run R w by simp
qed

lemma write_log_loop_Cons: "write_log_loop (i # is) s = kbind (write_log_loop [i] s) (\<lambda>_ s. write_log_loop is s)"
  by (simp add: kbind_assoc Let_def)

lemma install_trans_loop_Cons:
  "install_trans_loop r (i # is) s = kbind (install_trans_loop r [i] s) (\<lambda>_ s. install_trans_loop r is s)"
  by (simp add: kbind_assoc Let_def)

lemma wrote_quiet: "wrote ws s t \<Longrightarrow> quiet t"
  by (simp add: wrote_def)

lemma wrote_blk: "wrote ws s t \<Longrightarrow> blk t = apply_writes ws (blk s)"
  unfolding wrote_def by blast

lemma write_log_loop_spec:
  assumes "quiet s" and "lg_dev (lg s) = ROOTDEV" and "st = lg_start (lg s)" and "card (used_blocks s) < NBUF"
    and "\<forall>i\<in>set is. i < LOGBLOCKS \<and> refs s (log_data st i) = 0 \<and> lblock s i \<notin> log_area st \<and> refs s (lblock s i) = 1"
  shows "\<exists>t. write_log_loop is s = Ok () t \<and> refs t = refs s \<and>
    wrote (map (\<lambda>i. (log_data st i, blk s (lblock s i))) is) s t"
  using assms
proof (induction "is" arbitrary: s)
  case Nil
  then show ?case using wrote_Nil [of s] by simp
next
  case (Cons i "is")
  have i: "i < LOGBLOCKS" "refs s (log_data st i) = 0" "lblock s i \<notin> log_area st" "refs s (lblock s i) = 1"
    using Cons.prems(5) by simp_all
  then have ne: "log_data st i \<noteq> lblock s i" using log_data_in [of i st] by metis
  obtain u where u: "write_log_loop [i] s = Ok () u" "wrote [(log_data st i, blk s (lblock s i))] s u" "refs u = refs s"
    using write_log_step [OF Cons.prems(1,2) i(1) _ refl, of "log_data st i"] ne i Cons.prems(3,4) by auto
  have lg: "lg u = lg s" using wrote_lg [OF u(2)] .
  have blk: "blk u (lblock s j) = blk s (lblock s j)" if "j \<in> set is" for j
  proof -
    have "lblock s j \<noteq> log_data st i" using Cons.prems(5) that i(1) log_data_in [of i st] by auto
    then show ?thesis unfolding wrote_blk [OF u(2)] by simp
  qed
  have "used_blocks u = used_blocks s" by (simp add: used_blocks_def u(3))
  then have "\<exists>t. write_log_loop is u = Ok () t \<and> refs t = refs u \<and>
      wrote (map (\<lambda>i. (log_data st i, blk u (lblock u i))) is) u t"
    using Cons.prems u(3) lg wrote_quiet [OF u(2)] by (intro Cons.IH) simp_all
  then obtain t where t: "write_log_loop is u = Ok () t" "refs t = refs u"
    "wrote (map (\<lambda>i. (log_data st i, blk u (lblock u i))) is) u t" by blast
  have e: "map (\<lambda>i. (log_data st i, blk u (lblock u i))) is = map (\<lambda>i. (log_data st i, blk s (lblock s i))) is"
    using blk lg by simp
  then have "wrote (map (\<lambda>i. (log_data st i, blk s (lblock s i))) (i # is)) s t"
    using wrote_trans [OF u(2) t(3) [unfolded e]] by simp
  then show ?case using u t by (subst write_log_loop_Cons) simp
qed

lemma used_blocks_mono:
  assumes "bcache_inv s" and "\<And>n. refs t n \<le> refs s n"
  shows "card (used_blocks t) \<le> card (used_blocks s)"
proof (rule card_mono [OF finite_used_blocks [OF assms(1)]])
  show "used_blocks t \<subseteq> used_blocks s"
    using assms(2) by (auto simp: used_blocks_def) (metis gr0I le_zero_eq)
qed

lemma install_trans_loop_spec:
  assumes "quiet s" and "lg_dev (lg s) = ROOTDEV" and "st = lg_start (lg s)"
    and "card (used_blocks s) < (if recovering then 29 else 30)"
    and "distinct (map (lblock s) is)"
    and "\<forall>i\<in>set is. i < LOGBLOCKS \<and> refs s (log_data st i) = 0 \<and> lblock s i \<notin> log_area st \<and>
      refs s (lblock s i) = (if recovering then 0 else 1)"
  shows "\<exists>t. install_trans_loop recovering is s = Ok () t \<and>
    refs t = (\<lambda>m. if m \<in> lblock s ` set is then 0 else refs s m) \<and>
    wrote (map (\<lambda>i. (lblock s i, blk s (log_data st i))) is) s t"
  using assms
proof (induction "is" arbitrary: s)
  case Nil
  then show ?case using wrote_Nil [of s] by simp
next
  case (Cons i "is")
  have i: "i < LOGBLOCKS" "refs s (log_data st i) = 0" "lblock s i \<notin> log_area st"
    "refs s (lblock s i) = (if recovering then 0 else 1)"
    using Cons.prems(6) by simp_all
  then have ne: "log_data st i \<noteq> lblock s i" using log_data_in [of i st] by metis
  obtain u where u: "install_trans_loop recovering [i] s = Ok () u" "wrote [(lblock s i, blk s (log_data st i))] s u"
    "refs u = (refs s)(lblock s i := 0)"
    using install_trans_step [OF Cons.prems(1,2) i(1) _ refl, of "log_data st i" recovering] ne i Cons.prems(3,4) by auto
  have lg: "lg u = lg s" using wrote_lg [OF u(2)] .
  have nd: "log_data st j \<noteq> lblock s i" if "j \<in> set is" for j
    using Cons.prems(6) that i(3) log_data_in [of j st] by (metis list.set_intros(2))
  have blk: "blk u (log_data st j) = blk s (log_data st j)" if "j \<in> set is" for j
    unfolding wrote_blk [OF u(2)] using nd [OF that] by simp
  have nb: "lblock s j \<noteq> lblock s i" if "j \<in> set is" for j using Cons.prems(5) that by (auto simp: image_iff)
  have "card (used_blocks u) \<le> card (used_blocks s)"
    using Cons.prems(1) u(3) by (intro used_blocks_mono) (simp_all add: quiet_def)
  then have "card (used_blocks u) < (if recovering then 29 else 30)" using Cons.prems(4) by linarith
  then have "\<exists>t. install_trans_loop recovering is u = Ok () t \<and>
      refs t = (\<lambda>m. if m \<in> lblock u ` set is then 0 else refs u m) \<and>
      wrote (map (\<lambda>i. (lblock u i, blk u (log_data st i))) is) u t"
    using Cons.prems u(3) lg wrote_quiet [OF u(2)] nd nb by (intro Cons.IH) auto
  then obtain t where t: "install_trans_loop recovering is u = Ok () t"
    "refs t = (\<lambda>m. if m \<in> lblock u ` set is then 0 else refs u m)"
    "wrote (map (\<lambda>i. (lblock u i, blk u (log_data st i))) is) u t" by blast
  have e: "map (\<lambda>i. (lblock u i, blk u (log_data st i))) is = map (\<lambda>i. (lblock s i, blk s (log_data st i))) is"
    using blk lg by simp
  then have "wrote (map (\<lambda>i. (lblock s i, blk s (log_data st i))) (i # is)) s t"
    using wrote_trans [OF u(2) t(3) [unfolded e]] by simp
  moreover have "refs t = (\<lambda>m. if m \<in> lblock s ` set (i # is) then 0 else refs s m)"
    unfolding t(2) u(3) lg by (auto simp: fun_eq_iff)
  ultimately show ?case using u t by (subst install_trans_loop_Cons) simp
qed

subsection \<open>The writes of commit and of recovery\<close>

definition lblocks :: "'a klog_scheme \<Rightarrow> u32 list" where
  "lblocks s = map (lblock s) [0..<nat (lgn s)]"

text \<open>
  A transaction ready to commit: the logged blocks are distinct and outside the log area, exactly
  they are pinned, and nothing is locked. At least one buffer is left for the log blocks.
\<close>

definition txn :: "'a klog_scheme \<Rightarrow> bool" where
  "txn s \<longleftrightarrow> quiet s \<and> lg_dev (lg s) = ROOTDEV \<and> 0 \<le> lgn s \<and> lgn s < int NBUF \<and>
     distinct (lblocks s) \<and> set (lblocks s) \<inter> log_area (lg_start (lg s)) = {} \<and>
     refs s = (\<lambda>m. if m \<in> set (lblocks s) then 1 else 0) \<and> length (blk s (lg_start (lg s))) = BSIZE"

definition commit_writes :: "'a klog_scheme \<Rightarrow> (u32 \<times> block) list" where
  "commit_writes s =
     (let n = nat (lgn s); st = lg_start (lg s); h = hdr_write n (lblock s) (blk s st) in
      map (\<lambda>i. (log_data st i, blk s (lblock s i))) [0..<n] @ (st, h) #
      map (\<lambda>i. (lblock s i, blk s (lblock s i))) [0..<n] @ [(st, hdr_write 0 (lblock s) h)])"

lemma wrote_upd_lh: "wrote ws s t \<Longrightarrow> wrote ws (upd_lh f s) (upd_lh f t)"
  unfolding wrote_def upd_lh_fields using bframe_upd_lh by blast

lemma log_area_not_blocks:
  assumes "set (lblocks s) \<inter> log_area st = {}" and "i < nat (lgn s)"
  shows "lblock s i \<notin> log_area st" and "lblock s i \<noteq> st"
proof -
  have "lblock s i \<in> set (lblocks s)" using assms(2) by (simp add: lblocks_def)
  then show 1: "lblock s i \<notin> log_area st" using assms(1) by blast
  then show "lblock s i \<noteq> st" by (auto simp: log_area_def)
qed

lemma commit_spec:
  assumes x: "txn s" and n: "0 < lgn s"
  obtains t where "commit s = Ok () t" and "wrote (commit_writes s) (upd_lh (lh_n_update (\<lambda>_. 0)) s) t"
    and "refs t = (\<lambda>_. 0)"
proof -
  let ?n = "nat (lgn s)"
  define st where "st = lg_start (lg s)"
  have q: "quiet s" and dev: "lg_dev (lg s) = ROOTDEV" and nn: "0 \<le> lgn s" "lgn s < 30"
    and dis: "distinct (lblocks s)" and area: "set (lblocks s) \<inter> log_area st = {}"
    and refs: "refs s = (\<lambda>m. if m \<in> set (lblocks s) then 1 else 0)"
    using x by (simp_all add: txn_def st_def)
  note na = log_area_not_blocks [OF area]
  have inv: "bcache_inv s" using q by (simp add: quiet_def)
  have "used_blocks s = set (lblocks s)" by (auto simp: used_blocks_def refs)
  then have card: "card (used_blocks s) < 30"
    using card_length [of "lblocks s"] nn by (simp add: lblocks_def)
  have r0: "refs s m = 0" if "m \<in> log_area st" for m using area that by (auto simp: refs)
  have r1: "refs s (lblock s i) = 1" if "i < ?n" for i using that by (simp add: refs lblocks_def)
  have lt: "i < 30" if "i < ?n" for i using that nn by simp
  have pre: "\<forall>i\<in>set [0..<?n]. i < LOGBLOCKS \<and> refs s (log_data st i) = 0 \<and> lblock s i \<notin> log_area st \<and>
    refs s (lblock s i) = 1"
    using lt r0 r1 na by simp
  let ?W1 = "map (\<lambda>i. (log_data st i, blk s (lblock s i))) [0..<?n]"
  obtain s1 where 1: "write_log s = Ok () s1" "refs s1 = refs s" "wrote ?W1 s s1"
    using write_log_loop_spec [OF q dev st_def card pre] by (auto simp: write_log_def)
  have l1: "lg s1 = lg s" using wrote_lg [OF 1(3)] .
  have b1: "blk s1 = apply_writes ?W1 (blk s)" using wrote_blk [OF 1(3)] .
  have "st \<notin> fst ` set ?W1" by (auto simp: image_iff) (metis lt log_data_start)
  then have b1st: "blk s1 st = blk s st" unfolding b1 by (rule apply_writes_other)
  have "distinct (map fst ?W1)" using lt by (auto simp: distinct_map inj_on_def)
  then have b1l: "blk s1 (log_data st i) = blk s (lblock s i)" if "i < ?n" for i
    unfolding b1 using that by (intro apply_writes_distinct) auto
  define h where "h = hdr_write ?n (lblock s) (blk s st)"
  have "used_blocks s1 = used_blocks s" by (simp add: used_blocks_def 1(2))
  then obtain s2 where 2: "write_head s1 = Ok () s2" "refs s2 = refs s1" "wrote [(st, h)] s1 s2"
    using write_head_spec [OF wrote_quiet [OF 1(3)], of st] l1 dev nn card 1(2) r0 b1st
    by (auto simp: h_def st_def log_area_def)
  have l2: "lg s2 = lg s" using wrote_lg [OF 2(3)] l1 by simp
  have b2: "blk s2 = (blk s1)(st := h)" using wrote_blk [OF 2(3)] by simp
  have b2l: "blk s2 (log_data st i) = blk s (lblock s i)" if "i < ?n" for i
    unfolding b2 using b1l [OF that] log_data_start [of i st] lt [OF that] by simp
  have "used_blocks s2 = used_blocks s" by (simp add: used_blocks_def 1(2) 2(2))
  then have "\<exists>t. install_trans_loop False [0..<?n] s2 = Ok () t \<and>
    refs t = (\<lambda>m. if m \<in> lblock s2 ` set [0..<?n] then 0 else refs s2 m) \<and>
    wrote (map (\<lambda>i. (lblock s2 i, blk s2 (log_data st i))) [0..<?n]) s2 t"
    using install_trans_loop_spec [OF wrote_quiet [OF 2(3)], of st False "[0..<?n]"]
      l2 dev card dis 1(2) 2(2) pre by (simp add: st_def lblocks_def)
  then obtain s3 where 3: "install_trans False s2 = Ok () s3"
    "refs s3 = (\<lambda>m. if m \<in> lblock s2 ` set [0..<?n] then 0 else refs s2 m)"
    "wrote (map (\<lambda>i. (lblock s2 i, blk s2 (log_data st i))) [0..<?n]) s2 s3"
    using l2 by (auto simp: install_trans_def)
  let ?W2 = "map (\<lambda>i. (lblock s i, blk s (lblock s i))) [0..<?n]"
  have e: "map (\<lambda>i. (lblock s2 i, blk s2 (log_data st i))) [0..<?n] = ?W2" using b2l l2 by simp
  note w3 = 3(3) [unfolded e]
  have l3: "lg s3 = lg s" using wrote_lg [OF w3] l2 by simp
  have b3: "blk s3 = apply_writes ?W2 (blk s2)" using wrote_blk [OF w3] .
  have "st \<notin> fst ` set ?W2" using na(2) by force
  then have b3st: "blk s3 st = h" unfolding b3 by (simp add: apply_writes_other b2)
  have r3: "refs s3 = (\<lambda>_. 0)" by (auto simp: 3(2) 2(2) 1(2) refs l2 lblocks_def fun_eq_iff)
  let ?g = "lh_n_update (\<lambda>_. 0 :: int)"
  have "used_blocks (upd_lh ?g s3) = {}" by (simp add: used_blocks_def r3)
  then obtain s4 where 4: "write_head (upd_lh ?g s3) = Ok () s4" "refs s4 = refs s3"
    "wrote [(st, hdr_write 0 (lblock s) h)] (upd_lh ?g s3) s4"
    using write_head_spec [of "upd_lh ?g s3" st] wrote_quiet [OF w3] l3 dev r3 b3st by (auto simp: st_def)
  have "wrote (?W1 @ [(st, h)] @ ?W2) s s3" using wrote_trans [OF 1(3) wrote_trans [OF 2(3) w3]] .
  then have "wrote ((?W1 @ [(st, h)] @ ?W2) @ [(st, hdr_write 0 (lblock s) h)]) (upd_lh ?g s) s4"
    using wrote_upd_lh wrote_trans [OF _ 4(3)] by blast
  moreover have "(?W1 @ [(st, h)] @ ?W2) @ [(st, hdr_write 0 (lblock s) h)] = commit_writes s"
    by (simp add: commit_writes_def Let_def st_def h_def)
  moreover have "commit s = Ok () s4" using n 1(1) 2(1) 3(1) 4(1) by (simp add: commit_def Let_def)
  ultimately show ?thesis using that 4(2) r3 by simp
qed

text \<open>A freshly booted cache refers to no block. Recovery expects a sound header on the disk.\<close>

definition fresh :: "'a klog_scheme \<Rightarrow> bool" where
  "fresh s \<longleftrightarrow> quiet s \<and> refs s = (\<lambda>_. 0)"

definition hdr_ok :: "u32 \<Rightarrow> (u32 \<Rightarrow> block) \<Rightarrow> bool" where
  "hdr_ok st D \<longleftrightarrow> length (D st) = BSIZE \<and> 0 \<le> hdr_n (D st) \<and> hdr_n (D st) \<le> int LOGBLOCKS \<and>
     distinct (hdr_blocks (D st)) \<and> set (hdr_blocks (D st)) \<inter> log_area st = {}"

definition install_writes :: "u32 \<Rightarrow> (u32 \<Rightarrow> block) \<Rightarrow> (u32 \<times> block) list" where
  "install_writes st D = map (\<lambda>i. (hdr_blocks (D st) ! i, D (log_data st i))) [0..<nat (hdr_n (D st))]"

lemma length_hdr_blocks: "length (hdr_blocks d) = nat (hdr_n d)"
  by (simp add: hdr_blocks_def)

text \<open>Recovery installs the blocks of the header and then clears it.\<close>

lemma initlog_spec:
  assumes f: "fresh s" and h: "hdr_ok st (disk s)"
  obtains t bl where "initlog ROOTDEV st s = Ok () t" and "fresh t"
    and "disk t = apply_writes (install_writes st (disk s) @ [(st, hdr_write 0 bl (disk s st))]) (disk s)"
    and "dhist t = dhist s @ install_writes st (disk s) @ [(st, hdr_write 0 bl (disk s st))]"
    and "lgn t = 0" and "lg_start (lg t) = st" and "lg_dev (lg t) = ROOTDEV"
    and "lg_outstanding (lg t) = lg_outstanding (lg s)" and "lg_committing (lg t) = lg_committing (lg s)"
proof -
  let ?D = "disk s"
  let ?n = "nat (hdr_n (?D st))"
  let ?hb = "hdr_blocks (?D st)"
  have q: "quiet s" and r: "refs s = (\<lambda>_. 0)" using f by (simp_all add: fresh_def)
  have inv: "bcache_inv s" using q by (simp add: quiet_def)
  have B: "blk s m = ?D m" for m using blk_unreferenced [OF inv] r by simp
  define s0 where "s0 = upd_lg (\<lambda>l. l\<lparr>lg_start := st, lg_dev := ROOTDEV\<rparr>) s"
  have s0: "quiet s0" "refs s0 = (\<lambda>_. 0)" "disk s0 = ?D" "dhist s0 = dhist s" "bufs s0 = bufs s"
    "lg_dev (lg s0) = ROOTDEV" "lg_start (lg s0) = st" "used_blocks s0 = {}"
    "lg_outstanding (lg s0) = lg_outstanding (lg s)" "lg_committing (lg s0) = lg_committing (lg s)"
    using q r by (simp_all add: s0_def used_blocks_def)
  obtain s1 g where 1: "read_head s0 = Ok () s1" "refs s1 = refs s0" "wrote [] (upd_lh g s0) s1"
    "lgn s1 = hdr_n (?D st)" "map (lblock s1) [0..<nat (lgn s1)] = ?hb"
    using read_head_spec [OF s0(1,6), of st] s0 h B by (auto simp: hdr_ok_def)
  have l1: "lg s1 = lg_lh_update g (lg s0)" using wrote_lg [OF 1(3)] by simp
  have D1: "disk s1 = ?D" "dhist s1 = dhist s" using 1(3) s0 by (simp_all add: wrote_def)
  have b1: "blk s1 = ?D" using wrote_blk [OF 1(3)] B s0 by (simp add: fun_eq_iff)
  have hb: "lblock s1 i = ?hb ! i" if "i < ?n" for i
    using that 1(4) unfolding 1(5) [symmetric] by simp
  have na: "?hb ! i \<notin> log_area st" "?hb ! i \<noteq> st" if "i < ?n" for i
  proof -
    have "?hb ! i \<in> set ?hb" using that by (simp add: length_hdr_blocks)
    then show "?hb ! i \<notin> log_area st" using h by (auto simp: hdr_ok_def)
    then show "?hb ! i \<noteq> st" by (auto simp: log_area_def)
  qed
  have pre: "\<forall>i\<in>set [0..<?n]. i < LOGBLOCKS \<and> refs s1 (log_data st i) = 0 \<and> lblock s1 i \<notin> log_area st \<and>
      refs s1 (lblock s1 i) = (if True then 0 else 1)"
    using h hb na 1(2) s0(2) by (auto simp: hdr_ok_def)
  have "distinct (map (lblock s1) [0..<?n])" using 1(4,5) h by (simp add: hdr_ok_def)
  then have "\<exists>t. install_trans_loop True [0..<?n] s1 = Ok () t \<and>
      refs t = (\<lambda>m. if m \<in> lblock s1 ` set [0..<?n] then 0 else refs s1 m) \<and>
      wrote (map (\<lambda>i. (lblock s1 i, blk s1 (log_data st i))) [0..<?n]) s1 t"
    using install_trans_loop_spec [OF wrote_quiet [OF 1(3)] _ _ _ _ pre] l1 s0 1(2)
    by (simp add: used_blocks_def)
  then obtain s2 where 2: "install_trans True s1 = Ok () s2"
      "refs s2 = (\<lambda>m. if m \<in> lblock s1 ` set [0..<?n] then 0 else refs s1 m)"
      "wrote (map (\<lambda>i. (lblock s1 i, blk s1 (log_data st i))) [0..<?n]) s1 s2"
    using 1(4) by (auto simp: install_trans_def)
  have e: "map (\<lambda>i. (lblock s1 i, blk s1 (log_data st i))) [0..<?n] = install_writes st ?D"
    using hb b1 by (simp add: install_writes_def)
  note w2 = 2(3) [unfolded e]
  have r2: "refs s2 = (\<lambda>_. 0)" using 2(2) 1(2) s0(2) by (auto simp: fun_eq_iff)
  have l2: "lg s2 = lg s1" using wrote_lg [OF w2] .
  have "st \<notin> fst ` set (install_writes st ?D)" using na(2) by (force simp: install_writes_def)
  then have b2: "blk s2 st = ?D st" unfolding wrote_blk [OF w2] b1 by (rule apply_writes_other)
  let ?g = "lh_n_update (\<lambda>_. 0 :: int)"
  obtain s3 where 3: "write_head (upd_lh ?g s2) = Ok () s3" "refs s3 = refs s2"
    "wrote [(st, hdr_write 0 (lblock s1) (?D st))] (upd_lh ?g s2) s3"
    using write_head_spec [of "upd_lh ?g s2" st] wrote_quiet [OF w2] l2 l1 s0(6,7) r2 b2
    by (auto simp: used_blocks_def)
  have l3: "lg s3 = lg_lh_update ?g (lg s1)" using wrote_lg [OF 3(3)] l2 by simp
  have run: "initlog ROOTDEV st s = Ok () s3"
    using 1(1) 2(1) 3(1) by (simp add: initlog_def recover_from_log_def s0_def [symmetric] Let_def)
  show ?thesis
  proof (rule that [OF run])
    show "fresh s3" using wrote_quiet [OF 3(3)] 3(2) r2 by (simp add: fresh_def)
    show "disk s3 = apply_writes (install_writes st ?D @ [(st, hdr_write 0 (lblock s1) (?D st))]) ?D"
      using 3(3) w2 D1 by (simp add: wrote_def)
    show "dhist s3 = dhist s @ install_writes st ?D @ [(st, hdr_write 0 (lblock s1) (?D st))]"
      using 3(3) w2 D1 by (simp add: wrote_def)
  qed (simp_all add: l3 l1 s0)
qed

subsection \<open>Crashes\<close>

text \<open>The home blocks after recovery from the disk \<open>D\<close>.\<close>

definition recovered :: "u32 \<Rightarrow> (u32 \<Rightarrow> block) \<Rightarrow> u32 \<Rightarrow> block" where
  "recovered st D = apply_writes (install_writes st D) D"

lemma recovered_empty: "hdr_n (D st) = 0 \<Longrightarrow> recovered st D = D"
  by (simp add: recovered_def install_writes_def)

lemma recovered_other: "m \<notin> set (hdr_blocks (D st)) \<Longrightarrow> recovered st D m = D m"
  unfolding recovered_def install_writes_def
  by (rule apply_writes_other) (auto simp: length_hdr_blocks [symmetric])

lemma recovered_logged:
  assumes "hdr_ok st D" and "i < nat (hdr_n (D st))"
  shows "recovered st D (hdr_blocks (D st) ! i) = D (log_data st i)"
proof -
  have "map fst (install_writes st D) = hdr_blocks (D st)"
    by (simp add: install_writes_def comp_def length_hdr_blocks [symmetric] map_nth)
  then show ?thesis
    unfolding recovered_def using assms by (intro apply_writes_distinct) (auto simp: hdr_ok_def install_writes_def)
qed

lemma initlog_recovers:
  assumes "fresh s" and h: "hdr_ok st (disk s)"
  obtains t where "initlog ROOTDEV st s = Ok () t" and "fresh t" and "hdr_n (disk t st) = 0"
    and "\<And>m. m \<notin> log_area st \<Longrightarrow> disk t m = recovered st (disk s) m"
proof -
  obtain t bl where t: "initlog ROOTDEV st s = Ok () t" "fresh t"
    "disk t = apply_writes (install_writes st (disk s) @ [(st, hdr_write 0 bl (disk s st))]) (disk s)"
    using initlog_spec [OF assms] by metis
  have "length (disk s st) = BSIZE" using h by (simp add: hdr_ok_def)
  then have "hdr_n (hdr_write 0 bl (disk s st)) = 0" using hdr_write(2) [of "disk s st" 0 bl] by simp
  then have "hdr_n (disk t st) = 0" by (simp add: t(3))
  moreover have "disk t m = recovered st (disk s) m" if "m \<notin> log_area st" for m
    using that by (auto simp: t(3) recovered_def log_area_def)
  ultimately show ?thesis using that t by blast
qed

lemma recovered_committed:
  assumes x: "txn s" and st: "st = lg_start (lg s)"
    and ok: "hdr_ok st D" and hd: "hdr_n (D st) = lgn s" "hdr_blocks (D st) = lblocks s"
    and lg: "\<And>i. i < nat (lgn s) \<Longrightarrow> D (log_data st i) = blk s (lblock s i)"
    and other: "\<And>m. m \<notin> log_area st \<Longrightarrow> m \<notin> set (lblocks s) \<Longrightarrow> D m = disk s m"
    and m: "m \<notin> log_area st"
  shows "recovered st D m = blk s m"
proof (cases "m \<in> set (lblocks s)")
  case True
  then obtain i where i: "i < nat (lgn s)" "m = lblock s i" by (auto simp: lblocks_def)
  then have "hdr_blocks (D st) ! i = m" by (simp add: hd(2) lblocks_def)
  then show ?thesis using recovered_logged [OF ok, of i] i hd lg by simp
next
  case False
  have "refs s m = 0" and "bcache_inv s" using x False by (simp_all add: txn_def quiet_def)
  then have "blk s m = disk s m" using blk_unreferenced by blast
  then show ?thesis using recovered_other [of m D st] hd False other m by simp
qed

text \<open>The disk after any number of the writes of \<open>commit\<close>, as recovery sees it.\<close>

lemma commit_prefix:
  assumes x: "txn s" and n: "0 < lgn s" and st: "st = lg_start (lg s)" and h0: "hdr_n (disk s st) = 0"
    and D: "D = apply_writes (take k (commit_writes s)) (disk s)"
  shows "hdr_ok st D \<and> (if k \<le> nat (lgn s) then \<forall>m. m \<notin> log_area st \<longrightarrow> recovered st D m = disk s m
    else \<forall>m. m \<notin> log_area st \<longrightarrow> recovered st D m = blk s m)"
proof -
  let ?n = "nat (lgn s)"
  have inv: "bcache_inv s" and nn: "lgn s < 30" and dis: "distinct (lblocks s)"
    and area: "set (lblocks s) \<inter> log_area st = {}" and refs: "refs s = (\<lambda>m. if m \<in> set (lblocks s) then 1 else 0)"
    and len: "length (blk s st) = BSIZE"
    using x by (simp_all add: txn_def quiet_def st)
  note na = log_area_not_blocks [OF area]
  have stn: "st \<notin> set (lblocks s)" using area by (auto simp: log_area_def)
  then have bst: "blk s st = disk s st" using refs by (intro blk_unreferenced [OF inv]) simp
  have clean: "blk s m = disk s m" if "m \<notin> set (lblocks s)" for m
    using refs that by (intro blk_unreferenced [OF inv]) simp
  have lt: "i < 30" if "i < ?n" for i using that nn by simp
  define W1 where "W1 = map (\<lambda>i. (log_data st i, blk s (lblock s i))) [0..<?n]"
  define h where "h = hdr_write ?n (lblock s) (blk s st)"
  define W2 where "W2 = map (\<lambda>i. (lblock s i, blk s (lblock s i))) [0..<?n]"
  define h' where "h' = hdr_write 0 (lblock s) h"
  have cw: "commit_writes s = W1 @ (st, h) # W2 @ [(st, h')]"
    by (simp add: commit_writes_def W1_def W2_def h_def h'_def st Let_def)
  have lW: "length W1 = ?n" "length W2 = ?n" by (simp_all add: W1_def W2_def)
  have h: "length h = BSIZE" "hdr_n h = lgn s" "hdr_blocks h = lblocks s"
    using hdr_write [OF len, of ?n "lblock s"] n nn by (simp_all add: h_def lblocks_def)
  have h': "length h' = BSIZE" "hdr_n h' = 0" "hdr_blocks h' = []"
    using hdr_write [OF h(1), of 0 "lblock s"] by (simp_all add: h'_def)
  have W1a: "fst ` set W1 \<subseteq> log_area st - {st}" using lt by (auto simp: W1_def)
  have W1d: "apply_writes W1 E (log_data st i) = blk s (lblock s i)" if "i < ?n" for i E
    unfolding W1_def using lt that by (intro apply_writes_distinct) (auto simp: distinct_map inj_on_def)
  have W2a: "fst ` set W2 = set (lblocks s)" by (simp add: W2_def lblocks_def image_image)
  have "map fst W2 = lblocks s" by (simp add: W2_def lblocks_def comp_def)
  then have W2d: "apply_writes W2 E m = blk s m" if "m \<in> set (lblocks s)" for m E
    using dis that by (intro apply_writes_distinct) (auto simp: W2_def lblocks_def comp_def)
  have take_sub: "fst ` set (take j W) \<subseteq> fst ` set W" for j and W :: "(u32 \<times> block) list"
    by (auto dest: in_set_takeD)
  show ?thesis
  proof (cases "k \<le> ?n")
    case True
    have D1: "D = apply_writes (take k W1) (disk s)" using True lW by (simp add: D cw)
    have o: "D m = disk s m" if "m \<notin> log_area st - {st}" for m
      unfolding D1 using that take_sub [of k W1] W1a by (intro apply_writes_other) blast
    have "D st = disk s st" by (rule o) simp
    then have "hdr_ok st D" "recovered st D = D"
      using h0 len bst recovered_empty by (simp_all add: hdr_ok_def hdr_blocks_def)
    then show ?thesis using True o by simp
  next
    case nk: False
    show ?thesis
    proof (cases "k \<le> 2 * ?n + 1")
      case True
      define W where "W = take (k - ?n - 1) W2"
      have "take k (commit_writes s) = W1 @ (st, h) # W"
        using nk True lW by (simp add: cw W_def take_Cons' min_absorb1)
      then have D2: "D = apply_writes W ((apply_writes W1 (disk s))(st := h))" by (simp add: D)
      have o: "D m = ((apply_writes W1 (disk s))(st := h)) m" if "m \<notin> set (lblocks s)" for m
        unfolding D2 using that take_sub [of _ W2] W2a by (intro apply_writes_other) (auto simp: W_def)
      have Dst: "D st = h" using o stn by simp
      have ok: "hdr_ok st D" using h area dis n nn by (simp add: hdr_ok_def Dst)
      have l: "D (log_data st i) = blk s (lblock s i)" if "i < ?n" for i
      proof -
        have "log_data st i \<notin> set (lblocks s)" using area log_data_in [OF lt [OF that]] by blast
        then show ?thesis using o W1d [OF that] log_data_start [OF lt [OF that]] by simp
      qed
      have "D m = disk s m" if "m \<notin> log_area st" "m \<notin> set (lblocks s)" for m
      proof -
        have "m \<noteq> st" "m \<notin> fst ` set W1" using that(1) W1a by (auto simp: log_area_def)
        then show ?thesis using o [OF that(2)] by (simp add: apply_writes_other)
      qed
      then have "recovered st D m = blk s m" if "m \<notin> log_area st" for m
        using recovered_committed [OF x st ok _ _ l] h that Dst by simp
      then show ?thesis using ok nk by simp
    next
      case False
      then have "take k (commit_writes s) = commit_writes s" using lW by (simp add: cw)
      then have D3: "D = (apply_writes W2 ((apply_writes W1 (disk s))(st := h)))(st := h')" by (simp add: D cw)
      have ok: "hdr_ok st D" "recovered st D = D"
        using h' recovered_empty [of D st] by (simp_all add: hdr_ok_def D3)
      have "D m = blk s m" if "m \<notin> log_area st" for m
      proof (cases "m \<in> set (lblocks s)")
        case True
        then show ?thesis using W2d that by (auto simp: D3 log_area_def)
      next
        case False
        have "m \<noteq> st" "m \<notin> fst ` set W1" using that W1a by (auto simp: log_area_def)
        then show ?thesis using False W2a clean by (simp add: D3 apply_writes_other)
      qed
      then show ?thesis using ok nk by simp
    qed
  qed
qed

subsection \<open>Logging a block\<close>

lemma log_write_scan_find:
  "log_write_scan bl n is d = (case List.find (\<lambda>i. bl i = n) is of Some i \<Rightarrow> i | None \<Rightarrow> d)"
  by (induction "is") auto

lemma has_buf_held [simp]: "has_buf (s\<lparr>held := h\<rparr>) = has_buf s"
  by (simp add: has_buf_def mypid_def fun_eq_iff)

lemma bupd_held:
  assumes "bupd (s\<lparr>held := h\<rparr>) t C R L D H"
  shows "bupd s (t\<lparr>held := held s\<rparr>) C R L D H"
proof -
  have "mypid (s\<lparr>held := h\<rparr>) = mypid s" by (simp add: mypid_def)
  then show ?thesis using assms by (auto simp: bupd_def bframe_def)
qed

lemma upd_lh_held: "upd_lh f (s\<lparr>held := h\<rparr>) = (upd_lh f s)\<lparr>held := h\<rparr>"
  by (simp add: upd_lh_def upd_lg_def)

lemma log_write_spec:
  assumes inv: "bcache_inv s" and h: "L_log \<notin> set (held s)" "L_bcache \<notin> set (held s)" and b: "has_buf s n b"
    and k: "0 \<le> lgn s" "lgn s < int LOGBLOCKS" and o: "1 \<le> lg_outstanding (lg s)" and r: "refs s n < 0xFFFFFFFF"
  obtains t f where "log_write b s = Ok () t"
    and "bupd (upd_lh f s) t (blk s) (if n \<in> set (lblocks s) then refs s else (refs s)(n := refs s n + 1))
           (lockedby s) (disk s) (dhist s)"
    and "lblocks t = (if n \<in> set (lblocks s) then lblocks s else lblocks s @ [n])"
    and "lgn t = int (length (lblocks t))" and "lg t = lg_lh_update f (lg s)"
proof -
  let ?k = "nat (lgn s)"
  let ?s = "s\<lparr>held := L_log # held s\<rparr>"
  note bd = has_bufD [OF b]
  have in_iff: "n \<in> set (lblocks s) \<longleftrightarrow> (\<exists>i<?k. lblock s i = n)" by (auto simp: lblocks_def)
  show ?thesis
  proof (cases "n \<in> set (lblocks s)")
    case True
    then obtain i where i: "List.find (\<lambda>i. lblock s i = n) [0..<?k] = Some i"
      using in_iff by (cases "List.find (\<lambda>i. lblock s i = n) [0..<?k]") (auto simp: find_None_iff)
    then have ik: "i < ?k" "lblock s i = n" by (auto simp: find_Some_iff)
    define f where "f = (\<lambda>h :: logheader. h\<lparr>lh_block := (lh_block h)(i := n)\<rparr>)"
    have "f (lg_lh (lg s)) = lg_lh (lg s)" using ik(2) by (cases "lg_lh (lg s)") (simp add: f_def fun_upd_idem)
    then have "lg_lh_update f (lg s) = lg s" by (cases "lg s") simp
    then have e: "upd_lh f s = s" by (simp add: upd_lh_def upd_lg_def)
    have "upd_lh f ?s = ?s" unfolding upd_lh_held e ..
    moreover have "log_write_scan (lblock s) n [0..<?k] ?k = i" using i by (simp add: log_write_scan_find)
    moreover have "s\<lparr>held := held s\<rparr> = s" by simp
    ultimately have run: "log_write b s = Ok () s"
      using k o ik h(1) bd(5) by (auto simp: log_write_def Let_def f_def)
    have "bupd s s (blk s) (refs s) (lockedby s) (disk s) (dhist s)" using inv by (simp add: bupd_def)
    then have "bupd (upd_lh f s) s (blk s) (if n \<in> set (lblocks s) then refs s else (refs s)(n := refs s n + 1))
        (lockedby s) (disk s) (dhist s)" unfolding e using True by simp
    moreover have "lblocks s = (if n \<in> set (lblocks s) then lblocks s else lblocks s @ [n])" using True by simp
    moreover have "lgn s = int (length (lblocks s))" using k by (simp add: lblocks_def)
    moreover have "lg s = lg_lh_update f (lg s)" using \<open>lg_lh_update f (lg s) = lg s\<close> by (rule sym)
    ultimately show ?thesis by (rule that [OF run])
  next
    case False
    then have fn: "List.find (\<lambda>i. lblock s i = n) [0..<?k] = None" using in_iff by (simp add: find_None_iff)
    define f where "f = (\<lambda>h :: logheader. h\<lparr>lh_block := (lh_block h)(?k := n)\<rparr>)"
    define g where "g = (\<lambda>h :: logheader. h\<lparr>lh_n := lh_n h + 1\<rparr>)"
    define s1 where "s1 = upd_lh f ?s"
    have scan: "log_write_scan (lblock s) n [0..<?k] ?k = ?k" using fn by (simp add: log_write_scan_find)
    have s1: "bcache_inv s1" "L_bcache \<notin> set (held s1)" "bslot s1 n = Some b" "refs s1 n < 0xFFFFFFFF"
      using inv h bd(1) r by (simp_all add: s1_def)
    obtain u where u: "bpin b s1 = Ok () u"
      "bupd s1 u (blk s1) ((refs s1)(n := refs s1 n + 1)) (lockedby s1) (disk s1) (dhist s1)"
      using bpin_ok [OF s1] .
    note bu = bupdD [OF u(2)]
    have hu: "held u = L_log # held s" using bu(2) by (simp add: bframe_def s1_def)
    have lu: "lg u = lg_lh_update f (lg s)" using bframe_lg(1) [OF bu(2)] by (simp add: s1_def)
    let ?t = "(upd_lh g u)\<lparr>held := held s\<rparr>"
    have run: "log_write b s = Ok () ?t"
      using k o h(1) scan bd(5) u(1) hu by (simp add: log_write_def Let_def f_def g_def s1_def)
    have "upd_lh g s1 = (upd_lh (\<lambda>h. g (f h)) s)\<lparr>held := L_log # held s\<rparr>"
      by (simp add: s1_def upd_lh_held upd_lh_upd_lh)
    moreover have "bupd (upd_lh g s1) (upd_lh g u) (blk s) ((refs s)(n := refs s n + 1)) (lockedby s) (disk s) (dhist s)"
      using bu bframe_upd_lh [of s1 u g] bupd_has_buf [OF u(2)] unfolding bupd_def upd_lh_fields
      by (simp add: s1_def)
    ultimately have B: "bupd (upd_lh (\<lambda>h. g (f h)) s) ?t (blk s) ((refs s)(n := refs s n + 1)) (lockedby s) (disk s) (dhist s)"
      using bupd_held by fastforce
    have lt: "lg ?t = lg_lh_update (\<lambda>h. g (f h)) (lg s)"
      using lu by (cases "lg s") (simp add: upd_lh_def upd_lg_def)
    have n1: "nat (lgn s + 1) = Suc ?k" using k by simp
    have lb: "lblocks ?t = lblocks s @ [n]"
      unfolding lblocks_def lt by (simp add: f_def g_def n1)
    have "lgn ?t = lgn s + 1" unfolding lt by (simp add: f_def g_def)
    also have "\<dots> = int (length (lblocks ?t))" unfolding lb using k by (simp add: lblocks_def)
    finally have ln: "lgn ?t = int (length (lblocks ?t))" .
    show ?thesis
      by (rule that [OF run, of "\<lambda>h. g (f h)"]) (use B False lb ln lt in \<open>simp_all only: if_False\<close>)
  qed
qed

subsection \<open>Log space\<close>

text \<open>No operation of the cache touches the log's own state, whatever the state it runs in.\<close>

lemma more_acquire: "acquire l s = Ok v t \<Longrightarrow> kbio.more t = kbio.more s"
  by (auto simp: acquire_def split: if_splits)

lemma more_release: "release l s = Ok v t \<Longrightarrow> kbio.more t = kbio.more s"
  by (auto simp: release_def split: if_splits)

lemma more_wakeup: "wakeup_loop ch ps s = Ok v t \<Longrightarrow> kbio.more t = kbio.more s"
proof (induction ps arbitrary: s)
  case (Cons p ps)
  show ?case
  proof (cases "curproc s = Some p")
    case True
    then show ?thesis using Cons by simp
  next
    case False
    then obtain u where u: "wakeup_loop ch ps u = Ok v t" "kbio.more u = kbio.more s"
      using Cons.prems by (auto simp: res_iff Let_def upd_proc_def split: if_splits
          dest!: more_acquire more_release)
    then show ?thesis using Cons.IH by simp
  qed
qed simp

lemma sleep_not_Ok: "sleep ch l s \<noteq> Ok v t"
proof
  assume "sleep ch l s = Ok v t"
  then show False by (auto simp: sleep_def res_iff Let_def)
qed

lemma more_acquiresleep:
  "acquiresleep ch (buf_lock b) (set_buf_lock b) s = Ok v t \<Longrightarrow> kbio.more t = kbio.more s"
  by (auto simp: acquiresleep_def res_iff Let_def sleep_not_Ok myproc_def set_buf_lock_def upd_buf_def
      split: if_splits option.splits dest!: more_acquire more_release)

lemma more_releasesleep: "releasesleep ch (set_buf_lock b) s = Ok v t \<Longrightarrow> kbio.more t = kbio.more s"
  by (auto simp: releasesleep_def res_iff Let_def wakeup_def set_buf_lock_def upd_buf_def
      dest!: more_acquire more_release more_wakeup)

lemma more_holdingsleep: "holdingsleep ch (buf_lock b) s = Ok v t \<Longrightarrow> kbio.more t = kbio.more s"
  by (auto simp: holdingsleep_def res_iff Let_def myproc_def split: option.splits dest!: more_acquire more_release)

lemma more_bget:
  assumes "bget dev n s = Ok v t"
  shows "kbio.more t = kbio.more s"
proof (cases "L_bcache \<in> set (held s)")
  case True
  then show ?thesis using assms by (simp add: bget_def acquire_def)
next
  case False
  define u where "u = s\<lparr>held := L_bcache # held s\<rparr>"
  have lock: "kbio.more t = kbio.more u"
    if "kbind (release L_bcache (upd_buf b f u)) (\<lambda>_ s. kbind
      (acquiresleep (Ch_buflock b) (buf_lock b) (set_buf_lock b) s) (\<lambda>_ s. Ok b s)) = Ok v t" for b f
    using that by (auto simp: res_iff upd_buf_def dest!: more_release more_acquiresleep)
  have "kbio.more t = kbio.more u"
    using assms False lock by (auto simp: bget_def Let_def u_def [symmetric] split: option.splits)
  then show ?thesis by (simp add: u_def)
qed

lemma more_bread:
  assumes "bread dev n s = Ok v t"
  shows "kbio.more t = kbio.more s"
proof -
  obtain b u where u: "bget dev n s = Ok b u"
    and t: "t = (if \<not> b_valid (bufs u b) then upd_buf b (b_valid_update (\<lambda>_. True)) (disk_rw b False u) else u)"
    using assms unfolding bread_def kbind_Ok_iff by auto
  have "kbio.more t = kbio.more u" unfolding t by (simp add: disk_rw_def upd_buf_def)
  then show ?thesis using more_bget [OF u] by simp
qed

lemma more_bwrite: "bwrite b s = Ok v t \<Longrightarrow> kbio.more t = kbio.more s"
  by (auto simp: bwrite_def res_iff disk_rw_def split: if_splits dest!: more_holdingsleep)

lemma more_brelse:
  assumes "brelse b s = Ok v t"
  shows "kbio.more t = kbio.more s"
proof -
  obtain s1 s2 s3 where 1: "holdingsleep (Ch_buflock b) (buf_lock b) s = Ok True s1"
    "releasesleep (Ch_buflock b) (set_buf_lock b) s1 = Ok () s2" "acquire L_bcache s2 = Ok () s3"
    and 2: "(let s = upd_buf b (\<lambda>x. x\<lparr>b_refcnt := b_refcnt x - 1\<rparr>) s3;
               s = (if b_refcnt (bufs s b) = 0 then s\<lparr>bufs := link_front b (unlink b (bufs s))\<rparr> else s) in
           release L_bcache s) = Ok v t"
    using assms by (auto simp: brelse_def res_iff)
  have "kbio.more t = kbio.more s3"
    using more_release [OF 2 [unfolded Let_def]] by (simp add: upd_buf_def)
  then show ?thesis using 1 more_holdingsleep more_releasesleep more_acquire by metis
qed

lemma more_bpin: "bpin b s = Ok v t \<Longrightarrow> kbio.more t = kbio.more s"
  by (auto simp: bpin_def res_iff upd_buf_def dest!: more_acquire more_release)

lemma more_bunpin: "bunpin b s = Ok v t \<Longrightarrow> kbio.more t = kbio.more s"
  by (auto simp: bunpin_def res_iff upd_buf_def dest!: more_acquire more_release)

lemma lg_more: "kbio.more t = kbio.more s \<Longrightarrow> lg t = lg s" for s :: "'a klog_scheme"
  by (cases s; cases t) simp

lemmas more_bio = more_acquire more_release more_wakeup more_bread more_bwrite more_brelse more_bpin more_bunpin

lemmas lg_bread = more_bread [THEN lg_more]
lemmas lg_bwrite = more_bwrite [THEN lg_more]
lemmas lg_brelse = more_brelse [THEN lg_more]
lemmas lg_bunpin = more_bunpin [THEN lg_more]

lemma lg_upd_buf [simp]: "lg (upd_buf b f s) = lg s"
  by (simp add: upd_buf_def)

lemma lg_write_log_loop: "write_log_loop is s = Ok () t \<Longrightarrow> lg t = lg s"
proof (induction "is" arbitrary: s)
  case (Cons i "is")
  obtain b1 s1 b2 s2 s4 s5 s6 where s: "bread (lg_dev (lg s)) (log_data (lg_start (lg s)) i) s = Ok b1 s1"
    "bread (lg_dev (lg s1)) (lblock s1 i) s1 = Ok b2 s2"
    "bwrite b1 (upd_buf b1 (b_data_update (\<lambda>_. b_data (bufs s2 b2))) s2) = Ok () s4"
    "brelse b2 s4 = Ok () s5" "brelse b1 s5 = Ok () s6" "write_log_loop is s6 = Ok () t"
    using Cons.prems by (auto simp: res_iff Let_def split: if_splits)
  then show ?case
    using Cons.IH [OF s(6)] s(1,2) [THEN lg_bread] s(3) [THEN lg_bwrite] s(4,5) [THEN lg_brelse] by simp
qed simp

lemma lg_install_block:
  assumes "install_block r i s = Ok () t"
  shows "lg t = lg s"
proof -
  obtain b1 s1 b2 s2 s4 s5 s6 where s: "bread (lg_dev (lg s)) (log_data (lg_start (lg s)) i) s = Ok b1 s1"
    "bread (lg_dev (lg s1)) (lblock s1 i) s1 = Ok b2 s2"
    "bwrite b2 (upd_buf b2 (b_data_update (\<lambda>_. b_data (bufs s2 b1))) s2) = Ok () s4"
    "(if \<not> r then bunpin b2 s4 else Ok () s4) = Ok () s5"
    "brelse b1 s5 = Ok () s6" "brelse b2 s6 = Ok () t"
    using assms unfolding install_block_def by (cases r) (auto simp: res_iff Let_def split: if_split_asm)
  moreover have "lg s5 = lg s4" using s(4) lg_bunpin by (auto split: if_splits)
  ultimately show ?thesis
    using s(1,2) [THEN lg_bread] s(3) [THEN lg_bwrite] s(5,6) [THEN lg_brelse] by simp
qed

lemma lg_recovery_message: "recovery_message r i s = Ok v t \<Longrightarrow> lg t = lg s"
  by (auto simp: recovery_message_def printed_def dest!: printed_printf split: if_splits)

lemma lg_install_trans_loop: "install_trans_loop r is s = Ok () t \<Longrightarrow> lg t = lg s"
  by (induction "is" arbitrary: s)
    (auto simp: kbind_Ok_iff split: if_split_asm dest!: lg_install_block lg_recovery_message)

lemma lg_write_head:
  assumes "write_head s = Ok () t"
  shows "lg t = lg s"
proof -
  obtain b s1 f s2 where s: "bread (lg_dev (lg s)) (lg_start (lg s)) s = Ok b s1"
    "bwrite b (upd_buf b f s1) = Ok () s2" "brelse b s2 = Ok () t"
    using assms by (auto simp: write_head_def res_iff Let_def split: if_splits)
  then show ?thesis using s(1) [THEN lg_bread] s(2) [THEN lg_bwrite] s(3) [THEN lg_brelse] by simp
qed

lemma lg_commit:
  assumes "commit s = Ok () t"
  shows "lg t = (if lgn s > 0 then lg_lh_update (lh_n_update (\<lambda>_. 0)) (lg s) else lg s)"
proof (cases "lgn s > 0")
  case True
  then obtain s1 s2 s3 where s: "write_log s = Ok () s1" "write_head s1 = Ok () s2" "install_trans False s2 = Ok () s3"
    "write_head (upd_lh (lh_n_update (\<lambda>_. 0)) s3) = Ok () t"
    using assms by (auto simp: commit_def res_iff Let_def)
  then show ?thesis
    using True lg_write_log_loop [OF s(1) [unfolded write_log_def]] lg_write_head [OF s(2)] lg_write_head [OF s(4)]
      lg_install_trans_loop [OF s(3) [unfolded install_trans_def]] by simp
qed (use assms in \<open>simp add: commit_def\<close>)

text \<open>
  The system calls in progress, each with the number of blocks it may still log. Any step of the
  kernel that leaves the log alone may come in between.
\<close>

inductive log_ops :: "'a klog_scheme \<times> nat list \<Rightarrow> 'a klog_scheme \<times> nat list \<Rightarrow> bool" where
  op_begin: "begin_op s = Ok () t \<Longrightarrow> log_ops (s, bs) (t, bs @ [MAXOPBLOCKS])"
| op_write: "j < length bs \<Longrightarrow> 0 < bs ! j \<Longrightarrow> log_write b s = Ok () t \<Longrightarrow> log_ops (s, bs) (t, bs[j := bs ! j - 1])"
| op_end: "j < length bs \<Longrightarrow> end_op s = Ok () t \<Longrightarrow> log_ops (s, bs) (t, take j bs @ drop (Suc j) bs)"
| op_other: "lg t = lg s \<Longrightarrow> log_ops (s, bs) (t, bs)"

definition log_start :: "'a klog_scheme \<times> nat list \<Rightarrow> bool" where
  "log_start x \<longleftrightarrow> snd x = [] \<and> lgn (fst x) = 0 \<and> lg_outstanding (lg (fst x)) = 0 \<and> \<not> lg_committing (lg (fst x))"

definition log_space :: "'a klog_scheme \<times> nat list \<Rightarrow> bool" where
  "log_space x \<longleftrightarrow> (let s = fst x; bs = snd x in
     0 \<le> lgn s \<and> \<not> lg_committing (lg s) \<and> lg_outstanding (lg s) = int (length bs) \<and>
     (\<forall>b\<in>set bs. b \<le> MAXOPBLOCKS) \<and> lgn s + int (sum_list bs) \<le> int LOGBLOCKS)"

lemma lg_begin_op:
  assumes "begin_op s = Ok () t"
  shows "\<not> lg_committing (lg s) \<and> lgn s + (lg_outstanding (lg s) + 1) * 10 \<le> 30 \<and>
    lg t = (lg s)\<lparr>lg_outstanding := lg_outstanding (lg s) + 1\<rparr>"
  using assms by (auto simp: begin_op_def res_iff acquire_def release_def upd_lg_def sleep_not_Ok split: if_splits)

lemma lg_log_write:
  assumes "log_write b s = Ok () t" and "0 \<le> lgn s"
  shows "lgn s \<le> lgn t \<and> lgn t \<le> lgn s + 1 \<and> lg_outstanding (lg t) = lg_outstanding (lg s) \<and>
    lg_committing (lg t) = lg_committing (lg s)"
proof -
  define u where "u = s\<lparr>held := L_log # held s\<rparr>"
  define i where "i = log_write_scan (lblock u) (b_blockno (bufs u b)) [0..<nat (lgn u)] (nat (lgn u))"
  define s1 where "s1 = upd_lh (\<lambda>h. h\<lparr>lh_block := (lh_block h)(i := b_blockno (bufs u b))\<rparr>) u"
  define r where "r = (if int i = lgn s1 then kbind (bpin b s1) (\<lambda>_ s. Ok () (upd_lh (\<lambda>h. h\<lparr>lh_n := lh_n h + 1\<rparr>) s))
      else Ok () s1)"
  have "acquire L_log s = Ok () u"
    using assms(1) by (cases "L_log \<in> set (held s)") (simp_all add: log_write_def acquire_def u_def)
  then have "kbind r (\<lambda>_ s. release L_log s) = Ok () t"
    using assms(1) by (simp only: log_write_def kbind.simps Let_def r_def s1_def i_def res.distinct simp_thms split: if_split_asm)
  then obtain s2 where 2: "r = Ok () s2" and t: "release L_log s2 = Ok () t" by (auto simp: res_iff)
  have l1: "lgn s1 = lgn s" "lg_outstanding (lg s1) = lg_outstanding (lg s)" "lg_committing (lg s1) = lg_committing (lg s)"
    by (simp_all add: s1_def u_def)
  have "lgn s \<le> lgn s2 \<and> lgn s2 \<le> lgn s + 1 \<and> lg_outstanding (lg s2) = lg_outstanding (lg s) \<and>
    lg_committing (lg s2) = lg_committing (lg s)"
    using 2 [unfolded r_def] l1 by (auto simp: res_iff split: if_splits dest!: more_bpin lg_more)
  then show ?thesis using lg_more [OF more_release [OF t]] by simp
qed

lemma lg_end_op:
  assumes "end_op s = Ok () t" and "0 \<le> lgn s"
  shows "\<not> lg_committing (lg t) \<and> lg_outstanding (lg t) = lg_outstanding (lg s) - 1 \<and>
    lgn t = (if lg_outstanding (lg s) = 1 then 0 else lgn s)"
proof -
  let ?f = "\<lambda>l :: logstate. l\<lparr>lg_outstanding := lg_outstanding l - 1\<rparr>"
  define u where "u = upd_lg ?f (s\<lparr>held := L_log # held s\<rparr>)"
  have u: "lg u = ?f (lg s)" by (simp add: u_def)
  have nc: "\<not> lg_committing (lg s)" and nh: "L_log \<notin> set (held s)"
    using assms(1) by (auto simp: end_op_def acquire_def Let_def split: if_splits)
  show ?thesis
  proof (cases "lg_outstanding (lg s) = 1")
    case True
    let ?c = "\<lambda>b. upd_lg (lg_committing_update (\<lambda>_. b))"
    obtain s1 s2 s3 s4 where s: "release L_log (?c True u) = Ok () s1" "commit s1 = Ok () s2"
      "acquire L_log s2 = Ok () s3" "wakeup Ch_log (?c False s3) = Ok () s4" "release L_log s4 = Ok () t"
      using assms(1) nc nh True by (auto simp: end_op_def Let_def u_def res_iff)
    have l1: "lg s1 = (?f (lg s))\<lparr>lg_committing := True\<rparr>"
      using lg_more [OF more_release [OF s(1)]] u by simp
    have l3: "lg s3 = lg s2" using lg_more [OF more_acquire [OF s(3)]] .
    have l4: "lg t = (lg s3)\<lparr>lg_committing := False\<rparr>"
      using lg_more [OF more_release [OF s(5)]] lg_more [OF more_wakeup [OF s(4) [unfolded wakeup_def]]] by simp
    show ?thesis using l1 lg_commit [OF s(2)] l3 l4 True assms(2) by (auto split: if_splits)
  next
    case False
    then obtain s1 where s: "wakeup Ch_log u = Ok () s1" "release L_log s1 = Ok () t"
      using assms(1) nc nh by (auto simp: end_op_def Let_def u_def res_iff)
    have "lg t = lg u"
      using lg_more [OF more_release [OF s(2)]] lg_more [OF more_wakeup [OF s(1) [unfolded wakeup_def]]] by simp
    then show ?thesis using u nc False by simp
  qed
qed

lemma sum_list_take_drop:
  assumes "j < length bs"
  shows "sum_list (take j bs @ drop (Suc j) bs) + bs ! j = sum_list (bs :: nat list)"
proof -
  have "bs = take j bs @ bs ! j # drop (Suc j) bs" using assms by (rule id_take_nth_drop)
  then have "sum_list bs = sum_list (take j bs @ bs ! j # drop (Suc j) bs)" by simp
  then show ?thesis by simp
qed

interpretation logspace: inv_system log_start log_ops log_space
proof unfold_locales
  show "log_space x" if "log_start x" for x :: "'a klog_scheme \<times> nat list"
    using that by (simp add: log_start_def log_space_def Let_def)
next
  show "log_space y" if inv: "log_space x" and step: "log_ops x y" for x y :: "'a klog_scheme \<times> nat list"
    using step inv
  proof (cases rule: log_ops.cases)
    case (op_begin s t bs)
    have b: "b \<le> 10" if "b \<in> set bs" for b using inv op_begin(1) that by (simp add: log_space_def Let_def)
    then have "sum_list bs \<le> length bs * 10" by (induction bs) (auto simp: add_mono)
    then show ?thesis using inv b lg_begin_op [OF op_begin(3)] op_begin(1,2) by (auto simp: log_space_def Let_def)
  next
    case (op_write j bs b s t)
    have i: "0 \<le> lgn s" using inv op_write(1) by (simp add: log_space_def Let_def)
    have "bs ! j \<in> set bs" using op_write(3) by simp
    then have b: "\<forall>b\<in>set (bs[j := bs ! j - 1]). b \<le> 10"
      using inv op_write(1) set_update_subset_insert [of bs j "bs ! j - 1"] by (fastforce simp: log_space_def Let_def)
    have "sum_list (bs[j := bs ! j - 1]) + 1 = sum_list bs"
      using op_write(3,4) member_le_sum_list [OF \<open>bs ! j \<in> set bs\<close>] by (simp add: sum_list_update)
    then show ?thesis using inv b lg_log_write [OF op_write(5) i] op_write(1,2) by (simp add: log_space_def Let_def)
  next
    case (op_end j bs s t)
    have i: "0 \<le> lgn s" using inv op_end(1) by (simp add: log_space_def Let_def)
    have s: "set (take j bs @ drop (Suc j) bs) \<subseteq> set bs" by (auto dest: in_set_takeD in_set_dropD)
    have l: "length bs = 1 \<Longrightarrow> take j bs @ drop (Suc j) bs = []" using op_end(3) by simp
    show ?thesis
      using inv s l lg_end_op [OF op_end(4) i] op_end(1-3) sum_list_take_drop [OF op_end(3)]
      by (auto simp: log_space_def Let_def)
  next
    case (op_other t s bs)
    then show ?thesis using inv by (simp add: log_space_def Let_def)
  qed
qed

subsection \<open>A state after boot, and one with a transaction\<close>

definition log_boot :: klog where
  "log_boot = kbio.extend bio_boot \<lparr>lg = \<lparr>lg_start = 2, lg_outstanding = 0, lg_committing = False, lg_dev = ROOTDEV,
     lg_lh = \<lparr>lh_n = 0, lh_block = (\<lambda>_. 0)\<rparr>\<rparr>\<rparr>"

lemma log_boot_fields [simp]:
  "bufs log_boot = bufs bio_boot" "disk log_boot = disk bio_boot" "dhist log_boot = []"
  "lg log_boot = \<lparr>lg_start = 2, lg_outstanding = 0, lg_committing = False, lg_dev = ROOTDEV,
     lg_lh = \<lparr>lh_n = 0, lh_block = (\<lambda>_. 0)\<rparr>\<rparr>"
  "held log_boot = held bio_boot" "curproc log_boot = curproc bio_boot" "procs log_boot = procs bio_boot"
  by (simp_all add: log_boot_def kbio.defs bio_boot_views)

lemma log_boot_fresh: "fresh log_boot"
  using bio_boot_views by (simp add: fresh_def quiet_def ready_def)

lemma hdr_zero_block: "hdr_n zero_block = 0" "hdr_blocks zero_block = []" "length zero_block = BSIZE"
proof -
  have "get32 zero_block 0 = 0"
    using le_word_zeros [of 4] by (simp add: getw_def getb_def zero_block_def del: replicate.simps)
  then show "hdr_n zero_block = 0" by (simp add: hdr_n_def)
  then show "hdr_blocks zero_block = []" by (simp add: hdr_blocks_def)
  show "length zero_block = BSIZE" by (simp add: zero_block_def)
qed

text \<open>Block 50 has been changed in buffer 0, logged and released.\<close>

definition log_txn :: klog where
  "log_txn = log_boot\<lparr>
     bufs := (bufs log_boot)(0 := (bufs log_boot 0)\<lparr>b_dev := ROOTDEV, b_blockno := 50, b_refcnt := 1, b_valid := True,
       b_data := replicate BSIZE 7\<rparr>),
     lg := (lg log_boot)\<lparr>lg_lh := \<lparr>lh_n = 1, lh_block = (\<lambda>_. 50)\<rparr>\<rparr>\<rparr>"

lemma log_txn_views:
  "bcache_inv log_txn" "refs log_txn = (\<lambda>_. 0)(50 := 1)" "lockedby log_txn = (\<lambda>_. None)"
  "blk log_txn = (\<lambda>_. zero_block)(50 := replicate BSIZE 7)"
proof -
  let ?B = "bufs bio_boot"
  let ?D = "disk bio_boot"
  define x where "x = (?B 0)\<lparr>b_dev := ROOTDEV, b_blockno := 50, b_valid := False, b_refcnt := 1\<rparr>"
  define y where "y = x\<lparr>b_valid := True, b_data := replicate BSIZE 7\<rparr>"
  have n: "slot_of ?B 50 = None"
    using binit_cache(2) by (auto simp: slot_of_None bio_boot_def binit_fields kproc.defs blank_buf_def)
  have r: "b_refcnt (?B 0) = 0" by (simp add: bio_boot_def binit_fields kproc.defs blank_buf_def)
  note v = views_recycle [OF bio_boot_views(1) n _ r, of x]
  have v1: "slot_of (?B(0 := x)) 50 = Some 0" "cache_inv (?B(0 := x)) ?D" using v by (simp_all add: x_def)
  have e: "bufs log_txn = (?B(0 := x))(0 := y)" by (simp add: log_txn_def x_def y_def)
  have d: "disk log_txn = ?D" by (simp add: log_txn_def)
  have yd: "b_dev y = ROOTDEV" "b_blockno y = 50" by (simp_all add: x_def y_def)
  have "cache_inv ((?B(0 := x))(0 := y)) ?D"
    by (rule cache_inv_upd [OF v1(2,1) yd]) (simp_all add: x_def y_def)
  then show "bcache_inv log_txn" unfolding e d .
  note u = views_upd [OF v1(1) yd]
  show "refs log_txn = (\<lambda>_. 0)(50 := 1)"
    unfolding e u using v bio_boot_views by (simp add: x_def y_def)
  have "\<not> sl_locked (b_lock (?B 0))" by (simp add: bio_boot_def binit_fields initsleeplock_def)
  then show "lockedby log_txn = (\<lambda>_. None)"
    unfolding e u using v bio_boot_views by (simp add: x_def y_def fun_eq_iff)
  show "blk log_txn = (\<lambda>_. zero_block)(50 := replicate BSIZE 7)"
    unfolding e d u using v bio_boot_views by (simp add: x_def y_def)
qed

lemma log_txn_ok: "txn log_txn"
proof -
  have lb: "lblocks log_txn = [50]" by (simp add: log_txn_def lblocks_def)
  have "50 \<notin> log_area 2"
  proof
    assume "50 \<in> log_area 2"
    then obtain i where i: "i < LOGBLOCKS" "50 = log_data 2 i" by (auto simp: log_area_def)
    have "unat (log_data 2 i) = i + 3" using i(1) unfolding log_data_def by (simp add: unat_word_ariths unat_of_nat)
    moreover have "unat (log_data 2 i) = 50" by (simp add: i(2) [symmetric])
    ultimately show False using i(1) by simp
  qed
  moreover have "ready log_txn" using bio_boot_views by (simp add: log_txn_def ready_def)
  ultimately show ?thesis
    using log_txn_views hdr_zero_block
    by (auto simp: txn_def quiet_def lb) (simp_all add: log_txn_def)
qed

subsection \<open>Properties\<close>

text \<open>A commit that is not interrupted has cleared the header and installed the transaction.\<close>

lemma commit_final:
  assumes "txn s" "0 < lgn s" "st = lg_start (lg s)" "hdr_n (disk s st) = 0" "m \<notin> log_area st"
  shows "apply_writes (commit_writes s) (disk s) m = blk s m"
proof -
  let ?ws = "commit_writes s"
  let ?D = "apply_writes ?ws (disk s)"
  have len: "\<not> length ?ws \<le> nat (lgn s)" by (simp add: commit_writes_def Let_def)
  have l: "length (blk s st) = BSIZE" "lgn s < 30" using assms(1,3) by (simp_all add: txn_def)
  have h: "length (hdr_write (nat (lgn s)) (lblock s) (blk s st)) = BSIZE" using hdr_write(1) [OF l(1)] l(2) by simp
  have "hdr_n (?D st) = 0" using hdr_write(2) [OF h, of 0] by (simp add: commit_writes_def Let_def assms(3))
  then have "recovered st ?D = ?D" by (rule recovered_empty)
  moreover have "recovered st ?D m = blk s m" using commit_prefix [OF assms(1-4) refl, of "length ?ws"] len assms(5) by simp
  ultimately show ?thesis by simp
qed

lemma commit_crash:
  fixes b :: "'a klog_scheme"
  assumes "txn s" "0 < lgn s" "st = lg_start (lg s)" "hdr_n (disk s st) = 0"
    and b: "fresh b" "disk b = apply_writes (take k (commit_writes s)) (disk s)"
  shows "\<exists>r. initlog ROOTDEV st b = Ok () r \<and>
    ((\<forall>m. m \<notin> log_area st \<longrightarrow> disk r m = disk s m) \<or> (\<forall>m. m \<notin> log_area st \<longrightarrow> disk r m = blk s m))"
proof -
  have p: "hdr_ok st (disk b) \<and> (if k \<le> nat (lgn s) then \<forall>m. m \<notin> log_area st \<longrightarrow> recovered st (disk b) m = disk s m
      else \<forall>m. m \<notin> log_area st \<longrightarrow> recovered st (disk b) m = blk s m)"
    using commit_prefix [OF assms(1-4)] b(2) by simp
  then obtain r where "initlog ROOTDEV st b = Ok () r" "\<And>m. m \<notin> log_area st \<Longrightarrow> disk r m = recovered st (disk b) m"
    using initlog_recovers [OF b(1), of st] by metis
  then show ?thesis using p by (auto split: if_splits)
qed

text \<open>C1: Commit is atomic under crashes. The disk writes of \<open>commit\<close> are a list \<open>ws\<close>; if the machine
  stops after any number of them and boots again, \<open>initlog\<close> succeeds and leaves every block outside
  the log either as it was before the transaction, for all blocks, or with the contents of the
  transaction, for all blocks. If it does not stop, the home blocks hold the transaction.\<close>

theorem commit_crash_atomic:
  fixes s :: "'a klog_scheme"
  assumes "txn s" and "st = lg_start (lg s)" and "hdr_n (disk s st) = 0"
  shows "\<exists>t ws. commit s = Ok () t \<and> dhist t = dhist s @ ws \<and> disk t = apply_writes ws (disk s) \<and>
    (\<forall>m. m \<notin> log_area st \<longrightarrow> disk t m = blk s m) \<and>
    (\<forall>k. \<forall>b :: 'a klog_scheme. fresh b \<and> disk b = apply_writes (take k ws) (disk s) \<longrightarrow>
       (\<exists>r. initlog ROOTDEV st b = Ok () r \<and>
         ((\<forall>m. m \<notin> log_area st \<longrightarrow> disk r m = disk s m) \<or> (\<forall>m. m \<notin> log_area st \<longrightarrow> disk r m = blk s m))))"
proof (cases "0 < lgn s")
  case True
  let ?ws = "commit_writes s"
  obtain t where t: "commit s = Ok () t" "wrote ?ws (upd_lh (lh_n_update (\<lambda>_. 0 :: int)) s) t" "refs t = (\<lambda>_. 0)"
    using commit_spec [OF assms(1) True] .
  have "dhist t = dhist s @ ?ws" "disk t = apply_writes ?ws (disk s)" using t(2) by (simp_all add: wrote_def)
  then show ?thesis using t(1) commit_final [OF assms(1) True assms(2,3)] commit_crash [OF assms(1) True assms(2,3)]
    by (intro exI [of _ t] exI [of _ ?ws]) auto
next
  case False
  have x: "quiet s" "lgn s = 0" "lblocks s = []" and len: "length (blk s st) = BSIZE"
    and r: "refs s = (\<lambda>m. if m \<in> set (lblocks s) then 1 else 0)"
    using assms(1,2) False by (simp_all add: txn_def lblocks_def)
  have B: "blk s m = disk s m" for m using x r by (intro blk_unreferenced) (simp_all add: quiet_def)
  have ok: "hdr_ok st (disk s)" using assms(3) len B by (simp add: hdr_ok_def hdr_blocks_def)
  have "\<exists>r. initlog ROOTDEV st b = Ok () r \<and> (\<forall>m. m \<notin> log_area st \<longrightarrow> disk r m = disk s m)"
    if "fresh b" "disk b = disk s" for b :: "'a klog_scheme"
    using initlog_recovers [OF that(1), of st] ok that(2) recovered_empty [of "disk s" st] assms(3) by metis
  then show ?thesis using x B False by (intro exI [of _ s] exI [of _ "[]"]) (auto simp: commit_def)
qed

theorem commit_crash_atomic_witness:
  "\<exists>t ws. commit log_txn = Ok () t \<and> dhist t = dhist log_txn @ ws \<and> disk t 50 = replicate BSIZE 7 \<and>
    (\<forall>k. \<forall>b :: klog. fresh b \<and> disk b = apply_writes (take k ws) (disk log_txn) \<longrightarrow>
       (\<exists>r. initlog ROOTDEV 2 b = Ok () r \<and> (disk r 50 = zero_block \<or> disk r 50 = replicate BSIZE 7)))"
proof -
  have st: "2 = lg_start (lg log_txn)" and h: "hdr_n (disk log_txn 2) = 0" and D: "disk log_txn 50 = zero_block"
    using hdr_zero_block bio_boot_views by (simp_all add: log_txn_def)
  have B: "blk log_txn 50 = replicate BSIZE 7" unfolding log_txn_views(4) by simp
  have "50 \<notin> log_area 2" using log_txn_ok st [symmetric] by (simp add: txn_def lblocks_def log_txn_def)
  then show ?thesis
    using commit_crash_atomic [OF log_txn_ok st h] unfolding B [symmetric] D [symmetric] by blast
qed

text \<open>A disk that recovery was writing recovers to the same home blocks.\<close>

lemma recovered_install_prefix:
  assumes ok: "hdr_ok st D0" and D: "D = apply_writes (take k (install_writes st D0)) D0"
  shows "hdr_ok st D" and "recovered st D m = recovered st D0 m"
proof -
  let ?W = "install_writes st D0"
  have hb: "fst ` set ?W = set (hdr_blocks (D0 st))"
    by (auto simp: install_writes_def length_hdr_blocks [symmetric] image_image in_set_conv_nth)
  have o: "D m = D0 m" if "m \<notin> set (hdr_blocks (D0 st))" for m
    unfolding D using that hb in_set_takeD [of _ k ?W] by (intro apply_writes_other) force
  have la: "m \<notin> set (hdr_blocks (D0 st))" if "m \<in> log_area st" for m using ok that by (auto simp: hdr_ok_def)
  have st: "D st = D0 st" using o la by (simp add: log_area_def)
  then show ok': "hdr_ok st D" using ok by (simp add: hdr_ok_def)
  show "recovered st D m = recovered st D0 m"
  proof (cases "m \<in> set (hdr_blocks (D0 st))")
    case True
    then obtain i where i: "i < nat (hdr_n (D0 st))" "m = hdr_blocks (D0 st) ! i"
      by (auto simp: in_set_conv_nth length_hdr_blocks)
    have "i < LOGBLOCKS" using i(1) ok by (auto simp: hdr_ok_def)
    then have "D (log_data st i) = D0 (log_data st i)" using o la by simp
    then show ?thesis using recovered_logged [OF ok', of i] recovered_logged [OF ok i(1)] i st by simp
  next
    case False
    then show ?thesis using recovered_other [of m D st] recovered_other [of m D0 st] st o by simp
  qed
qed

lemma recovered_cleared:
  assumes "length h = BSIZE" "hdr_n h = 0" "hdr_blocks h = []" and D: "D = (apply_writes (install_writes st D0) D0)(st := h)"
  shows "hdr_ok st D" and "m \<notin> log_area st \<Longrightarrow> recovered st D m = recovered st D0 m"
proof -
  show "hdr_ok st D" using assms(1-3) by (simp add: D hdr_ok_def)
  have "recovered st D = D" using assms(2) by (intro recovered_empty) (simp add: D)
  then show "recovered st D m = recovered st D0 m" if "m \<notin> log_area st" using that by (auto simp: D recovered_def log_area_def)
qed

text \<open>C7: Recovery can itself be interrupted: if the machine stops after any number of the writes of
  \<open>initlog\<close> and boots again, the second recovery leaves the same contents in every block outside
  the log as an uninterrupted one.\<close>

theorem recovery_idempotent:
  fixes s :: "'a klog_scheme"
  assumes "fresh s" and "hdr_ok st (disk s)"
  shows "\<exists>t ws. initlog ROOTDEV st s = Ok () t \<and> dhist t = dhist s @ ws \<and>
    (\<forall>k. \<forall>b :: 'a klog_scheme. fresh b \<and> disk b = apply_writes (take k ws) (disk s) \<longrightarrow>
       (\<exists>r. initlog ROOTDEV st b = Ok () r \<and> (\<forall>m. m \<notin> log_area st \<longrightarrow> disk r m = disk t m)))"
proof -
  let ?D = "disk s"
  let ?W = "install_writes st ?D"
  obtain t bl where t: "initlog ROOTDEV st s = Ok () t"
    "disk t = apply_writes (?W @ [(st, hdr_write 0 bl (?D st))]) ?D"
    "dhist t = dhist s @ ?W @ [(st, hdr_write 0 bl (?D st))]"
    using initlog_spec [OF assms] by metis
  let ?h = "hdr_write 0 bl (?D st)"
  have h: "length ?h = BSIZE" "hdr_n ?h = 0" "hdr_blocks ?h = []"
    using hdr_write [of "?D st" 0 bl] assms(2) by (simp_all add: hdr_ok_def)
  have home: "disk t m = recovered st ?D m" if "m \<notin> log_area st" for m
    using that by (auto simp: t(2) recovered_def log_area_def)
  have *: "hdr_ok st D \<and> (\<forall>m. m \<notin> log_area st \<longrightarrow> recovered st D m = recovered st ?D m)"
    if D: "D = apply_writes (take k (?W @ [(st, ?h)])) ?D" for k D
  proof (cases "k \<le> length ?W")
    case True
    then show ?thesis using recovered_install_prefix [OF assms(2), of D k] D by simp
  next
    case False
    then show ?thesis using recovered_cleared [OF h, of D st ?D] D by simp
  qed
  have "\<exists>r. initlog ROOTDEV st b = Ok () r \<and> (\<forall>m. m \<notin> log_area st \<longrightarrow> disk r m = disk t m)"
    if "fresh b" "disk b = apply_writes (take k (?W @ [(st, ?h)])) ?D" for k and b :: "'a klog_scheme"
    using initlog_recovers [OF that(1), of st] * [OF that(2)] home by metis
  then show ?thesis using t by blast
qed

theorem recovery_idempotent_witness:
  "\<exists>t ws. initlog ROOTDEV 2 log_boot = Ok () t \<and> dhist t = dhist log_boot @ ws \<and>
    (\<forall>k. \<forall>b :: klog. fresh b \<and> disk b = apply_writes (take k ws) (disk log_boot) \<longrightarrow>
       (\<exists>r. initlog ROOTDEV 2 b = Ok () r \<and> (\<forall>m. m \<notin> log_area 2 \<longrightarrow> disk r m = disk t m)))"
proof -
  have "hdr_ok 2 (disk log_boot)" using hdr_zero_block bio_boot_views by (simp add: hdr_ok_def)
  then show ?thesis by (rule recovery_idempotent [OF log_boot_fresh])
qed

text \<open>C11: Space for every operation is reserved: in every history of system calls that each log at
  most \<open>MAXOPBLOCKS\<close> new blocks between \<open>begin_op\<close> and \<open>end_op\<close>, interleaved in any way, a call of
  \<open>log_write\<close> within its allowance succeeds; the log never overflows. A block that is already
  logged is absorbed, a new one is appended and pinned.\<close>

theorem log_reservation:
  assumes "reach log_start log_ops (s, bs)" and "j < length bs" and "0 < bs ! j"
    and "bcache_inv s" and "L_log \<notin> set (held s)" and "L_bcache \<notin> set (held s)"
    and "has_buf s n b" and "refs s n < 0xFFFFFFFF"
  shows "\<exists>t. log_write b s = Ok () t \<and> lgn t \<le> int LOGBLOCKS \<and> blk t = blk s \<and> disk t = disk s \<and>
    (if n \<in> set (lblocks s) then lblocks t = lblocks s \<and> refs t = refs s
     else lblocks t = lblocks s @ [n] \<and> refs t = (refs s)(n := refs s n + 1))"
proof -
  have sp: "log_space (s, bs)" using logspace.reach_inv [OF assms(1)] .
  have "bs ! j \<in> set bs" using assms(2) by simp
  then have "bs ! j \<le> sum_list bs" by (simp add: member_le_sum_list)
  then have k: "0 \<le> lgn s" "lgn s < int LOGBLOCKS" "1 \<le> lg_outstanding (lg s)"
    using sp assms(2,3) by (auto simp: log_space_def Let_def)
  obtain t f where t: "log_write b s = Ok () t"
    "bupd (upd_lh f s) t (blk s) (if n \<in> set (lblocks s) then refs s else (refs s)(n := refs s n + 1))
       (lockedby s) (disk s) (dhist s)"
    "lblocks t = (if n \<in> set (lblocks s) then lblocks s else lblocks s @ [n])" "lgn t = int (length (lblocks t))"
    using log_write_spec [OF assms(4-7) k assms(8)] by metis
  have "length (lblocks s) = nat (lgn s)" by (simp add: lblocks_def)
  then have "lgn t \<le> int LOGBLOCKS" using t(3,4) k by auto
  then show ?thesis using t(1,3) bupdD(3,4,6) [OF t(2)] by auto
qed

theorem log_reservation_witness:
  "\<exists>s b t. reach log_start log_ops (s :: klog, [10]) \<and> has_buf s 50 b \<and> log_write b s = Ok () t \<and> lblocks t = [50]"
proof -
  have h: "held log_boot = []" using bio_boot_views by (simp add: ready_def)
  let ?f = "\<lambda>l :: logstate. l\<lparr>lg_outstanding := lg_outstanding l + 1\<rparr>"
  define s1 where "s1 = upd_lg ?f log_boot"
  have "log_boot\<lparr>lg := x, held := []\<rparr> = log_boot\<lparr>lg := x\<rparr>" for x using h by simp
  then have 1: "begin_op log_boot = Ok () s1" using h by (simp add: begin_op_def s1_def upd_lg_def)
  have r: "bcache_inv s1" "ready s1" "can_bread s1 50"
    using log_boot_fresh by (simp_all add: s1_def fresh_def quiet_def can_bread_def used_blocks_def)
  obtain b s2 where 2: "has_buf s2 50 b"
    "bupd s1 s2 (blk s1) ((refs s1)(50 := refs s1 50 + 1)) ((lockedby s1)(50 := Some (mypid s1))) (disk s1) (dhist s1)"
    using bread_ok [OF r] .
  note u = bupdD [OF 2(2)]
  have l: "lg s2 = lg s1" using bframe_lg(1) [OF u(2)] .
  have "log_start (log_boot, [])" by (simp add: log_start_def)
  then have "reach log_start log_ops (log_boot, [])" by (rule reach_init)
  then have "reach log_start log_ops (s1, [10])" using op_begin [OF 1, of "[]"] by (auto intro: reach_step)
  then have R: "reach log_start log_ops (s2, [10])" using op_other [OF l] by (auto intro: reach_step)
  have hd: "held s2 = []" using u(8) r(2) by (simp add: ready_def)
  have "lblocks s2 = []" by (simp add: lblocks_def l s1_def)
  moreover have "refs s2 50 < 0xFFFFFFFF" using u(4) log_boot_fresh by (simp add: s1_def fresh_def)
  ultimately obtain t where "log_write b s2 = Ok () t" "lblocks t = [50]"
    using log_reservation [OF R, of 0 50 b] u(1) hd 2(1) by auto
  then show ?thesis using R 2(1) by blast
qed

end
