(* ===== verification/Fs.thy ===== *)
theory Fs
  imports Log Strings
begin

text \<open>
  The file system (\<open>kernel/fs.c\<close>): the block allocator, inodes, file contents, directories and
  path names. The in-memory inode table is a function of the index; \<open>struct dinode\<close> and \<open>struct
  dirent\<close> are fields of byte arrays at the offsets of their layouts. One definition per C function,
  in the order of the file.
\<close>

abbreviation (input) ROOTINO :: u32 where "ROOTINO \<equiv> 1"
abbreviation (input) FSMAGIC :: u32 where "FSMAGIC \<equiv> 0x10203040"
abbreviation (input) NDIRECT :: nat where "NDIRECT \<equiv> 12"
abbreviation (input) NINDIRECT :: nat where "NINDIRECT \<equiv> 256"
abbreviation (input) MAXFILE :: nat where "MAXFILE \<equiv> 268"
abbreviation (input) BPB :: nat where "BPB \<equiv> 8192"
abbreviation (input) IPB :: nat where "IPB \<equiv> 16"
abbreviation (input) DIRSIZ :: nat where "DIRSIZ \<equiv> 14"
abbreviation (input) T_DIR :: u16 where "T_DIR \<equiv> 1"
abbreviation (input) T_FILE :: u16 where "T_FILE \<equiv> 2"
abbreviation (input) T_DEVICE :: u16 where "T_DEVICE \<equiv> 3"

subsection \<open>State\<close>

record superblock =
  sb_magic :: u32
  sb_size :: u32
  sb_nblocks :: u32
  sb_ninodes :: u32
  sb_nlog :: u32
  sb_logstart :: u32
  sb_inodestart :: u32
  sb_bmapstart :: u32

record inode =
  i_dev :: u32
  i_inum :: u32
  i_ref :: int
  i_lock :: sleeplock
  i_valid :: bool
  i_type :: u16
  i_major :: u16
  i_minor :: u16
  i_nlink :: u16
  i_size :: u32
  i_addrs :: "nat \<Rightarrow> u32"

record kfs = klog +
  sb :: superblock
  itable :: "nat \<Rightarrow> inode"

definition upd_inode :: "nat \<Rightarrow> (inode \<Rightarrow> inode) \<Rightarrow> 'a kfs_scheme \<Rightarrow> 'a kfs_scheme" where
  "upd_inode i f s = s\<lparr>itable := (itable s)(i := f (itable s i))\<rparr>"

definition inode_lock :: "nat \<Rightarrow> 'a kfs_scheme \<Rightarrow> sleeplock" where
  "inode_lock i s = i_lock (itable s i)"

definition set_inode_lock :: "nat \<Rightarrow> sleeplock \<Rightarrow> 'a kfs_scheme \<Rightarrow> 'a kfs_scheme" where
  "set_inode_lock i l s = upd_inode i (i_lock_update (\<lambda>_. l)) s"

definition IBLOCK :: "u32 \<Rightarrow> superblock \<Rightarrow> u32" where
  "IBLOCK i S = i div of_nat IPB + sb_inodestart S"

definition BBLOCK :: "u32 \<Rightarrow> superblock \<Rightarrow> u32" where
  "BBLOCK b S = b div of_nat BPB + sb_bmapstart S"

subsection \<open>Super block\<close>

definition get_sb :: "block \<Rightarrow> nat \<Rightarrow> superblock" where
  "get_sb d o' =
     \<lparr>sb_magic = get32 d o', sb_size = get32 d (o' + 4), sb_nblocks = get32 d (o' + 8), sb_ninodes = get32 d (o' + 12),
      sb_nlog = get32 d (o' + 16), sb_logstart = get32 d (o' + 20), sb_inodestart = get32 d (o' + 24),
      sb_bmapstart = get32 d (o' + 28)\<rparr>"

definition readsb :: "u32 \<Rightarrow> 'a kfs_scheme \<Rightarrow> ('a kfs_scheme, unit) res" where
  "readsb dev s =
     kbind (bread dev 1 s) (\<lambda>bp s.
     kbind (bdata_read 32 get_sb bp 0 s) (\<lambda>S s. brelse bp (s\<lparr>sb := S\<rparr>)))"

subsection \<open>Blocks\<close>

definition bzero :: "u32 \<Rightarrow> u32 \<Rightarrow> 'a kfs_scheme \<Rightarrow> ('a kfs_scheme, unit) res" where
  "bzero dev bno s =
     kbind (bread dev bno s) (\<lambda>bp s.
     kbind (bdata_write BSIZE (\<lambda>_ _. replicate BSIZE 0) bp 0 s) (\<lambda>_ s.
     kbind (log_write bp s) (\<lambda>_ s. brelse bp s)))"

text \<open>\<open>1 << (bi % 8)\<close>, as a byte.\<close>

definition bit_mask :: "nat \<Rightarrow> u8" where
  "bit_mask bi = push_bit (bi mod 8) 1"

text \<open>The inner loop of \<open>balloc\<close>: the first clear bit of the bitmap block in buffer \<open>bp\<close>.\<close>

primrec balloc_scan :: "nat \<Rightarrow> nat \<Rightarrow> nat \<Rightarrow> nat list \<Rightarrow> 'a kfs_scheme \<Rightarrow> ('a kfs_scheme, nat option) res" where
  "balloc_scan bp b fssize [] s = Ok None s"
| "balloc_scan bp b fssize (bi # bis) s =
     (if b + bi < fssize then
        kbind (bdata_read 1 (!) bp (bi div 8) s) (\<lambda>x s.
        if x AND bit_mask bi = 0 then Ok (Some bi) s else balloc_scan bp b fssize bis s)
      else Ok None s)"

primrec balloc_loop :: "u32 \<Rightarrow> nat list \<Rightarrow> 'a kfs_scheme \<Rightarrow> ('a kfs_scheme, u32) res" where
  "balloc_loop dev [] s = kbind (printf (''balloc: out of blocks'' @ [CHR 0x0A]) [] s) (\<lambda>_ s. Ok 0 s)"
| "balloc_loop dev (b # bs) s =
     kbind (bread dev (BBLOCK (of_nat b) (sb s)) s) (\<lambda>bp s.
     kbind (balloc_scan bp b (unat (sb_size (sb s))) [0..<BPB] s) (\<lambda>found s.
     case found of
       Some bi \<Rightarrow>
         kbind (bdata_write 1 (\<lambda>d k. d[k := d ! k OR bit_mask bi]) bp (bi div 8) s) (\<lambda>_ s.
         kbind (log_write bp s) (\<lambda>_ s.
         kbind (brelse bp s) (\<lambda>_ s.
         kbind (bzero dev (of_nat (b + bi)) s) (\<lambda>_ s. Ok (of_nat (b + bi)) s))))
     | None \<Rightarrow> kbind (brelse bp s) (\<lambda>_ s. balloc_loop dev bs s)))"

text \<open>The outer loop runs over the multiples of \<open>BPB\<close> below the size of the file system.\<close>

definition balloc :: "u32 \<Rightarrow> 'a kfs_scheme \<Rightarrow> ('a kfs_scheme, u32) res" where
  "balloc dev s =
     balloc_loop dev (map (\<lambda>k. k * BPB) [0..<(unat (sb_size (sb s)) + BPB - 1) div BPB]) s"

definition bfree :: "u32 \<Rightarrow> u32 \<Rightarrow> 'a kfs_scheme \<Rightarrow> ('a kfs_scheme, unit) res" where
  "bfree dev b s =
     kbind (bread dev (BBLOCK b (sb s)) s) (\<lambda>bp s.
     let bi = unat b mod BPB in
     kbind (bdata_read 1 (!) bp (bi div 8) s) (\<lambda>x s.
     if x AND bit_mask bi = 0 then Panic ''freeing free block''
     else
       kbind (bdata_write 1 (\<lambda>d k. d[k := d ! k AND NOT (bit_mask bi)]) bp (bi div 8) s) (\<lambda>_ s.
       kbind (log_write bp s) (\<lambda>_ s. brelse bp s))))"

subsection \<open>Inodes\<close>

definition iinit :: "'a kfs_scheme \<Rightarrow> 'a kfs_scheme" where
  "iinit s = s\<lparr>itable := (\<lambda>i. if i < NINODE then (itable s i)\<lparr>i_lock := initsleeplock\<rparr> else itable s i)\<rparr>"

text \<open>The offset of an inode in its block, and the fields of \<open>struct dinode\<close> there.\<close>

definition dip_off :: "u32 \<Rightarrow> nat" where
  "dip_off inum = (unat inum mod IPB) * 64"

definition dinode_type :: "block \<Rightarrow> nat \<Rightarrow> u16" where
  "dinode_type d o' = get16 d o'"

definition dinode_nlink :: "block \<Rightarrow> nat \<Rightarrow> u16" where
  "dinode_nlink d o' = get16 d (o' + 6)"

primrec put_addrs :: "(nat \<Rightarrow> u32) \<Rightarrow> nat \<Rightarrow> nat list \<Rightarrow> block \<Rightarrow> block" where
  "put_addrs a o' [] d = d"
| "put_addrs a o' (i # is) d = put_addrs a o' is (put32 d (o' + 12 + 4 * i) (a i))"

definition put_dinode :: "inode \<Rightarrow> nat \<Rightarrow> block \<Rightarrow> block" where
  "put_dinode ip o' d =
     (let d = put16 d o' (i_type ip);
          d = put16 d (o' + 2) (i_major ip);
          d = put16 d (o' + 4) (i_minor ip);
          d = put16 d (o' + 6) (i_nlink ip);
          d = put32 d (o' + 8) (i_size ip) in
      put_addrs (i_addrs ip) o' [0..<NDIRECT + 1] d)"

definition get_dinode :: "block \<Rightarrow> nat \<Rightarrow> inode \<Rightarrow> inode" where
  "get_dinode d o' ip =
     ip\<lparr>i_type := get16 d o', i_major := get16 d (o' + 2), i_minor := get16 d (o' + 4), i_nlink := get16 d (o' + 6),
        i_size := get32 d (o' + 8),
        i_addrs := (\<lambda>i. if i < NDIRECT + 1 then get32 d (o' + 12 + 4 * i) else i_addrs ip i)\<rparr>"

text \<open>The scan of \<open>iget\<close>: an entry for the inode, and the first free entry.\<close>

primrec iget_scan :: "(nat \<Rightarrow> inode) \<Rightarrow> u32 \<Rightarrow> u32 \<Rightarrow> nat list \<Rightarrow> nat option \<Rightarrow> nat option \<times> nat option" where
  "iget_scan T dev inum [] emp = (None, emp)"
| "iget_scan T dev inum (i # is) emp =
     (if i_ref (T i) > 0 \<and> i_dev (T i) = dev \<and> i_inum (T i) = inum then (Some i, emp)
      else iget_scan T dev inum is (if emp = None \<and> i_ref (T i) = 0 then Some i else emp))"

definition iget :: "u32 \<Rightarrow> u32 \<Rightarrow> 'a kfs_scheme \<Rightarrow> ('a kfs_scheme, nat) res" where
  "iget dev inum s =
     kbind (acquire L_itable s) (\<lambda>_ s.
     case iget_scan (itable s) dev inum [0..<NINODE] None of
       (Some i, _) \<Rightarrow>
         let s = upd_inode i (\<lambda>ip. ip\<lparr>i_ref := i_ref ip + 1\<rparr>) s in
         kbind (release L_itable s) (\<lambda>_ s. Ok i s)
     | (None, None) \<Rightarrow> Panic ''iget: no inodes''
     | (None, Some i) \<Rightarrow>
         let s = upd_inode i (\<lambda>ip. ip\<lparr>i_dev := dev, i_inum := inum, i_ref := 1, i_valid := False\<rparr>) s in
         kbind (release L_itable s) (\<lambda>_ s. Ok i s))"

primrec ialloc_loop :: "u32 \<Rightarrow> u16 \<Rightarrow> nat list \<Rightarrow> 'a kfs_scheme \<Rightarrow> ('a kfs_scheme, nat option) res" where
  "ialloc_loop dev type [] s = kbind (printf (''ialloc: no inodes'' @ [CHR 0x0A]) [] s) (\<lambda>_ s. Ok None s)"
| "ialloc_loop dev type (n # ns) s =
     (let inum = of_nat n in
      kbind (bread dev (IBLOCK inum (sb s)) s) (\<lambda>bp s.
      kbind (bdata_read 2 dinode_type bp (dip_off inum) s) (\<lambda>ty s.
      if ty = 0 then
        kbind (bdata_write 64 (\<lambda>d k. put16 (putb d k (replicate 64 0)) k type) bp (dip_off inum) s) (\<lambda>_ s.
        kbind (log_write bp s) (\<lambda>_ s.
        kbind (brelse bp s) (\<lambda>_ s.
        kbind (iget dev inum s) (\<lambda>i s. Ok (Some i) s))))
      else kbind (brelse bp s) (\<lambda>_ s. ialloc_loop dev type ns s))))"

definition ialloc :: "u32 \<Rightarrow> u16 \<Rightarrow> 'a kfs_scheme \<Rightarrow> ('a kfs_scheme, nat option) res" where
  "ialloc dev type s = ialloc_loop dev type [1..<unat (sb_ninodes (sb s))] s"

definition iupdate :: "nat \<Rightarrow> 'a kfs_scheme \<Rightarrow> ('a kfs_scheme, unit) res" where
  "iupdate i s =
     (let ip = itable s i in
      kbind (bread (i_dev ip) (IBLOCK (i_inum ip) (sb s)) s) (\<lambda>bp s.
      kbind (bdata_write 64 (\<lambda>d k. put_dinode (itable s i) k d) bp (dip_off (i_inum (itable s i))) s) (\<lambda>_ s.
      kbind (log_write bp s) (\<lambda>_ s. brelse bp s))))"

definition idup :: "nat \<Rightarrow> 'a kfs_scheme \<Rightarrow> ('a kfs_scheme, nat) res" where
  "idup i s =
     kbind (acquire L_itable s) (\<lambda>_ s.
     let s = upd_inode i (\<lambda>ip. ip\<lparr>i_ref := i_ref ip + 1\<rparr>) s in
     kbind (release L_itable s) (\<lambda>_ s. Ok i s))"

text \<open>The inode pointer is never null where \<open>ilock\<close> and \<open>iunlock\<close> are called with an index.\<close>

definition ilock :: "nat \<Rightarrow> 'a kfs_scheme \<Rightarrow> ('a kfs_scheme, unit) res" where
  "ilock i s =
     (if i_ref (itable s i) < 1 then Panic ''ilock''
      else
        kbind (acquiresleep (Ch_inodelock i) (inode_lock i) (set_inode_lock i) s) (\<lambda>_ s.
        if \<not> i_valid (itable s i) then
          kbind (bread (i_dev (itable s i)) (IBLOCK (i_inum (itable s i)) (sb s)) s) (\<lambda>bp s.
          kbind (bdata_read 64 get_dinode bp (dip_off (i_inum (itable s i))) s) (\<lambda>dip s.
          let s = upd_inode i dip s in
          kbind (brelse bp s) (\<lambda>_ s.
          let s = upd_inode i (i_valid_update (\<lambda>_. True)) s in
          if i_type (itable s i) = 0 then Panic ''ilock: no type'' else Ok () s)))
        else Ok () s))"

definition iunlock :: "nat \<Rightarrow> 'a kfs_scheme \<Rightarrow> ('a kfs_scheme, unit) res" where
  "iunlock i s =
     kbind (holdingsleep (Ch_inodelock i) (inode_lock i) s) (\<lambda>h s.
     if \<not> h \<or> i_ref (itable s i) < 1 then Panic ''iunlock''
     else releasesleep (Ch_inodelock i) (set_inode_lock i) s)"

text \<open>Freeing the blocks of an inode. The loops run over the indices of the arrays.\<close>

primrec itrunc_direct :: "nat \<Rightarrow> nat list \<Rightarrow> 'a kfs_scheme \<Rightarrow> ('a kfs_scheme, unit) res" where
  "itrunc_direct i [] s = Ok () s"
| "itrunc_direct i (k # ks) s =
     (if i_addrs (itable s i) k \<noteq> 0 then
        kbind (bfree (i_dev (itable s i)) (i_addrs (itable s i) k) s) (\<lambda>_ s.
        itrunc_direct i ks (upd_inode i (\<lambda>ip. ip\<lparr>i_addrs := (i_addrs ip)(k := 0)\<rparr>) s))
      else itrunc_direct i ks s)"

text \<open>The indirect block stays locked in the loop, and its data is read in each round.\<close>

primrec itrunc_indirect :: "nat \<Rightarrow> nat \<Rightarrow> nat list \<Rightarrow> 'a kfs_scheme \<Rightarrow> ('a kfs_scheme, unit) res" where
  "itrunc_indirect i bp [] s = Ok () s"
| "itrunc_indirect i bp (j # js) s =
     kbind (bdata_read 4 get32 bp (4 * j) s) (\<lambda>a s.
     if a \<noteq> 0 then kbind (bfree (i_dev (itable s i)) a s) (\<lambda>_ s. itrunc_indirect i bp js s)
     else itrunc_indirect i bp js s)"

definition itrunc :: "nat \<Rightarrow> 'a kfs_scheme \<Rightarrow> ('a kfs_scheme, unit) res" where
  "itrunc i s =
     kbind (itrunc_direct i [0..<NDIRECT] s) (\<lambda>_ s.
     kbind
       (if i_addrs (itable s i) NDIRECT \<noteq> 0 then
          kbind (bread (i_dev (itable s i)) (i_addrs (itable s i) NDIRECT) s) (\<lambda>bp s.
          kbind (itrunc_indirect i bp [0..<NINDIRECT] s) (\<lambda>_ s.
          kbind (brelse bp s) (\<lambda>_ s.
          kbind (bfree (i_dev (itable s i)) (i_addrs (itable s i) NDIRECT) s) (\<lambda>_ s.
          Ok () (upd_inode i (\<lambda>ip. ip\<lparr>i_addrs := (i_addrs ip)(NDIRECT := 0)\<rparr>) s)))))
        else Ok () s) (\<lambda>_ s.
     iupdate i (upd_inode i (i_size_update (\<lambda>_. 0)) s)))"

definition iput :: "nat \<Rightarrow> 'a kfs_scheme \<Rightarrow> ('a kfs_scheme, unit) res" where
  "iput i s =
     kbind (acquire L_itable s) (\<lambda>_ s.
     kbind
       (if i_ref (itable s i) = 1 \<and> i_valid (itable s i) \<and> i_nlink (itable s i) = 0 then
          kbind (acquiresleep (Ch_inodelock i) (inode_lock i) (set_inode_lock i) s) (\<lambda>_ s.
          kbind (release L_itable s) (\<lambda>_ s.
          kbind (itrunc i s) (\<lambda>_ s.
          kbind (iupdate i (upd_inode i (i_type_update (\<lambda>_. 0)) s)) (\<lambda>_ s.
          kbind (releasesleep (Ch_inodelock i) (set_inode_lock i) (upd_inode i (i_valid_update (\<lambda>_. False)) s)) (\<lambda>_ s.
          acquire L_itable s)))))
        else Ok () s) (\<lambda>_ s.
     release L_itable (upd_inode i (\<lambda>ip. ip\<lparr>i_ref := i_ref ip - 1\<rparr>) s)))"

definition iunlockput :: "nat \<Rightarrow> 'a kfs_scheme \<Rightarrow> ('a kfs_scheme, unit) res" where
  "iunlockput i s = kbind (iunlock i s) (\<lambda>_ s. iput i s)"

primrec ireclaim_loop :: "u32 \<Rightarrow> nat list \<Rightarrow> 'a kfs_scheme \<Rightarrow> ('a kfs_scheme, unit) res" where
  "ireclaim_loop dev [] s = Ok () s"
| "ireclaim_loop dev (n # ns) s =
     (let inum = of_nat n in
      kbind (bread dev (IBLOCK inum (sb s)) s) (\<lambda>bp s.
      kbind (bdata_read 64 (\<lambda>d o'. dinode_type d o' \<noteq> 0 \<and> dinode_nlink d o' = 0) bp (dip_off inum) s) (\<lambda>orphan s.
      kbind (if orphan
             then kbind (printf (''ireclaim: orphaned inode %d'' @ [CHR 0x0A]) [Aint (of_nat n)] s) (\<lambda>_ s.
                  kbind (iget dev inum s) (\<lambda>i s. Ok (Some i) s)) else Ok None s) (\<lambda>ip s.
      kbind (brelse bp s) (\<lambda>_ s.
      kbind (case ip of None \<Rightarrow> Ok () s
             | Some i \<Rightarrow>
                 kbind (begin_op s) (\<lambda>_ s.
                 kbind (ilock i s) (\<lambda>_ s.
                 kbind (iunlock i s) (\<lambda>_ s.
                 kbind (iput i s) (\<lambda>_ s. end_op s))))) (\<lambda>_ s.
      ireclaim_loop dev ns s))))))"

definition ireclaim :: "u32 \<Rightarrow> 'a kfs_scheme \<Rightarrow> ('a kfs_scheme, unit) res" where
  "ireclaim dev s = ireclaim_loop dev [1..<unat (sb_ninodes (sb s))] s"

definition fsinit :: "u32 \<Rightarrow> 'a kfs_scheme \<Rightarrow> ('a kfs_scheme, unit) res" where
  "fsinit dev s =
     kbind (readsb dev s) (\<lambda>_ s.
     if sb_magic (sb s) \<noteq> FSMAGIC then Panic ''invalid file system''
     else kbind (initlog dev (sb_logstart (sb s)) s) (\<lambda>_ s. ireclaim dev s))"

subsection \<open>Inode content\<close>

definition bmap :: "nat \<Rightarrow> u32 \<Rightarrow> 'a kfs_scheme \<Rightarrow> ('a kfs_scheme, u32) res" where
  "bmap i bn s =
     (if unat bn < NDIRECT then
        let addr = i_addrs (itable s i) (unat bn) in
        if addr = 0 then
          kbind (balloc (i_dev (itable s i)) s) (\<lambda>addr s.
          if addr = 0 then Ok 0 s
          else Ok addr (upd_inode i (\<lambda>ip. ip\<lparr>i_addrs := (i_addrs ip)(unat bn := addr)\<rparr>) s))
        else Ok addr s
      else
        let k = unat bn - NDIRECT in
        if k < NINDIRECT then
          kbind
            (if i_addrs (itable s i) NDIRECT = 0 then
               kbind (balloc (i_dev (itable s i)) s) (\<lambda>addr s.
               if addr = 0 then Ok 0 s
               else Ok addr (upd_inode i (\<lambda>ip. ip\<lparr>i_addrs := (i_addrs ip)(NDIRECT := addr)\<rparr>) s))
             else Ok (i_addrs (itable s i) NDIRECT) s) (\<lambda>addr s.
          if addr = 0 then Ok 0 s else
          kbind (bread (i_dev (itable s i)) addr s) (\<lambda>bp s.
          kbind
            (kbind (bdata_read 4 get32 bp (4 * k) s) (\<lambda>a s.
             if a = 0 then
               kbind (balloc (i_dev (itable s i)) s) (\<lambda>addr s.
               if addr \<noteq> 0 then
                 kbind (bdata_write 4 (\<lambda>d k. put32 d k addr) bp (4 * k) s) (\<lambda>_ s.
                 kbind (log_write bp s) (\<lambda>_ s. Ok addr s))
               else Ok 0 s)
             else Ok a s)) (\<lambda>addr s.
          kbind (brelse bp s) (\<lambda>_ s. Ok addr s))))
        else Panic ''bmap: out of range'')"

record kstat =
  st_dev :: u32
  st_ino :: u32
  st_type :: u16
  st_nlink :: u16
  st_size :: u64

definition stati :: "nat \<Rightarrow> 'a kfs_scheme \<Rightarrow> kstat" where
  "stati i s =
     (let ip = itable s i in
      \<lparr>st_dev = i_dev ip, st_ino = i_inum ip, st_type = i_type ip, st_nlink = i_nlink ip, st_size = ucast (i_size ip)\<rparr>)"

text \<open>
  \<open>readi\<close> and \<open>writei\<close> move data through \<open>either_copyout\<close> and \<open>either_copyin\<close>, which reach user memory,
  kernel memory or a local variable of the caller. They take the copy routine as a parameter: \<open>co
  dst bs\<close> stores the bytes \<open>bs\<close> at \<open>dst\<close>, where \<open>l\<close> is the caller's local data, and \<open>ci src m\<close> fetches
  up to \<open>m\<close> bytes from \<open>src\<close>; -1 is failure, after which the bytes fetched before it are in the buffer.
\<close>

lemma readi_step_measure:
  fixes n tot off :: u32
  assumes "tot < n"
  shows "unat (n - (tot + min (n - tot) (1024 - off mod 1024))) < unat (n - tot)"
proof -
  let ?m = "min (n - tot) (1024 - off mod 1024)"
  have "off mod 1024 < 1024" by (simp add: word_mod_less_divisor)
  then have "1024 - off mod 1024 \<noteq> 0" by auto
  moreover have "n - tot \<noteq> 0" using assms by auto
  ultimately have "0 < unat ?m" by (simp add: min_def unat_gt_0)
  moreover have "?m \<le> n - tot" by simp
  then have "unat (n - tot - ?m) = unat (n - tot) - unat ?m" by (simp add: unat_sub)
  moreover have "unat ?m \<le> unat (n - tot)" using \<open>?m \<le> n - tot\<close> by (simp add: word_le_nat_alt)
  moreover have "n - (tot + ?m) = n - tot - ?m" by (rule diff_diff_add [symmetric])
  ultimately show ?thesis by (simp only:)
qed

function readi_loop ::
  "(u64 \<Rightarrow> u8 list \<Rightarrow> 'l \<Rightarrow> 'a kfs_scheme \<Rightarrow> ('a kfs_scheme, int \<times> 'l) res) \<Rightarrow>
   nat \<Rightarrow> u64 \<Rightarrow> u32 \<Rightarrow> u32 \<Rightarrow> u32 \<Rightarrow> 'l \<Rightarrow> 'a kfs_scheme \<Rightarrow> ('a kfs_scheme, u32 \<times> 'l) res" where
  "readi_loop co i dst off n tot l s =
     (if tot < n then
        kbind (bmap i (off div 1024) s) (\<lambda>addr s.
        if addr = 0 then Ok (tot, l) s
        else
          kbind (bread (i_dev (itable s i)) addr s) (\<lambda>bp s.
          let m = min (n - tot) (1024 - off mod 1024) in
          kbind (bdata_read (unat m) (getb (unat m)) bp (unat (off mod 1024)) s) (\<lambda>bs s.
          kbind (co dst bs l s) (\<lambda>x s.
          if fst x = -1 then kbind (brelse bp s) (\<lambda>_ s. Ok (-1, snd x) s)
          else kbind (brelse bp s) (\<lambda>_ s. readi_loop co i (dst + ucast m) (off + m) n (tot + m) (snd x) s)))))
      else Ok (tot, l) s)"
  by pat_completeness auto
termination
  by (relation "measure (\<lambda>(co, i, dst, off, n, tot, l, s). unat (n - tot))") (auto intro: readi_step_measure)

definition readi ::
  "(u64 \<Rightarrow> u8 list \<Rightarrow> 'l \<Rightarrow> 'a kfs_scheme \<Rightarrow> ('a kfs_scheme, int \<times> 'l) res) \<Rightarrow>
   nat \<Rightarrow> u64 \<Rightarrow> u32 \<Rightarrow> u32 \<Rightarrow> 'l \<Rightarrow> 'a kfs_scheme \<Rightarrow> ('a kfs_scheme, int \<times> 'l) res" where
  "readi co i dst off n l s =
     (if off > i_size (itable s i) \<or> off + n < off then Ok (0, l) s
      else
        let n = (if off + n > i_size (itable s i) then i_size (itable s i) - off else n) in
        kbind (readi_loop co i dst off n 0 l s) (\<lambda>x s. Ok (sint (fst x), snd x) s))"

function writei_loop ::
  "(u64 \<Rightarrow> nat \<Rightarrow> 'a kfs_scheme \<Rightarrow> ('a kfs_scheme, u8 list \<times> int) res) \<Rightarrow>
   nat \<Rightarrow> u64 \<Rightarrow> u32 \<Rightarrow> u32 \<Rightarrow> u32 \<Rightarrow> 'a kfs_scheme \<Rightarrow> ('a kfs_scheme, u32 \<times> u32) res" where
  "writei_loop ci i src off n tot s =
     (if tot < n then
        kbind (bmap i (off div 1024) s) (\<lambda>addr s.
        if addr = 0 then Ok (tot, off) s
        else
          kbind (bread (i_dev (itable s i)) addr s) (\<lambda>bp s.
          let m = min (n - tot) (1024 - off mod 1024) in
          kbind (ci src (unat m) s) (\<lambda>x s.
          kbind (bdata_write (length (fst x)) (\<lambda>d k. putb d k (fst x)) bp (unat (off mod 1024)) s) (\<lambda>_ s.
          if snd x = -1 then kbind (brelse bp s) (\<lambda>_ s. Ok (tot, off) s)
          else
            kbind (log_write bp s) (\<lambda>_ s.
            kbind (brelse bp s) (\<lambda>_ s. writei_loop ci i (src + ucast m) (off + m) n (tot + m) s))))))
      else Ok (tot, off) s)"
  by pat_completeness auto
termination
  by (relation "measure (\<lambda>(ci, i, src, off, n, tot, s). unat (n - tot))") (auto intro: readi_step_measure)

definition writei ::
  "(u64 \<Rightarrow> nat \<Rightarrow> 'a kfs_scheme \<Rightarrow> ('a kfs_scheme, u8 list \<times> int) res) \<Rightarrow>
   nat \<Rightarrow> u64 \<Rightarrow> u32 \<Rightarrow> u32 \<Rightarrow> 'a kfs_scheme \<Rightarrow> ('a kfs_scheme, int) res" where
  "writei ci i src off n s =
     (if off > i_size (itable s i) \<or> off + n < off then Ok (-1) s
      else if off + n > of_nat (MAXFILE * BSIZE) then Ok (-1) s
      else
        kbind (writei_loop ci i src off n 0 s) (\<lambda>x s.
        let s = (if snd x > i_size (itable s i) then upd_inode i (i_size_update (\<lambda>_. snd x)) s else s) in
        kbind (iupdate i s) (\<lambda>_ s. Ok (sint (fst x)) s)))"

text \<open>Copying to and from a local array of the caller, which starts at offset 0.\<close>

definition copy_to_local :: "u64 \<Rightarrow> u8 list \<Rightarrow> u8 list \<Rightarrow> 'a kfs_scheme \<Rightarrow> ('a kfs_scheme, int \<times> u8 list) res" where
  "copy_to_local dst bs l s = Ok (0, putb l (unat dst) bs) s"

definition copy_from_local :: "u8 list \<Rightarrow> u64 \<Rightarrow> nat \<Rightarrow> 'a kfs_scheme \<Rightarrow> ('a kfs_scheme, u8 list \<times> int) res" where
  "copy_from_local l src m s = Ok (getb m l (unat src), 0) s"

subsection \<open>Directories\<close>

definition namecmp :: "bytes \<Rightarrow> bytes \<Rightarrow> int" where
  "namecmp s t = strncmp s t DIRSIZ"

definition de_inum :: "u8 list \<Rightarrow> u16" where
  "de_inum de = get16 de 0"

definition de_name :: "u8 list \<Rightarrow> bytes" where
  "de_name de i = de ! (2 + i)"

abbreviation blank_de :: "u8 list" where "blank_de \<equiv> replicate 16 0"

text \<open>The offsets of the entries of a directory of the given size.\<close>

definition dir_offs :: "u32 \<Rightarrow> nat list" where
  "dir_offs sz = map (\<lambda>k. 16 * k) [0..<(unat sz + 15) div 16]"

primrec dirlookup_loop :: "nat \<Rightarrow> bytes \<Rightarrow> nat list \<Rightarrow> 'a kfs_scheme \<Rightarrow> ('a kfs_scheme, (nat \<times> nat) option) res" where
  "dirlookup_loop dp name [] s = Ok None s"
| "dirlookup_loop dp name (off # offs) s =
     kbind (readi copy_to_local dp 0 (of_nat off) 16 blank_de s) (\<lambda>x s.
     if fst x \<noteq> 16 then Panic ''dirlookup read''
     else if de_inum (snd x) = 0 then dirlookup_loop dp name offs s
     else if namecmp name (de_name (snd x)) = 0 then
       kbind (iget (i_dev (itable s dp)) (ucast (de_inum (snd x))) s) (\<lambda>i s. Ok (Some (i, off)) s)
     else dirlookup_loop dp name offs s)"

definition dirlookup :: "nat \<Rightarrow> bytes \<Rightarrow> 'a kfs_scheme \<Rightarrow> ('a kfs_scheme, (nat \<times> nat) option) res" where
  "dirlookup dp name s =
     (if i_type (itable s dp) \<noteq> T_DIR then Panic ''dirlookup not DIR''
      else dirlookup_loop dp name (dir_offs (i_size (itable s dp))) s)"

text \<open>The search for an empty entry; if there is none, the offset is past the last entry.\<close>

primrec dirlink_scan :: "nat \<Rightarrow> nat list \<Rightarrow> nat \<Rightarrow> 'a kfs_scheme \<Rightarrow> ('a kfs_scheme, nat) res" where
  "dirlink_scan dp [] lim s = Ok lim s"
| "dirlink_scan dp (off # offs) lim s =
     kbind (readi copy_to_local dp 0 (of_nat off) 16 blank_de s) (\<lambda>x s.
     if fst x \<noteq> 16 then Panic ''dirlink read''
     else if de_inum (snd x) = 0 then Ok off s
     else dirlink_scan dp offs lim s)"

definition dirent :: "bytes \<Rightarrow> u32 \<Rightarrow> u8 list" where
  "dirent name inum = word_le 2 (ucast inum :: u16) @ map (strncpy (\<lambda>_. 0) name (int DIRSIZ)) [0..<DIRSIZ]"

definition dirlink :: "nat \<Rightarrow> bytes \<Rightarrow> u32 \<Rightarrow> 'a kfs_scheme \<Rightarrow> ('a kfs_scheme, int) res" where
  "dirlink dp name inum s =
     kbind (dirlookup dp name s) (\<lambda>r s.
     case r of
       Some (ip, _) \<Rightarrow> kbind (iput ip s) (\<lambda>_ s. Ok (-1) s)
     | None \<Rightarrow>
         let offs = dir_offs (i_size (itable s dp)) in
         kbind (dirlink_scan dp offs (16 * length offs) s) (\<lambda>off s.
         kbind (writei (copy_from_local (dirent name inum)) dp 0 (of_nat off) 16 s) (\<lambda>w s.
         if w \<noteq> 16 then Ok (-1) s else Ok 0 s)))"

subsection \<open>Paths\<close>

text \<open>
  A path is an array of \<open>n\<close> bytes; reading past its end is undefined, which is the outer
  \<open>None\<close>. \<open>skipelem\<close> returns the offset of the rest of the path and the array for the name.
\<close>

abbreviation (input) SLASH :: u8 where "SLASH \<equiv> 47"

function skip_slashes :: "bytes \<Rightarrow> nat \<Rightarrow> nat \<Rightarrow> nat option" where
  "skip_slashes path n off =
     (if n \<le> off then None else if path off = SLASH then skip_slashes path n (off + 1) else Some off)"
  by pat_completeness auto
termination by (relation "measure (\<lambda>(path, n, off). n - off)") auto

function skip_name :: "bytes \<Rightarrow> nat \<Rightarrow> nat \<Rightarrow> nat option" where
  "skip_name path n off =
     (if n \<le> off then None
      else if path off \<noteq> SLASH \<and> path off \<noteq> 0 then skip_name path n (off + 1) else Some off)"
  by pat_completeness auto
termination by (relation "measure (\<lambda>(path, n, off). n - off)") auto

declare skip_slashes.simps [simp del] skip_name.simps [simp del]

definition skipelem :: "bytes \<Rightarrow> nat \<Rightarrow> nat \<Rightarrow> bytes \<Rightarrow> (nat \<times> bytes) option option" where
  "skipelem path n off name =
     (case skip_slashes path n off of
        None \<Rightarrow> None
      | Some st \<Rightarrow>
          if path st = 0 then Some None
          else
            case skip_name path n st of
              None \<Rightarrow> None
            | Some e \<Rightarrow>
                let len = e - st;
                    name = (if DIRSIZ \<le> len then (\<lambda>k. if k < DIRSIZ then path (st + k) else name k)
                            else (\<lambda>k. if k < len then path (st + k) else if k = len then 0 else name k)) in
                case skip_slashes path n e of
                  None \<Rightarrow> None
                | Some r \<Rightarrow> Some (Some (r, name)))"

lemma skip_slashes_ge: "skip_slashes path n off = Some r \<Longrightarrow> off \<le> r \<and> r < n \<and> path r \<noteq> SLASH"
proof (induction path n off rule: skip_slashes.induct)
  case (1 path n off)
  from 1(2) show ?case by (subst (asm) skip_slashes.simps) (use 1(1) in \<open>auto split: if_splits\<close>)
qed

lemma skip_name_ge: "skip_name path n off = Some r \<Longrightarrow> off \<le> r \<and> r < n"
proof (induction path n off rule: skip_name.induct)
  case (1 path n off)
  from 1(2) show ?case by (subst (asm) skip_name.simps) (use 1(1) in \<open>auto split: if_splits\<close>)
qed

lemma skipelem_advances:
  assumes "skipelem path n off name = Some (Some (r, name'))"
  shows "off < r \<and> r < n"
proof -
  obtain st e where st: "skip_slashes path n off = Some st" "path st \<noteq> 0" "skip_name path n st = Some e"
    "skip_slashes path n e = Some r"
    using assms by (auto simp: skipelem_def Let_def split: option.splits if_splits)
  have s: "path st \<noteq> SLASH" "off \<le> st" using skip_slashes_ge [OF st(1)] by auto
  have "st < e"
    using st(3) s(1) st(2) skip_name_ge [of path n "st + 1" e] by (subst (asm) skip_name.simps) (auto split: if_splits)
  then show ?thesis using s(2) skip_slashes_ge [OF st(4)] by auto
qed

function namex_loop ::
  "bytes \<Rightarrow> nat \<Rightarrow> bool \<Rightarrow> nat \<Rightarrow> bytes \<Rightarrow> nat \<Rightarrow> 'a kfs_scheme \<Rightarrow> ('a kfs_scheme, nat option \<times> bytes) res" where
  "namex_loop path n nameiparent off name ip s =
     (case skipelem path n off name of
        None \<Rightarrow> UB
      | Some None \<Rightarrow>
          if nameiparent then kbind (iput ip s) (\<lambda>_ s. Ok (None, name) s) else Ok (Some ip, name) s
      | Some (Some x) \<Rightarrow>
          kbind (ilock ip s) (\<lambda>_ s.
          if i_type (itable s ip) \<noteq> T_DIR then kbind (iunlockput ip s) (\<lambda>_ s. Ok (None, snd x) s)
          else if nameiparent \<and> path (fst x) = 0 then kbind (iunlock ip s) (\<lambda>_ s. Ok (Some ip, snd x) s)
          else
            kbind (dirlookup ip (snd x) s) (\<lambda>nxt s.
            case nxt of
              None \<Rightarrow> kbind (iunlockput ip s) (\<lambda>_ s. Ok (None, snd x) s)
            | Some y \<Rightarrow> kbind (iunlockput ip s) (\<lambda>_ s. namex_loop path n nameiparent (fst x) (snd x) (fst y) s))))"
  by pat_completeness auto
termination
proof (relation "measure (\<lambda>(path, n, np, off, name, ip, s). n - off)")
  fix path :: bytes and n :: nat and np :: bool and off :: nat and name :: bytes and ip :: nat
    and s sa sb sc sd :: "'a kfs_scheme" and x2 x2a v sa' va x2b vb
  assume "skipelem path n off name = Some x2" and "x2 = Some x2a"
  then show "((path, n, np, fst x2a, snd x2a, fst x2b, sd), path, n, np, off, name, ip, s)
      \<in> measure (\<lambda>(path, n, np, off, name, ip, s). n - off)"
    using skipelem_advances [of path n off name "fst x2a" "snd x2a"] by auto
qed simp

definition namex :: "bytes \<Rightarrow> nat \<Rightarrow> bool \<Rightarrow> bytes \<Rightarrow> 'a kfs_scheme \<Rightarrow> ('a kfs_scheme, nat option \<times> bytes) res" where
  "namex path n nameiparent name s =
     kbind
       (if path 0 = SLASH then iget ROOTDEV ROOTINO s
        else kbind (myproc s) (\<lambda>p s. case p_cwd (procs s p) of None \<Rightarrow> UB | Some i \<Rightarrow> idup i s)) (\<lambda>ip s.
     namex_loop path n nameiparent 0 name ip s)"

definition namei :: "bytes \<Rightarrow> nat \<Rightarrow> 'a kfs_scheme \<Rightarrow> ('a kfs_scheme, nat option) res" where
  "namei path n s = kbind (namex path n False (\<lambda>_. 0) s) (\<lambda>x s. Ok (fst x) s)"

definition nameiparent :: "bytes \<Rightarrow> nat \<Rightarrow> bytes \<Rightarrow> 'a kfs_scheme \<Rightarrow> ('a kfs_scheme, nat option \<times> bytes) res" where
  "nameiparent path n name s = namex path n True name s"

subsection \<open>An inode lies inside its block\<close>

lemma length_put_addrs:
  "\<forall>i\<in>set is. o' + 16 + 4 * i \<le> length d \<Longrightarrow> length (put_addrs a o' is d) = length d"
  by (induction "is" arbitrary: d) auto

lemma dip_off_le [simp]: "dip_off n + 64 \<le> BSIZE"
proof -
  have "unat n mod IPB < 16" by simp
  then show ?thesis unfolding dip_off_def by linarith
qed

lemma dip_off_le2 [simp]: "dip_off n + 2 \<le> BSIZE"
  using dip_off_le [of n] by linarith

subsection \<open>A mounted file system\<close>

text \<open>The superblock that \<open>mkfs\<close> writes, and an inode table with no entry in use.\<close>

definition blank_inode :: inode where
  "blank_inode = \<lparr>i_dev = 0, i_inum = 0, i_ref = 0, i_lock = initsleeplock, i_valid = False, i_type = 0,
     i_major = 0, i_minor = 0, i_nlink = 0, i_size = 0, i_addrs = (\<lambda>_. 0)\<rparr>"

definition fs_boot :: kfs where
  "fs_boot = klog.extend log_boot
     \<lparr>sb = \<lparr>sb_magic = 0x10203040, sb_size = 2000, sb_nblocks = 1953, sb_ninodes = 200, sb_nlog = 31, sb_logstart = 2,
             sb_inodestart = 33, sb_bmapstart = 46\<rparr>,
      itable = (\<lambda>_. blank_inode)\<rparr>"

end
