(* ===== verification/Vmcopy.thy ===== *)
theory Vmcopy
  imports Fs
begin

text \<open>
  Page faults and copying between user and kernel memory (\<open>vmfault\<close>, \<open>copyout\<close>, \<open>copyin\<close>,
  \<open>copyinstr\<close> of \<open>kernel/vm.c\<close>; \<open>either_copyout\<close>, \<open>either_copyin\<close> of \<open>kernel/proc.c\<close>), with the open-file
  table they need for memory-mapped files. A user address is translated page by page; an access of
  the kernel outside of its own memory is undefined.
\<close>

subsection \<open>Open files\<close>

datatype ftype = FD_NONE | FD_PIPE | FD_INODE | FD_DEVICE

record file_t =
  f_type :: ftype
  f_ref :: int
  f_readable :: bool
  f_writable :: bool
  f_pipe :: u64
  f_ip :: "nat option"
  f_off :: u32
  f_major :: u16

record pipe =
  pi_data :: "nat \<Rightarrow> u8"
  pi_nread :: u32
  pi_nwrite :: u32
  pi_readopen :: bool
  pi_writeopen :: bool

text \<open>A \<open>struct pipe\<close> occupies a page of its own; \<open>pipes\<close> maps the address of the page to the structure.\<close>

record kfile = kfs +
  ftable :: "nat \<Rightarrow> file_t"
  pipes :: "u64 \<Rightarrow> pipe"

definition upd_file :: "nat \<Rightarrow> (file_t \<Rightarrow> file_t) \<Rightarrow> 'a kfile_scheme \<Rightarrow> 'a kfile_scheme" where
  "upd_file i f s = s\<lparr>ftable := (ftable s)(i := f (ftable s i))\<rparr>"

definition upd_pipe :: "u64 \<Rightarrow> (pipe \<Rightarrow> pipe) \<Rightarrow> 'a kfile_scheme \<Rightarrow> 'a kfile_scheme" where
  "upd_pipe a f s = s\<lparr>pipes := (pipes s)(a := f (pipes s a))\<rparr>"

abbreviation (input) PROT_READ :: nat where "PROT_READ \<equiv> 0"
abbreviation (input) PROT_WRITE :: nat where "PROT_WRITE \<equiv> 1"
abbreviation (input) PROT_EXEC :: nat where "PROT_EXEC \<equiv> 2"
abbreviation (input) MAP_SHARED :: nat where "MAP_SHARED \<equiv> 0"

subsection \<open>Page faults\<close>

text \<open>The memory the kernel maps one to one and may write: the range \<open>[KERNBASE, PHYSTOP)\<close>.\<close>

definition kernel_range :: "u64 \<Rightarrow> nat \<Rightarrow> bool" where
  "kernel_range a n \<longleftrightarrow> unat KERNBASE \<le> unat a \<and> unat a + n \<le> unat PHYSTOP"

definition copy_to_kernel :: "u64 \<Rightarrow> u8 list \<Rightarrow> unit \<Rightarrow> 'a kfs_scheme \<Rightarrow> ('a kfs_scheme, int \<times> unit) res" where
  "copy_to_kernel dst bs l s =
     (if kernel_range dst (length bs) then Ok (0, ()) (s\<lparr>mem := store_bytes (mem s) dst bs\<rparr>) else UB)"

primrec find_vma :: "(nat \<Rightarrow> VMA) \<Rightarrow> u64 \<Rightarrow> nat list \<Rightarrow> nat option" where
  "find_vma vs va [] = None"
| "find_vma vs va (i # is) =
     (if vma_valid (vs i) \<and> vma_start (vs i) \<le> va \<and> va < vma_end (vs i) then Some i else find_vma vs va is)"

text \<open>The protection bits are those of \<open>fcntl.h\<close>.\<close>

definition vma_perm :: "int \<Rightarrow> u64" where
  "vma_perm prot =
     PTE_U OR (if bit prot PROT_READ then PTE_R else 0) OR (if bit prot PROT_WRITE then PTE_W else 0) OR
     (if bit prot PROT_EXEC then PTE_X else 0)"

definition vmfault :: "u64 \<Rightarrow> u64 \<Rightarrow> bool \<Rightarrow> 'a kfile_scheme \<Rightarrow> ('a kfile_scheme, u64) res" where
  "vmfault pagetable va read s =
     kbind (myproc s) (\<lambda>p s.
     if va \<ge> p_sz (procs s p) then
       case find_vma (p_vma (procs s p)) va [0..<NVMA] of
         None \<Rightarrow> Ok 0 s
       | Some i \<Rightarrow>
           let v = p_vma (procs s p) i in
           if \<not> read \<and> \<not> bit (vma_prot v) PROT_WRITE then
             Ok (-1) (upd_proc p (p_killed_update (\<lambda>_. 1)) s)
           else
             let va = PGROUNDDOWN va in
             kbind (kalloc s) (\<lambda>pg s.
             if pg = 0 then Ok 0 s
             else
               case vma_f v of
                 None \<Rightarrow> UB
               | Some f \<Rightarrow>
                   (case f_ip (ftable s f) of
                      None \<Rightarrow> UB
                    | Some ip \<Rightarrow>
                        let off = va - vma_start v in
                        kbind (begin_op s) (\<lambda>_ s.
                        kbind (ilock ip s) (\<lambda>_ s.
                        kbind (readi copy_to_kernel ip pg (word_of_int (vma_offset v) + ucast off) 4096 () s) (\<lambda>x s.
                        kbind (iunlock ip s) (\<lambda>_ s.
                        kbind (end_op s) (\<lambda>_ s.
                        let n = word_of_int (fst x) :: u32;
                            s = (if n < 4096
                                 then s\<lparr>mem := memset (mem s) (pg + ucast n) 0 (4096 - n)\<rparr> else s) in
                        kbind (mappages (p_pagetable (procs s p)) va PGSIZE pg (vma_perm (vma_prot v)) s) (\<lambda>r s.
                        if r \<noteq> 0 then kbind (kfree pg s) (\<lambda>_ s. Ok 0 s) else Ok pg s))))))))
     else
       let va = PGROUNDDOWN va in
       kbind (ismapped pagetable va s) (\<lambda>m s.
       if m then Ok 0 s
       else
         kbind (kalloc s) (\<lambda>pg s.
         if pg = 0 then Ok 0 s
         else
           let s = s\<lparr>mem := memset (mem s) pg 0 4096\<rparr> in
           kbind (mappages (p_pagetable (procs s p)) va PGSIZE pg (PTE_W OR PTE_U OR PTE_R) s) (\<lambda>r s.
           if r \<noteq> 0 then kbind (kfree pg s) (\<lambda>_ s. Ok 0 s) else Ok pg s))))"

subsection \<open>Copying\<close>

text \<open>The number of bytes up to the end of the page, at most \<open>len\<close>.\<close>

definition page_rest :: "u64 \<Rightarrow> nat \<Rightarrow> nat" where
  "page_rest va len = min len (unat (PGSIZE - (va - PGROUNDDOWN va)))"

lemma page_rest_pos: "0 < len \<Longrightarrow> 0 < page_rest va len"
proof -
  have "PGROUNDDOWN va \<le> va" unfolding word_le_nat_alt unat_PGROUNDDOWN by simp
  then have "unat (va - PGROUNDDOWN va) = unat va mod 4096"
    by (simp add: unat_sub unat_PGROUNDDOWN minus_div_mult_eq_mod)
  then have "va - PGROUNDDOWN va < PGSIZE" by (simp add: word_less_nat_alt)
  then show "0 < len \<Longrightarrow> 0 < page_rest va len" by (auto simp: page_rest_def unat_gt_0)
qed

function copyout :: "u64 \<Rightarrow> u64 \<Rightarrow> u8 list \<Rightarrow> 'a kfile_scheme \<Rightarrow> ('a kfile_scheme, int) res" where
  "copyout pagetable dstva src s =
     (if src = [] then Ok 0 s
      else
        let va0 = PGROUNDDOWN dstva in
        if va0 \<ge> MAXVA then Ok (-1) s
        else
          kbind (walkaddr pagetable va0 s) (\<lambda>pa0 s.
          kbind (if pa0 = 0 then vmfault pagetable va0 False s else Ok pa0 s) (\<lambda>pa0 s.
          if pa0 = 0 then Ok (-1) s
          else
            kbind (walk pagetable va0 False s) (\<lambda>pte s.
            if pte = 0 then UB
            else if ld64 (mem s) pte AND PTE_W = 0 then Ok (-1) s
            else
              let n = page_rest dstva (length src); a = pa0 + (dstva - va0) in
              if \<not> kernel_range a n then UB
              else copyout pagetable (va0 + PGSIZE) (drop n src) (s\<lparr>mem := store_bytes (mem s) a (take n src)\<rparr>)))))"
  by pat_completeness auto
termination
  by (relation "measure (\<lambda>(pt, va, src, s). length src)") (simp_all add: page_rest_pos)

declare copyout.simps [simp del]

text \<open>\<open>copyin\<close> returns the bytes it has stored at \<open>dst\<close> together with its result.\<close>

function copyin :: "u64 \<Rightarrow> u64 \<Rightarrow> nat \<Rightarrow> 'a kfile_scheme \<Rightarrow> ('a kfile_scheme, u8 list \<times> int) res" where
  "copyin pagetable srcva len s =
     (if len = 0 then Ok ([], 0) s
      else
        let va0 = PGROUNDDOWN srcva in
        kbind (walkaddr pagetable va0 s) (\<lambda>pa0 s.
        kbind (if pa0 = 0 then vmfault pagetable va0 False s else Ok pa0 s) (\<lambda>pa0 s.
        if pa0 = 0 then Ok ([], -1) s
        else
          let n = page_rest srcva len; a = pa0 + (srcva - va0) in
          if \<not> kernel_range a n then UB
          else
            let bs = load_bytes (mem s) a n in
            kbind (copyin pagetable (va0 + PGSIZE) (len - n) s) (\<lambda>x s. Ok (bs @ fst x, snd x) s))))"
  by pat_completeness auto
termination
  by (relation "measure (\<lambda>(pt, va, len, s). len)") (simp_all add: page_rest_pos)

declare copyin.simps [simp del]

text \<open>The inner loop of \<open>copyinstr\<close>: the bytes stored, and whether the NUL was among them.\<close>

fun copyinstr_page :: "memory \<Rightarrow> u64 \<Rightarrow> nat \<Rightarrow> u8 list \<times> bool" where
  "copyinstr_page m p 0 = ([], False)"
| "copyinstr_page m p (Suc n) =
     (if m p = 0 then ([0], True)
      else let r = copyinstr_page m (p + 1) n in (m p # fst r, snd r))"

function copyinstr :: "u64 \<Rightarrow> u64 \<Rightarrow> nat \<Rightarrow> 'a kfile_scheme \<Rightarrow> ('a kfile_scheme, u8 list \<times> int) res" where
  "copyinstr pagetable srcva mx s =
     (if mx = 0 then Ok ([], -1) s
      else
        let va0 = PGROUNDDOWN srcva in
        kbind (walkaddr pagetable va0 s) (\<lambda>pa0 s.
        if pa0 = 0 then Ok ([], -1) s
        else
          let n = page_rest srcva mx; a = pa0 + (srcva - va0) in
          if \<not> kernel_range a n then UB
          else
            let r = copyinstr_page (mem s) a n in
            if snd r then Ok (fst r, 0) s
            else kbind (copyinstr pagetable (va0 + PGSIZE) (mx - n) s) (\<lambda>x s. Ok (fst r @ fst x, snd x) s)))"
  by pat_completeness auto
termination
  by (relation "measure (\<lambda>(pt, va, mx, s). mx)") (simp_all add: page_rest_pos)

declare copyinstr.simps [simp del]

definition either_copyout :: "bool \<Rightarrow> u64 \<Rightarrow> u8 list \<Rightarrow> 'a kfile_scheme \<Rightarrow> ('a kfile_scheme, int) res" where
  "either_copyout user_dst dst src s =
     (if user_dst then kbind (myproc s) (\<lambda>p s. copyout (p_pagetable (procs s p)) dst src s)
      else kbind (copy_to_kernel dst src () s) (\<lambda>x s. Ok (fst x) s))"

definition either_copyin :: "bool \<Rightarrow> u64 \<Rightarrow> nat \<Rightarrow> 'a kfile_scheme \<Rightarrow> ('a kfile_scheme, u8 list \<times> int) res" where
  "either_copyin user_src src len s =
     (if user_src then kbind (myproc s) (\<lambda>p s. copyin (p_pagetable (procs s p)) src len s)
      else if kernel_range src len then Ok (load_bytes (mem s) src len, 0) s else UB)"

text \<open>The copy routines in the form that \<open>readi\<close> and \<open>writei\<close> take them.\<close>

definition copy_to_user :: "u64 \<Rightarrow> u8 list \<Rightarrow> unit \<Rightarrow> 'a kfile_scheme \<Rightarrow> ('a kfile_scheme, int \<times> unit) res" where
  "copy_to_user dst bs l s = kbind (either_copyout True dst bs s) (\<lambda>r s. Ok (r, ()) s)"

definition copy_from_user :: "u64 \<Rightarrow> nat \<Rightarrow> 'a kfile_scheme \<Rightarrow> ('a kfile_scheme, u8 list \<times> int) res" where
  "copy_from_user src n s = either_copyin True src n s"

subsection \<open>A system without open files\<close>

definition blank_file :: file_t where
  "blank_file = \<lparr>f_type = FD_NONE, f_ref = 0, f_readable = False, f_writable = False, f_pipe = 0, f_ip = None,
     f_off = 0, f_major = 0\<rparr>"

definition blank_pipe :: pipe where
  "blank_pipe = \<lparr>pi_data = (\<lambda>_. 0), pi_nread = 0, pi_nwrite = 0, pi_readopen = False, pi_writeopen = False\<rparr>"

definition file_boot :: kfile where
  "file_boot = kfs.extend fs_boot \<lparr>ftable = (\<lambda>_. blank_file), pipes = (\<lambda>_. blank_pipe)\<rparr>"

lemmas file_boot_defs = file_boot_def fs_boot_def log_boot_def bio_boot_def kproc_boot_def pt_boot_def
  kfs.defs klog.defs kbio.defs kproc.defs kmem.defs binit_def Let_def

lemma file_boot_fields:
  "kend file_boot = 0x80001000" "held file_boot = []" "uart_out file_boot = []" "curproc file_boot = Some 0"
  "procs file_boot = (\<lambda>_. blank_proc)" "ftable file_boot = (\<lambda>_. blank_file)" "pipes file_boot = (\<lambda>_. blank_pipe)"
  "itable file_boot = (\<lambda>_. blank_inode)"
  by (simp_all add: file_boot_defs)

end
