(* ===== verification/Uspace.thy ===== *)
theory Uspace
  imports Vmcopy
begin

text \<open>
  The user address space of a page table, and what \<open>copyout\<close> and \<open>copyin\<close> do to it. \<open>uspace s r\<close> says
  that the table \<open>r\<close> is well formed and that no two user pages share a physical page, nor share it
  with a page table or the free list; \<open>ubyte\<close> is the byte a user address holds.
\<close>

definition user_ok :: "memory \<Rightarrow> u64 \<Rightarrow> u64 \<Rightarrow> bool" where
  "user_ok m r va \<longleftrightarrow> va < MAXVA \<and> pte_of m r va AND PTE_V \<noteq> 0 \<and> pte_of m r va AND PTE_U \<noteq> 0"

definition uwritable :: "memory \<Rightarrow> u64 \<Rightarrow> u64 \<Rightarrow> bool" where
  "uwritable m r va \<longleftrightarrow> user_ok m r va \<and> pte_of m r va AND PTE_W \<noteq> 0"

definition phys :: "memory \<Rightarrow> u64 \<Rightarrow> u64 \<Rightarrow> u64" where
  "phys m r va = PTE2PA (pte_of m r va) + (va - PGROUNDDOWN va)"

definition ubyte :: "memory \<Rightarrow> u64 \<Rightarrow> u64 \<Rightarrow> u8" where
  "ubyte m r va = m (phys m r va)"

definition uspace :: "'a kmem_scheme \<Rightarrow> u64 \<Rightarrow> bool" where
  "uspace s r \<longleftrightarrow> KERNBASE \<le> kend s \<and> kmem_inv s \<and> pt_inv s r \<and> leaf_owned s r (user_ok (mem s) r)"

text \<open>The user addresses of \<open>n\<close> bytes from \<open>va\<close> on.\<close>

definition urange :: "u64 \<Rightarrow> nat \<Rightarrow> u64 \<Rightarrow> bool" where
  "urange va n v \<longleftrightarrow> unat va \<le> unat v \<and> unat v < unat va + n"

lemma uspace_cong:
  "mem t = mem s \<Longrightarrow> kend t = kend s \<Longrightarrow> freelist t = freelist s \<Longrightarrow>
   (L_kmem \<in> set (held t) \<longleftrightarrow> L_kmem \<in> set (held s)) \<Longrightarrow> uspace t r \<longleftrightarrow> uspace s r"
  by (simp add: uspace_def kmem_inv_def kmem_pages_def pt_inv_def leaf_owned_def ram_page_def kmem_free_def)

subsection \<open>Physical addresses\<close>

lemma unat_page_off: "unat (va - PGROUNDDOWN va) = unat va mod 4096"
proof -
  have "PGROUNDDOWN va \<le> va" unfolding word_le_nat_alt unat_PGROUNDDOWN by simp
  then show ?thesis by (simp add: unat_sub unat_PGROUNDDOWN minus_div_mult_eq_mod)
qed

lemma pageno_PGROUNDDOWN [simp]: "pageno (PGROUNDDOWN va) = pageno va"
  by (simp add: pageno_def unat_PGROUNDDOWN)

lemma ram_page_bound:
  assumes "ram_page s p"
  shows "unat p + 4096 \<le> unat PHYSTOP" and "page_aligned p" and "KERNBASE \<le> kend s \<Longrightarrow> unat KERNBASE \<le> unat p"
proof -
  have p: "page_aligned p" "unat p < 2281701376" "kend s \<le> p"
    using assms by (auto simp: ram_page_def word_less_nat_alt)
  then obtain k where "unat p = 4096 * k" by (elim dvdE)
  then show "unat p + 4096 \<le> unat PHYSTOP" using p(2) by simp
  show "page_aligned p" by (fact p(1))
  show "unat KERNBASE \<le> unat p" if "KERNBASE \<le> kend s"
    using that p(3) unfolding word_le_nat_alt by linarith
qed

lemma upage:
  assumes "uspace s r" and "user_ok (mem s) r va"
  shows "ram_page s (PTE2PA (pte_of (mem s) r va))" and "PTE2PA (pte_of (mem s) r va) \<notin> kmem_free s"
    and "PTE2PA (pte_of (mem s) r va) \<notin> pt_pages (mem s) r"
  using assms leaf_ownedD [of s r "user_ok (mem s) r" va] by (auto simp: uspace_def user_ok_def)

lemma unat_phys:
  assumes "uspace s r" and "user_ok (mem s) r va"
  shows "unat (phys (mem s) r va) = unat (PTE2PA (pte_of (mem s) r va)) + unat va mod 4096"
    and "pageno (phys (mem s) r va) = pageno (PTE2PA (pte_of (mem s) r va))"
proof -
  have p: "unat (PTE2PA (pte_of (mem s) r va)) + 4096 \<le> unat PHYSTOP" "page_aligned (PTE2PA (pte_of (mem s) r va))"
    using ram_page_bound [OF upage(1) [OF assms]] by auto
  have m: "unat va mod 4096 < 4096" by simp
  show u: "unat (phys (mem s) r va) = unat (PTE2PA (pte_of (mem s) r va)) + unat va mod 4096"
    unfolding phys_def using p(1) m
    by (simp add: unat_word_ariths unat_page_off)
  show "pageno (phys (mem s) r va) = pageno (PTE2PA (pte_of (mem s) r va))"
    unfolding pageno_def u using p(2) m by (elim dvdE) simp
qed

lemma page_rest_nat: "page_rest va n = min n (4096 - unat va mod 4096)"
proof -
  have "va - PGROUNDDOWN va \<le> PGSIZE"
    unfolding word_le_nat_alt unat_page_off using mod_less_divisor [of 4096 "unat va"] by simp
  then show ?thesis by (simp add: page_rest_def unat_sub unat_page_off)
qed

lemma user_ok_page:
  assumes "va < MAXVA" and "vb < MAXVA" and "pageno va = pageno vb"
  shows "user_ok m r va \<longleftrightarrow> user_ok m r vb" and "pte_of m r va = pte_of m r vb" and "uwritable m r va \<longleftrightarrow> uwritable m r vb"
proof -
  show e: "pte_of m r va = pte_of m r vb" by (rule pte_of_same_page [OF assms])
  then show "user_ok m r va \<longleftrightarrow> user_ok m r vb" "uwritable m r va \<longleftrightarrow> uwritable m r vb"
    using assms by (simp_all add: user_ok_def uwritable_def)
qed

text \<open>
  \<open>ustore va bs s t\<close>: from \<open>s\<close> to \<open>t\<close> the bytes \<open>bs\<close> were stored at the user address \<open>va\<close> and nothing
  else of the user address space changed.
\<close>

definition ustore :: "u64 \<Rightarrow> u64 \<Rightarrow> u8 list \<Rightarrow> 'a kmem_scheme \<Rightarrow> 'a kmem_scheme \<Rightarrow> bool" where
  "ustore r va bs s t \<longleftrightarrow> (\<exists>m. t = s\<lparr>mem := m\<rparr>) \<and> uspace t r \<and> pte_of (mem t) r = pte_of (mem s) r \<and>
     (\<forall>v. user_ok (mem s) r v \<longrightarrow>
        ubyte (mem t) r v = (if urange va (length bs) v then bs ! (unat v - unat va) else ubyte (mem s) r v))"

lemma ustore_Nil: "uspace s r \<Longrightarrow> ustore r va [] s s"
  by (auto simp: ustore_def urange_def intro: exI [of _ "mem s"])

lemma ustore_append:
  assumes "ustore r va bs s t" and "ustore r vb cs t u" and "unat vb = unat va + length bs"
  shows "ustore r va (bs @ cs) s u"
proof -
  have fr: "\<exists>m. u = s\<lparr>mem := m\<rparr>" using assms(1,2) by (auto simp: ustore_def)
  have pt: "pte_of (mem t) r = pte_of (mem s) r" "pte_of (mem u) r = pte_of (mem s) r" "uspace u r"
    using assms(1,2) by (simp_all add: ustore_def)
  have b: "ubyte (mem u) r v = (if urange va (length (bs @ cs)) v then (bs @ cs) ! (unat v - unat va) else ubyte (mem s) r v)"
    if v: "user_ok (mem s) r v" for v
  proof -
    have v': "user_ok (mem t) r v" using v pt(1) by (simp add: user_ok_def)
    have "ubyte (mem t) r v = (if urange va (length bs) v then bs ! (unat v - unat va) else ubyte (mem s) r v)"
      using assms(1) v by (simp add: ustore_def)
    moreover have "ubyte (mem u) r v = (if urange vb (length cs) v then cs ! (unat v - unat vb) else ubyte (mem t) r v)"
      using assms(2) v' by (simp add: ustore_def)
    ultimately show ?thesis by (auto simp: urange_def assms(3) nth_append)
  qed
  show ?thesis unfolding ustore_def using fr pt b by blast
qed

lemma in_range_iff:
  assumes "unat a + n < 2 ^ 64"
  shows "in_range a n x \<longleftrightarrow> unat a \<le> unat x \<and> unat x < unat a + n"
proof
  assume r: "in_range a n x"
  have "x = a + of_nat (unat (x - a))" by simp
  then have "unat x = unat a + unat (x - a)"
    using unat_add_small [of a "unat (x - a)"] r assms by (simp add: in_range_def)
  then show "unat a \<le> unat x \<and> unat x < unat a + n" using r by (simp add: in_range_def)
next
  assume "unat a \<le> unat x \<and> unat x < unat a + n"
  then show "in_range a n x" by (simp add: in_range_def unat_sub word_le_nat_alt) linarith
qed

lemma ustore_page:
  assumes sp: "uspace s r" and va: "user_ok (mem s) r va" and len: "unat va mod 4096 + length bs \<le> 4096"
  shows "ustore r va bs s (s\<lparr>mem := store_bytes (mem s) (phys (mem s) r va) bs\<rparr>)"
proof -
  let ?pg = "PTE2PA (pte_of (mem s) r va)" and ?a = "phys (mem s) r va"
  let ?m = "store_bytes (mem s) ?a bs"
  let ?t = "s\<lparr>mem := ?m\<rparr>"
  note up = upage [OF sp va]
  note pg = ram_page_bound(2) [OF up(1)]
  note ua = unat_phys [OF sp va]
  have am: "unat ?a mod 4096 = unat va mod 4096" using ua(1) pg by (elim dvdE) simp
  have st: "?m x = (if in_range ?a (length bs) x then bs ! unat (x - ?a) else mem s x)" for x
    by (rule store_bytes_apply) (use len in simp)
  have inr: "pageno x = pageno ?pg" if "in_range ?a (length bs) x" for x
    using in_range_div [OF that, of 12] am len ua(2) by (simp add: pageno_def)
  have m: "?m x = mem s x" if "pageno x \<noteq> pageno ?pg" for x using st inr that by auto
  have inv: "kmem_inv s" "pt_inv s r" "leaf_owned s r (user_ok (mem s) r)" "KERNBASE \<le> kend s"
    using sp by (simp_all add: uspace_def)
  obtain ps where ps: "kmem_pages s ps" using inv(1) by (auto simp: kmem_inv_def)
  have ps': "\<forall>p\<in>set ps. ram_page s p" "kmem_free s = set ps"
    using ps kmem_free_eq [OF ps] by (simp_all add: kmem_pages_def)
  have fr: "kmem_pages ?t ps"
    by (rule kmem_pages_frame [OF ps])
      (use m ps' up(2) ram_page_pageno_neq [OF up(1)] in auto)
  then have kf: "kmem_free ?t = kmem_free s" using kmem_free_eq ps'(2) by blast
  have ptp: "ram_page s a" "a \<notin> kmem_free s" "pageno a \<noteq> pageno ?pg" if "a \<in> pt_pages (mem s) r" for a
  proof -
    show "ram_page s a" "a \<notin> kmem_free s" using that inv(2) by (auto simp: pt_inv_def)
    then show "pageno a \<noteq> pageno ?pg" using ram_page_pageno_eqI [OF _ up(1)] up(3) that by metis
  qed
  have F: "pt_inv ?t r" "pt_pages (mem ?t) r = pt_pages (mem s) r" "\<And>v. pte_of (mem ?t) r v = pte_of (mem s) r v"
  proof -
    have 1: "mem ?t x = mem s x" if "a \<in> pt_pages (mem s) r" "pageno x = pageno a" for a x
      using m ptp(3) [OF that(1)] that(2) by simp
    have 2: "kmem_free ?t \<inter> pt_pages (mem s) r = {}" using kf ptp(2) by auto
    show "pt_inv ?t r" "pt_pages (mem ?t) r = pt_pages (mem s) r" "\<And>v. pte_of (mem ?t) r v = pte_of (mem s) r v"
      using pt_inv_frame [OF inv(2) 1 _ 2] by simp_all
  qed
  have uo: "user_ok (mem ?t) r = user_ok (mem s) r" using F(3) by (simp add: user_ok_def fun_eq_iff)
  have rp: "ram_page ?t q = ram_page s q" for q by (simp add: ram_page_def)
  have "leaf_owned ?t r (user_ok (mem ?t) r)"
    using inv(3) unfolding leaf_owned_def uo F(2,3) kf rp .
  then have "uspace ?t r" using F(1) fr inv(4) by (auto simp: uspace_def kmem_inv_def)
  moreover have "ubyte (mem ?t) r v = (if urange va (length bs) v then bs ! (unat v - unat va) else ubyte (mem s) r v)"
    if v: "user_ok (mem s) r v" for v
  proof (cases "pageno v = pageno va")
    case True
    have e: "pte_of (mem s) r v = pte_of (mem s) r va" using pte_of_same_page [OF _ _ True] v va by (simp add: user_ok_def)
    have uv: "unat (phys (mem s) r v) = unat ?pg + unat v mod 4096" using unat_phys(1) [OF sp v] e by simp
    have q: "unat v = unat va div 4096 * 4096 + unat v mod 4096" "unat va = unat va div 4096 * 4096 + unat va mod 4096"
      using True by (metis pageno_def div_mult_mod_eq)+
    have b: "unat ?a + length bs < 2 ^ 64" using ua(1) ram_page_bound(1) [OF up(1)] len by simp
    have ir: "in_range ?a (length bs) (phys (mem s) r v) \<longleftrightarrow> urange va (length bs) v"
      unfolding in_range_iff [OF b] urange_def uv ua(1) using q by linarith
    have "unat (phys (mem s) r v - ?a) = unat v - unat va" if "urange va (length bs) v"
    proof -
      have "?a \<le> phys (mem s) r v" using that q unfolding word_le_nat_alt uv ua(1) urange_def by linarith
      then have "unat (phys (mem s) r v - ?a) = unat v mod 4096 - unat va mod 4096" by (simp add: unat_sub uv ua(1))
      then show ?thesis using q by linarith
    qed
    then show ?thesis using ir F(3) by (simp add: ubyte_def phys_def [of ?m] st) (simp add: phys_def)
  next
    case False
    then have "PTE2PA (pte_of (mem s) r v) \<noteq> ?pg"
      using leaf_owned_inj [OF inv(3) v va] v va by (auto simp: user_ok_def)
    then have "pageno (phys (mem s) r v) \<noteq> pageno ?pg"
      using unat_phys(2) [OF sp v] ram_page_pageno_eqI [OF upage(1) [OF sp v] up(1)] by auto
    moreover have "\<not> urange va (length bs) v"
    proof
      assume "urange va (length bs) v"
      then have "unat va div 4096 * 4096 \<le> unat v" "unat v < unat va div 4096 * 4096 + 4096"
        using len div_mult_mod_eq [of "unat va" 4096] unfolding urange_def by linarith+
      then have "unat v div 4096 = unat va div 4096" by (intro div_nat_eqI) simp_all
      then show False using False by (simp add: pageno_def)
    qed
    ultimately show ?thesis using m F(3) by (simp add: ubyte_def phys_def)
  qed
  ultimately show ?thesis using F(3) unfolding ustore_def by (auto simp: fun_eq_iff)
qed

subsection \<open>Copying\<close>

lemma walkaddr_user:
  assumes "uspace s r" and "user_ok (mem s) r va"
  shows "walkaddr r (PGROUNDDOWN va) s = Ok (PTE2PA (pte_of (mem s) r va)) s"
    and "PGROUNDDOWN va < MAXVA"
    and "\<exists>pte. walk r (PGROUNDDOWN va) False s = Ok pte s \<and> pte \<noteq> 0 \<and> ld64 (mem s) pte = pte_of (mem s) r va"
proof -
  have inv: "pt_inv s r" using assms(1) by (simp add: uspace_def)
  have va: "va < MAXVA" using assms(2) by (simp add: user_ok_def)
  have "PGROUNDDOWN va \<le> va" unfolding word_le_nat_alt unat_PGROUNDDOWN by simp
  then show lt: "PGROUNDDOWN va < MAXVA" using va by simp
  have e: "pte_of (mem s) r (PGROUNDDOWN va) = pte_of (mem s) r va" using pte_of_same_page [OF lt va] by simp
  then show "walkaddr r (PGROUNDDOWN va) s = Ok (PTE2PA (pte_of (mem s) r va)) s"
    using walkaddr_spec [OF inv, of "PGROUNDDOWN va"] assms(2) lt by (simp add: user_ok_def)
  obtain c where c: "pt_node (mem s) r (lpath (PGROUNDDOWN va)) = Some c"
    using assms(2) e by (cases "pt_node (mem s) r (lpath (PGROUNDDOWN va))") (auto simp: user_ok_def pte_of_def)
  show "\<exists>pte. walk r (PGROUNDDOWN va) False s = Ok pte s \<and> pte \<noteq> 0 \<and> ld64 (mem s) pte = pte_of (mem s) r va"
    using walk_lookup [OF lt, of r s] c e entry_neq_0 [of c "px 0 (PGROUNDDOWN va)"] pt_invD [OF inv pt_path_lpath c]
    by (simp add: pte_of_def [of _ _ "PGROUNDDOWN va"])
qed

lemma kernel_range_user:
  assumes "uspace s r" and "user_ok (mem s) r va" and "unat va mod 4096 + n \<le> 4096"
  shows "kernel_range (phys (mem s) r va) n"
  using unat_phys(1) [OF assms(1,2)] ram_page_bound [OF upage(1) [OF assms(1,2)]] assms(1,3)
  by (simp add: kernel_range_def uspace_def)

lemma urange_next:
  assumes "unat va + n < 2 ^ 64" and "n > 4096 - unat va mod 4096"
  shows "unat (PGROUNDDOWN va + PGSIZE) = unat va + (4096 - unat va mod 4096)"
proof -
  have "unat (PGROUNDDOWN va) + 4096 < 2 ^ 64"
    using assms div_mult_mod_eq [of "unat va" 4096] mod_less_divisor [of 4096 "unat va"] unfolding unat_PGROUNDDOWN by linarith
  then have "unat (PGROUNDDOWN va + PGSIZE) = unat va div 4096 * 4096 + 4096"
    using unat_add_small [of "PGROUNDDOWN va" 4096] by (simp add: unat_PGROUNDDOWN)
  then show ?thesis using div_mult_mod_eq [of "unat va" 4096] mod_less_divisor [of 4096 "unat va"] by linarith
qed

lemma copyout_spec:
  assumes "uspace s r" and "\<And>v. urange va (length bs) v \<Longrightarrow> uwritable (mem s) r v" and "unat va + length bs \<le> unat MAXVA"
  shows "\<exists>t. copyout r va bs s = Ok 0 t \<and> ustore r va bs s t"
  using assms
proof (induction "length bs" arbitrary: va bs s rule: less_induct)
  case less
  show ?case
  proof (cases "bs = []")
    case True
    then show ?thesis using ustore_Nil [OF less.prems(1)] by (simp add: copyout.simps)
  next
    case False
    define n where "n = page_rest va (length bs)"
    have n: "n = min (length bs) (4096 - unat va mod 4096)" "0 < n"
      using page_rest_nat page_rest_pos [of "length bs" va] False by (auto simp: n_def)
    have va: "uwritable (mem s) r va" using less.prems(2) [of va] False by (simp add: urange_def)
    then have u: "user_ok (mem s) r va" and w: "pte_of (mem s) r va AND PTE_W \<noteq> 0" by (simp_all add: uwritable_def)
    note wk = walkaddr_user [OF less.prems(1) u]
    obtain pte where pte: "walk r (PGROUNDDOWN va) False s = Ok pte s" "pte \<noteq> 0" "ld64 (mem s) pte = pte_of (mem s) r va"
      using wk(3) by blast
    have pa: "PTE2PA (pte_of (mem s) r va) \<noteq> 0" using upage(1) [OF less.prems(1) u] by (simp add: ram_page_def)
    have fit: "unat va mod 4096 + n \<le> 4096" using n(1) mod_less_divisor [of 4096 "unat va"] by linarith
    define s' where "s' = s\<lparr>mem := store_bytes (mem s) (phys (mem s) r va) (take n bs)\<rparr>"
    have st: "ustore r va (take n bs) s s'"
      unfolding s'_def by (rule ustore_page [OF less.prems(1) u]) (use fit in simp)
    have kr: "kernel_range (phys (mem s) r va) n" by (rule kernel_range_user [OF less.prems(1) u fit])
    have run: "copyout r va bs s = copyout r (PGROUNDDOWN va + PGSIZE) (drop n bs) s'"
      using False wk(1) linorder_not_le [THEN iffD2, OF wk(2)] pa pte w kr
      by (subst copyout.simps) (simp add: n_def [symmetric] phys_def [symmetric] s'_def Let_def)
    show ?thesis
    proof (cases "n = length bs")
      case True
      then show ?thesis using run st by (auto simp: copyout.simps)
    next
      case False
      then have lt: "n = 4096 - unat va mod 4096" "n < length bs" using n(1) by auto
      have nx: "unat (PGROUNDDOWN va + PGSIZE) = unat va + n"
        using urange_next [of va "length bs"] less.prems(3) lt by simp
      have sp: "uspace s' r" and pt: "pte_of (mem s') r = pte_of (mem s) r" using st by (simp_all add: ustore_def)
      have ih: "\<exists>t. copyout r (PGROUNDDOWN va + PGSIZE) (drop n bs) s' = Ok 0 t \<and> ustore r (PGROUNDDOWN va + PGSIZE) (drop n bs) s' t"
      proof (rule less.hyps [OF _ sp])
        show "length (drop n bs) < length bs" using n(2) lt by simp
        show "uwritable (mem s') r v" if "urange (PGROUNDDOWN va + PGSIZE) (length (drop n bs)) v" for v
        proof -
          have "urange va (length bs) v" using that nx lt by (auto simp: urange_def)
          then show ?thesis using less.prems(2) pt by (simp add: uwritable_def user_ok_def)
        qed
        show "unat (PGROUNDDOWN va + PGSIZE) + length (drop n bs) \<le> unat MAXVA" using nx less.prems(3) lt by simp
      qed
      then obtain t where t: "copyout r (PGROUNDDOWN va + PGSIZE) (drop n bs) s' = Ok 0 t"
        "ustore r (PGROUNDDOWN va + PGSIZE) (drop n bs) s' t" by blast
      have "ustore r va (take n bs @ drop n bs) s t"
        by (rule ustore_append [OF st t(2)]) (use nx lt in simp)
      then show ?thesis using run t(1) by auto
    qed
  qed
qed

lemma same_page_div: "(a + i) div 4096 = a div 4096" if "a mod 4096 + i < 4096" for a i :: nat
proof (rule div_nat_eqI)
  show "4096 * (a div 4096) \<le> a + i" using mult_div_mod_eq [of 4096 a] by linarith
  show "a + i < 4096 * Suc (a div 4096)" using mult_div_mod_eq [of 4096 a] that unfolding mult_Suc_right by linarith
qed

lemma pageno_eq_PGROUNDDOWN: "pageno a = pageno b \<longleftrightarrow> PGROUNDDOWN a = PGROUNDDOWN b"
  by (simp add: pageno_def word_unat_eq_iff unat_PGROUNDDOWN)

lemma load_user:
  assumes "unat va mod 4096 + k \<le> 4096" and "unat va + k \<le> unat MAXVA"
  shows "load_bytes (mem s) (phys (mem s) r va) k = map (\<lambda>i. ubyte (mem s) r (va + of_nat i)) [0..<k]"
proof (unfold load_bytes_def, rule map_cong [OF refl])
  fix i
  assume "i \<in> set [0..<k]"
  then have i: "i < k" by simp
  have le: "unat va + i < unat MAXVA" using assms(2) i by simp
  have va': "unat (va + of_nat i) = unat va + i" by (rule unat_add_small) (use le in simp)
  then have pg: "pageno (va + of_nat i) = pageno va"
    using same_page_div [of "unat va" i] assms(1) i by (simp add: pageno_def)
  have lt: "va + of_nat i < MAXVA" "va < MAXVA" using le by (simp_all add: word_less_nat_alt va')
  have e: "pte_of (mem s) r (va + of_nat i) = pte_of (mem s) r va" using pte_of_same_page [OF lt pg] .
  have "phys (mem s) r (va + of_nat i) = phys (mem s) r va + of_nat i"
    using pg unfolding phys_def e pageno_eq_PGROUNDDOWN by simp
  then show "mem s (phys (mem s) r va + of_nat i) = ubyte (mem s) r (va + of_nat i)" by (simp add: ubyte_def)
qed

lemma copyin_spec:
  assumes "uspace s r" and "\<And>v. urange va n v \<Longrightarrow> user_ok (mem s) r v" and "unat va + n \<le> unat MAXVA"
  shows "copyin r va n s = Ok (map (\<lambda>i. ubyte (mem s) r (va + of_nat i)) [0..<n], 0) s"
  using assms(2,3)
proof (induction n arbitrary: va rule: less_induct)
  case (less n)
  show ?case
  proof (cases "n = 0")
    case True
    then show ?thesis by (simp add: copyin.simps)
  next
    case False
    define k where "k = page_rest va n"
    have k: "k = min n (4096 - unat va mod 4096)" "0 < k"
      using page_rest_nat page_rest_pos [of n va] False by (auto simp: k_def)
    have u: "user_ok (mem s) r va" using less.prems(1) [of va] False by (simp add: urange_def)
    note wk = walkaddr_user [OF assms(1) u]
    have pa: "PTE2PA (pte_of (mem s) r va) \<noteq> 0" using upage(1) [OF assms(1) u] by (simp add: ram_page_def)
    have fit: "unat va mod 4096 + k \<le> 4096" using k(1) mod_less_divisor [of 4096 "unat va"] by linarith
    have kr: "kernel_range (phys (mem s) r va) k" by (rule kernel_range_user [OF assms(1) u fit])
    have run: "copyin r va n s = kbind (copyin r (PGROUNDDOWN va + PGSIZE) (n - k) s)
        (\<lambda>x s'. Ok (load_bytes (mem s) (phys (mem s) r va) k @ fst x, snd x) s')"
      using False wk(1) pa kr
      by (subst copyin.simps) (simp add: k_def [symmetric] phys_def [symmetric] Let_def)
    have ub: "load_bytes (mem s) (phys (mem s) r va) k = map (\<lambda>i. ubyte (mem s) r (va + of_nat i)) [0..<k]"
      by (rule load_user [OF fit]) (use less.prems(2) k(1) in simp)
    show ?thesis
    proof (cases "k = n")
      case True
      then show ?thesis using run ub by (simp add: copyin.simps)
    next
      case False
      then have lt: "k = 4096 - unat va mod 4096" "k < n" using k(1) by auto
      have nx: "unat (PGROUNDDOWN va + PGSIZE) = unat va + k"
        using urange_next [of va n] less.prems(2) lt by simp
      have nx': "PGROUNDDOWN va + PGSIZE = va + of_nat k"
      proof -
        have "unat (va + of_nat k) = unat va + k" by (rule unat_add_small) (use lt less.prems(2) in simp)
        then show ?thesis using nx by (simp add: word_unat_eq_iff)
      qed
      have "copyin r (PGROUNDDOWN va + PGSIZE) (n - k) s =
        Ok (map (\<lambda>i. ubyte (mem s) r (PGROUNDDOWN va + PGSIZE + of_nat i)) [0..<n - k], 0) s"
      proof (rule less.IH)
        show "n - k < n" using k(2) lt by simp
        show "user_ok (mem s) r v" if "urange (PGROUNDDOWN va + PGSIZE) (n - k) v" for v
          using less.prems(1) [of v] that nx lt by (auto simp: urange_def)
        show "unat (PGROUNDDOWN va + PGSIZE) + (n - k) \<le> unat MAXVA" using nx less.prems(2) lt by simp
      qed
      moreover have "map (\<lambda>i. ubyte (mem s) r (va + of_nat k + of_nat i)) [0..<n - k] =
        map (\<lambda>i. ubyte (mem s) r (va + of_nat i)) [k..<n]"
        using lt(2) by (intro nth_equalityI) (simp_all add: add.assoc)
      moreover have "[0..<n] = [0..<k] @ [k..<n]" using lt by (metis le_add_diff_inverse less_imp_le upt_add_eq_append zero_le)
      ultimately show ?thesis using run ub nx' by simp
    qed
  qed
qed

subsection \<open>A process with one page of memory\<close>

text \<open>The memory is \<open>user_mem\<close>: the page at virtual address \<open>0x1000\<close> is mapped to \<open>0x80005000\<close>.\<close>

definition user_boot :: kfile where
  "user_boot = upd_proc 0 (\<lambda>p. p\<lparr>p_pagetable := 0x80002000, p_sz := 0x2000\<rparr>) (file_boot\<lparr>mem := user_mem, freelist := 0\<rparr>)"

lemma user_boot_fields:
  "mem user_boot = user_mem" "kend user_boot = 0x80001000" "freelist user_boot = 0" "held user_boot = []"
  by (simp_all add: user_boot_def upd_proc_def file_boot_fields)

lemma user_boot_inv:
  "kmem_inv user_boot" "kmem_free user_boot = {}" "pt_inv user_boot 0x80002000"
  using user_mem_inv [of user_boot] user_boot_fields by simp_all

lemma user_boot_uspace: "uspace user_boot 0x80002000"
proof -
  have "leaf_owned user_boot 0x80002000 (user_ok user_mem 0x80002000)"
    unfolding leaf_owned_def user_boot_fields
    by (auto simp: user_ok_def user_pte user_boot_inv ram_page_def user_boot_fields PTE2PA_def user_pages split: if_splits)
  then show ?thesis using user_boot_inv by (simp add: uspace_def user_boot_fields)
qed

subsection \<open>Properties\<close>

text \<open>C10: What \<open>copyout\<close> writes into the memory of a process, \<open>copyin\<close> reads back, also across page
  boundaries: on a range of mapped writable user pages both succeed, and no byte of user memory
  outside the range changes.\<close>

theorem copyout_copyin_roundtrip:
  assumes "uspace s r" and "unat va + length bs \<le> unat MAXVA" and "\<And>v. urange va (length bs) v \<Longrightarrow> uwritable (mem s) r v"
  shows "\<exists>t. copyout r va bs s = Ok 0 t \<and> copyin r va (length bs) t = Ok (bs, 0) t \<and> uspace t r \<and>
    (\<forall>v. user_ok (mem s) r v \<longrightarrow> \<not> urange va (length bs) v \<longrightarrow> ubyte (mem t) r v = ubyte (mem s) r v)"
proof -
  obtain t where t: "copyout r va bs s = Ok 0 t" "ustore r va bs s t" using copyout_spec [OF assms(1,3,2)] by blast
  then have u: "uspace t r" "pte_of (mem t) r = pte_of (mem s) r"
    and b: "\<And>v. user_ok (mem s) r v \<Longrightarrow>
      ubyte (mem t) r v = (if urange va (length bs) v then bs ! (unat v - unat va) else ubyte (mem s) r v)"
    by (auto simp: ustore_def)
  have ok: "user_ok (mem t) r v" "user_ok (mem s) r v" if "urange va (length bs) v" for v
    using assms(3) [OF that] u(2) by (auto simp: uwritable_def user_ok_def)
  have "map (\<lambda>i. ubyte (mem t) r (va + of_nat i)) [0..<length bs] = bs"
  proof (rule nth_equalityI)
    fix i
    assume "i < length (map (\<lambda>i. ubyte (mem t) r (va + of_nat i)) [0..<length bs])"
    then have i: "i < length bs" by simp
    then have "unat (va + of_nat i) = unat va + i" by (intro unat_add_small) (use assms(2) in simp)
    then show "map (\<lambda>i. ubyte (mem t) r (va + of_nat i)) [0..<length bs] ! i = bs ! i"
      using i b [OF ok(2)] by (simp add: urange_def)
  qed simp
  then show ?thesis using t(1) copyin_spec [OF u(1) ok(1) assms(2)] u(1) b by auto
qed

theorem copyout_copyin_roundtrip_witness:
  "\<exists>t. copyout 0x80002000 0x1ffe [7, 8] user_boot = Ok 0 t \<and> copyin 0x80002000 0x1ffe 2 t = Ok ([7, 8], 0) t"
proof -
  have "\<exists>t. copyout 0x80002000 0x1ffe [7, 8] user_boot = Ok 0 t \<and>
    copyin 0x80002000 0x1ffe (length [7, 8 :: u8]) t = Ok ([7, 8], 0) t \<and> uspace t 0x80002000 \<and>
    (\<forall>v. user_ok (mem user_boot) 0x80002000 v \<longrightarrow> \<not> urange 0x1ffe (length [7, 8 :: u8]) v \<longrightarrow>
       ubyte (mem t) 0x80002000 v = ubyte (mem user_boot) 0x80002000 v)"
  proof (rule copyout_copyin_roundtrip [OF user_boot_uspace])
    fix v
    assume "urange 0x1ffe (length [7, 8 :: u8]) v"
    then have "unat v div 4096 = 1" "v < MAXVA" by (auto simp: urange_def word_less_nat_alt)
    then show "uwritable (mem user_boot) 0x80002000 v"
      by (simp add: uwritable_def user_ok_def user_boot_fields user_pte pageno_def)
  qed simp
  then show ?thesis by (auto simp: numeral_2_eq_2)
qed

text \<open>C40: A system call that reads from a page of a read-only mapping which the process has not touched yet
  makes the kernel read from a wild address: \<open>copyin\<close> asks \<open>vmfault\<close> for a write access, \<open>vmfault\<close> refuses with
  -1, and \<open>copyin\<close>, which only tests for 0, uses that as a physical address.\<close>

theorem copyin_readonly_mapping_wild:
  assumes "curproc s = Some p" and "walkaddr r (PGROUNDDOWN va) s = Ok 0 s" and "p_sz (procs s p) \<le> PGROUNDDOWN va"
    and "find_vma (p_vma (procs s p)) (PGROUNDDOWN va) [0..<NVMA] = Some i"
    and "\<not> bit (vma_prot (p_vma (procs s p) i)) PROT_WRITE" and "0 < n"
  shows "copyin r va n s = UB"
proof -
  have f: "vmfault r (PGROUNDDOWN va) False s = Ok (-1) (upd_proc p (p_killed_update (\<lambda>_. 1)) s)"
    using assms(1,3,4,5) by (simp add: vmfault_def myproc_def Let_def)
  have "unat (-1 + (va - PGROUNDDOWN va)) < unat KERNBASE \<or> va - PGROUNDDOWN va = 0"
    using unat_minus_one [of "va - PGROUNDDOWN va"] mod_less_divisor [of 4096 "unat va"]
    by (cases "va - PGROUNDDOWN va = 0") (auto simp: unat_page_off)
  moreover have "(-1 :: u64) = 0xFFFFFFFFFFFFFFFF" by simp
  then have "unat (-1 :: u64) = 0xFFFFFFFFFFFFFFFF" by (simp only: unat_numeral) simp
  ultimately have "\<not> kernel_range (-1 + (va - PGROUNDDOWN va)) k" for k by (auto simp: kernel_range_def)
  then show ?thesis using assms(2,6) f by (subst copyin.simps) (simp add: Let_def)
qed

theorem copyin_readonly_mapping_wild_witness:
  "copyin 0x80002000 0x3000 1
     (upd_proc 0 (\<lambda>q. q\<lparr>p_vma := (p_vma q)(0 := \<lparr>vma_valid = True, vma_start = 0x3000, vma_end = 0x4000, vma_prot = 1,
        vma_flags = 1, vma_f = Some 0, vma_offset = 0\<rparr>)\<rparr>) user_boot) = UB"
proof -
  let ?s = "upd_proc 0 (\<lambda>q. q\<lparr>p_vma := (p_vma q)(0 := \<lparr>vma_valid = True, vma_start = 0x3000, vma_end = 0x4000, vma_prot = 1,
        vma_flags = 1, vma_f = Some 0, vma_offset = 0\<rparr>)\<rparr>) user_boot"
  have pd: "PGROUNDDOWN 0x3000 = 0x3000" by code_simp
  have u: "uspace ?s 0x80002000" using user_boot_uspace by (subst uspace_cong [of _ user_boot]) (simp_all add: upd_proc_def)
  have m: "mem ?s = user_mem" by (simp add: upd_proc_def user_boot_fields)
  have w: "walkaddr 0x80002000 (PGROUNDDOWN 0x3000) ?s = Ok 0 ?s"
    unfolding pd using walkaddr_spec [of ?s "0x80002000" "0x3000"] u unfolding m
    by (simp add: uspace_def user_pte pageno_def)
  have c: "curproc ?s = Some 0" "p_sz (procs ?s 0) \<le> PGROUNDDOWN 0x3000"
    unfolding pd by (simp_all add: upd_proc_def user_boot_def file_boot_fields)
  have v: "find_vma (p_vma (procs ?s 0)) (PGROUNDDOWN 0x3000) [0..<NVMA] = Some 0"
    "\<not> bit (vma_prot (p_vma (procs ?s 0) 0)) PROT_WRITE"
    unfolding pd by (simp_all add: upd_proc_def upt_rec bit_1_iff)
  show ?thesis by (rule copyin_readonly_mapping_wild [OF c(1) w c(2) v]) simp
qed

end
