(* ===== verification/Ring.thy ===== *)
theory Ring
  imports Prelude
begin

text \<open>
  Ring buffers with free-running 32-bit indices, as in \<open>kernel/pipe.c\<close> and \<open>kernel/console.c\<close>: the byte
  at index \<open>i\<close> is stored at \<open>i mod N\<close>, and the number of bytes is the difference of the indices, which
  is right across the wrap-around of the counters because \<open>N\<close> divides \<open>2 ^ 32\<close>. The locales are the
  contracts of a bounded byte queue and of one whose end can be edited.
\<close>

subsection \<open>The bytes between two indices\<close>

definition ring :: "nat \<Rightarrow> (nat \<Rightarrow> u8) \<Rightarrow> u32 \<Rightarrow> u32 \<Rightarrow> u8 list" where
  "ring N d r w = map (\<lambda>i. d (unat (r + of_nat i) mod N)) [0..<unat (w - r)]"

lemma length_ring [simp]: "length (ring N d r w) = unat (w - r)"
  by (simp add: ring_def)

lemma ring_empty [simp]: "ring N d r w = [] \<longleftrightarrow> r = w"
  by (auto simp: ring_def unat_eq_0)

lemma ring_refl [simp]: "ring N d r r = []"
  by (simp add: ring_def)

lemma ring_index:
  assumes "N dvd 2 ^ 32" and "i < 2 ^ 32"
  shows "unat (r + of_nat i :: u32) mod N = (unat r + i) mod N"
proof -
  have "unat (r + of_nat i) = (unat r + i) mod 2 ^ 32" using assms(2) by (simp add: unat_word_ariths unat_of_nat)
  then show ?thesis using assms(1) by (simp add: mod_mod_cancel del: power_numeral)
qed

lemma mod_add_less:
  assumes "i < k" and "k < N"
  shows "(a + i) mod N \<noteq> (a + k :: nat) mod N"
proof
  assume "(a + i) mod N = (a + k) mod N"
  then have "N dvd (a + k) - (a + i)" using mod_eq_dvd_iff_nat [of "a + i" "a + k" N] assms by simp
  then show False using assms nat_dvd_not_less [of "k - i" N] by simp
qed

text \<open>Storing at the write index and advancing it appends; advancing the read index drops the first byte.\<close>

lemma ring_put:
  assumes N: "N dvd 2 ^ 32" "N < 2 ^ 32" and lt: "unat (w - r) < N"
  shows "ring N (d(unat w mod N := c)) r (w + 1) = ring N d r w @ [c]"
proof -
  define k where "k = unat (w - r)"
  have w: "w = r + of_nat k" by (simp add: k_def)
  have k: "k < N" "Suc k < 2 ^ 32" using lt N(2) k_def by auto
  have e: "w + 1 = r + of_nat (Suc k)" by (simp add: w)
  have sub: "unat (w + 1 - r) = Suc k" unfolding e by (rule unat_diff_of_nat) (use k(2) in simp)
  have old: "(d(unat w mod N := c)) (unat (r + of_nat i) mod N) = d (unat (r + of_nat i) mod N)" if "i < k" for i
  proof -
    have "unat (r + of_nat i) mod N \<noteq> unat w mod N"
      using mod_add_less [of i k N "unat r"] that k ring_index [OF N(1), of i r] ring_index [OF N(1), of k r] w by auto
    then show ?thesis by simp
  qed
  have "ring N (d(unat w mod N := c)) r (w + 1) =
    map (\<lambda>i. (d(unat w mod N := c)) (unat (r + of_nat i) mod N)) [0..<k] @ [c]"
    unfolding ring_def sub by (simp add: w)
  also have "\<dots> = map (\<lambda>i. d (unat (r + of_nat i) mod N)) [0..<k] @ [c]" using old by simp
  finally show ?thesis by (simp add: ring_def k_def)
qed

lemma ring_Cons:
  assumes "r \<noteq> w"
  shows "ring N d r w = d (unat r mod N) # ring N d (r + 1) w"
proof -
  define k where "k = unat (w - r)"
  have "0 < k" using assms by (simp add: k_def unat_gt_0)
  then obtain j where j: "k = Suc j" by (cases k) auto
  have "unat (w - (r + 1)) = j"
    using assms j unat_minus_one [of "w - r"] by (simp add: k_def diff_diff_eq [symmetric])
  then show ?thesis
    using j by (simp add: ring_def k_def [symmetric] map_upt_Suc add.assoc del: upt_Suc)
qed

lemma ring_snoc:
  assumes "r \<noteq> w"
  shows "ring N d r w = ring N d r (w - 1) @ [d (unat (w - 1) mod N)]"
proof -
  define j where "j = unat (w - 1 - r)"
  have "unat (w - 1 - r) = unat (w - r) - 1" using assms unat_minus_one [of "w - r"] by (simp add: algebra_simps)
  moreover have "0 < unat (w - r)" using assms by (simp add: unat_gt_0)
  ultimately have "unat (w - r) = Suc j" by (simp add: j_def)
  moreover have "r + of_nat j = w - 1" by (simp add: j_def)
  ultimately show ?thesis by (simp add: ring_def j_def)
qed

lemma ring_butlast: "r \<noteq> w \<Longrightarrow> ring N d r (w - 1) = butlast (ring N d r w)"
  by (simp add: ring_snoc [of r w])

lemma ring_append:
  assumes "unat (w - r) \<le> unat (e - r)"
  shows "ring N d r e = ring N d r w @ ring N d w e"
proof -
  define i j where "i = unat (w - r)" and "j = unat (e - w)"
  have "unat (e - w) = unat ((e - r) - (w - r))" by simp
  also have "\<dots> = unat (e - r) - unat (w - r)" by (rule unat_sub) (use assms in \<open>simp add: word_le_nat_alt\<close>)
  finally have e: "unat (e - r) = i + j" using assms by (simp add: i_def j_def)
  have w: "r + of_nat i = w" by (simp add: i_def)
  have "ring N d r e = map (\<lambda>k. d (unat (r + of_nat k) mod N)) [0..<i + j]" by (simp add: ring_def e)
  also have "\<dots> = map (\<lambda>k. d (unat (r + of_nat k) mod N)) [0..<i] @ map (\<lambda>k. d (unat (r + of_nat (i + k)) mod N)) [0..<j]"
    by (rule nth_equalityI) (auto simp: nth_append)
  also have "(\<lambda>k. d (unat (r + of_nat (i + k)) mod N)) = (\<lambda>k. d (unat (w + of_nat k) mod N))"
    by (simp add: w [symmetric] add.assoc)
  finally show ?thesis by (simp add: ring_def i_def j_def)
qed

subsection \<open>Byte queues\<close>

datatype qop = Put u8 | Get

text \<open>
  A run of operations on a queue given by its content, capacity and operations: the bytes taken out
  and the final queue, if no byte is put into a full queue or taken from an empty one.
\<close>

fun qrun :: "('q \<Rightarrow> u8 list) \<Rightarrow> nat \<Rightarrow> (u8 \<Rightarrow> 'q \<Rightarrow> 'q) \<Rightarrow> ('q \<Rightarrow> u8 \<times> 'q) \<Rightarrow> qop list \<Rightarrow> 'q \<Rightarrow> (u8 list \<times> 'q) option" where
  "qrun content cap put get [] q = Some ([], q)"
| "qrun content cap put get (Put c # ops) q =
     (if length (content q) < cap then qrun content cap put get ops (put c q) else None)"
| "qrun content cap put get (Get # ops) q =
     (if content q \<noteq> []
      then map_option (\<lambda>x. (fst (get q) # fst x, snd x)) (qrun content cap put get ops (snd (get q))) else None)"

fun puts :: "qop list \<Rightarrow> u8 list" where
  "puts [] = []"
| "puts (Put c # ops) = c # puts ops"
| "puts (Get # ops) = puts ops"

text \<open>A bounded queue of bytes: \<open>content\<close> is the bytes in it, oldest first, and \<open>cap\<close> its capacity.\<close>

locale byte_queue =
  fixes inv :: "'q \<Rightarrow> bool"
    and content :: "'q \<Rightarrow> u8 list"
    and cap :: nat
    and put :: "u8 \<Rightarrow> 'q \<Rightarrow> 'q"
    and get :: "'q \<Rightarrow> u8 \<times> 'q"
  assumes inv_cap: "inv q \<Longrightarrow> length (content q) \<le> cap"
    and inv_put: "inv q \<Longrightarrow> length (content q) < cap \<Longrightarrow> inv (put c q)"
    and content_put: "inv q \<Longrightarrow> length (content q) < cap \<Longrightarrow> content (put c q) = content q @ [c]"
    and inv_get: "inv q \<Longrightarrow> content q \<noteq> [] \<Longrightarrow> inv (snd (get q))"
    and content_get: "inv q \<Longrightarrow> content q \<noteq> [] \<Longrightarrow> content q = fst (get q) # content (snd (get q))"
begin

abbreviation run :: "qop list \<Rightarrow> 'q \<Rightarrow> (u8 list \<times> 'q) option" where
  "run \<equiv> qrun content cap put get"

lemma fifo:
  "inv q \<Longrightarrow> run ops q = Some (out, q') \<Longrightarrow> inv q' \<and> content q @ puts ops = out @ content q'"
proof (induction ops arbitrary: q out)
  case (Cons op ops)
  show ?case
  proof (cases op)
    case (Put c)
    then show ?thesis using Cons inv_put content_put by (fastforce split: if_splits)
  next
    case Get
    note 3 = Cons.IH Cons.prems(1) Cons.prems(2) [unfolded Get]
    from 3(3) obtain out' where ne: "content q \<noteq> []" and r: "run ops (snd (get q)) = Some (out', q')"
      and out: "out = fst (get q) # out'"
      by (auto split: if_splits)
    have "inv q' \<and> content (snd (get q)) @ puts ops = out' @ content q'"
      using 3(1) [OF inv_get [OF 3(2) ne] r] .
    then show ?thesis using content_get [OF 3(2) ne] out Get by (metis append_Cons puts.simps(3))
  qed
qed simp

lemma content_puts:
  "inv q \<Longrightarrow> length (content q) + length bs \<le> cap \<Longrightarrow> inv (fold put bs q) \<and> content (fold put bs q) = content q @ bs"
proof (induction bs arbitrary: q)
  case (Cons b bs)
  then show ?case using inv_put [of q b] content_put [of q b] by simp
qed simp

lemma content_gets:
  "inv q \<Longrightarrow> n \<le> length (content q) \<Longrightarrow>
   inv (((\<lambda>q. snd (get q)) ^^ n) q) \<and> content (((\<lambda>q. snd (get q)) ^^ n) q) = drop n (content q)"
proof (induction n arbitrary: q)
  case (Suc n)
  then have ne: "content q \<noteq> []" by auto
  have "n \<le> length (content (snd (get q)))" using Suc.prems content_get [OF Suc.prems(1) ne] by (metis Suc_le_mono length_Cons)
  then show ?case
    using Suc.IH [OF inv_get [OF Suc.prems(1) ne]] content_get [OF Suc.prems(1) ne]
    by (metis (no_types, lifting) comp_apply drop_Suc_Cons funpow_Suc_right)
qed simp

end

text \<open>A queue whose newest byte can be taken back, as in line editing.\<close>

locale edit_queue = byte_queue inv content cap put get
  for inv :: "'q \<Rightarrow> bool" and content :: "'q \<Rightarrow> u8 list" and cap :: nat and put :: "u8 \<Rightarrow> 'q \<Rightarrow> 'q" and get :: "'q \<Rightarrow> u8 \<times> 'q" +
  fixes unput :: "'q \<Rightarrow> 'q"
  assumes inv_unput: "inv q \<Longrightarrow> content q \<noteq> [] \<Longrightarrow> inv (unput q)"
    and content_unput: "inv q \<Longrightarrow> content q \<noteq> [] \<Longrightarrow> content (unput q) = butlast (content q)"
begin

lemma unput_put:
  assumes "inv q" and "length (content q) < cap"
  shows "inv (unput (put c q)) \<and> content (unput (put c q)) = content q"
  using assms content_unput [of "put c q"] inv_unput [of "put c q"] by (simp add: inv_put content_put)

end

end
