(* ===== verification/Pipe.thy ===== *)
theory Pipe
  imports Uspace Ring
begin

text \<open>
  Pipes (\<open>kernel/pipe.c\<close>, apart from \<open>pipealloc\<close>, which is with the file table). A writer that finds
  the pipe full and a reader that finds it empty sleep; \<open>pipewrite_loop\<close> and \<open>piperead\<close> are the code
  that runs again when they are woken.
\<close>

abbreviation (input) PIPESIZE :: nat where "PIPESIZE \<equiv> 512"

text \<open>\<open>pi->data[pi->nwrite++ % PIPESIZE] = ch\<close> and \<open>ch = pi->data[pi->nread++ % PIPESIZE]\<close>.\<close>

definition pipe_put :: "u8 \<Rightarrow> pipe \<Rightarrow> pipe" where
  "pipe_put ch pi = pi\<lparr>pi_data := (pi_data pi)(unat (pi_nwrite pi) mod PIPESIZE := ch), pi_nwrite := pi_nwrite pi + 1\<rparr>"

definition pipe_get :: "pipe \<Rightarrow> u8 \<times> pipe" where
  "pipe_get pi = (pi_data pi (unat (pi_nread pi) mod PIPESIZE), pi\<lparr>pi_nread := pi_nread pi + 1\<rparr>)"

definition pipeclose :: "u64 \<Rightarrow> bool \<Rightarrow> 'a kfile_scheme \<Rightarrow> ('a kfile_scheme, unit) res" where
  "pipeclose pi writable s =
     kbind (acquire (L_pipe pi) s) (\<lambda>_ s.
     kbind (if writable then wakeup (Ch_nread pi) (upd_pipe pi (pi_writeopen_update (\<lambda>_. False)) s)
            else wakeup (Ch_nwrite pi) (upd_pipe pi (pi_readopen_update (\<lambda>_. False)) s)) (\<lambda>_ s.
     if \<not> pi_readopen (pipes s pi) \<and> \<not> pi_writeopen (pipes s pi)
     then kbind (release (L_pipe pi) s) (\<lambda>_ s. kfree pi s)
     else release (L_pipe pi) s))"

text \<open>The loop of \<open>pipewrite\<close> from byte \<open>i\<close> on, with the lock held, to the end of the function.\<close>

function pipewrite_loop :: "u64 \<Rightarrow> u64 \<Rightarrow> int \<Rightarrow> nat \<Rightarrow> 'a kfile_scheme \<Rightarrow> ('a kfile_scheme, int) res" where
  "pipewrite_loop pi addr n i s =
     (if int i < n then
        kbind (myproc s) (\<lambda>pr s.
        kbind (if \<not> pi_readopen (pipes s pi) then Ok True s else killed pr s) (\<lambda>stop s.
        if stop then kbind (release (L_pipe pi) s) (\<lambda>_ s. Ok (-1) s)
        else if pi_nwrite (pipes s pi) = pi_nread (pipes s pi) + of_nat PIPESIZE then
          kbind (wakeup (Ch_nread pi) s) (\<lambda>_ s. sleep (Ch_nwrite pi) (L_pipe pi) s)
        else
          kbind (copyin (p_pagetable (procs s pr)) (addr + of_nat i) 1 s) (\<lambda>x s.
          if snd x = -1 then
            kbind (wakeup (Ch_nread pi) s) (\<lambda>_ s. kbind (release (L_pipe pi) s) (\<lambda>_ s. Ok (int i) s))
          else pipewrite_loop pi addr n (Suc i) (upd_pipe pi (pipe_put (hd (fst x))) s))))
      else kbind (wakeup (Ch_nread pi) s) (\<lambda>_ s. kbind (release (L_pipe pi) s) (\<lambda>_ s. Ok (int i) s)))"
  by pat_completeness auto
termination
  by (relation "measure (\<lambda>(pi, addr, n, i, s). nat (n - int i))") auto

declare pipewrite_loop.simps [simp del]

definition pipewrite :: "u64 \<Rightarrow> u64 \<Rightarrow> int \<Rightarrow> 'a kfile_scheme \<Rightarrow> ('a kfile_scheme, int) res" where
  "pipewrite pi addr n s = kbind (acquire (L_pipe pi) s) (\<lambda>_ s. pipewrite_loop pi addr n 0 s)"

function piperead_loop :: "u64 \<Rightarrow> u64 \<Rightarrow> int \<Rightarrow> nat \<Rightarrow> 'a kfile_scheme \<Rightarrow> ('a kfile_scheme, nat) res" where
  "piperead_loop pi addr n i s =
     (if int i < n \<and> pi_nread (pipes s pi) \<noteq> pi_nwrite (pipes s pi) then
        kbind (myproc s) (\<lambda>pr s.
        let x = pipe_get (pipes s pi) in
        kbind (copyout (p_pagetable (procs s pr)) (addr + of_nat i) [fst x] (upd_pipe pi (\<lambda>_. snd x) s)) (\<lambda>r s.
        if r = -1 then Ok i s else piperead_loop pi addr n (Suc i) s))
      else Ok i s)"
  by pat_completeness auto
termination
  by (relation "measure (\<lambda>(pi, addr, n, i, s). nat (n - int i))") auto

declare piperead_loop.simps [simp del]

definition piperead :: "u64 \<Rightarrow> u64 \<Rightarrow> int \<Rightarrow> 'a kfile_scheme \<Rightarrow> ('a kfile_scheme, int) res" where
  "piperead pi addr n s =
     kbind (myproc s) (\<lambda>pr s.
     kbind (acquire (L_pipe pi) s) (\<lambda>_ s.
     if pi_nread (pipes s pi) = pi_nwrite (pipes s pi) \<and> pi_writeopen (pipes s pi) then
       kbind (killed pr s) (\<lambda>k s.
       if k then kbind (release (L_pipe pi) s) (\<lambda>_ s. Ok (-1) s)
       else sleep (Ch_nread pi) (L_pipe pi) s)
     else
       kbind (piperead_loop pi addr n 0 s) (\<lambda>i s.
       kbind (wakeup (Ch_nwrite pi) s) (\<lambda>_ s.
       kbind (release (L_pipe pi) s) (\<lambda>_ s. Ok (int i) s)))))"

subsection \<open>A pipe is a bounded byte queue\<close>

definition pipe_bytes :: "pipe \<Rightarrow> u8 list" where
  "pipe_bytes pi = ring PIPESIZE (pi_data pi) (pi_nread pi) (pi_nwrite pi)"

definition pipe_inv :: "pipe \<Rightarrow> bool" where
  "pipe_inv pi \<longleftrightarrow> unat (pi_nwrite pi - pi_nread pi) \<le> PIPESIZE"

interpretation pipeq: byte_queue pipe_inv pipe_bytes PIPESIZE pipe_put pipe_get
proof (unfold_locales)
  fix q :: pipe and c :: u8
  show "length (pipe_bytes q) \<le> PIPESIZE" if "pipe_inv q" using that by (simp add: pipe_bytes_def pipe_inv_def)
  show a: "pipe_bytes (pipe_put c q) = pipe_bytes q @ [c]" if "length (pipe_bytes q) < PIPESIZE"
    using ring_put [of PIPESIZE "pi_nwrite q" "pi_nread q" "pi_data q" c] that by (simp add: pipe_bytes_def pipe_put_def)
  show "pipe_inv (pipe_put c q)" if "length (pipe_bytes q) < PIPESIZE"
    using a [OF that] that length_ring [of PIPESIZE "pi_data (pipe_put c q)"] unfolding pipe_inv_def pipe_bytes_def
    by (metis Suc_leI length_append_singleton)
  assume ne: "pipe_bytes q \<noteq> []"
  then show b: "pipe_bytes q = fst (pipe_get q) # pipe_bytes (snd (pipe_get q))"
    using ring_Cons [of "pi_nread q" "pi_nwrite q"] by (simp add: pipe_bytes_def pipe_get_def)
  show "pipe_inv (snd (pipe_get q))" if "pipe_inv q"
    using b that length_ring [of PIPESIZE] unfolding pipe_inv_def pipe_bytes_def by (metis Suc_leD length_Cons)
qed

lemma pipe_full: "pi_nwrite q = pi_nread q + of_nat PIPESIZE \<longleftrightarrow> length (pipe_bytes q) = PIPESIZE"
proof -
  have "pi_nwrite q = pi_nread q + of_nat PIPESIZE \<longleftrightarrow> pi_nwrite q - pi_nread q = 512" by (auto simp: algebra_simps)
  also have "\<dots> \<longleftrightarrow> unat (pi_nwrite q - pi_nread q) = 512" by (simp add: word_unat_eq_iff)
  finally show ?thesis by (simp add: pipe_bytes_def)
qed

lemma killed_free: "L_proc p \<notin> set (held s) \<Longrightarrow> killed p s = Ok (p_killed (procs s p) \<noteq> 0) s"
  by (simp add: killed_def)

lemma upd_pipe_fields [simp]:
  "mem (upd_pipe pi f s) = mem s" "kend (upd_pipe pi f s) = kend s" "freelist (upd_pipe pi f s) = freelist s"
  "held (upd_pipe pi f s) = held s" "procs (upd_pipe pi f s) = procs s" "curproc (upd_pipe pi f s) = curproc s"
  "pipes (upd_pipe pi f s) pi = f (pipes s pi)"
  by (simp_all add: upd_pipe_def)

lemma upd_pipe_upd_pipe [simp]: "upd_pipe pi g (upd_pipe pi f s) = upd_pipe pi (g \<circ> f) s"
  by (simp add: upd_pipe_def)

lemma uspace_upd_pipe [simp]: "uspace (upd_pipe pi f s) r \<longleftrightarrow> uspace s r"
  by (rule uspace_cong) simp_all

subsection \<open>Writing into a pipe\<close>

lemma pipewrite_loop_spec:
  assumes "curproc s = Some pr" and "p_killed (procs s pr) = 0" and "\<And>p. L_proc p \<notin> set (held s)"
    and "uspace s (p_pagetable (procs s pr))" and "\<And>v. urange addr n v \<Longrightarrow> user_ok (mem s) (p_pagetable (procs s pr)) v"
    and "unat addr + n \<le> unat MAXVA" and "pi_readopen (pipes s pi)" and "pipe_inv (pipes s pi)"
    and "length (pipe_bytes (pipes s pi)) + (n - i) \<le> PIPESIZE" and "i \<le> n"
  shows "pipewrite_loop pi addr (int n) i s =
    kbind (wakeup (Ch_nread pi) (upd_pipe pi (fold pipe_put
      (map (\<lambda>j. ubyte (mem s) (p_pagetable (procs s pr)) (addr + of_nat j)) [i..<n])) s))
     (\<lambda>_ s. kbind (release (L_pipe pi) s) (\<lambda>_ s. Ok (int n) s))"
  using assms
proof (induction "n - i" arbitrary: i s)
  case 0
  then have "i = n" by simp
  moreover have "upd_pipe pi (\<lambda>x. x) s = s" by (simp add: upd_pipe_def)
  ultimately show ?case by (simp add: pipewrite_loop.simps id_def)
next
  case (Suc k)
  let ?r = "p_pagetable (procs s pr)"
  let ?b = "ubyte (mem s) ?r (addr + of_nat i)"
  let ?s = "upd_pipe pi (pipe_put ?b) s"
  have i: "i < n" using Suc by simp
  have va: "unat (addr + of_nat i) = unat addr + i" by (rule unat_add_small) (use i Suc.prems(6) in simp)
  have ci: "copyin ?r (addr + of_nat i) 1 s = Ok ([?b], 0) s"
    using copyin_spec [OF Suc.prems(4), of "addr + of_nat i" 1] Suc.prems(5,6) i va by (auto simp: urange_def)
  have room: "length (pipe_bytes (pipes s pi)) < PIPESIZE" using Suc.prems(9) i by simp
  have nf: "pi_nwrite (pipes s pi) \<noteq> pi_nread (pipes s pi) + of_nat PIPESIZE" using pipe_full [of "pipes s pi"] room by simp
  have q: "pi_readopen (pipe_put ?b (pipes s pi))" using Suc.prems(7) by (simp add: pipe_put_def)
  have step: "pipewrite_loop pi addr (int n) i s = pipewrite_loop pi addr (int n) (Suc i) ?s"
    using i Suc.prems(1,2,3,7) ci nf by (subst pipewrite_loop.simps) (simp add: myproc_def killed_free)
  have "pipewrite_loop pi addr (int n) (Suc i) ?s =
    kbind (wakeup (Ch_nread pi) (upd_pipe pi (fold pipe_put
      (map (\<lambda>j. ubyte (mem ?s) (p_pagetable (procs ?s pr)) (addr + of_nat j)) [Suc i..<n])) ?s))
     (\<lambda>_ s. kbind (release (L_pipe pi) s) (\<lambda>_ s. Ok (int n) s))"
    by (rule Suc.hyps(1))
      (use Suc.hyps(2) Suc.prems i q pipeq.inv_put [OF Suc.prems(8) room] pipeq.content_put [OF Suc.prems(8) room] in auto)
  then show ?case using step i by (simp add: upt_conv_Cons comp_def)
qed

subsection \<open>Reading from a pipe\<close>

lemma ustore_upd_pipe: "ustore r va bs s t \<Longrightarrow> ustore r va bs (upd_pipe pi f s) (upd_pipe pi f t)"
proof -
  assume u: "ustore r va bs s t"
  then obtain m where "t = s\<lparr>mem := m\<rparr>" by (auto simp: ustore_def)
  then have "upd_pipe pi f t = (upd_pipe pi f s)\<lparr>mem := m\<rparr>" by (simp add: upd_pipe_def)
  then have "\<exists>m. upd_pipe pi f t = (upd_pipe pi f s)\<lparr>mem := m\<rparr>" by blast
  then show ?thesis using u by (simp add: ustore_def)
qed

lemma ustore_frame:
  assumes "ustore r va bs s t"
  shows "procs t = procs s" and "curproc t = curproc s" and "held t = held s" and "pipes t = pipes s"
  using assms by (auto simp: ustore_def)

abbreviation pipe_drop :: "nat \<Rightarrow> pipe \<Rightarrow> pipe" where
  "pipe_drop k \<equiv> (\<lambda>q. snd (pipe_get q)) ^^ k"

lemma piperead_loop_spec:
  assumes "curproc s = Some pr" and "uspace s (p_pagetable (procs s pr))"
    and "\<And>v. urange addr n v \<Longrightarrow> uwritable (mem s) (p_pagetable (procs s pr)) v"
    and "unat addr + n \<le> unat MAXVA" and "pipe_inv (pipes s pi)" and "i \<le> n"
    and "k = min (n - i) (length (pipe_bytes (pipes s pi)))"
  shows "\<exists>t. piperead_loop pi addr (int n) i s = Ok (i + k) t \<and>
    ustore (p_pagetable (procs s pr)) (addr + of_nat i) (take k (pipe_bytes (pipes s pi))) (upd_pipe pi (pipe_drop k) s) t"
  using assms
proof (induction k arbitrary: i s)
  case 0
  have "piperead_loop pi addr (int n) i s = Ok i s"
    using 0(7) by (subst piperead_loop.simps) (auto simp: min_def pipe_bytes_def unat_eq_0 split: if_splits)
  moreover have "upd_pipe pi (\<lambda>a. a) s = s" by (simp add: upd_pipe_def)
  ultimately show ?case using ustore_Nil [OF 0(2)] by simp
next
  case (Suc k)
  let ?r = "p_pagetable (procs s pr)"
  let ?q = "pipes s pi"
  let ?c = "fst (pipe_get ?q)"
  let ?s = "upd_pipe pi (\<lambda>_. snd (pipe_get ?q)) s"
  have i: "i < n" and ne: "pipe_bytes ?q \<noteq> []" using Suc.prems(7) by auto
  have va: "unat (addr + of_nat i) = unat addr + i" by (rule unat_add_small) (use i Suc.prems(4) in simp)
  have va': "unat (addr + of_nat (Suc i)) = unat addr + Suc i" by (rule unat_add_small) (use i Suc.prems(4) in simp)
  obtain t where t: "copyout ?r (addr + of_nat i) [?c] ?s = Ok 0 t" "ustore ?r (addr + of_nat i) [?c] ?s t"
    using copyout_spec [of ?s ?r "addr + of_nat i" "[?c]"] Suc.prems(2,3,4) i va by (auto simp: urange_def)
  note f = ustore_frame [OF t(2)]
  have step: "piperead_loop pi addr (int n) i s = piperead_loop pi addr (int n) (Suc i) t"
    using i Suc.prems(1) ne t(1) by (subst piperead_loop.simps) (simp add: myproc_def pipe_bytes_def Let_def)
  have b: "pipe_bytes ?q = ?c # pipe_bytes (pipes t pi)" using pipeq.content_get [OF Suc.prems(5) ne] f(4) by simp
  have "\<exists>u. piperead_loop pi addr (int n) (Suc i) t = Ok (Suc i + k) u \<and>
    ustore (p_pagetable (procs t pr)) (addr + of_nat (Suc i)) (take k (pipe_bytes (pipes t pi))) (upd_pipe pi (pipe_drop k) t) u"
  proof (rule Suc.IH)
    show "uwritable (mem t) (p_pagetable (procs t pr)) v" if "urange addr n v" for v
      using Suc.prems(3) [OF that] t(2) f(1) by (simp add: ustore_def uwritable_def user_ok_def)
    show "k = min (n - Suc i) (length (pipe_bytes (pipes t pi)))" using Suc.prems(7) b by auto
    show "pipe_inv (pipes t pi)" using pipeq.inv_get [OF Suc.prems(5) ne] f(4) by simp
    show "uspace t (p_pagetable (procs t pr))" using t(2) f(1) by (simp add: ustore_def)
  qed (use f Suc.prems i in simp_all)
  then obtain u where u: "piperead_loop pi addr (int n) (Suc i) t = Ok (Suc i + k) u"
    "ustore ?r (addr + of_nat (Suc i)) (take k (pipe_bytes (pipes t pi))) (upd_pipe pi (pipe_drop k) t) u"
    using f(1) by auto
  have e: "upd_pipe pi (pipe_drop k) ?s = upd_pipe pi (pipe_drop (Suc k)) s"
    by (simp add: upd_pipe_def funpow_Suc_right del: funpow.simps)
  have "ustore ?r (addr + of_nat i) ([?c] @ take k (pipe_bytes (pipes t pi))) (upd_pipe pi (pipe_drop (Suc k)) s) u"
    by (rule ustore_append [OF ustore_upd_pipe [OF t(2), of pi "pipe_drop k", unfolded e] u(2)]) (use va va' in simp)
  then show ?case using step u(1) b by (simp add: comp_def)
qed

lemma wakeup_pagetables:
  assumes "\<And>p. L_proc p \<notin> set (held s)"
  shows "\<exists>P. wakeup chan s = Ok () (s\<lparr>procs := P\<rparr>) \<and> (\<forall>q. p_pagetable (P q) = p_pagetable (procs s q))"
proof -
  let ?P = "\<lambda>i. if i < NPROC \<and> curproc s \<noteq> Some i then woken chan (procs s i) else procs s i"
  have "wakeup chan s = Ok () (s\<lparr>procs := ?P\<rparr>)" by (rule wakeup_spec [OF assms])
  moreover have "\<forall>q. p_pagetable (?P q) = p_pagetable (procs s q)" by (simp add: woken_def)
  ultimately show ?thesis by (intro exI [of _ ?P]) (rule conjI)
qed

lemma pipewrite_spec:
  assumes "curproc s = Some pr" and "p_killed (procs s pr) = 0" and "held s = []"
    and "uspace s (p_pagetable (procs s pr))" and "\<And>v. urange addr n v \<Longrightarrow> user_ok (mem s) (p_pagetable (procs s pr)) v"
    and "unat addr + n \<le> unat MAXVA" and "pi_readopen (pipes s pi)" and "pipe_inv (pipes s pi)"
    and "length (pipe_bytes (pipes s pi)) + n \<le> PIPESIZE"
  shows "\<exists>t. pipewrite pi addr (int n) s = Ok (int n) t \<and> held t = [] \<and> pipe_inv (pipes t pi) \<and>
    pipe_bytes (pipes t pi) = pipe_bytes (pipes s pi) @
      map (\<lambda>j. ubyte (mem s) (p_pagetable (procs s pr)) (addr + of_nat j)) [0..<n] \<and>
    (\<exists>P Q. t = s\<lparr>procs := P, pipes := Q\<rparr> \<and> (\<forall>q. p_pagetable (P q) = p_pagetable (procs s q)))"
proof -
  let ?bs = "map (\<lambda>j. ubyte (mem s) (p_pagetable (procs s pr)) (addr + of_nat j)) [0..<n]"
  let ?s = "s\<lparr>held := [L_pipe pi]\<rparr>"
  let ?t = "upd_pipe pi (fold pipe_put ?bs) ?s"
  have "uspace ?s (p_pagetable (procs s pr))" using assms(3,4) by (subst uspace_cong [of _ s]) simp_all
  then have l: "pipewrite_loop pi addr (int n) 0 ?s =
    kbind (wakeup (Ch_nread pi) ?t) (\<lambda>_ s. kbind (release (L_pipe pi) s) (\<lambda>_ s. Ok (int n) s))"
    using pipewrite_loop_spec [of ?s pr addr n pi 0] assms by simp
  obtain P where P: "wakeup (Ch_nread pi) ?t = Ok () (?t\<lparr>procs := P\<rparr>)" "\<forall>q. p_pagetable (P q) = p_pagetable (procs s q)"
    using wakeup_pagetables [of ?t "Ch_nread pi"] by auto
  let ?u = "?t\<lparr>procs := P, held := []\<rparr>"
  have u: "?u = s\<lparr>procs := P, pipes := (pipes s)(pi := fold pipe_put ?bs (pipes s pi))\<rparr>"
    using assms(3) by (simp add: upd_pipe_def)
  have c: "pipe_inv (fold pipe_put ?bs (pipes s pi)) \<and> pipe_bytes (fold pipe_put ?bs (pipes s pi)) = pipe_bytes (pipes s pi) @ ?bs"
    by (rule pipeq.content_puts) (use assms(8,9) in simp_all)
  have "pipewrite pi addr (int n) s = Ok (int n) ?u" using l P(1) assms(3) by (simp add: pipewrite_def)
  then show ?thesis using u c P(2) assms(3) by auto
qed

lemma piperead_spec:
  assumes "curproc s = Some pr" and "held s = []" and "uspace s (p_pagetable (procs s pr))"
    and "\<And>v. urange addr n v \<Longrightarrow> uwritable (mem s) (p_pagetable (procs s pr)) v"
    and "unat addr + n \<le> unat MAXVA" and "pipe_inv (pipes s pi)" and "pipe_bytes (pipes s pi) \<noteq> []"
    and "k = min n (length (pipe_bytes (pipes s pi)))"
  shows "\<exists>t. piperead pi addr (int n) s = Ok (int k) t \<and> held t = [] \<and> pipe_inv (pipes t pi) \<and>
    pipe_bytes (pipes t pi) = drop k (pipe_bytes (pipes s pi)) \<and> uspace t (p_pagetable (procs s pr)) \<and>
    (\<forall>v. user_ok (mem s) (p_pagetable (procs s pr)) v \<longrightarrow>
       ubyte (mem t) (p_pagetable (procs s pr)) v =
         (if urange addr k v then pipe_bytes (pipes s pi) ! (unat v - unat addr) else ubyte (mem s) (p_pagetable (procs s pr)) v))"
proof -
  let ?r = "p_pagetable (procs s pr)"
  let ?s = "s\<lparr>held := [L_pipe pi]\<rparr>"
  have us: "uspace ?s ?r" using assms(2,3) by (subst uspace_cong [of _ s]) simp_all
  obtain t where l: "piperead_loop pi addr (int n) 0 ?s = Ok k t"
    and t: "ustore ?r addr (take k (pipe_bytes (pipes s pi))) (upd_pipe pi (pipe_drop k) ?s) t"
    using piperead_loop_spec [of ?s pr addr n pi 0 k] us assms by auto
  note f = ustore_frame [OF t]
  obtain P where P: "wakeup (Ch_nwrite pi) t = Ok () (t\<lparr>procs := P\<rparr>)"
    using wakeup_pagetables [of t "Ch_nwrite pi"] f(3) by auto
  let ?u = "t\<lparr>procs := P, held := []\<rparr>"
  have ne: "pi_nread (pipes s pi) \<noteq> pi_nwrite (pipes s pi)" using assms(7) by (simp add: pipe_bytes_def)
  have run: "piperead pi addr (int n) s = Ok (int k) ?u"
    using l P f(3) ne assms(1,2) by (simp add: piperead_def myproc_def)
  have c: "pipe_inv (pipes ?u pi)" "pipe_bytes (pipes ?u pi) = drop k (pipe_bytes (pipes s pi))"
    using pipeq.content_gets [OF assms(6), of k] f(4) assms(8) by auto
  have "uspace t ?r" using t by (simp add: ustore_def)
  then have "uspace ?u ?r" using f(3) by (subst uspace_cong [of _ t]) simp_all
  moreover have "ubyte (mem ?u) ?r v = (if urange addr k v then pipe_bytes (pipes s pi) ! (unat v - unat addr) else ubyte (mem s) ?r v)"
    if "user_ok (mem s) ?r v" for v
  proof -
    have len: "length (take k (pipe_bytes (pipes s pi))) = k" using assms(8) by simp
    have "take k (pipe_bytes (pipes s pi)) ! (unat v - unat addr) = pipe_bytes (pipes s pi) ! (unat v - unat addr)"
      if "urange addr k v" using that by (intro nth_take) (auto simp: urange_def)
    then show ?thesis using t that unfolding ustore_def len by auto
  qed
  ultimately show ?thesis using run c by (intro exI [of _ ?u]) simp
qed

subsection \<open>Properties\<close>

text \<open>C28: A pipe is a first-in first-out queue of at most 512 bytes: whatever sequence of single-byte
  reads and writes is run on it, with no write to a full and no read from an empty pipe, the bytes
  that were in it followed by the bytes written are the bytes read followed by the bytes still in
  it, also when the 32-bit counters \<open>nread\<close> and \<open>nwrite\<close> wrap around.\<close>

theorem pipe_fifo:
  assumes "pipe_inv q" and "qrun pipe_bytes PIPESIZE pipe_put pipe_get ops q = Some (out, q')"
  shows "pipe_inv q' \<and> pipe_bytes q @ puts ops = out @ pipe_bytes q'"
  by (rule pipeq.fifo [OF assms])

definition wrapping_pipe :: pipe where
  "wrapping_pipe = blank_pipe\<lparr>pi_nread := 0xffffffff, pi_nwrite := 0xffffffff\<rparr>"

theorem pipe_fifo_witness:
  "qrun pipe_bytes PIPESIZE pipe_put pipe_get [Put 1, Put 2, Get, Put 3] wrapping_pipe =
     Some ([1], wrapping_pipe\<lparr>pi_data := (\<lambda>_. 0)(511 := 1, 0 := 2, 1 := 3), pi_nread := 0, pi_nwrite := 2\<rparr>) \<and>
   pipe_bytes wrapping_pipe @ [1, 2, 3] =
     [1] @ pipe_bytes (wrapping_pipe\<lparr>pi_data := (\<lambda>_. 0)(511 := 1, 0 := 2, 1 := 3), pi_nread := 0, pi_nwrite := 2\<rparr>)"
proof -
  have i: "pipe_inv wrapping_pipe" by (simp add: pipe_inv_def wrapping_pipe_def blank_pipe_def)
  have r: "qrun pipe_bytes PIPESIZE pipe_put pipe_get [Put 1, Put 2, Get, Put 3] wrapping_pipe =
     Some ([1], wrapping_pipe\<lparr>pi_data := (\<lambda>_. 0)(511 := 1, 0 := 2, 1 := 3), pi_nread := 0, pi_nwrite := 2\<rparr>)"
    by (simp add: wrapping_pipe_def blank_pipe_def pipe_bytes_def ring_def pipe_put_def pipe_get_def fun_upd_def [symmetric])
  show ?thesis using pipe_fifo [OF i r] r by simp
qed

text \<open>C8: A pipe carries bytes from one process to another. When a process that is not killed writes
  \<open>n\<close> bytes, at most the 512 bytes that a pipe holds and at least one, from mapped user memory into an empty
  pipe that is open for reading, and a process then reads \<open>n\<close> bytes from it into mapped writable user memory, no lock
  being held, then both calls return \<open>n\<close> without sleeping, the reader's memory holds the writer's bytes,
  and the pipe is empty again.\<close>

theorem pipe_transfer:
  assumes "held s = []" and "curproc s = Some w" and "p_killed (procs s w) = 0"
    and "pi_readopen (pipes s pi)" and "pipe_inv (pipes s pi)" and "pipe_bytes (pipes s pi) = []" and "0 < n" and "n \<le> 512"
    and "uspace s (p_pagetable (procs s w))" and "unat src + n \<le> unat MAXVA"
    and "\<And>v. urange src n v \<Longrightarrow> user_ok (mem s) (p_pagetable (procs s w)) v"
    and "uspace s (p_pagetable (procs s r))" and "unat dst + n \<le> unat MAXVA"
    and "\<And>v. urange dst n v \<Longrightarrow> uwritable (mem s) (p_pagetable (procs s r)) v"
  shows "\<exists>t u. pipewrite pi src (int n) s = Ok (int n) t \<and> piperead pi dst (int n) (t\<lparr>curproc := Some r\<rparr>) = Ok (int n) u \<and>
    pipe_bytes (pipes u pi) = [] \<and>
    (\<forall>i<n. ubyte (mem u) (p_pagetable (procs s r)) (dst + of_nat i) = ubyte (mem s) (p_pagetable (procs s w)) (src + of_nat i))"
proof -
  let ?bs = "map (\<lambda>j. ubyte (mem s) (p_pagetable (procs s w)) (src + of_nat j)) [0..<n]"
  obtain t P Q where w: "pipewrite pi src (int n) s = Ok (int n) t" "pipe_inv (pipes t pi)" "pipe_bytes (pipes t pi) = ?bs"
    and t: "t = s\<lparr>procs := P, pipes := Q\<rparr>" "\<forall>q. p_pagetable (P q) = p_pagetable (procs s q)"
    using pipewrite_spec [of s w src n pi] assms by auto
  let ?t = "t\<lparr>curproc := Some r\<rparr>"
  have us: "uspace ?t (p_pagetable (procs ?t r))" using assms(12) t by (subst uspace_cong [of _ s]) simp_all
  obtain u where u: "piperead pi dst (int n) ?t = Ok (int n) u" "pipe_bytes (pipes u pi) = []"
    "\<forall>v. user_ok (mem s) (p_pagetable (procs s r)) v \<longrightarrow>
       ubyte (mem u) (p_pagetable (procs s r)) v =
         (if urange dst n v then ?bs ! (unat v - unat dst) else ubyte (mem s) (p_pagetable (procs s r)) v)"
    using piperead_spec [of ?t r dst n pi n] us assms(1,7,13,14) w(2,3) t by auto
  have "ubyte (mem u) (p_pagetable (procs s r)) (dst + of_nat i) = ubyte (mem s) (p_pagetable (procs s w)) (src + of_nat i)"
    if i: "i < n" for i
  proof -
    have "unat (dst + of_nat i) = unat dst + i" by (rule unat_add_small) (use i assms(13) in simp)
    then show ?thesis using u(3) assms(14) [of "dst + of_nat i"] i by (simp add: urange_def uwritable_def)
  qed
  then show ?thesis using w(1) u(1,2) by auto
qed

text \<open>
  Two processes with a page table and a page of memory each: process 0 has the page \<open>0x80005000\<close>, with the
  bytes 7 and 8, and process 1 the page \<open>0x8000a000\<close>, both at virtual address \<open>0x1000\<close>.
\<close>

definition pair_data :: memory where
  "pair_data = (\<lambda>_. 0)(0x80005000 := 7, 0x80005001 := 8)"

definition pair_mem :: memory where
  "pair_mem = st64 (st64 (st64 (st64 (st64 (st64 pair_data
     (0x80002000 + 8 * of_nat 0) 0x20000C01) (0x80003000 + 8 * of_nat 0) 0x20001001) (0x80004000 + 8 * of_nat 1) 0x20001417)
     (0x80007000 + 8 * of_nat 0) 0x20002001) (0x80008000 + 8 * of_nat 0) 0x20002401) (0x80009000 + 8 * of_nat 1) 0x20002817"

definition pair_boot :: kfile where
  "pair_boot = upd_pipe 0x80006000 (pi_readopen_update (\<lambda>_. True))
     (upd_proc 0 (p_pagetable_update (\<lambda>_. 0x80002000)) (upd_proc 1 (p_pagetable_update (\<lambda>_. 0x80007000))
       (file_boot\<lparr>mem := pair_mem, freelist := 0\<rparr>)))"

lemma pair_boot_fields:
  "mem pair_boot = pair_mem" "kend pair_boot = 0x80001000" "freelist pair_boot = 0" "held pair_boot = []"
  "curproc pair_boot = Some 0" "p_pagetable (procs pair_boot 0) = 0x80002000" "p_pagetable (procs pair_boot 1) = 0x80007000"
  "p_killed (procs pair_boot 0) = 0" "pipes pair_boot 0x80006000 = blank_pipe\<lparr>pi_readopen := True\<rparr>"
  by (simp_all add: pair_boot_def upd_proc_def file_boot_fields blank_proc_def)

lemma pair_entry:
  assumes "page_aligned a" and "i < 512" and "pageno a \<noteq> pageno 0x80005000"
  shows "ld64 pair_mem (a + 8 * of_nat i) =
    (if a = 0x80009000 \<and> i = 1 then 0x20002817 else if a = 0x80008000 \<and> i = 0 then 0x20002401
     else if a = 0x80007000 \<and> i = 0 then 0x20002001 else if a = 0x80004000 \<and> i = 1 then 0x20001417
     else if a = 0x80003000 \<and> i = 0 then 0x20001001 else if a = 0x80002000 \<and> i = 0 then 0x20000C01 else 0)"
proof -
  have st: "ld64 (st64 m (b + 8 * of_nat j) v) (a + 8 * of_nat i) = (if a = b \<and> i = j then v else ld64 m (a + 8 * of_nat i))"
    if "page_aligned b" "j < 512" for m b j v
    using ld64_st64_other [of "b + 8 * of_nat j" "a + 8 * of_nat i" m v] entry_inj [OF that assms(1,2)] entry_aligned8 [OF that]
      entry_aligned8 [OF assms(1,2)] by auto
  have "ld64 pair_data (a + 8 * of_nat i) = ld64 (\<lambda>_. 0) (a + 8 * of_nat i)"
  proof (rule ld64_page_cong [OF entry_aligned8 [OF assms(1,2)]])
    fix x
    assume "pageno x = pageno (a + 8 * of_nat i)"
    then have "pageno x \<noteq> 0x80005" using entry_pageno [OF assms(1,2)] assms(3) by (simp add: pageno_def)
    then show "pair_data x = 0" by (auto simp: pair_data_def pageno_def)
  qed
  then show ?thesis unfolding pair_mem_def by (subst st, simp, simp)+ simp
qed

lemma pair_onepage:
  "onepage pair_mem 0x80002000 0x80003000 0x80004000 0x20001417" "onepage pair_mem 0x80007000 0x80008000 0x80009000 0x20002817"
  by (simp_all add: onepage_def pair_entry pageno_def PA2PTE_def)

lemma pair_pte:
  assumes "va < MAXVA"
  shows "pte_of pair_mem 0x80002000 va = (if pageno va = 1 then 0x20001417 else 0)"
    and "pte_of pair_mem 0x80007000 va = (if pageno va = 1 then 0x20002817 else 0)"
  using onepage_pte [OF pair_onepage(1) _ _ assms, of pair_boot] onepage_pte [OF pair_onepage(2) _ _ assms, of pair_boot]
  by (simp_all add: ram_page_def pair_boot_fields)

lemma pair_pages:
  "pt_pages pair_mem 0x80002000 = {0x80002000, 0x80003000, 0x80004000}" "pt_pages pair_mem 0x80007000 = {0x80007000, 0x80008000, 0x80009000}"
  using onepage_pages [OF pair_onepage(1), of pair_boot] onepage_pages [OF pair_onepage(2), of pair_boot]
  by (simp_all add: ram_page_def pair_boot_fields)

lemma pair_uspace: "uspace pair_boot 0x80002000" "uspace pair_boot 0x80007000"
proof -
  have e: "kmem_pages pair_boot []" by (simp add: kmem_pages_def pair_boot_fields)
  then have i: "kmem_inv pair_boot" by (auto simp: kmem_inv_def)
  have f: "kmem_free pair_boot = {}" using kmem_free_eq [OF e] by simp
  have pt: "pt_inv pair_boot 0x80002000" "pt_inv pair_boot 0x80007000"
    by (rule onepage_inv [of pair_boot _ "0x80003000" "0x80004000" "0x20001417"]
          onepage_inv [of pair_boot _ "0x80008000" "0x80009000" "0x20002817"],
        simp_all add: pair_boot_fields pair_onepage f ram_page_def)+
  have "leaf_owned pair_boot 0x80002000 (user_ok pair_mem 0x80002000)"
    "leaf_owned pair_boot 0x80007000 (user_ok pair_mem 0x80007000)"
    unfolding leaf_owned_def pair_boot_fields
    by (auto simp: user_ok_def pair_pte f ram_page_def pair_boot_fields PTE2PA_def pair_pages split: if_splits)
  then show "uspace pair_boot 0x80002000" "uspace pair_boot 0x80007000"
    using pt i by (simp_all add: uspace_def pair_boot_fields)
qed

lemma pair_bytes: "ubyte pair_mem 0x80002000 0x1000 = 7" "ubyte pair_mem 0x80002000 0x1001 = 8"
proof -
  have m: "pair_mem x = pair_data x" if "pageno x = 0x80005" for x
    unfolding pair_mem_def using that by (simp add: st64_other_page pageno_def)
  show "ubyte pair_mem 0x80002000 0x1000 = 7" "ubyte pair_mem 0x80002000 0x1001 = 8"
    using m [of "0x80005000"] m [of "0x80005001"]
    by (simp_all add: ubyte_def phys_def pair_pte pageno_def PTE2PA_def PGROUNDDOWN_def pair_data_def)
qed

theorem pipe_transfer_witness:
  "\<exists>t u. pipewrite 0x80006000 0x1000 2 pair_boot = Ok 2 t \<and>
     piperead 0x80006000 0x1ffe 2 (t\<lparr>curproc := Some 1\<rparr>) = Ok 2 u \<and>
     ubyte (mem u) 0x80007000 0x1ffe = 7 \<and> ubyte (mem u) 0x80007000 0x1fff = 8"
proof -
  have uw: "uwritable pair_mem 0x80002000 v" "uwritable pair_mem 0x80007000 v" if "4096 \<le> unat v" "unat v < 8192" for v
  proof -
    have "v < MAXVA" "unat v div 4096 = 1" using that by (auto simp: word_less_nat_alt)
    then show "uwritable pair_mem 0x80002000 v" "uwritable pair_mem 0x80007000 v"
      by (simp_all add: uwritable_def user_ok_def pair_pte pageno_def)
  qed
  have "\<exists>t u. pipewrite 0x80006000 0x1000 (int 2) pair_boot = Ok (int 2) t \<and>
    piperead 0x80006000 0x1ffe (int 2) (t\<lparr>curproc := Some 1\<rparr>) = Ok (int 2) u \<and> pipe_bytes (pipes u 0x80006000) = [] \<and>
    (\<forall>i<2. ubyte (mem u) (p_pagetable (procs pair_boot 1)) (0x1ffe + of_nat i) =
       ubyte (mem pair_boot) (p_pagetable (procs pair_boot 0)) (0x1000 + of_nat i))"
  proof (rule pipe_transfer)
    show "user_ok (mem pair_boot) (p_pagetable (procs pair_boot 0)) v" if "urange 0x1000 2 v" for v
      using uw(1) [of v] that by (simp add: urange_def uwritable_def pair_boot_fields)
    show "uwritable (mem pair_boot) (p_pagetable (procs pair_boot 1)) v" if "urange 0x1ffe 2 v" for v
      using uw(2) [of v] that unfolding pair_boot_fields by (simp add: urange_def)
  qed (simp_all only: pair_boot_fields pair_uspace, simp_all add: pipe_inv_def pipe_bytes_def blank_pipe_def)
  then obtain t u where tu: "pipewrite 0x80006000 0x1000 2 pair_boot = Ok 2 t"
    "piperead 0x80006000 0x1ffe 2 (t\<lparr>curproc := Some 1\<rparr>) = Ok 2 u"
    "\<forall>i<2. ubyte (mem u) 0x80007000 (0x1ffe + of_nat i) = ubyte pair_mem 0x80002000 (0x1000 + of_nat i)"
    unfolding pair_boot_fields by auto
  have "ubyte (mem u) 0x80007000 0x1ffe = 7" "ubyte (mem u) 0x80007000 0x1fff = 8"
    using tu(3) [rule_format, of 0] tu(3) [rule_format, of 1] by (simp_all add: pair_bytes)
  then show ?thesis using tu(1,2) by blast
qed

end
