(* ===== verification/Uart.thy ===== *)
theory Uart
  imports Vmcopy Printf
begin

text \<open>
  The serial port (\<open>kernel/uart.c\<close>) as a device with interrupts, and the state of the console. The
  received bytes not yet read are \<open>uart_in\<close>, and \<open>uart_idle\<close> is the transmit-idle bit of its status
  register; the bytes sent are \<open>uart_out\<close> of the machine. A busy-wait for the device ends when the
  device is ready, so it is no step of the model.
\<close>

abbreviation (input) INPUT_BUF_SIZE :: nat where "INPUT_BUF_SIZE \<equiv> 128"

record consbuf =
  c_buf :: "nat \<Rightarrow> u8"
  c_r :: u32
  c_w :: u32
  c_e :: u32

record kdev = kfile +
  cons :: consbuf
  tx_busy :: bool
  uart_in :: "u8 list"
  uart_idle :: bool
  uart_regs :: "(nat \<times> u8) list"
  devsw_console :: bool

text \<open>Control characters: \<open>C(x)\<close> is \<open>x - '@'\<close>.\<close>

abbreviation (input) CTRL_D :: u8 where "CTRL_D \<equiv> 4"
abbreviation (input) CTRL_H :: int where "CTRL_H \<equiv> 8"
abbreviation (input) CTRL_P :: int where "CTRL_P \<equiv> 16"
abbreviation (input) CTRL_U :: int where "CTRL_U \<equiv> 21"

subsection \<open>The serial port\<close>

text \<open>The registers written by \<open>uartinit\<close>, in order.\<close>

definition uartinit :: "'a kdev_scheme \<Rightarrow> 'a kdev_scheme" where
  "uartinit s = s\<lparr>uart_regs := uart_regs s @
     [(1, 0), (3, 0x80), (0, 0x03), (1, 0x00), (3, 0x03), (2, 0x07), (1, 0x03)]\<rparr>"

text \<open>The loop of \<open>uartwrite\<close> from byte \<open>i\<close> on, which a woken sender runs again.\<close>

primrec uartwrite_loop :: "u8 list \<Rightarrow> 'a kdev_scheme \<Rightarrow> ('a kdev_scheme, unit) res" where
  "uartwrite_loop [] s = release L_uart s"
| "uartwrite_loop (b # bs) s =
     (if tx_busy s then sleep Ch_uart L_uart s
      else uartwrite_loop bs (s\<lparr>uart_out := uart_out s @ [b], tx_busy := True\<rparr>))"

definition uartwrite :: "u8 list \<Rightarrow> 'a kdev_scheme \<Rightarrow> ('a kdev_scheme, unit) res" where
  "uartwrite bs s = kbind (acquire L_uart s) (\<lambda>_ s. uartwrite_loop bs s)"

definition uartgetc :: "'a kdev_scheme \<Rightarrow> int \<times> 'a kdev_scheme" where
  "uartgetc s = (case uart_in s of [] \<Rightarrow> (-1, s) | b # bs \<Rightarrow> (uint b, s\<lparr>uart_in := bs\<rparr>))"

end
