(* ===== verification/Console.thy ===== *)
theory Console
  imports Uart Ring
begin

text \<open>
  The console (\<open>kernel/console.c\<close>): the line-edited input buffer, reading and writing by
  processes, the process listing, and the interrupt handler of the serial port (\<open>uartintr\<close> of \<open>kernel/uart.c\<close>).
\<close>

subsection \<open>procdump\<close>

fun state_name :: "procstate \<Rightarrow> string" where
  "state_name UNUSED = ''unused''"
| "state_name USED = ''used''"
| "state_name SLEEPING = ''sleep ''"
| "state_name RUNNABLE = ''runble''"
| "state_name RUNNING = ''run   ''"
| "state_name ZOMBIE = ''zombie''"

text \<open>\<open>char name[16]\<close> printed as a string; \<open>safestrcpy\<close> keeps a NUL in it.\<close>

definition proc_name :: "proc \<Rightarrow> u8 list" where
  "proc_name q = cstr (p_name q) 16"

primrec procdump_loop :: "nat list \<Rightarrow> 'a kdev_scheme \<Rightarrow> ('a kdev_scheme, unit) res" where
  "procdump_loop [] s = Ok () s"
| "procdump_loop (p # ps) s =
     (if p_state (procs s p) = UNUSED then procdump_loop ps s
      else
        kbind (printf ''%d %s %s''
            [Aint (word_of_int (p_pid (procs s p))), Astr (Some (map of_char (state_name (p_state (procs s p))))),
             Astr (Some (proc_name (procs s p)))] s) (\<lambda>_ s.
        kbind (printf [CHR 0x0A] [] s) (\<lambda>_ s. procdump_loop ps s)))"

definition procdump :: "'a kdev_scheme \<Rightarrow> ('a kdev_scheme, unit) res" where
  "procdump s = kbind (printf [CHR 0x0A] [] s) (\<lambda>_ s. procdump_loop [0..<NPROC] s)"


lemma printed_procdump_loop: "procdump_loop ps s = Ok v t \<Longrightarrow> printed s t"
proof (induction ps arbitrary: s)
  case (Cons p ps)
  show ?case
  proof (cases "p_state (procs s p) = UNUSED")
    case True then show ?thesis using Cons by simp
  next
    case False
    then obtain a u b w where u: "printf ''%d %s %s''
            [Aint (word_of_int (p_pid (procs s p))), Astr (Some (map of_char (state_name (p_state (procs s p))))),
             Astr (Some (proc_name (procs s p)))] s = Ok a u"
      and w: "printf [CHR 0x0A] [] u = Ok b w" and t: "procdump_loop ps w = Ok v t"
      using Cons.prems by (auto simp: res_iff)
    show ?thesis using printed_printf [OF u] printed_printf [OF w] Cons.IH [OF t] printed_trans by blast
  qed
qed simp

lemma printed_procdump: "procdump s = Ok v t \<Longrightarrow> printed s t"
  unfolding procdump_def kbind_Ok_iff by (blast dest: printed_printf printed_procdump_loop intro: printed_trans)

subsection \<open>Reading and writing\<close>

function consolewrite_loop :: "bool \<Rightarrow> u64 \<Rightarrow> int \<Rightarrow> int \<Rightarrow> 'a kdev_scheme \<Rightarrow> ('a kdev_scheme, int) res" where
  "consolewrite_loop user_src src n i s =
     (if i < n then
        let nn = min 32 (n - i) in
        kbind (either_copyin user_src (src + word_of_int i) (nat nn) s) (\<lambda>x s.
        if snd x = -1 then Ok i s
        else kbind (uartwrite (fst x) s) (\<lambda>_ s. consolewrite_loop user_src src n (i + nn) s))
      else Ok i s)"
  by pat_completeness auto
termination
  by (relation "measure (\<lambda>(u, src, n, i, s). nat (n - i))") auto

declare consolewrite_loop.simps [simp del]

definition consolewrite :: "bool \<Rightarrow> u64 \<Rightarrow> int \<Rightarrow> 'a kdev_scheme \<Rightarrow> ('a kdev_scheme, int) res" where
  "consolewrite user_src src n s = consolewrite_loop user_src src n 0 s"

definition upd_cons :: "(consbuf \<Rightarrow> consbuf) \<Rightarrow> 'a kdev_scheme \<Rightarrow> 'a kdev_scheme" where
  "upd_cons f s = s\<lparr>cons := f (cons s)\<rparr>"

text \<open>
  The operations on the input buffer: \<open>cons.buf[cons.e++ % INPUT_BUF_SIZE] = c\<close>, \<open>cons.buf[cons.r++ %
  INPUT_BUF_SIZE]\<close> and \<open>cons.e--\<close>.
\<close>

definition cons_put :: "u8 \<Rightarrow> consbuf \<Rightarrow> consbuf" where
  "cons_put c x = x\<lparr>c_buf := (c_buf x)(unat (c_e x) mod INPUT_BUF_SIZE := c), c_e := c_e x + 1\<rparr>"

definition cons_get :: "consbuf \<Rightarrow> u8 \<times> consbuf" where
  "cons_get x = (c_buf x (unat (c_r x) mod INPUT_BUF_SIZE), x\<lparr>c_r := c_r x + 1\<rparr>)"

definition cons_unput :: "consbuf \<Rightarrow> consbuf" where
  "cons_unput x = x\<lparr>c_e := c_e x - 1\<rparr>"

text \<open>The loop of \<open>consoleread\<close>, with the lock held; \<open>n\<close> counts down from \<open>target\<close>.\<close>

function consoleread_loop :: "bool \<Rightarrow> u64 \<Rightarrow> int \<Rightarrow> int \<Rightarrow> 'a kdev_scheme \<Rightarrow> ('a kdev_scheme, int) res" where
  "consoleread_loop user_dst dst target n s =
     (if n > 0 then
        if c_r (cons s) = c_w (cons s) then
          kbind (myproc s) (\<lambda>p s.
          kbind (killed p s) (\<lambda>k s.
          if k then kbind (release L_cons s) (\<lambda>_ s. Ok (-1) s) else sleep Ch_cons L_cons s))
        else
          let c = fst (cons_get (cons s));
              s = upd_cons (\<lambda>x. snd (cons_get x)) s in
          if c = CTRL_D then
            let s = (if n < target then upd_cons (\<lambda>x. x\<lparr>c_r := c_r x - 1\<rparr>) s else s) in
            kbind (release L_cons s) (\<lambda>_ s. Ok (target - n) s)
          else
            kbind (either_copyout user_dst dst [c] s) (\<lambda>r s.
            if r = -1 then kbind (release L_cons s) (\<lambda>_ s. Ok (target - n) s)
            else if c = 10 then kbind (release L_cons s) (\<lambda>_ s. Ok (target - (n - 1)) s)
            else consoleread_loop user_dst (dst + 1) target (n - 1) s)
      else kbind (release L_cons s) (\<lambda>_ s. Ok (target - n) s))"
  by pat_completeness auto
termination
  by (relation "measure (\<lambda>(u, dst, target, n, s). nat n)") auto

declare consoleread_loop.simps [simp del]

definition consoleread :: "bool \<Rightarrow> u64 \<Rightarrow> int \<Rightarrow> 'a kdev_scheme \<Rightarrow> ('a kdev_scheme, int) res" where
  "consoleread user_dst dst n s = kbind (acquire L_cons s) (\<lambda>_ s. consoleread_loop user_dst dst n n s)"

text \<open>The loop that erases a line; the edit index moves back to the last newline or to the write index.\<close>

function kill_line :: "'a kdev_scheme \<Rightarrow> 'a kdev_scheme" where
  "kill_line s =
     (if c_e (cons s) \<noteq> c_w (cons s) \<and> c_buf (cons s) (unat (c_e (cons s) - 1) mod INPUT_BUF_SIZE) \<noteq> 10
      then kill_line (consputc BACKSPACE (upd_cons cons_unput s)) else s)"
  by pat_completeness auto
termination
proof (relation "measure (\<lambda>s. unat (c_e (cons s) - c_w (cons s)))")
  fix s :: "'a kdev_scheme"
  assume a: "c_e (cons s) \<noteq> c_w (cons s) \<and> c_buf (cons s) (unat (c_e (cons s) - 1) mod INPUT_BUF_SIZE) \<noteq> 10"
  let ?d = "c_e (cons s) - c_w (cons s)"
  have "?d \<noteq> 0" using a by simp
  then have "unat (?d - 1) < unat ?d" by (simp add: unat_minus_one unat_gt_0)
  then have "unat (c_e (cons s) - 1 - c_w (cons s)) < unat ?d" by (simp only: diff_right_commute)
  then show "(consputc BACKSPACE (upd_cons cons_unput s), s)
      \<in> measure (\<lambda>s. unat (c_e (cons s) - c_w (cons s)))"
    by (simp add: consputc_def uartputc_sync_def upd_cons_def cons_unput_def)
qed simp

declare kill_line.simps [simp del]

definition consoleintr :: "int \<Rightarrow> 'a kdev_scheme \<Rightarrow> ('a kdev_scheme, unit) res" where
  "consoleintr c s =
     kbind (acquire L_cons s) (\<lambda>_ s.
     if c = CTRL_P then kbind (procdump s) (\<lambda>_ s. release L_cons s)
     else if c = CTRL_U then release L_cons (kill_line s)
     else if c = CTRL_H \<or> c = 0x7f then
       release L_cons (if c_e (cons s) \<noteq> c_w (cons s)
                       then consputc BACKSPACE (upd_cons cons_unput s) else s)
     else if c \<noteq> 0 \<and> c_e (cons s) - c_r (cons s) < of_nat INPUT_BUF_SIZE then
       let c = (if c = 13 then 10 else c);
           s = consputc c s;
           s = upd_cons (cons_put (word_of_int c)) s in
       if c = 10 \<or> c = uint CTRL_D \<or> c_e (cons s) - c_r (cons s) = of_nat INPUT_BUF_SIZE then
         kbind (wakeup Ch_cons (upd_cons (\<lambda>x. x\<lparr>c_w := c_e x\<rparr>) s)) (\<lambda>_ s. release L_cons s)
       else release L_cons s
     else release L_cons s)"

text \<open>The loop of \<open>uartintr\<close> ends when the receive register is empty; each round takes one byte.\<close>

lemma consputc_uart_in [simp]: "uart_in (consputc c s) = uart_in s"
  by (simp add: consputc_def uartputc_sync_def)

lemma upd_cons_uart_in [simp]: "uart_in (upd_cons f s) = uart_in s"
  by (simp add: upd_cons_def)

lemma kill_line_uart_in [simp]: "uart_in (kill_line s) = uart_in s"
proof (induction s rule: kill_line.induct)
  case (1 s)
  then show ?case by (subst kill_line.simps) auto
qed

lemma release_uart_in: "release l s = Ok v t \<Longrightarrow> uart_in t = uart_in s"
  by (auto simp: release_def split: if_splits)

lemma acquire_uart_in: "acquire l s = Ok v t \<Longrightarrow> uart_in t = uart_in s"
  by (auto simp: acquire_def split: if_splits)

lemma wakeup_uart_in: "wakeup ch s = Ok v t \<Longrightarrow> uart_in t = uart_in s"
  by (auto dest!: wakeup_frame)

lemma procdump_uart_in: "procdump s = Ok v t \<Longrightarrow> uart_in t = uart_in s"
  by (auto dest!: printed_procdump simp: printed_def)

lemma consoleintr_uart_in: "consoleintr c s = Ok () t \<Longrightarrow> uart_in t = uart_in s"
  by (auto simp: consoleintr_def res_iff Let_def split: if_splits
      dest!: acquire_uart_in release_uart_in wakeup_uart_in procdump_uart_in)

function uartintr_loop :: "'a kdev_scheme \<Rightarrow> ('a kdev_scheme, unit) res" where
  "uartintr_loop s =
     (let x = uartgetc s in
      if fst x = -1 then Ok () (snd x)
      else kbind (consoleintr (fst x) (snd x)) (\<lambda>_ s. uartintr_loop s))"
  by pat_completeness auto
termination
  by (relation "measure (\<lambda>s. length (uart_in s))")
    (auto simp: uartgetc_def split: list.splits dest!: consoleintr_uart_in)

declare uartintr_loop.simps [simp del]

definition uartintr :: "'a kdev_scheme \<Rightarrow> ('a kdev_scheme, unit) res" where
  "uartintr s =
     kbind (acquire L_uart s) (\<lambda>_ s.
     kbind (if uart_idle s then wakeup Ch_uart (s\<lparr>tx_busy := False\<rparr>) else Ok () s) (\<lambda>_ s.
     kbind (release L_uart s) (\<lambda>_ s. uartintr_loop s)))"

definition consoleinit :: "'a kdev_scheme \<Rightarrow> 'a kdev_scheme" where
  "consoleinit s = (uartinit s)\<lparr>devsw_console := True\<rparr>"

subsection \<open>The input buffer as an edited queue\<close>

definition cons_bytes :: "consbuf \<Rightarrow> u8 list" where
  "cons_bytes x = ring INPUT_BUF_SIZE (c_buf x) (c_r x) (c_e x)"

definition cons_fits :: "consbuf \<Rightarrow> bool" where
  "cons_fits x \<longleftrightarrow> unat (c_e x - c_r x) \<le> INPUT_BUF_SIZE"

interpretation consq: edit_queue cons_fits cons_bytes INPUT_BUF_SIZE cons_put cons_get cons_unput
proof (unfold_locales)
  fix q :: consbuf and c :: u8
  have fits: "cons_fits q \<longleftrightarrow> length (cons_bytes q) \<le> INPUT_BUF_SIZE" for q by (simp add: cons_fits_def cons_bytes_def)
  show "length (cons_bytes q) \<le> INPUT_BUF_SIZE" if "cons_fits q" using that fits by simp
  show a: "cons_bytes (cons_put c q) = cons_bytes q @ [c]" if "length (cons_bytes q) < INPUT_BUF_SIZE"
    using ring_put [of INPUT_BUF_SIZE "c_e q" "c_r q" "c_buf q" c] that by (simp add: cons_bytes_def cons_put_def)
  show "cons_fits (cons_put c q)" if "length (cons_bytes q) < INPUT_BUF_SIZE" using a [OF that] that fits by simp
  assume ne: "cons_bytes q \<noteq> []"
  then show b: "cons_bytes q = fst (cons_get q) # cons_bytes (snd (cons_get q))"
    using ring_Cons [of "c_r q" "c_e q"] by (simp add: cons_bytes_def cons_get_def)
  show "cons_fits (snd (cons_get q))" if "cons_fits q" using b that fits by (metis Suc_leD length_Cons)
  show u: "cons_bytes (cons_unput q) = butlast (cons_bytes q)"
    using ring_butlast [of "c_r q" "c_e q"] ne by (simp add: cons_bytes_def cons_unput_def)
  show "cons_fits (cons_unput q)" if "cons_fits q" using u that fits by simp
qed

text \<open>
  The buffer holds the bytes that readers may take, from \<open>r\<close> to \<open>w\<close>, and the line that is being
  edited, from \<open>w\<close> to \<open>e\<close>, in which there is no newline.
\<close>

definition cons_ready :: "consbuf \<Rightarrow> u8 list" where
  "cons_ready x = ring INPUT_BUF_SIZE (c_buf x) (c_r x) (c_w x)"

definition cons_line :: "consbuf \<Rightarrow> u8 list" where
  "cons_line x = ring INPUT_BUF_SIZE (c_buf x) (c_w x) (c_e x)"

definition cons_inv :: "consbuf \<Rightarrow> bool" where
  "cons_inv x \<longleftrightarrow> cons_fits x \<and> unat (c_w x - c_r x) \<le> unat (c_e x - c_r x) \<and> 10 \<notin> set (cons_line x)"

lemma cons_bytes_split: "unat (c_w x - c_r x) \<le> unat (c_e x - c_r x) \<Longrightarrow> cons_bytes x = cons_ready x @ cons_line x"
  by (simp add: cons_bytes_def cons_ready_def cons_line_def ring_append)

lemma cons_put_split:
  assumes "unat (c_w x - c_r x) \<le> unat (c_e x - c_r x)" and "length (cons_bytes x) < INPUT_BUF_SIZE" and "cons_fits x"
  shows "cons_ready (cons_put c x) = cons_ready x" and "cons_line (cons_put c x) = cons_line x @ [c]"
    and "unat (c_w x - c_r x) \<le> unat (c_e (cons_put c x) - c_r x)"
proof -
  have b: "cons_bytes (cons_put c x) = cons_bytes x @ [c]" using consq.content_put [OF assms(3,2)] .
  have "unat (c_e (cons_put c x) - c_r x) = Suc (unat (c_e x - c_r x))"
    using arg_cong [OF b, of length] by (simp add: cons_bytes_def cons_put_def)
  then show le: "unat (c_w x - c_r x) \<le> unat (c_e (cons_put c x) - c_r x)" using assms(1) by simp
  have f: "c_w (cons_put c x) = c_w x" "c_r (cons_put c x) = c_r x" by (simp_all add: cons_put_def)
  have "cons_ready (cons_put c x) @ cons_line (cons_put c x) = cons_ready x @ cons_line x @ [c]"
    using b cons_bytes_split [OF assms(1)] cons_bytes_split [of "cons_put c x"] le f by simp
  moreover have "length (cons_ready (cons_put c x)) = length (cons_ready x)" by (simp add: cons_ready_def f)
  ultimately show "cons_ready (cons_put c x) = cons_ready x" "cons_line (cons_put c x) = cons_line x @ [c]" by simp_all
qed

lemma cons_unput_split:
  assumes "cons_inv x" and "c_e x \<noteq> c_w x"
  shows "cons_inv (cons_unput x)" and "cons_ready (cons_unput x) = cons_ready x" and "cons_line (cons_unput x) = butlast (cons_line x)"
proof -
  show r: "cons_ready (cons_unput x) = cons_ready x" by (simp add: cons_ready_def cons_unput_def)
  show l: "cons_line (cons_unput x) = butlast (cons_line x)"
    using ring_butlast [of "c_w x" "c_e x"] assms(2) by (simp add: cons_line_def cons_unput_def)
  have "length (cons_bytes x) = length (cons_ready x) + length (cons_line x)" "cons_line x \<noteq> []"
    using cons_bytes_split [of x] assms by (auto simp: cons_inv_def cons_line_def)
  then have ne: "cons_bytes x \<noteq> []" "length (cons_ready x) < length (cons_bytes x)" by auto
  have b: "cons_bytes (cons_unput x) = butlast (cons_bytes x)" and "cons_fits (cons_unput x)"
    using consq.content_unput [of x] consq.inv_unput [of x] ne(1) assms(1) by (auto simp: cons_inv_def)
  have "unat (c_e (cons_unput x) - c_r x) = unat (c_e x - c_r x) - 1"
    using arg_cong [OF b, of length] by (simp add: cons_bytes_def cons_unput_def)
  then show "cons_inv (cons_unput x)"
    using l ne(2) assms(1) \<open>cons_fits (cons_unput x)\<close>
    by (auto simp: cons_inv_def cons_ready_def cons_bytes_def cons_unput_def dest: in_set_butlastD)
qed

subsection \<open>The line discipline\<close>

lemma consputc_printed: "printed s (consputc c s)"
  by (auto simp: printed_def consputc_def uartputc_sync_def)

lemma kill_line_spec:
  assumes "cons_inv (cons s)"
  shows "\<exists>o'. kill_line s = s\<lparr>cons := (cons s)\<lparr>c_e := c_w (cons s)\<rparr>, uart_out := o'\<rparr>"
  using assms
proof (induction s rule: kill_line.induct)
  case (1 s)
  show ?case
  proof (cases "c_e (cons s) = c_w (cons s)")
    case True
    then have "kill_line s = s\<lparr>cons := (cons s)\<lparr>c_e := c_w (cons s)\<rparr>, uart_out := uart_out s\<rparr>"
      by (subst kill_line.simps) simp
    then show ?thesis by (rule exI)
  next
    case False
    let ?s = "consputc BACKSPACE (upd_cons cons_unput s)"
    have c: "cons ?s = cons_unput (cons s)" by (simp add: upd_cons_def consputc_def uartputc_sync_def)
    have "cons_line (cons s) = ring INPUT_BUF_SIZE (c_buf (cons s)) (c_w (cons s)) (c_e (cons s) - 1) @
        [c_buf (cons s) (unat (c_e (cons s) - 1) mod INPUT_BUF_SIZE)]"
      unfolding cons_line_def using False by (intro ring_snoc) simp
    then have nl: "c_buf (cons s) (unat (c_e (cons s) - 1) mod INPUT_BUF_SIZE) \<noteq> 10" using 1(2) by (auto simp: cons_inv_def)
    have step: "kill_line s = kill_line ?s" using False nl by (subst kill_line.simps) simp
    obtain o' where "kill_line ?s = ?s\<lparr>cons := (cons ?s)\<lparr>c_e := c_w (cons ?s)\<rparr>, uart_out := o'\<rparr>"
      using 1(1) False nl cons_unput_split(1) [OF 1(2) False] c by auto
    then have "kill_line s = s\<lparr>cons := (cons s)\<lparr>c_e := c_w (cons s)\<rparr>, uart_out := o'\<rparr>"
      unfolding step c by (simp add: cons_unput_def upd_cons_def consputc_def uartputc_sync_def)
    then show ?thesis by (rule exI)
  qed
qed

lemma procdump_loop_ok: "L_pr \<notin> set (held s) \<Longrightarrow> \<exists>t. procdump_loop ps s = Ok () t"
proof (induction ps arbitrary: s)
  case (Cons p ps)
  show ?case
  proof (cases "p_state (procs s p) = UNUSED")
    case True then show ?thesis using Cons by simp
  next
    case False
    let ?a = "[Aint (word_of_int (p_pid (procs s p))), Astr (Some (map of_char (state_name (p_state (procs s p))))),
             Astr (Some (proc_name (procs s p)))]"
    have "args_ok ''%d %s %s'' ?a" by (simp add: args_ok.simps conv_args_def conv_len_def)
    then obtain u where u: "printf ''%d %s %s'' ?a s = Ok 0 u" "printed s u" using printf_ok [OF _ Cons.prems] by blast
    then have h: "held u = held s" by (auto simp: printed_def)
    have "args_ok [CHR 0x0A] []" by (simp add: args_ok.simps)
    then obtain w where w: "printf [CHR 0x0A] [] u = Ok 0 w" "printed u w" using printf_ok Cons.prems h by metis
    then show ?thesis using Cons False u h by (auto simp: printed_def)
  qed
qed simp

text \<open>
  What a typed character does to the bytes ready for readers and the line being edited: erase a
  character, erase the line, or append; a newline, an end-of-file or a full buffer hands the line
  over to the readers.
\<close>

definition line_edit :: "int \<Rightarrow> u8 list \<times> u8 list \<Rightarrow> u8 list \<times> u8 list" where
  "line_edit c b =
     (let (rdy, line) = b in
      if c = CTRL_P then (rdy, line)
      else if c = CTRL_U then (rdy, [])
      else if c = CTRL_H \<or> c = 0x7f then (rdy, butlast line)
      else if c \<noteq> 0 \<and> length rdy + length line < INPUT_BUF_SIZE then
        let line = line @ [if c = 13 then 10 else word_of_int c] in
        if last line = 10 \<or> last line = CTRL_D \<or> length rdy + length line = INPUT_BUF_SIZE then (rdy @ line, []) else (rdy, line)
      else (rdy, line))"

lemma cons_commit:
  assumes "unat (c_w x - c_r x) \<le> unat (c_e x - c_r x)" and "cons_fits x"
  shows "cons_inv (x\<lparr>c_w := c_e x\<rparr>)" and "cons_ready (x\<lparr>c_w := c_e x\<rparr>) = cons_ready x @ cons_line x"
    and "cons_line (x\<lparr>c_w := c_e x\<rparr>) = []"
  using assms(2) cons_bytes_split [OF assms(1)]
  by (simp_all add: cons_inv_def cons_fits_def cons_line_def cons_ready_def cons_bytes_def)

lemma cons_kill:
  assumes "cons_inv x"
  shows "cons_inv (x\<lparr>c_e := c_w x\<rparr>)" and "cons_ready (x\<lparr>c_e := c_w x\<rparr>) = cons_ready x" and "cons_line (x\<lparr>c_e := c_w x\<rparr>) = []"
  using assms by (auto simp: cons_inv_def cons_fits_def cons_line_def cons_ready_def)

lemma wakeup_cons:
  assumes "\<And>p. L_proc p \<notin> set (held s)"
  shows "\<exists>t. wakeup ch s = Ok () t \<and> cons t = cons s \<and> held t = held s"
  using wakeup_spec [OF assms] by auto

lemma consoleintr_char:
  assumes "cons_inv (cons s)" and "held s = []" and "c \<notin> {CTRL_P, CTRL_U, CTRL_H, 0x7f, 0}" and "0 \<le> c" and "c < 256"
    and room: "length (cons_bytes (cons s)) < INPUT_BUF_SIZE"
  shows "\<exists>t. consoleintr c s = Ok () t \<and> held t = [] \<and> cons_inv (cons t) \<and>
    (cons_ready (cons t), cons_line (cons t)) = line_edit c (cons_ready (cons s), cons_line (cons s))"
proof -
  define b :: u8 where "b = (if c = 13 then 10 else word_of_int c)"
  define c' where "c' = (if c = 13 then 10 else c)"
  have b: "word_of_int c' = b" "b = 10 \<longleftrightarrow> c' = 10" "b = CTRL_D \<longleftrightarrow> c' = uint CTRL_D"
    using assms(4,5) by (auto simp: b_def c'_def word_uint_eq_iff uint_word_of_int)
  let ?x = "cons s"
  let ?y = "cons_put b ?x"
  have x: "unat (c_w ?x - c_r ?x) \<le> unat (c_e ?x - c_r ?x)" "cons_fits ?x" "10 \<notin> set (cons_line ?x)"
    using assms(1) by (simp_all add: cons_inv_def)
  note y = cons_put_split [OF x(1) room x(2), of b]
  have f: "cons_fits ?y" using consq.inv_put [OF x(2) room] .
  have wr: "c_w ?y = c_w ?x" "c_r ?y = c_r ?x" by (simp_all add: cons_put_def)
  have len: "length (cons_bytes ?x) = length (cons_ready ?x) + length (cons_line ?x)" using cons_bytes_split [OF x(1)] by simp
  have le: "c_e ?x - c_r ?x < of_nat INPUT_BUF_SIZE" using room by (simp add: cons_bytes_def word_less_nat_alt)
  have "length (cons_bytes ?y) = Suc (length (cons_bytes ?x))" using consq.content_put [OF x(2) room, of b] by simp
  then have full: "c_e ?y - c_r ?y = of_nat INPUT_BUF_SIZE \<longleftrightarrow> length (cons_ready ?x) + Suc (length (cons_line ?x)) = INPUT_BUF_SIZE"
    using len by (simp add: cons_bytes_def word_unat_eq_iff)
  define s' where "s' = upd_cons (cons_put b) (consputc c' (s\<lparr>held := [L_cons]\<rparr>))"
  have s': "cons s' = ?y" "held s' = [L_cons]" by (simp_all add: s'_def upd_cons_def consputc_def uartputc_sync_def)
  define go where "go \<longleftrightarrow> c' = 10 \<or> c' = uint CTRL_D \<or> c_e ?y - c_r ?y = of_nat INPUT_BUF_SIZE"
  have run: "consoleintr c s = (if go then kbind (wakeup Ch_cons (upd_cons (\<lambda>x. x\<lparr>c_w := c_e x\<rparr>) s')) (\<lambda>_ s. release L_cons s)
     else release L_cons s')"
    using assms(2,3) le unfolding consoleintr_def go_def
    by (simp add: Let_def c'_def [symmetric] b(1) s'_def [symmetric] s' )
  have ed: "line_edit c (cons_ready ?x, cons_line ?x) =
     (if go then (cons_ready ?x @ cons_line ?x @ [b], []) else (cons_ready ?x, cons_line ?x @ [b]))"
    using assms(3) room len b(2,3) full unfolding line_edit_def go_def b_def [symmetric] by (auto simp: Let_def)
  show ?thesis
  proof (cases go)
    case True
    let ?t = "upd_cons (\<lambda>x. x\<lparr>c_w := c_e x\<rparr>) s'"
    have "held ?t = [L_cons]" "cons ?t = ?y\<lparr>c_w := c_e ?y\<rparr>" by (simp_all add: upd_cons_def s')
    then obtain u where u: "wakeup Ch_cons ?t = Ok () u" "cons u = ?y\<lparr>c_w := c_e ?y\<rparr>" "held u = [L_cons]"
      using wakeup_cons [of ?t Ch_cons] by auto
    have "consoleintr c s = Ok () (u\<lparr>held := []\<rparr>)" using run True u by simp
    then show ?thesis using cons_commit [of ?y] y f wr ed True u(2) by auto
  next
    case False
    then have "10 \<notin> set (cons_line ?y)" using y(2) x(3) b(2) by (auto simp: go_def)
    then have "cons_inv ?y" using f y(3) wr by (simp add: cons_inv_def)
    then show ?thesis using run False s' ed y by simp
  qed
qed

lemma procdump_ok: "L_pr \<notin> set (held s) \<Longrightarrow> \<exists>t. procdump s = Ok () t \<and> cons t = cons s \<and> held t = held s"
proof -
  assume h: "L_pr \<notin> set (held s)"
  obtain u where u: "printf [CHR 0x0A] [] s = Ok 0 u" "printed s u" using printf_ok [OF _ h, of "[CHR 0x0A]" "[]"] by (auto simp: args_ok.simps)
  then have "L_pr \<notin> set (held u)" using h by (auto simp: printed_def)
  then obtain t where "procdump_loop [0..<NPROC] u = Ok () t" using procdump_loop_ok by blast
  then have "procdump s = Ok () t" using u by (simp add: procdump_def)
  then show ?thesis using printed_procdump by (fastforce simp: printed_def)
qed

subsection \<open>Properties\<close>

lemma consoleintr_erase:
  assumes "cons_inv (cons s)" and "held s = []" and c: "c = CTRL_H \<or> c = 0x7f"
  shows "\<exists>t. consoleintr c s = Ok () t \<and> held t = [] \<and> cons_inv (cons t) \<and>
    (cons_ready (cons t), cons_line (cons t)) = line_edit c (cons_ready (cons s), cons_line (cons s))"
proof (cases "c_e (cons s) = c_w (cons s)")
  case True
  then have "cons_line (cons s) = []" by (simp add: cons_line_def)
  then show ?thesis using c True assms(1,2) by (auto simp: consoleintr_def line_edit_def)
next
  case False
  have n: "c \<noteq> CTRL_P" "c \<noteq> CTRL_U" using c by auto
  then show ?thesis using c False assms(2) cons_unput_split [OF assms(1) False]
    by (simp add: consoleintr_def line_edit_def upd_cons_def consputc_def uartputc_sync_def)
qed

text \<open>C13: The console interrupt handler implements the line discipline: for every character that the
  serial port can deliver it ends without a panic, keeps the input buffer well formed, with at most
  128 bytes and no newline in the line being edited, and changes the bytes ready for readers and the
  edited line exactly as \<open>line_edit\<close> says.\<close>

theorem consoleintr_refines_line_edit:
  assumes "cons_inv (cons s)" and "held s = []" and "0 \<le> c" and "c < 256"
  shows "\<exists>t. consoleintr c s = Ok () t \<and> held t = [] \<and> cons_inv (cons t) \<and>
    (cons_ready (cons t), cons_line (cons t)) = line_edit c (cons_ready (cons s), cons_line (cons s))"
proof -
  let ?s = "s\<lparr>held := [L_cons]\<rparr>"
  have len: "length (cons_bytes (cons s)) = length (cons_ready (cons s)) + length (cons_line (cons s))"
    using cons_bytes_split [of "cons s"] assms(1) by (simp add: cons_inv_def)
  consider "c = CTRL_P" | "c = CTRL_U" | "c = CTRL_H \<or> c = 0x7f"
    | "c \<notin> {CTRL_P, CTRL_U, CTRL_H, 0x7f, 0}" "length (cons_bytes (cons s)) < INPUT_BUF_SIZE"
    | "c \<notin> {CTRL_P, CTRL_U, CTRL_H, 0x7f}" "c = 0 \<or> \<not> length (cons_bytes (cons s)) < INPUT_BUF_SIZE"
    by blast
  then show ?thesis
  proof cases
    case 1
    obtain t where "procdump ?s = Ok () t" "cons t = cons s" "held t = [L_cons]" using procdump_ok [of ?s] by auto
    then show ?thesis using 1 assms(1,2) by (simp add: consoleintr_def line_edit_def)
  next
    case 2
    obtain o' where "kill_line ?s = ?s\<lparr>cons := (cons s)\<lparr>c_e := c_w (cons s)\<rparr>, uart_out := o'\<rparr>"
      using kill_line_spec [of ?s] assms(1) by auto
    then show ?thesis using 2 assms(2) cons_kill [OF assms(1)] by (simp add: consoleintr_def line_edit_def)
  next
    case 3
    then show ?thesis by (rule consoleintr_erase [OF assms(1,2)])
  next
    case 4
    then show ?thesis using consoleintr_char [OF assms(1,2) _ assms(3,4)] by simp
  next
    case 5
    then have "\<not> (c \<noteq> 0 \<and> c_e (cons s) - c_r (cons s) < of_nat INPUT_BUF_SIZE)"
      by (auto simp: cons_bytes_def word_less_nat_alt)
    then show ?thesis using 5 len assms(1,2) by (auto simp: consoleintr_def line_edit_def)
  qed
qed

text \<open>A terminal on which \<open>a\<close> has been typed.\<close>

definition typed_boot :: kdev where
  "typed_boot = kfile.extend file_boot
     \<lparr>cons = \<lparr>c_buf = (\<lambda>_. 97), c_r = 0xffffffff, c_w = 0xffffffff, c_e = 0\<rparr>, tx_busy = False, uart_in = [], uart_idle = True,
      uart_regs = [], devsw_console = True\<rparr>"

theorem consoleintr_refines_line_edit_witness:
  "\<exists>t. consoleintr 13 typed_boot = Ok () t \<and> cons_ready (cons t) = [97, 10] \<and> cons_line (cons t) = []"
proof -
  have c: "cons typed_boot = \<lparr>c_buf = (\<lambda>_. 97), c_r = 0xffffffff, c_w = 0xffffffff, c_e = 0\<rparr>" "held typed_boot = []"
    by (simp_all add: typed_boot_def kfile.defs file_boot_fields)
  have "\<exists>t. consoleintr 13 typed_boot = Ok () t \<and> held t = [] \<and> cons_inv (cons t) \<and>
    (cons_ready (cons t), cons_line (cons t)) = line_edit 13 (cons_ready (cons typed_boot), cons_line (cons typed_boot))"
    by (rule consoleintr_refines_line_edit) (simp_all add: c cons_inv_def cons_fits_def cons_line_def ring_def)
  moreover have "line_edit 13 (cons_ready (cons typed_boot), cons_line (cons typed_boot)) = ([97, 10], [])"
    by (simp add: c line_edit_def cons_ready_def cons_line_def ring_def)
  ultimately show ?thesis by auto
qed

end
