(* ===== verification/File.thy ===== *)
theory File
  imports Pipe Console
begin

text \<open>
  The open-file table (\<open>kernel/file.c\<close>), the creation of pipes, and the unmapping of memory-mapped
  files (\<open>uvmunmap_vma\<close> of \<open>kernel/vm.c\<close>), which writes pages back through the file layer.
\<close>

text \<open>The bound of one transaction of \<open>filewrite\<close>: \<open>((MAXOPBLOCKS-1-1-2) / 2) * BSIZE\<close>.\<close>

abbreviation (input) MAXWRITE :: int where "MAXWRITE \<equiv> 3072"

primrec filealloc_scan :: "(nat \<Rightarrow> file_t) \<Rightarrow> nat list \<Rightarrow> nat option" where
  "filealloc_scan T [] = None"
| "filealloc_scan T (f # fs) = (if f_ref (T f) = 0 then Some f else filealloc_scan T fs)"

definition filealloc :: "'a kfile_scheme \<Rightarrow> ('a kfile_scheme, nat option) res" where
  "filealloc s =
     kbind (acquire L_ftable s) (\<lambda>_ s.
     case filealloc_scan (ftable s) [0..<NFILE] of
       Some f \<Rightarrow> kbind (release L_ftable (upd_file f (f_ref_update (\<lambda>_. 1)) s)) (\<lambda>_ s. Ok (Some f) s)
     | None \<Rightarrow> kbind (release L_ftable s) (\<lambda>_ s. Ok None s))"

definition filedup :: "nat \<Rightarrow> 'a kfile_scheme \<Rightarrow> ('a kfile_scheme, nat) res" where
  "filedup f s =
     kbind (acquire L_ftable s) (\<lambda>_ s.
     if f_ref (ftable s f) < 1 then Panic ''filedup''
     else kbind (release L_ftable (upd_file f (\<lambda>x. x\<lparr>f_ref := f_ref x + 1\<rparr>) s)) (\<lambda>_ s. Ok f s))"

definition fileclose :: "nat \<Rightarrow> 'a kfile_scheme \<Rightarrow> ('a kfile_scheme, unit) res" where
  "fileclose f s =
     kbind (acquire L_ftable s) (\<lambda>_ s.
     if f_ref (ftable s f) < 1 then Panic ''fileclose''
     else
       let s = upd_file f (\<lambda>x. x\<lparr>f_ref := f_ref x - 1\<rparr>) s in
       if f_ref (ftable s f) > 0 then release L_ftable s
       else
         let ff = ftable s f;
             s = upd_file f (\<lambda>x. x\<lparr>f_ref := 0, f_type := FD_NONE\<rparr>) s in
         kbind (release L_ftable s) (\<lambda>_ s.
         if f_type ff = FD_PIPE then pipeclose (f_pipe ff) (f_writable ff) s
         else if f_type ff = FD_INODE \<or> f_type ff = FD_DEVICE then
           kbind (begin_op s) (\<lambda>_ s.
           kbind (case f_ip ff of None \<Rightarrow> UB | Some ip \<Rightarrow> iput ip s) (\<lambda>_ s. end_op s))
         else Ok () s))"

text \<open>\<open>struct stat\<close> as the bytes that are copied to the user: \<open>dev\<close>, \<open>ino\<close>, \<open>type\<close>, \<open>nlink\<close>, padding, \<open>size\<close>.\<close>

definition stat_bytes :: "kstat \<Rightarrow> u8 list" where
  "stat_bytes st = word_le 4 (st_dev st) @ word_le 4 (st_ino st) @ word_le 2 (st_type st) @ word_le 2 (st_nlink st) @
     replicate 4 0 @ word_le 8 (st_size st)"

definition filestat :: "nat \<Rightarrow> u64 \<Rightarrow> 'a kfile_scheme \<Rightarrow> ('a kfile_scheme, int) res" where
  "filestat f addr s =
     kbind (myproc s) (\<lambda>p s.
     if f_type (ftable s f) = FD_INODE \<or> f_type (ftable s f) = FD_DEVICE then
       case f_ip (ftable s f) of
         None \<Rightarrow> UB
       | Some ip \<Rightarrow>
           kbind (ilock ip s) (\<lambda>_ s.
           let st = stati ip s in
           kbind (iunlock ip s) (\<lambda>_ s.
           kbind (copyout (p_pagetable (procs s p)) addr (stat_bytes st) s) (\<lambda>r s.
           if r < 0 then Ok (-1) s else Ok 0 s)))
     else Ok (-1) s)"

text \<open>\<open>devsw[major]\<close>: only the console is registered, by \<open>consoleinit\<close>.\<close>

definition dev_ok :: "nat \<Rightarrow> 'a kdev_scheme \<Rightarrow> bool" where
  "dev_ok f s \<longleftrightarrow> 0 \<le> sint (f_major (ftable s f)) \<and> sint (f_major (ftable s f)) < int NDEV \<and>
     f_major (ftable s f) = 1 \<and> devsw_console s"

definition fileread :: "nat \<Rightarrow> u64 \<Rightarrow> int \<Rightarrow> 'a kdev_scheme \<Rightarrow> ('a kdev_scheme, int) res" where
  "fileread f addr n s =
     (if \<not> f_readable (ftable s f) then Ok (-1) s
      else case f_type (ftable s f) of
        FD_PIPE \<Rightarrow> piperead (f_pipe (ftable s f)) addr n s
      | FD_DEVICE \<Rightarrow> if dev_ok f s then consoleread True addr n s else Ok (-1) s
      | FD_INODE \<Rightarrow>
          (case f_ip (ftable s f) of
             None \<Rightarrow> UB
           | Some ip \<Rightarrow>
               kbind (ilock ip s) (\<lambda>_ s.
               kbind (readi copy_to_user ip addr (f_off (ftable s f)) (word_of_int n) () s) (\<lambda>x s.
               let r = fst x;
                   s = (if r > 0 then upd_file f (\<lambda>x. x\<lparr>f_off := f_off x + word_of_int r\<rparr>) s else s) in
               kbind (iunlock ip s) (\<lambda>_ s. Ok r s))))
      | FD_NONE \<Rightarrow> Panic ''fileread'')"

text \<open>The loop of \<open>filewrite\<close>: one transaction per round; the result is the number of bytes written.\<close>

function filewrite_loop :: "nat \<Rightarrow> nat \<Rightarrow> u64 \<Rightarrow> int \<Rightarrow> int \<Rightarrow> 'a kfile_scheme \<Rightarrow> ('a kfile_scheme, int) res" where
  "filewrite_loop f ip addr n i s =
     (if i < n then
        let n1 = min MAXWRITE (n - i) in
        kbind (begin_op s) (\<lambda>_ s.
        kbind (ilock ip s) (\<lambda>_ s.
        kbind (writei copy_from_user ip (addr + word_of_int i) (f_off (ftable s f)) (word_of_int n1) s) (\<lambda>r s.
        let s = (if r > 0 then upd_file f (\<lambda>x. x\<lparr>f_off := f_off x + word_of_int r\<rparr>) s else s) in
        kbind (iunlock ip s) (\<lambda>_ s.
        kbind (end_op s) (\<lambda>_ s.
        if r \<noteq> n1 then Ok i s else filewrite_loop f ip addr n (i + r) s)))))
      else Ok i s)"
  by pat_completeness auto
termination
  by (relation "measure (\<lambda>(f, ip, addr, n, i, s). nat (n - i))") auto

declare filewrite_loop.simps [simp del]

definition filewrite :: "nat \<Rightarrow> u64 \<Rightarrow> int \<Rightarrow> 'a kdev_scheme \<Rightarrow> ('a kdev_scheme, int) res" where
  "filewrite f addr n s =
     (if \<not> f_writable (ftable s f) then Ok (-1) s
      else case f_type (ftable s f) of
        FD_PIPE \<Rightarrow> pipewrite (f_pipe (ftable s f)) addr n s
      | FD_DEVICE \<Rightarrow> if dev_ok f s then consolewrite True addr n s else Ok (-1) s
      | FD_INODE \<Rightarrow>
          (case f_ip (ftable s f) of
             None \<Rightarrow> UB
           | Some ip \<Rightarrow> kbind (filewrite_loop f ip addr n 0 s) (\<lambda>i s. Ok (if i = n then n else -1) s))
      | FD_NONE \<Rightarrow> Panic ''filewrite'')"

subsection \<open>Creating a pipe\<close>

definition pipealloc_bad :: "nat option \<Rightarrow> nat option \<Rightarrow> 'a kfile_scheme \<Rightarrow> ('a kfile_scheme, (nat \<times> nat) option) res" where
  "pipealloc_bad f0 f1 s =
     kbind (case f0 of None \<Rightarrow> Ok () s | Some f \<Rightarrow> fileclose f s) (\<lambda>_ s.
     kbind (case f1 of None \<Rightarrow> Ok () s | Some f \<Rightarrow> fileclose f s) (\<lambda>_ s. Ok None s))"

text \<open>No path to \<open>bad\<close> has allocated the pipe, so its \<open>kfree\<close> is never reached.\<close>

definition pipealloc :: "'a kfile_scheme \<Rightarrow> ('a kfile_scheme, (nat \<times> nat) option) res" where
  "pipealloc s =
     kbind (filealloc s) (\<lambda>f0 s.
     case f0 of None \<Rightarrow> pipealloc_bad None None s
     | Some f0 \<Rightarrow>
       kbind (filealloc s) (\<lambda>f1 s.
       case f1 of None \<Rightarrow> pipealloc_bad (Some f0) None s
       | Some f1 \<Rightarrow>
         kbind (kalloc s) (\<lambda>pi s.
         if pi = 0 then pipealloc_bad (Some f0) (Some f1) s
         else
           let s = upd_pipe pi (\<lambda>x. x\<lparr>pi_readopen := True, pi_writeopen := True, pi_nwrite := 0, pi_nread := 0\<rparr>) s;
               s = upd_file f0 (\<lambda>x. x\<lparr>f_type := FD_PIPE, f_readable := True, f_writable := False, f_pipe := pi\<rparr>) s;
               s = upd_file f1 (\<lambda>x. x\<lparr>f_type := FD_PIPE, f_readable := False, f_writable := True, f_pipe := pi\<rparr>) s in
           Ok (Some (f0, f1)) s)))"

subsection \<open>Unmapping memory-mapped files\<close>

text \<open>
  Writing one dirty page back, from byte \<open>i\<close> of \<open>n\<close>: the result is the number of bytes written and the
  file offset after them.
\<close>

function writeback_loop ::
  "nat \<Rightarrow> u64 \<Rightarrow> u32 \<Rightarrow> int \<Rightarrow> int \<Rightarrow> 'a kfile_scheme \<Rightarrow> ('a kfile_scheme, int \<times> u32) res" where
  "writeback_loop ip addr offset n i s =
     (if i < n then
        let n1 = min MAXWRITE (n - i) in
        kbind (begin_op s) (\<lambda>_ s.
        kbind (ilock ip s) (\<lambda>_ s.
        kbind (writei copy_from_user ip (addr + word_of_int i) offset (word_of_int n1) s) (\<lambda>r s.
        let offset = (if r > 0 then offset + word_of_int r else offset) in
        kbind (iunlock ip s) (\<lambda>_ s.
        kbind (end_op s) (\<lambda>_ s.
        if r \<noteq> n1 then Ok (i, offset) s else writeback_loop ip addr offset n (i + r) s)))))
      else Ok (i, offset) s)"
  by pat_completeness auto
termination
  by (relation "measure (\<lambda>(ip, addr, offset, n, i, s). nat (n - i))") auto

declare writeback_loop.simps [simp del]

text \<open>
  The loop over the pages. Its value is \<open>False\<close> when \<open>uvmunmap_vma\<close> returns -1 from inside it. The
  file offset only moves with the bytes written.
\<close>

function writeback_pages ::
  "u64 \<Rightarrow> nat \<Rightarrow> u64 \<Rightarrow> u64 \<Rightarrow> u32 \<Rightarrow> 'a kfile_scheme \<Rightarrow> ('a kfile_scheme, bool) res" where
  "writeback_pages pagetable ip addr lim offset s =
     (if addr < lim then
        kbind (walk pagetable addr False s) (\<lambda>pte s.
        if pte = 0 then writeback_pages pagetable ip (addr + PGSIZE) lim offset s
        else if ld64 (mem s) pte AND PTE_V = 0 \<or> ld64 (mem s) pte AND PTE_D = 0
        then writeback_pages pagetable ip (addr + PGSIZE) lim offset s
        else
          let sz = sint (i_size (itable s ip) - offset) in
          if sz < 0 then Ok True s
          else
            let n = min sz 4096 in
            kbind (writeback_loop ip addr offset n 0 s) (\<lambda>x s.
            if fst x \<noteq> n then Ok False s
            else writeback_pages pagetable ip (addr + PGSIZE) lim (snd x) s))
      else Ok True s)"
  by pat_completeness auto
termination
  by (relation "measure (\<lambda>(pt, ip, addr, lim, offset, s). 2 ^ 39 - unat addr)")
    (auto dest!: walk_Ok_lt simp del: power_numeral intro: page_step_measure)

declare writeback_pages.simps [simp del]

text \<open>The VMA is slot \<open>k\<close> of process \<open>p\<close>.\<close>

definition upd_vma :: "nat \<Rightarrow> nat \<Rightarrow> (VMA \<Rightarrow> VMA) \<Rightarrow> 'a kproc_scheme \<Rightarrow> 'a kproc_scheme" where
  "upd_vma p k f s = upd_proc p (\<lambda>q. q\<lparr>p_vma := (p_vma q)(k := f (p_vma q k))\<rparr>) s"

definition uvmunmap_vma ::
  "u64 \<Rightarrow> nat \<Rightarrow> nat \<Rightarrow> u64 \<Rightarrow> u64 \<Rightarrow> 'a kdev_scheme \<Rightarrow> ('a kdev_scheme, int) res" where
  "uvmunmap_vma pagetable p k addr lim s =
     (let v = p_vma (procs s p) k in
      if \<not> vma_valid v then Ok (-1) s
      else if vma_end v \<le> addr \<or> vma_start v \<ge> lim then Ok (-1) s
      else
        let unmap_start = (if addr > vma_start v then addr else vma_start v);
            unmap_end = (if lim < vma_end v then lim else vma_end v) in
        if unmap_start \<noteq> vma_start v \<and> unmap_end \<noteq> vma_end v then
          kbind (printf (''munmap: cant punch a hole in the middle of a region'' @ [CHR 0x0A]) [] s) (\<lambda>_ s. Ok (-1) s)
        else
          kbind
            (if bit (vma_flags v) MAP_SHARED then
               case vma_f v of None \<Rightarrow> UB | Some f \<Rightarrow>
               (case f_ip (ftable s f) of None \<Rightarrow> UB | Some ip \<Rightarrow>
                writeback_pages pagetable ip unmap_start unmap_end
                  (word_of_int (vma_offset v) + ucast (unmap_start - vma_start v)) s)
             else Ok True s) (\<lambda>ok s.
          if \<not> ok then Ok (-1) s
          else
            kbind (uvmunmap pagetable unmap_start ((unmap_end - unmap_start) div PGSIZE) True s) (\<lambda>_ s.
            if unmap_start = vma_start v \<and> unmap_end = vma_end v then
              kbind (case vma_f v of None \<Rightarrow> UB | Some f \<Rightarrow> fileclose f s) (\<lambda>_ s.
              Ok 0 (upd_vma p k (vma_valid_update (\<lambda>_. False)) s))
            else if unmap_start = vma_start v then
              Ok 0 (upd_vma p k (\<lambda>v. v\<lparr>vma_offset := sint (word_of_int (vma_offset v + uint (unmap_end - vma_start v)) :: u32),
                                       vma_start := unmap_end\<rparr>) s)
            else Ok 0 (upd_vma p k (vma_end_update (\<lambda>_. unmap_start)) s))))"

end
