(* ===== verification/Procsys.thy ===== *)
theory Procsys
  imports File
begin

text \<open>
  Creation and termination of processes (\<open>userinit\<close>, \<open>kfork\<close>, \<open>kexit\<close>, \<open>kwait\<close> of
  \<open>kernel/proc.c\<close>) and one pass of the scheduler. These operations reach every lower component: user
  memory, memory-mapped and open files, the current directory, and the process table.
\<close>

text \<open>The state of this layer adds the tick counter of \<open>trap.c\<close> and the static flag \<open>first\<close> of \<open>forkret\<close>.\<close>

record ksys = kdev +
  ticks :: u32
  first_fork :: bool

text \<open>A string literal as the array of its characters and the NUL.\<close>

definition c_string :: "string \<Rightarrow> bytes" where
  "c_string cs i = (if i < length cs then of_char (cs ! i) else 0)"

definition userinit :: "'a kfs_scheme \<Rightarrow> ('a kfs_scheme, unit) res" where
  "userinit s =
     kbind (allocproc s) (\<lambda>p s.
     let s = s\<lparr>initproc := p\<rparr> in
     case p of None \<Rightarrow> UB
     | Some p \<Rightarrow>
         kbind (namei (c_string ''/'') 2 s) (\<lambda>i s.
         release (L_proc p) (upd_proc p (\<lambda>q. q\<lparr>p_cwd := i, p_state := RUNNABLE\<rparr>) s)))"

subsection \<open>fork\<close>

primrec fork_vmas :: "nat \<Rightarrow> nat \<Rightarrow> nat list \<Rightarrow> 'a kfile_scheme \<Rightarrow> ('a kfile_scheme, unit) res" where
  "fork_vmas p np [] s = Ok () s"
| "fork_vmas p np (i # is) s =
     (if vma_valid (p_vma (procs s p) i) then
        let s = upd_vma np i (\<lambda>_. p_vma (procs s p) i) s in
        kbind (case vma_f (p_vma (procs s np) i) of None \<Rightarrow> UB | Some f \<Rightarrow> filedup f s) (\<lambda>f s.
        fork_vmas p np is (upd_vma p i (vma_f_update (\<lambda>_. Some f)) s))
      else fork_vmas p np is s)"

primrec fork_files :: "nat \<Rightarrow> nat \<Rightarrow> nat list \<Rightarrow> 'a kfile_scheme \<Rightarrow> ('a kfile_scheme, unit) res" where
  "fork_files p np [] s = Ok () s"
| "fork_files p np (i # is) s =
     (case p_ofile (procs s p) i of
        None \<Rightarrow> fork_files p np is s
      | Some f \<Rightarrow>
          kbind (filedup f s) (\<lambda>f s.
          fork_files p np is (upd_proc np (\<lambda>q. q\<lparr>p_ofile := (p_ofile q)(i := Some f)\<rparr>) s)))"

definition kfork :: "'a kfile_scheme \<Rightarrow> ('a kfile_scheme, int) res" where
  "kfork s =
     kbind (myproc s) (\<lambda>p s.
     kbind (allocproc s) (\<lambda>np s.
     case np of None \<Rightarrow> Ok (-1) s
     | Some np \<Rightarrow>
       kbind (uvmcopy (p_pagetable (procs s p)) (p_pagetable (procs s np)) (p_sz (procs s p)) s) (\<lambda>r s.
       if r < 0 then
         kbind (freeproc np s) (\<lambda>_ s.
         kbind (release (L_proc np) s) (\<lambda>_ s. Ok (-1) s))
       else
         let s = upd_proc np (p_sz_update (\<lambda>_. p_sz (procs s p))) s in
         kbind (fork_vmas p np [0..<NVMA] s) (\<lambda>_ s.
         let tf = p_trapframe (procs s np);
             s = s\<lparr>mem := store_bytes (mem s) tf (load_bytes (mem s) (p_trapframe (procs s p)) TF_size)\<rparr>;
             s = s\<lparr>mem := st64 (mem s) (tf + TF_a0) 0\<rparr> in
         kbind (fork_files p np [0..<NOFILE] s) (\<lambda>_ s.
         kbind (case p_cwd (procs s p) of None \<Rightarrow> UB | Some i \<Rightarrow> idup i s) (\<lambda>i s.
         let s = upd_proc np (\<lambda>q. q\<lparr>p_cwd := Some i, p_name := safestrcpy (p_name q) (p_name (procs s p)) 16\<rparr>) s;
             pid = p_pid (procs s np) in
         kbind (release (L_proc np) s) (\<lambda>_ s.
         kbind (acquire L_wait s) (\<lambda>_ s.
         kbind (release L_wait (upd_proc np (p_parent_update (\<lambda>_. Some p)) s)) (\<lambda>_ s.
         kbind (acquire (L_proc np) s) (\<lambda>_ s.
         kbind (release (L_proc np) (upd_proc np (p_state_update (\<lambda>_. RUNNABLE)) s)) (\<lambda>_ s.
         Ok pid s)))))))))))"

subsection \<open>exit\<close>

primrec exit_files :: "nat \<Rightarrow> nat list \<Rightarrow> 'a kfile_scheme \<Rightarrow> ('a kfile_scheme, unit) res" where
  "exit_files p [] s = Ok () s"
| "exit_files p (fd # fds) s =
     (case p_ofile (procs s p) fd of
        None \<Rightarrow> exit_files p fds s
      | Some f \<Rightarrow>
          kbind (fileclose f s) (\<lambda>_ s.
          exit_files p fds (upd_proc p (\<lambda>q. q\<lparr>p_ofile := (p_ofile q)(fd := None)\<rparr>) s)))"

primrec exit_vmas :: "nat \<Rightarrow> nat list \<Rightarrow> 'a kdev_scheme \<Rightarrow> ('a kdev_scheme, unit) res" where
  "exit_vmas p [] s = Ok () s"
| "exit_vmas p (i # is) s =
     (if \<not> vma_valid (p_vma (procs s p) i) then exit_vmas p is s
      else
        kbind (uvmunmap_vma (p_pagetable (procs s p)) p i
                 (vma_start (p_vma (procs s p) i)) (vma_end (p_vma (procs s p) i)) s) (\<lambda>r s.
        kbind (if r = -1 then printf ''kexit: failed to unmap vma'' [] s else Ok 0 s) (\<lambda>_ s.
        exit_vmas p is
          (if vma_start (p_vma (procs s p) i) = p_mmap_base (procs s p)
           then upd_proc p (p_mmap_base_update (\<lambda>_. vma_end (p_vma (procs s p) i))) s else s))))"

text \<open>
  \<open>wakeup(p->parent)\<close>: no process sleeps on the null address. The thread never runs again after
  \<open>sched\<close>, so the final \<open>panic\<close> is not reached.
\<close>

definition kexit :: "int \<Rightarrow> 'a kdev_scheme \<Rightarrow> ('a kdev_scheme, unit) res" where
  "kexit status s =
     kbind (myproc s) (\<lambda>p s.
     if initproc s = Some p then Panic ''init exiting''
     else
       kbind (exit_files p [0..<NOFILE] s) (\<lambda>_ s.
       kbind (exit_vmas p [0..<NVMA] s) (\<lambda>_ s.
       kbind (begin_op s) (\<lambda>_ s.
       kbind (case p_cwd (procs s p) of None \<Rightarrow> UB | Some i \<Rightarrow> iput i s) (\<lambda>_ s.
       kbind (end_op s) (\<lambda>_ s.
       let s = upd_proc p (p_cwd_update (\<lambda>_. None)) s in
       kbind (acquire L_wait s) (\<lambda>_ s.
       kbind (reparent p s) (\<lambda>_ s.
       kbind (case p_parent (procs s p) of None \<Rightarrow> Ok () s | Some q \<Rightarrow> wakeup (Ch_proc q) s) (\<lambda>_ s.
       kbind (acquire (L_proc p) s) (\<lambda>_ s.
       let s = upd_proc p (\<lambda>q. q\<lparr>p_xstate := status, p_state := ZOMBIE\<rparr>) s in
       kbind (release L_wait s) (\<lambda>_ s.
       kbind (sched s) (\<lambda>_ s. Exit s))))))))))))"

subsection \<open>wait\<close>

text \<open>
  One scan of the table: \<open>Inl r\<close> when \<open>kwait\<close> returns \<open>r\<close> (with \<open>wait_lock\<close> released), otherwise
  \<open>Inr havekids\<close>.
\<close>

primrec kwait_scan ::
  "nat \<Rightarrow> u64 \<Rightarrow> bool \<Rightarrow> nat list \<Rightarrow> 'a kfile_scheme \<Rightarrow> ('a kfile_scheme, int + bool) res" where
  "kwait_scan p addr havekids [] s = Ok (Inr havekids) s"
| "kwait_scan p addr havekids (pp # pps) s =
     (if p_parent (procs s pp) = Some p then
        kbind (acquire (L_proc pp) s) (\<lambda>_ s.
        if p_state (procs s pp) = ZOMBIE then
          let pid = p_pid (procs s pp) in
          kbind (if addr \<noteq> 0
                 then copyout (p_pagetable (procs s p)) addr (word_le 4 (word_of_int (p_xstate (procs s pp)) :: u32)) s
                 else Ok 0 s) (\<lambda>r s.
          if addr \<noteq> 0 \<and> r < 0 then
            kbind (release (L_proc pp) s) (\<lambda>_ s.
            kbind (release L_wait s) (\<lambda>_ s. Ok (Inl (-1)) s))
          else
            kbind (freeproc pp s) (\<lambda>_ s.
            kbind (release (L_proc pp) s) (\<lambda>_ s.
            kbind (release L_wait s) (\<lambda>_ s. Ok (Inl pid) s))))
        else kbind (release (L_proc pp) s) (\<lambda>_ s. kwait_scan p addr True pps s))
      else kwait_scan p addr havekids pps s)"

text \<open>The body of the loop of \<open>kwait\<close>, which a woken process runs again, and the call.\<close>

definition kwait_round :: "u64 \<Rightarrow> 'a kfile_scheme \<Rightarrow> ('a kfile_scheme, int) res" where
  "kwait_round addr s =
     kbind (myproc s) (\<lambda>p s.
     kbind (kwait_scan p addr False [0..<NPROC] s) (\<lambda>x s.
     case x of Inl r \<Rightarrow> Ok r s
     | Inr havekids \<Rightarrow>
         kbind (if havekids then killed p s else Ok True s) (\<lambda>k s.
         if k then kbind (release L_wait s) (\<lambda>_ s. Ok (-1) s)
         else sleep (Ch_proc p) L_wait s)))"

definition kwait :: "u64 \<Rightarrow> 'a kfile_scheme \<Rightarrow> ('a kfile_scheme, int) res" where
  "kwait addr s = kbind (acquire L_wait s) (\<lambda>_ s. kwait_round addr s)"

subsection \<open>The scheduler\<close>

text \<open>
  One pass over the table from process \<open>p\<close> on. What a scheduled process does until it switches back is
  the parameter \<open>run\<close>: it starts with its lock held and state \<open>RUNNING\<close> and comes back the same way
  with another state. The value is \<open>found\<close>.
\<close>

primrec scheduler_pass ::
  "(nat \<Rightarrow> 'a kproc_scheme \<Rightarrow> ('a kproc_scheme, unit) res) \<Rightarrow> bool \<Rightarrow> nat list \<Rightarrow> 'a kproc_scheme \<Rightarrow>
   ('a kproc_scheme, bool) res" where
  "scheduler_pass run found [] s = Ok found s"
| "scheduler_pass run found (p # ps) s =
     kbind (acquire (L_proc p) s) (\<lambda>_ s.
     kbind
       (if p_state (procs s p) = RUNNABLE then
          let s = (upd_proc p (p_state_update (\<lambda>_. RUNNING)) s)\<lparr>curproc := Some p\<rparr> in
          kbind (run p s) (\<lambda>_ s. Ok True (s\<lparr>curproc := None\<rparr>))
        else Ok found s) (\<lambda>found s.
     kbind (release (L_proc p) s) (\<lambda>_ s. scheduler_pass run found ps s)))"

definition scheduler ::
  "(nat \<Rightarrow> 'a kproc_scheme \<Rightarrow> ('a kproc_scheme, unit) res) \<Rightarrow> 'a kproc_scheme \<Rightarrow> ('a kproc_scheme, bool) res" where
  "scheduler run s = scheduler_pass run False [0..<NPROC] (s\<lparr>curproc := None\<rparr>)"

end
