(* ===== verification/Exec.thy ===== *)
theory Exec
  imports Procsys
begin

text \<open>
  Replacing the image of a process (\<open>kernel/exec.c\<close>, \<open>kernel/elf.h\<close>). A \<open>goto bad\<close> inside a loop is the
  value \<open>None\<close> or \<open>False\<close> of the loop; \<open>exec_bad\<close> is the code at the label. The argument vector is
  the list of its strings without their NULs.
\<close>

abbreviation (input) ELF_MAGIC :: u32 where "ELF_MAGIC \<equiv> 0x464C457F"
abbreviation (input) ELF_PROG_LOAD :: u32 where "ELF_PROG_LOAD \<equiv> 1"

subsection \<open>ELF headers\<close>

record elfhdr =
  e_magic :: u32
  e_entry :: u64
  e_phoff :: u64
  e_phnum :: u16

definition elfhdr_of :: "u8 list \<Rightarrow> elfhdr" where
  "elfhdr_of d = \<lparr>e_magic = get32 d 0, e_entry = get64 d 24, e_phoff = get64 d 32, e_phnum = get16 d 56\<rparr>"

record proghdr =
  ph_type :: u32
  ph_flags :: u32
  ph_off :: u64
  ph_vaddr :: u64
  ph_filesz :: u64
  ph_memsz :: u64

definition proghdr_of :: "u8 list \<Rightarrow> proghdr" where
  "proghdr_of d = \<lparr>ph_type = get32 d 0, ph_flags = get32 d 4, ph_off = get64 d 8, ph_vaddr = get64 d 16,
     ph_filesz = get64 d 32, ph_memsz = get64 d 40\<rparr>"

definition flags2perm :: "u32 \<Rightarrow> u64" where
  "flags2perm flags =
     (let perm = (if flags AND 1 \<noteq> 0 then PTE_X else 0) in
      if flags AND 2 \<noteq> 0 then perm OR PTE_W else perm)"

subsection \<open>Loading segments\<close>

text \<open>
  The loop of \<open>loadseg\<close> over the page offsets. Every page below the offset has been found mapped, so
  the 32-bit offset does not wrap.
\<close>

primrec loadseg_loop ::
  "u64 \<Rightarrow> u64 \<Rightarrow> nat \<Rightarrow> u32 \<Rightarrow> u32 \<Rightarrow> nat list \<Rightarrow> 'a kfs_scheme \<Rightarrow> ('a kfs_scheme, int) res" where
  "loadseg_loop pagetable va ip offset sz [] s = Ok 0 s"
| "loadseg_loop pagetable va ip offset sz (i # is) s =
     kbind (walkaddr pagetable (va + of_nat i) s) (\<lambda>pa s.
     if pa = 0 then Panic ''loadseg: address should exist''
     else
       let n = (if sz - of_nat i < 4096 then sz - of_nat i else 4096) in
       kbind (readi copy_to_kernel ip pa (offset + of_nat i) n () s) (\<lambda>x s.
       if word_of_int (fst x) \<noteq> n then Ok (-1) s
       else loadseg_loop pagetable va ip offset sz is s))"

definition loadseg :: "u64 \<Rightarrow> u64 \<Rightarrow> nat \<Rightarrow> u32 \<Rightarrow> u32 \<Rightarrow> 'a kfs_scheme \<Rightarrow> ('a kfs_scheme, int) res" where
  "loadseg pagetable va ip offset sz s =
     loadseg_loop pagetable va ip offset sz (map (\<lambda>k. 4096 * k) [0..<(unat sz + 4095) div 4096]) s"

text \<open>The loop over the program headers; the values are whether it ran to its end, and \<open>sz\<close>.\<close>

primrec exec_load ::
  "u64 \<Rightarrow> nat \<Rightarrow> nat \<Rightarrow> u32 \<Rightarrow> u64 \<Rightarrow> 'a kfs_scheme \<Rightarrow> ('a kfs_scheme, bool \<times> u64) res" where
  "exec_load pagetable ip 0 off sz s = Ok (True, sz) s"
| "exec_load pagetable ip (Suc n) off sz s =
     kbind (readi copy_to_local ip 0 off 56 (replicate 56 0) s) (\<lambda>x s.
     let ph = proghdr_of (snd x) in
     if fst x \<noteq> 56 then Ok (False, sz) s
     else if ph_type ph \<noteq> ELF_PROG_LOAD then exec_load pagetable ip n (off + 56) sz s
     else if ph_memsz ph < ph_filesz ph then Ok (False, sz) s
     else if ph_vaddr ph + ph_memsz ph < ph_vaddr ph then Ok (False, sz) s
     else if ph_vaddr ph mod PGSIZE \<noteq> 0 then Ok (False, sz) s
     else
       kbind (uvmalloc pagetable sz (ph_vaddr ph + ph_memsz ph) (flags2perm (ph_flags ph)) s) (\<lambda>sz1 s.
       if sz1 = 0 then Ok (False, sz) s
       else
         kbind (loadseg pagetable (ph_vaddr ph) ip (ucast (ph_off ph)) (ucast (ph_filesz ph)) s) (\<lambda>r s.
         if r < 0 then Ok (False, sz1) s
         else exec_load pagetable ip n (off + 56) sz1 s)))"

subsection \<open>The arguments\<close>

primrec exec_args ::
  "u64 \<Rightarrow> u64 \<Rightarrow> u8 list list \<Rightarrow> u64 \<Rightarrow> u64 list \<Rightarrow> 'a kfile_scheme \<Rightarrow> ('a kfile_scheme, (u64 \<times> u64 list) option) res" where
  "exec_args pagetable stackbase [] sp ustack s = Ok (Some (sp, ustack)) s"
| "exec_args pagetable stackbase (a # as) sp ustack s =
     (if MAXARG \<le> length ustack then Ok None s
      else
        let sp = sp - of_nat (length a + 1);
            sp = sp - sp mod 16 in
        if sp < stackbase then Ok None s
        else
          kbind (copyout pagetable sp (a @ [0]) s) (\<lambda>r s.
          if r < 0 then Ok None s
          else exec_args pagetable stackbase as sp (ustack @ [sp]) s))"

text \<open>The part of the path after its last slash.\<close>

primrec exec_last :: "u8 list \<Rightarrow> nat \<Rightarrow> nat \<Rightarrow> nat" where
  "exec_last [] i l = l"
| "exec_last (c # cs) i l = exec_last cs (i + 1) (if c = SLASH then i + 1 else l)"

definition exec_name :: "bytes \<Rightarrow> nat \<Rightarrow> bytes" where
  "exec_name path n k = path (exec_last (cstr path n) 0 0 + k)"

subsection \<open>kexec\<close>

definition exec_bad :: "u64 \<Rightarrow> u64 \<Rightarrow> nat option \<Rightarrow> 'a kfs_scheme \<Rightarrow> ('a kfs_scheme, int) res" where
  "exec_bad pagetable sz ip s =
     kbind (if pagetable \<noteq> 0 then proc_freepagetable pagetable sz s else Ok () s) (\<lambda>_ s.
     kbind (case ip of None \<Rightarrow> Ok () s
            | Some ip \<Rightarrow> kbind (iunlockput ip s) (\<lambda>_ s. end_op s)) (\<lambda>_ s.
     Ok (-1) s))"

text \<open>
  The second half, from the allocation of the stack on. Writing \<open>ustack[argc]\<close> is undefined when
  all \<open>MAXARG\<close> places are taken.
\<close>

definition exec_commit ::
  "nat \<Rightarrow> bytes \<Rightarrow> nat \<Rightarrow> u8 list list \<Rightarrow> u64 \<Rightarrow> u64 \<Rightarrow> u64 \<Rightarrow> 'a kfile_scheme \<Rightarrow> ('a kfile_scheme, int) res" where
  "exec_commit p path n argv entry pagetable sz s =
     (let oldsz = p_sz (procs s p);
          sz = PGROUNDUP sz in
      kbind (uvmalloc pagetable sz (sz + of_nat (USERSTACK + 1) * PGSIZE) PTE_W s) (\<lambda>sz1 s.
      if sz1 = 0 then exec_bad pagetable sz None s
      else
        kbind (uvmclear pagetable (sz1 - of_nat (USERSTACK + 1) * PGSIZE) s) (\<lambda>_ s.
        let stackbase = sz1 - of_nat USERSTACK * PGSIZE in
        kbind (exec_args pagetable stackbase argv sz1 [] s) (\<lambda>x s.
        case x of None \<Rightarrow> exec_bad pagetable sz1 None s
        | Some (sp, ustack) \<Rightarrow>
            if MAXARG \<le> length ustack then UB
            else
              let argc = length ustack;
                  sp = sp - of_nat ((argc + 1) * 8);
                  sp = sp - sp mod 16 in
              if sp < stackbase then exec_bad pagetable sz1 None s
              else
                kbind (copyout pagetable sp (concat (map (word_le 8) (ustack @ [0]))) s) (\<lambda>r s.
                if r < 0 then exec_bad pagetable sz1 None s
                else
                  let tf = p_trapframe (procs s p);
                      s = s\<lparr>mem := st64 (mem s) (tf + TF_a1) sp\<rparr>;
                      oldpagetable = p_pagetable (procs s p);
                      s = upd_proc p (\<lambda>q. q\<lparr>p_name := safestrcpy (p_name q) (exec_name path n) 16,
                            p_pagetable := pagetable, p_sz := sz1\<rparr>) s;
                      s = s\<lparr>mem := st64 (st64 (mem s) (tf + TF_epc) entry) (tf + TF_sp) sp\<rparr> in
                  kbind (proc_freepagetable oldpagetable oldsz s) (\<lambda>_ s. Ok (int argc) s))))))"

definition kexec :: "bytes \<Rightarrow> nat \<Rightarrow> u8 list list \<Rightarrow> 'a kfile_scheme \<Rightarrow> ('a kfile_scheme, int) res" where
  "kexec path n argv s =
     kbind (myproc s) (\<lambda>p s.
     kbind (begin_op s) (\<lambda>_ s.
     kbind (namei path n s) (\<lambda>ip s.
     case ip of None \<Rightarrow> kbind (end_op s) (\<lambda>_ s. Ok (-1) s)
     | Some ip \<Rightarrow>
       kbind (ilock ip s) (\<lambda>_ s.
       kbind (readi copy_to_local ip 0 0 64 (replicate 64 0) s) (\<lambda>x s.
       let elf = elfhdr_of (snd x) in
       if fst x \<noteq> 64 then exec_bad 0 0 (Some ip) s
       else if e_magic elf \<noteq> ELF_MAGIC then exec_bad 0 0 (Some ip) s
       else
         kbind (proc_pagetable p s) (\<lambda>pagetable s.
         if pagetable = 0 then exec_bad 0 0 (Some ip) s
         else
           kbind (exec_load pagetable ip (unat (e_phnum elf)) (ucast (e_phoff elf)) 0 s) (\<lambda>y s.
           if \<not> fst y then exec_bad pagetable (snd y) (Some ip) s
           else
             kbind (iunlockput ip s) (\<lambda>_ s.
             kbind (end_op s) (\<lambda>_ s.
             exec_commit p path n argv (e_entry elf) pagetable (snd y) s)))))))))"

end
