(* ===== verification/Sysarg.thy ===== *)
theory Sysarg
  imports Exec
begin

text \<open>
  Arguments of system calls (\<open>fetchaddr\<close> to \<open>argstr\<close> of \<open>kernel/syscall.c\<close>). A result stored through
  a pointer argument is part of the value; the value is \<open>None\<close> where the code returns -1. The
  arguments are the saved registers \<open>a0\<close> to \<open>a5\<close> of the trapframe page.
\<close>

definition fetchaddr :: "u64 \<Rightarrow> 'a kfile_scheme \<Rightarrow> ('a kfile_scheme, u64 option) res" where
  "fetchaddr addr s =
     kbind (myproc s) (\<lambda>p s.
     if addr \<ge> p_sz (procs s p) \<or> addr + 8 > p_sz (procs s p) then Ok None s
     else
       kbind (copyin (p_pagetable (procs s p)) addr 8 s) (\<lambda>x s.
       if snd x \<noteq> 0 then Ok None s else Ok (Some (le_word (fst x))) s))"

text \<open>The array a string was stored in; what follows the stored bytes is never read.\<close>

definition buf_of :: "u8 list \<Rightarrow> bytes" where
  "buf_of bs i = (if i < length bs then bs ! i else 0)"

definition fetchstr :: "u64 \<Rightarrow> int \<Rightarrow> 'a kfile_scheme \<Rightarrow> ('a kfile_scheme, (int \<times> bytes) option) res" where
  "fetchstr addr mx s =
     kbind (myproc s) (\<lambda>p s.
     kbind (copyinstr (p_pagetable (procs s p)) addr (nat mx) s) (\<lambda>x s.
     if snd x < 0 then Ok None s
     else case strlen (buf_of (fst x)) of None \<Rightarrow> UB | Some n \<Rightarrow> Ok (Some (int n, buf_of (fst x))) s))"

definition argraw :: "nat \<Rightarrow> 'a kproc_scheme \<Rightarrow> ('a kproc_scheme, u64) res" where
  "argraw n s =
     kbind (myproc s) (\<lambda>p s.
     if n \<le> 5 then Ok (ld64 (mem s) (p_trapframe (procs s p) + TF_a0 + 8 * of_nat n)) s
     else Panic ''argraw'')"

definition argint :: "nat \<Rightarrow> 'a kproc_scheme \<Rightarrow> ('a kproc_scheme, int) res" where
  "argint n s = kbind (argraw n s) (\<lambda>x s. Ok (sint (ucast x :: u32)) s)"

definition argaddr :: "nat \<Rightarrow> 'a kproc_scheme \<Rightarrow> ('a kproc_scheme, u64) res" where
  "argaddr n s = argraw n s"

definition argstr :: "nat \<Rightarrow> int \<Rightarrow> 'a kfile_scheme \<Rightarrow> ('a kfile_scheme, (int \<times> bytes) option) res" where
  "argstr n mx s = kbind (argaddr n s) (\<lambda>addr s. fetchstr addr mx s)"

end
