(* ===== verification/Sysproc.thy ===== *)
theory Sysproc
  imports Sysarg
begin

text \<open>
  System calls on processes and memory (\<open>kernel/sysproc.c\<close>). A system call returns the 64-bit value
  that \<open>syscall\<close> stores in \<open>a0\<close>.
\<close>

abbreviation (input) SBRK_EAGER :: int where "SBRK_EAGER \<equiv> 1"

definition sys_exit :: "'a ksys_scheme \<Rightarrow> ('a ksys_scheme, u64) res" where
  "sys_exit s =
     kbind (argint 0 s) (\<lambda>n s.
     kbind (kexit n s) (\<lambda>_ s. Ok 0 s))"

definition sys_getpid :: "'a ksys_scheme \<Rightarrow> ('a ksys_scheme, u64) res" where
  "sys_getpid s = kbind (myproc s) (\<lambda>p s. Ok (word_of_int (p_pid (procs s p))) s)"

definition sys_fork :: "'a ksys_scheme \<Rightarrow> ('a ksys_scheme, u64) res" where
  "sys_fork s = kbind (kfork s) (\<lambda>r s. Ok (word_of_int r) s)"

definition sys_wait :: "'a ksys_scheme \<Rightarrow> ('a ksys_scheme, u64) res" where
  "sys_wait s =
     kbind (argaddr 0 s) (\<lambda>p s.
     kbind (kwait p s) (\<lambda>r s. Ok (word_of_int r) s))"

definition sys_sbrk :: "'a ksys_scheme \<Rightarrow> ('a ksys_scheme, u64) res" where
  "sys_sbrk s =
     kbind (argint 0 s) (\<lambda>n s.
     kbind (argint 1 s) (\<lambda>t s.
     kbind (myproc s) (\<lambda>p s.
     let addr = p_sz (procs s p) in
     if t = SBRK_EAGER \<or> n < 0 then
       kbind (growproc n s) (\<lambda>r s. if r < 0 then Ok (-1) s else Ok addr s)
     else if addr + word_of_int n < addr then Ok (-1) s
     else Ok addr (upd_proc p (\<lambda>q. q\<lparr>p_sz := p_sz q + word_of_int n\<rparr>) s))))"

text \<open>The loop of \<open>sys_pause\<close>, which a woken process runs again with the same \<open>ticks0\<close>.\<close>

definition sys_pause_loop :: "int \<Rightarrow> u32 \<Rightarrow> 'a ksys_scheme \<Rightarrow> ('a ksys_scheme, u64) res" where
  "sys_pause_loop n ticks0 s =
     (if ticks s - ticks0 < word_of_int n then
        kbind (myproc s) (\<lambda>p s.
        kbind (killed p s) (\<lambda>k s.
        if k then kbind (release L_ticks s) (\<lambda>_ s. Ok (-1) s)
        else sleep Ch_ticks L_ticks s))
      else kbind (release L_ticks s) (\<lambda>_ s. Ok 0 s))"

definition sys_pause :: "'a ksys_scheme \<Rightarrow> ('a ksys_scheme, u64) res" where
  "sys_pause s =
     kbind (argint 0 s) (\<lambda>n s.
     let n = (if n < 0 then 0 else n) in
     kbind (acquire L_ticks s) (\<lambda>_ s. sys_pause_loop n (ticks s) s))"

definition sys_kill :: "'a ksys_scheme \<Rightarrow> ('a ksys_scheme, u64) res" where
  "sys_kill s =
     kbind (argint 0 s) (\<lambda>pid s.
     kbind (kkill pid s) (\<lambda>r s. Ok (word_of_int r) s))"

definition sys_uptime :: "'a ksys_scheme \<Rightarrow> ('a ksys_scheme, u64) res" where
  "sys_uptime s =
     kbind (acquire L_ticks s) (\<lambda>_ s.
     let xticks = ticks s in
     kbind (release L_ticks s) (\<lambda>_ s. Ok (ucast xticks) s))"

subsection \<open>Memory-mapped files\<close>

text \<open>
  \<open>PGROUNDUP(len)\<close> of an \<open>int\<close>, which is \<open>(len + 4096 - 1) & ~4095\<close> in \<open>int\<close>, sign-extended to 64 bits; the first
  sum may overflow.
\<close>

definition pground_int :: "int \<Rightarrow> 's \<Rightarrow> ('s, u64) res" where
  "pground_int len s =
     (if len + 4096 > INT_MAX then UB else Ok (scast ((word_of_int len + 4095 :: u32) AND NOT 4095)) s)"

primrec free_vma :: "(nat \<Rightarrow> VMA) \<Rightarrow> nat list \<Rightarrow> nat option" where
  "free_vma vs [] = None"
| "free_vma vs (i # is) = (if \<not> vma_valid (vs i) then Some i else free_vma vs is)"

text \<open>\<open>sys_mmap\<close> once its arguments are fetched. \<open>p->ofile[fd]\<close> is dereferenced without a check.\<close>

definition mmap_body :: "int \<Rightarrow> int \<Rightarrow> int \<Rightarrow> int \<Rightarrow> int \<Rightarrow> 'a ksys_scheme \<Rightarrow> ('a ksys_scheme, u64) res" where
  "mmap_body len prot flags fd offset s =
     kbind (myproc s) (\<lambda>p s.
     if \<not> (0 \<le> fd \<and> fd < int NOFILE) then UB
     else case p_ofile (procs s p) (nat fd) of None \<Rightarrow> UB
     | Some f \<Rightarrow>
       if bit prot PROT_READ \<and> \<not> f_readable (ftable s f) then Ok (-1) s
       else if bit prot PROT_WRITE \<and> \<not> f_writable (ftable s f) \<and> bit flags MAP_SHARED then Ok (-1) s
       else
         kbind (pground_int len s) (\<lambda>size s.
         let start = PGROUNDDOWN (p_mmap_base (procs s p) - size) in
         if start < p_sz (procs s p) \<or> start \<ge> TRAPFRAME then Ok (-1) s
         else case free_vma (p_vma (procs s p)) [0..<NVMA] of None \<Rightarrow> Ok (-1) s
         | Some i \<Rightarrow>
           let s = upd_vma p i (\<lambda>v. v\<lparr>vma_start := start, vma_end := start + size\<rparr>) s in
           kbind (filedup f s) (\<lambda>f s.
           let s = upd_vma p i (\<lambda>v. v\<lparr>vma_f := Some f, vma_offset := offset, vma_prot := prot, vma_flags := flags,
                     vma_valid := True\<rparr>) s in
           Ok start (upd_proc p (p_mmap_base_update (\<lambda>_. start)) s))))"

definition sys_mmap :: "'a ksys_scheme \<Rightarrow> ('a ksys_scheme, u64) res" where
  "sys_mmap s =
     kbind (argaddr 0 s) (\<lambda>addr s.
     kbind (argint 1 s) (\<lambda>len s.
     kbind (argint 2 s) (\<lambda>prot s.
     kbind (argint 3 s) (\<lambda>flags s.
     kbind (argint 4 s) (\<lambda>fd s.
     kbind (argint 5 s) (\<lambda>offset s.
     if len = 0 then Ok (-1) s
     else if addr \<noteq> 0 then kbind (printf ''mmap: only support addr = 0'' [] s) (\<lambda>_ s. Ok (-1) s)
     else mmap_body len prot flags fd offset s))))))"

text \<open>The loop of \<open>sys_munmap\<close>: the value is \<open>False\<close> when it returns -1.\<close>

primrec munmap_loop :: "nat \<Rightarrow> u64 \<Rightarrow> u64 \<Rightarrow> nat list \<Rightarrow> 'a ksys_scheme \<Rightarrow> ('a ksys_scheme, bool) res" where
  "munmap_loop p addr lim [] s = Ok True s"
| "munmap_loop p addr lim (i # is) s =
     (let v = p_vma (procs s p) i in
      if \<not> vma_valid v \<or> vma_end v \<le> addr \<or> vma_start v \<ge> lim then munmap_loop p addr lim is s
      else kbind (uvmunmap_vma (p_pagetable (procs s p)) p i addr lim s) (\<lambda>r s. Ok (r \<noteq> -1) s))"

definition munmap_body :: "u64 \<Rightarrow> int \<Rightarrow> 'a ksys_scheme \<Rightarrow> ('a ksys_scheme, u64) res" where
  "munmap_body addr len s =
     (if addr = 0 \<or> len = 0 \<or> addr mod PGSIZE \<noteq> 0 then Ok (-1) s
      else
        let lim = PGROUNDUP (addr + word_of_int len) in
        kbind (myproc s) (\<lambda>p s.
        kbind (munmap_loop p addr lim [0..<NVMA] s) (\<lambda>ok s.
        if \<not> ok then Ok (-1) s
        else Ok 0 (if addr = p_mmap_base (procs s p) then upd_proc p (p_mmap_base_update (\<lambda>_. lim)) s else s))))"

definition sys_munmap :: "'a ksys_scheme \<Rightarrow> ('a ksys_scheme, u64) res" where
  "sys_munmap s =
     kbind (argaddr 0 s) (\<lambda>addr s.
     kbind (argint 1 s) (\<lambda>len s. munmap_body addr len s))"

end
