(* ===== verification/Sysfile.thy ===== *)
theory Sysfile
  imports Sysarg
begin

text \<open>
  System calls on files (\<open>kernel/sysfile.c\<close>). Each \<open>goto bad\<close> or \<open>goto fail\<close> is a call of the
  definition that models the code at the label.
\<close>

abbreviation (input) O_RDONLY :: int where "O_RDONLY \<equiv> 0"
abbreviation (input) O_WRONLY :: nat where "O_WRONLY \<equiv> 0"
abbreviation (input) O_RDWR :: nat where "O_RDWR \<equiv> 1"
abbreviation (input) O_CREATE :: nat where "O_CREATE \<equiv> 9"
abbreviation (input) O_TRUNC :: nat where "O_TRUNC \<equiv> 10"

subsection \<open>File descriptors\<close>

definition argfd :: "nat \<Rightarrow> 'a ksys_scheme \<Rightarrow> ('a ksys_scheme, (nat \<times> nat) option) res" where
  "argfd n s =
     kbind (argint n s) (\<lambda>fd s.
     if fd < 0 \<or> fd \<ge> int NOFILE then Ok None s
     else
       kbind (myproc s) (\<lambda>p s.
       case p_ofile (procs s p) (nat fd) of
         None \<Rightarrow> Ok None s
       | Some f \<Rightarrow> Ok (Some (nat fd, f)) s))"

primrec fdalloc_scan :: "(nat \<Rightarrow> nat option) \<Rightarrow> nat list \<Rightarrow> nat option" where
  "fdalloc_scan T [] = None"
| "fdalloc_scan T (fd # fds) = (if T fd = None then Some fd else fdalloc_scan T fds)"

definition set_ofile :: "nat \<Rightarrow> nat \<Rightarrow> nat option \<Rightarrow> 'a kproc_scheme \<Rightarrow> 'a kproc_scheme" where
  "set_ofile p fd f s = upd_proc p (\<lambda>q. q\<lparr>p_ofile := (p_ofile q)(fd := f)\<rparr>) s"

definition fdalloc :: "nat \<Rightarrow> 'a ksys_scheme \<Rightarrow> ('a ksys_scheme, nat option) res" where
  "fdalloc f s =
     kbind (myproc s) (\<lambda>p s.
     case fdalloc_scan (p_ofile (procs s p)) [0..<NOFILE] of
       None \<Rightarrow> Ok None s
     | Some fd \<Rightarrow> Ok (Some fd) (set_ofile p fd (Some f) s))"

definition sys_dup :: "'a ksys_scheme \<Rightarrow> ('a ksys_scheme, u64) res" where
  "sys_dup s =
     kbind (argfd 0 s) (\<lambda>a s.
     case a of None \<Rightarrow> Ok (-1) s
     | Some (_, f) \<Rightarrow>
       kbind (fdalloc f s) (\<lambda>r s.
       case r of None \<Rightarrow> Ok (-1) s
       | Some fd \<Rightarrow> kbind (filedup f s) (\<lambda>_ s. Ok (of_nat fd) s)))"

definition sys_read :: "'a ksys_scheme \<Rightarrow> ('a ksys_scheme, u64) res" where
  "sys_read s =
     kbind (argaddr 1 s) (\<lambda>p s.
     kbind (argint 2 s) (\<lambda>n s.
     kbind (argfd 0 s) (\<lambda>a s.
     case a of None \<Rightarrow> Ok (-1) s
     | Some (_, f) \<Rightarrow> kbind (fileread f p n s) (\<lambda>r s. Ok (word_of_int r) s))))"

definition sys_write :: "'a ksys_scheme \<Rightarrow> ('a ksys_scheme, u64) res" where
  "sys_write s =
     kbind (argaddr 1 s) (\<lambda>p s.
     kbind (argint 2 s) (\<lambda>n s.
     kbind (argfd 0 s) (\<lambda>a s.
     case a of None \<Rightarrow> Ok (-1) s
     | Some (_, f) \<Rightarrow> kbind (filewrite f p n s) (\<lambda>r s. Ok (word_of_int r) s))))"

definition sys_close :: "'a ksys_scheme \<Rightarrow> ('a ksys_scheme, u64) res" where
  "sys_close s =
     kbind (argfd 0 s) (\<lambda>a s.
     case a of None \<Rightarrow> Ok (-1) s
     | Some (fd, f) \<Rightarrow>
       kbind (myproc s) (\<lambda>p s.
       kbind (fileclose f (set_ofile p fd None s)) (\<lambda>_ s. Ok 0 s)))"

definition sys_fstat :: "'a ksys_scheme \<Rightarrow> ('a ksys_scheme, u64) res" where
  "sys_fstat s =
     kbind (argaddr 1 s) (\<lambda>st s.
     kbind (argfd 0 s) (\<lambda>a s.
     case a of None \<Rightarrow> Ok (-1) s
     | Some (_, f) \<Rightarrow> kbind (filestat f st s) (\<lambda>r s. Ok (word_of_int r) s)))"

subsection \<open>Links\<close>

definition link_bad :: "nat \<Rightarrow> 'a ksys_scheme \<Rightarrow> ('a ksys_scheme, u64) res" where
  "link_bad ip s =
     kbind (ilock ip s) (\<lambda>_ s.
     kbind (iupdate ip (upd_inode ip (\<lambda>x. x\<lparr>i_nlink := i_nlink x - 1\<rparr>) s)) (\<lambda>_ s.
     kbind (iunlockput ip s) (\<lambda>_ s.
     kbind (end_op s) (\<lambda>_ s. Ok (-1) s))))"

definition fail_op :: "'a ksys_scheme \<Rightarrow> ('a ksys_scheme, u64) res" where
  "fail_op s = kbind (end_op s) (\<lambda>_ s. Ok (-1) s)"

definition sys_link :: "'a ksys_scheme \<Rightarrow> ('a ksys_scheme, u64) res" where
  "sys_link s =
     kbind (argstr 0 (int MAXPATH) s) (\<lambda>a s. case a of None \<Rightarrow> Ok (-1) s | Some (_, old) \<Rightarrow>
     kbind (argstr 1 (int MAXPATH) s) (\<lambda>b s. case b of None \<Rightarrow> Ok (-1) s | Some (_, new) \<Rightarrow>
     kbind (begin_op s) (\<lambda>_ s.
     kbind (namei old MAXPATH s) (\<lambda>ip s. case ip of None \<Rightarrow> fail_op s | Some ip \<Rightarrow>
     kbind (ilock ip s) (\<lambda>_ s.
     if i_type (itable s ip) = T_DIR then kbind (iunlockput ip s) (\<lambda>_ s. fail_op s)
     else
       kbind (iupdate ip (upd_inode ip (\<lambda>x. x\<lparr>i_nlink := i_nlink x + 1\<rparr>) s)) (\<lambda>_ s.
       kbind (iunlock ip s) (\<lambda>_ s.
       kbind (nameiparent new MAXPATH (\<lambda>_. 0) s) (\<lambda>x s. case fst x of None \<Rightarrow> link_bad ip s | Some dp \<Rightarrow>
       kbind (ilock dp s) (\<lambda>_ s.
       kbind (if i_dev (itable s dp) \<noteq> i_dev (itable s ip) then Ok (-1) s
              else dirlink dp (snd x) (i_inum (itable s ip)) s) (\<lambda>r s.
       if r < 0 then kbind (iunlockput dp s) (\<lambda>_ s. link_bad ip s)
       else
         kbind (iunlockput dp s) (\<lambda>_ s.
         kbind (iput ip s) (\<lambda>_ s.
         kbind (end_op s) (\<lambda>_ s. Ok 0 s)))))))))))))"

primrec isdirempty_loop :: "nat \<Rightarrow> nat list \<Rightarrow> 'a kfs_scheme \<Rightarrow> ('a kfs_scheme, bool) res" where
  "isdirempty_loop dp [] s = Ok True s"
| "isdirempty_loop dp (off # offs) s =
     kbind (readi copy_to_local dp 0 (of_nat off) 16 blank_de s) (\<lambda>x s.
     if fst x \<noteq> 16 then Panic ''isdirempty: readi''
     else if de_inum (snd x) \<noteq> 0 then Ok False s
     else isdirempty_loop dp offs s)"

definition isdirempty :: "nat \<Rightarrow> 'a kfs_scheme \<Rightarrow> ('a kfs_scheme, bool) res" where
  "isdirempty dp s = isdirempty_loop dp (drop 2 (dir_offs (i_size (itable s dp)))) s"

definition unlink_bad :: "nat \<Rightarrow> 'a ksys_scheme \<Rightarrow> ('a ksys_scheme, u64) res" where
  "unlink_bad dp s = kbind (iunlockput dp s) (\<lambda>_ s. fail_op s)"

definition sys_unlink :: "'a ksys_scheme \<Rightarrow> ('a ksys_scheme, u64) res" where
  "sys_unlink s =
     kbind (argstr 0 (int MAXPATH) s) (\<lambda>a s. case a of None \<Rightarrow> Ok (-1) s | Some (_, path) \<Rightarrow>
     kbind (begin_op s) (\<lambda>_ s.
     kbind (nameiparent path MAXPATH (\<lambda>_. 0) s) (\<lambda>x s. case fst x of None \<Rightarrow> fail_op s | Some dp \<Rightarrow>
     kbind (ilock dp s) (\<lambda>_ s.
     if namecmp (snd x) (c_string ''.'') = 0 \<or> namecmp (snd x) (c_string ''..'') = 0 then unlink_bad dp s
     else
       kbind (dirlookup dp (snd x) s) (\<lambda>y s. case y of None \<Rightarrow> unlink_bad dp s | Some (ip, off) \<Rightarrow>
       kbind (ilock ip s) (\<lambda>_ s.
       if sint (i_nlink (itable s ip)) < 1 then Panic ''unlink: nlink < 1''
       else
         kbind (if i_type (itable s ip) = T_DIR then isdirempty ip s else Ok True s) (\<lambda>e s.
         if \<not> e then kbind (iunlockput ip s) (\<lambda>_ s. unlink_bad dp s)
         else
           kbind (writei (copy_from_local blank_de) dp 0 (of_nat off) 16 s) (\<lambda>w s.
           if w \<noteq> 16 then Panic ''unlink: writei''
           else
             kbind (if i_type (itable s ip) = T_DIR
                    then iupdate dp (upd_inode dp (\<lambda>x. x\<lparr>i_nlink := i_nlink x - 1\<rparr>) s) else Ok () s) (\<lambda>_ s.
             kbind (iunlockput dp s) (\<lambda>_ s.
             kbind (iupdate ip (upd_inode ip (\<lambda>x. x\<lparr>i_nlink := i_nlink x - 1\<rparr>) s)) (\<lambda>_ s.
             kbind (iunlockput ip s) (\<lambda>_ s.
             kbind (end_op s) (\<lambda>_ s. Ok 0 s)))))))))))))"

subsection \<open>Creating and opening\<close>

definition create_fail :: "nat \<Rightarrow> nat \<Rightarrow> 'a kfs_scheme \<Rightarrow> ('a kfs_scheme, nat option) res" where
  "create_fail ip dp s =
     kbind (iupdate ip (upd_inode ip (i_nlink_update (\<lambda>_. 0)) s)) (\<lambda>_ s.
     kbind (iunlockput ip s) (\<lambda>_ s.
     kbind (iunlockput dp s) (\<lambda>_ s. Ok None s)))"

definition create :: "bytes \<Rightarrow> u16 \<Rightarrow> u16 \<Rightarrow> u16 \<Rightarrow> 'a kfs_scheme \<Rightarrow> ('a kfs_scheme, nat option) res" where
  "create path type major minor s =
     kbind (nameiparent path MAXPATH (\<lambda>_. 0) s) (\<lambda>x s. case fst x of None \<Rightarrow> Ok None s | Some dp \<Rightarrow>
     kbind (ilock dp s) (\<lambda>_ s.
     kbind (dirlookup dp (snd x) s) (\<lambda>y s.
     case y of
       Some (ip, _) \<Rightarrow>
         kbind (iunlockput dp s) (\<lambda>_ s.
         kbind (ilock ip s) (\<lambda>_ s.
         if type = T_FILE \<and> (i_type (itable s ip) = T_FILE \<or> i_type (itable s ip) = T_DEVICE) then Ok (Some ip) s
         else kbind (iunlockput ip s) (\<lambda>_ s. Ok None s)))
     | None \<Rightarrow>
         kbind (ialloc (i_dev (itable s dp)) type s) (\<lambda>ip s. case ip of
           None \<Rightarrow> kbind (iunlockput dp s) (\<lambda>_ s. Ok None s)
         | Some ip \<Rightarrow>
           kbind (ilock ip s) (\<lambda>_ s.
           kbind (iupdate ip (upd_inode ip (\<lambda>x. x\<lparr>i_major := major, i_minor := minor, i_nlink := 1\<rparr>) s)) (\<lambda>_ s.
           kbind
             (if type = T_DIR then
                kbind (dirlink ip (c_string ''.'') (i_inum (itable s ip)) s) (\<lambda>r s.
                if r < 0 then Ok r s
                else dirlink ip (c_string ''..'') (i_inum (itable s dp)) s)
              else Ok 0 s) (\<lambda>r s.
           if r < 0 then create_fail ip dp s
           else
             kbind (dirlink dp (snd x) (i_inum (itable s ip)) s) (\<lambda>r s.
             if r < 0 then create_fail ip dp s
             else
               kbind (if type = T_DIR
                      then iupdate dp (upd_inode dp (\<lambda>x. x\<lparr>i_nlink := i_nlink x + 1\<rparr>) s) else Ok () s) (\<lambda>_ s.
               kbind (iunlockput dp s) (\<lambda>_ s. Ok (Some ip) s)))))))))) "

text \<open>The part of \<open>sys_open\<close> that finds the locked inode; \<open>None\<close> when it has returned -1.\<close>

definition open_inode :: "bytes \<Rightarrow> int \<Rightarrow> 'a kfs_scheme \<Rightarrow> ('a kfs_scheme, nat option) res" where
  "open_inode path omode s =
     (if bit omode O_CREATE then
        kbind (create path T_FILE 0 0 s) (\<lambda>ip s.
        case ip of None \<Rightarrow> kbind (end_op s) (\<lambda>_ s. Ok None s) | Some ip \<Rightarrow> Ok (Some ip) s)
      else
        kbind (namei path MAXPATH s) (\<lambda>ip s.
        case ip of None \<Rightarrow> kbind (end_op s) (\<lambda>_ s. Ok None s)
        | Some ip \<Rightarrow>
          kbind (ilock ip s) (\<lambda>_ s.
          if i_type (itable s ip) = T_DIR \<and> omode \<noteq> O_RDONLY then
            kbind (iunlockput ip s) (\<lambda>_ s. kbind (end_op s) (\<lambda>_ s. Ok None s))
          else Ok (Some ip) s)))"

definition open_fields :: "nat \<Rightarrow> int \<Rightarrow> inode \<Rightarrow> file_t \<Rightarrow> file_t" where
  "open_fields ip omode i x =
     (let x = (if i_type i = T_DEVICE then x\<lparr>f_type := FD_DEVICE, f_major := i_major i\<rparr>
               else x\<lparr>f_type := FD_INODE, f_off := 0\<rparr>) in
      x\<lparr>f_ip := Some ip, f_readable := \<not> bit omode O_WRONLY,
        f_writable := (bit omode O_WRONLY \<or> bit omode O_RDWR)\<rparr>)"

definition sys_open :: "'a ksys_scheme \<Rightarrow> ('a ksys_scheme, u64) res" where
  "sys_open s =
     kbind (argint 1 s) (\<lambda>omode s.
     kbind (argstr 0 (int MAXPATH) s) (\<lambda>a s. case a of None \<Rightarrow> Ok (-1) s | Some (_, path) \<Rightarrow>
     kbind (begin_op s) (\<lambda>_ s.
     kbind (open_inode path omode s) (\<lambda>ip s. case ip of None \<Rightarrow> Ok (-1) s | Some ip \<Rightarrow>
     if i_type (itable s ip) = T_DEVICE \<and>
        (sint (i_major (itable s ip)) < 0 \<or> sint (i_major (itable s ip)) \<ge> int NDEV) then
       kbind (iunlockput ip s) (\<lambda>_ s. fail_op s)
     else
       kbind (filealloc s) (\<lambda>f s. case f of
         None \<Rightarrow> kbind (iunlockput ip s) (\<lambda>_ s. fail_op s)
       | Some f \<Rightarrow>
         kbind (fdalloc f s) (\<lambda>r s. case r of
           None \<Rightarrow>
             kbind (fileclose f s) (\<lambda>_ s.
             kbind (iunlockput ip s) (\<lambda>_ s. fail_op s))
         | Some fd \<Rightarrow>
           let s = upd_file f (open_fields ip omode (itable s ip)) s in
           kbind (if bit omode O_TRUNC \<and> i_type (itable s ip) = T_FILE then itrunc ip s else Ok () s) (\<lambda>_ s.
           kbind (iunlock ip s) (\<lambda>_ s.
           kbind (end_op s) (\<lambda>_ s. Ok (of_nat fd) s)))))))))"

definition sys_mkdir :: "'a ksys_scheme \<Rightarrow> ('a ksys_scheme, u64) res" where
  "sys_mkdir s =
     kbind (begin_op s) (\<lambda>_ s.
     kbind (argstr 0 (int MAXPATH) s) (\<lambda>a s. case a of None \<Rightarrow> fail_op s | Some (_, path) \<Rightarrow>
     kbind (create path T_DIR 0 0 s) (\<lambda>ip s. case ip of None \<Rightarrow> fail_op s | Some ip \<Rightarrow>
     kbind (iunlockput ip s) (\<lambda>_ s.
     kbind (end_op s) (\<lambda>_ s. Ok 0 s)))))"

definition sys_mknod :: "'a ksys_scheme \<Rightarrow> ('a ksys_scheme, u64) res" where
  "sys_mknod s =
     kbind (begin_op s) (\<lambda>_ s.
     kbind (argint 1 s) (\<lambda>major s.
     kbind (argint 2 s) (\<lambda>minor s.
     kbind (argstr 0 (int MAXPATH) s) (\<lambda>a s. case a of None \<Rightarrow> fail_op s | Some (_, path) \<Rightarrow>
     kbind (create path T_DEVICE (word_of_int major) (word_of_int minor) s) (\<lambda>ip s.
     case ip of None \<Rightarrow> fail_op s | Some ip \<Rightarrow>
     kbind (iunlockput ip s) (\<lambda>_ s.
     kbind (end_op s) (\<lambda>_ s. Ok 0 s)))))))"

definition sys_chdir :: "'a ksys_scheme \<Rightarrow> ('a ksys_scheme, u64) res" where
  "sys_chdir s =
     kbind (myproc s) (\<lambda>p s.
     kbind (begin_op s) (\<lambda>_ s.
     kbind (argstr 0 (int MAXPATH) s) (\<lambda>a s. case a of None \<Rightarrow> fail_op s | Some (_, path) \<Rightarrow>
     kbind (namei path MAXPATH s) (\<lambda>ip s. case ip of None \<Rightarrow> fail_op s | Some ip \<Rightarrow>
     kbind (ilock ip s) (\<lambda>_ s.
     if i_type (itable s ip) \<noteq> T_DIR then kbind (iunlockput ip s) (\<lambda>_ s. fail_op s)
     else
       kbind (iunlock ip s) (\<lambda>_ s.
       kbind (case p_cwd (procs s p) of None \<Rightarrow> UB | Some c \<Rightarrow> iput c s) (\<lambda>_ s.
       kbind (end_op s) (\<lambda>_ s.
       Ok 0 (upd_proc p (p_cwd_update (\<lambda>_. Some ip)) s)))))))))"

subsection \<open>exec and pipe\<close>

text \<open>
  The loop of \<open>sys_exec\<close> over the places of \<open>argv\<close>. The values are whether it ended with a null
  pointer, the pages allocated so far, and the strings in them. A string that could not be fetched
  leaves its bytes in a page that is freed, and thereby overwritten, at once.
\<close>

primrec exec_fetch ::
  "u64 \<Rightarrow> nat list \<Rightarrow> u64 list \<Rightarrow> u8 list list \<Rightarrow> 'a ksys_scheme \<Rightarrow> ('a ksys_scheme, bool \<times> u64 list \<times> u8 list list) res" where
  "exec_fetch uargv [] pgs strs s = Ok (False, pgs, strs) s"
| "exec_fetch uargv (i # is) pgs strs s =
     kbind (fetchaddr (uargv + 8 * of_nat i) s) (\<lambda>a s. case a of None \<Rightarrow> Ok (False, pgs, strs) s | Some uarg \<Rightarrow>
     if uarg = 0 then Ok (True, pgs, strs) s
     else
       kbind (kalloc s) (\<lambda>pg s.
       if pg = 0 then Ok (False, pgs, strs) s
       else
         kbind (fetchstr uarg 4096 s) (\<lambda>r s. case r of None \<Rightarrow> Ok (False, pgs @ [pg], strs) s
         | Some (n, b) \<Rightarrow>
           let bs = map b [0..<nat n] in
           exec_fetch uargv is (pgs @ [pg]) (strs @ [bs]) (s\<lparr>mem := store_bytes (mem s) pg (bs @ [0])\<rparr>))))"

primrec kfree_all :: "u64 list \<Rightarrow> 'a kmem_scheme \<Rightarrow> ('a kmem_scheme, unit) res" where
  "kfree_all [] s = Ok () s"
| "kfree_all (pg # pgs) s = kbind (kfree pg s) (\<lambda>_ s. kfree_all pgs s)"

definition sys_exec :: "'a ksys_scheme \<Rightarrow> ('a ksys_scheme, u64) res" where
  "sys_exec s =
     kbind (argaddr 1 s) (\<lambda>uargv s.
     kbind (argstr 0 (int MAXPATH) s) (\<lambda>a s. case a of None \<Rightarrow> Ok (-1) s | Some (_, path) \<Rightarrow>
     kbind (exec_fetch uargv [0..<MAXARG] [] [] s) (\<lambda>x s.
     if fst x then
       kbind (kexec path MAXPATH (snd (snd x)) s) (\<lambda>ret s.
       kbind (kfree_all (fst (snd x)) s) (\<lambda>_ s. Ok (word_of_int ret) s))
     else kbind (kfree_all (fst (snd x)) s) (\<lambda>_ s. Ok (-1) s))))"

definition close_both :: "nat \<Rightarrow> nat \<Rightarrow> 'a ksys_scheme \<Rightarrow> ('a ksys_scheme, u64) res" where
  "close_both rfile wfile s =
     kbind (fileclose rfile s) (\<lambda>_ s.
     kbind (fileclose wfile s) (\<lambda>_ s. Ok (-1) s))"

definition sys_pipe :: "'a ksys_scheme \<Rightarrow> ('a ksys_scheme, u64) res" where
  "sys_pipe s =
     kbind (myproc s) (\<lambda>p s.
     kbind (argaddr 0 s) (\<lambda>fdarray s.
     kbind (pipealloc s) (\<lambda>x s. case x of None \<Rightarrow> Ok (-1) s | Some (rfile, wfile) \<Rightarrow>
     kbind (fdalloc rfile s) (\<lambda>r0 s. case r0 of None \<Rightarrow> close_both rfile wfile s | Some fd0 \<Rightarrow>
     kbind (fdalloc wfile s) (\<lambda>r1 s. case r1 of None \<Rightarrow> close_both rfile wfile (set_ofile p fd0 None s) | Some fd1 \<Rightarrow>
     kbind (copyout (p_pagetable (procs s p)) fdarray (word_le 4 (of_nat fd0 :: u32)) s) (\<lambda>r s.
     kbind (if r < 0 then Ok r s
            else copyout (p_pagetable (procs s p)) (fdarray + 4) (word_le 4 (of_nat fd1 :: u32)) s) (\<lambda>r s.
     if r < 0 then close_both rfile wfile (set_ofile p fd1 None (set_ofile p fd0 None s))
     else Ok 0 s)))))))"

end
