(* ===== verification/Syscall.thy ===== *)
theory Syscall
  imports Sysproc Sysfile
begin

text \<open>
  Dispatch of system calls (\<open>syscall\<close> of \<open>kernel/syscall.c\<close>, with the numbers of
  \<open>kernel/syscall.h\<close>). The result of the handler goes to \<open>a0\<close> of the trapframe; a handler that
  sleeps or exits has not returned and stores nothing.
\<close>

text \<open>The table \<open>syscalls\<close>; \<open>None\<close> where the array has no handler.\<close>

definition syscalls :: "int \<Rightarrow> ('a ksys_scheme \<Rightarrow> ('a ksys_scheme, u64) res) option" where
  "syscalls num =
     map_of
       [(1, sys_fork), (2, sys_exit), (3, sys_wait), (4, sys_pipe), (5, sys_read), (6, sys_kill),
        (7, sys_exec), (8, sys_fstat), (9, sys_chdir), (10, sys_dup), (11, sys_getpid), (12, sys_sbrk),
        (13, sys_pause), (14, sys_uptime), (15, sys_open), (16, sys_write), (17, sys_mknod),
        (18, sys_unlink), (19, sys_link), (20, sys_mkdir), (21, sys_close), (22, sys_mmap),
        (23, sys_munmap)] num"

definition set_a0 :: "nat \<Rightarrow> u64 \<Rightarrow> 'a kproc_scheme \<Rightarrow> 'a kproc_scheme" where
  "set_a0 p r s = s\<lparr>mem := st64 (mem s) (p_trapframe (procs s p) + TF_a0) r\<rparr>"

definition syscall :: "'a ksys_scheme \<Rightarrow> ('a ksys_scheme, unit) res" where
  "syscall s =
     kbind (myproc s) (\<lambda>p s.
     let num = sint (ucast (ld64 (mem s) (p_trapframe (procs s p) + TF_a7)) :: u32) in
     case (if num > 0 then syscalls num else None) of
       Some f \<Rightarrow> kbind (f s) (\<lambda>r s. Ok () (set_a0 p r s))
     | None \<Rightarrow>
         kbind (printf (''%d %s: unknown sys call %d'' @ [CHR 0x0A])
                  [Aint (word_of_int (p_pid (procs s p))), Astr (Some (proc_name (procs s p))),
                   Aint (word_of_int num)] s) (\<lambda>_ s.
         Ok () (set_a0 p (-1) s)))"

end
