(* ===== verification/Virtio.thy ===== *)
theory Virtio
  imports Procsys
begin

text \<open>
  The disk driver (\<open>kernel/virtio_disk.c\<close>, \<open>kernel/virtio.h\<close>). The three queue pages are records of
  their contents. An address stored in a descriptor names the object it points to: the request
  header \<open>disk.ops[i]\<close>, the data of buffer \<open>b\<close>, or the status byte of \<open>disk.info[i]\<close>. What the device
  returns for a register is a parameter \<open>rd\<close> of the history of register writes. The buffer cache
  uses the driver through \<open>disk_rw\<close> of theory Bio, a whole transfer in one step.
\<close>

abbreviation (input) NUM :: nat where "NUM \<equiv> 8"
abbreviation (input) VRING_DESC_F_NEXT :: u16 where "VRING_DESC_F_NEXT \<equiv> 1"
abbreviation (input) VRING_DESC_F_WRITE :: u16 where "VRING_DESC_F_WRITE \<equiv> 2"
abbreviation (input) VIRTIO_BLK_T_IN :: u32 where "VIRTIO_BLK_T_IN \<equiv> 0"
abbreviation (input) VIRTIO_BLK_T_OUT :: u32 where "VIRTIO_BLK_T_OUT \<equiv> 1"

datatype daddr = A_null | A_req nat | A_data nat | A_status nat

record virtq_desc =
  d_addr :: daddr
  d_len :: u32
  d_flags :: u16
  d_next :: u16

definition zero_desc :: virtq_desc where
  "zero_desc = \<lparr>d_addr = A_null, d_len = 0, d_flags = 0, d_next = 0\<rparr>"

record virtio_blk_req =
  q_type :: u32
  q_reserved :: u32
  q_sector :: u64

text \<open>\<open>b->disk\<close>, the flag by which the driver owns a buffer, is \<open>b_disk\<close>.\<close>

record vdisk =
  desc_page :: u64
  avail_page :: u64
  used_page :: u64
  desc :: "nat \<Rightarrow> virtq_desc"
  avail_idx :: u16
  avail_ring :: "nat \<Rightarrow> u16"
  used_idx_dev :: u16
  used_ring :: "nat \<Rightarrow> u32"
  dfree :: "nat \<Rightarrow> bool"
  used_idx :: u16
  info_b :: "nat \<Rightarrow> nat option"
  info_status :: "nat \<Rightarrow> u8"
  ops :: "nat \<Rightarrow> virtio_blk_req"
  b_disk :: "nat \<Rightarrow> bool"

record kvirtio = ksys +
  vd :: vdisk
  mmio_w :: "(nat \<times> u32) list"

definition upd_vd :: "(vdisk \<Rightarrow> vdisk) \<Rightarrow> 'a kvirtio_scheme \<Rightarrow> 'a kvirtio_scheme" where
  "upd_vd f s = s\<lparr>vd := f (vd s)\<rparr>"

definition mmio_write :: "nat \<Rightarrow> u32 \<Rightarrow> 'a kvirtio_scheme \<Rightarrow> 'a kvirtio_scheme" where
  "mmio_write r v s = s\<lparr>mmio_w := mmio_w s @ [(r, v)]\<rparr>"

lemma upd_vd_simps [simp]:
  "vd (upd_vd f s) = f (vd s)" "held (upd_vd f s) = held s" "procs (upd_vd f s) = procs s"
  "curproc (upd_vd f s) = curproc s" "bufs (upd_vd f s) = bufs s" "mmio_w (upd_vd f s) = mmio_w s"
  by (simp_all add: upd_vd_def)

subsection \<open>Initialisation\<close>

text \<open>The features the driver refuses: the bits 5, 7, 11, 12, 27, 29 and 28.\<close>

definition drop_features :: "u32 \<Rightarrow> u32" where
  "drop_features f = unset_bit 28 (unset_bit 29 (unset_bit 27 (unset_bit 12 (unset_bit 11 (unset_bit 7 (unset_bit 5 f))))))"

definition virtio_disk_init ::
  "((nat \<times> u32) list \<Rightarrow> nat \<Rightarrow> u32) \<Rightarrow> 'a kvirtio_scheme \<Rightarrow> ('a kvirtio_scheme, unit) res" where
  "virtio_disk_init rd s =
     (if rd (mmio_w s) 0x000 \<noteq> 0x74726976 \<or> rd (mmio_w s) 0x004 \<noteq> 2 \<or> rd (mmio_w s) 0x008 \<noteq> 2 \<or>
         rd (mmio_w s) 0x00c \<noteq> 0x554d4551 then Panic ''could not find virtio disk''
      else
        let s = mmio_write 0x070 3 (mmio_write 0x070 1 (mmio_write 0x070 0 s));
            s = mmio_write 0x020 (drop_features (rd (mmio_w s) 0x010)) s;
            s = mmio_write 0x070 11 s;
            status = rd (mmio_w s) 0x070 in
        if status AND 8 = 0 then Panic ''virtio disk FEATURES_OK unset''
        else
          let s = mmio_write 0x030 0 s in
          if rd (mmio_w s) 0x044 \<noteq> 0 then Panic ''virtio disk should not be ready''
          else if rd (mmio_w s) 0x034 = 0 then Panic ''virtio disk has no queue 0''
          else if rd (mmio_w s) 0x034 < of_nat NUM then Panic ''virtio disk max queue too short''
          else
            kbind (kalloc s) (\<lambda>d s.
            kbind (kalloc s) (\<lambda>a s.
            kbind (kalloc s) (\<lambda>u s.
            if d = 0 \<or> a = 0 \<or> u = 0 then Panic ''virtio disk kalloc''
            else
              let s = s\<lparr>mem := memset (memset (memset (mem s) d 0 4096) a 0 4096) u 0 4096\<rparr>;
                  s = upd_vd (\<lambda>v. v\<lparr>desc_page := d, avail_page := a, used_page := u, desc := (\<lambda>_. zero_desc),
                        avail_idx := 0, avail_ring := (\<lambda>_. 0), used_idx_dev := 0, used_ring := (\<lambda>_. 0)\<rparr>) s;
                  s = mmio_write 0x038 (of_nat NUM) s;
                  s = mmio_write 0x084 (ucast (drop_bit 32 d)) (mmio_write 0x080 (ucast d) s);
                  s = mmio_write 0x094 (ucast (drop_bit 32 a)) (mmio_write 0x090 (ucast a) s);
                  s = mmio_write 0x0a4 (ucast (drop_bit 32 u)) (mmio_write 0x0a0 (ucast u) s);
                  s = mmio_write 0x044 1 s;
                  s = upd_vd (dfree_update (\<lambda>fr i. i < NUM \<or> fr i)) s in
              Ok () (mmio_write 0x070 (status OR 4) s)))))"

subsection \<open>Descriptors\<close>

primrec alloc_desc_scan :: "(nat \<Rightarrow> bool) \<Rightarrow> nat list \<Rightarrow> nat option" where
  "alloc_desc_scan fr [] = None"
| "alloc_desc_scan fr (i # is) = (if fr i then Some i else alloc_desc_scan fr is)"

definition alloc_desc :: "'a kvirtio_scheme \<Rightarrow> nat option \<times> 'a kvirtio_scheme" where
  "alloc_desc s =
     (case alloc_desc_scan (dfree (vd s)) [0..<NUM] of
        None \<Rightarrow> (None, s)
      | Some i \<Rightarrow> (Some i, upd_vd (dfree_update (\<lambda>fr. fr(i := False))) s))"

definition free_desc :: "nat \<Rightarrow> 'a kvirtio_scheme \<Rightarrow> ('a kvirtio_scheme, unit) res" where
  "free_desc i s =
     (if NUM \<le> i then Panic ''free_desc 1''
      else if dfree (vd s) i then Panic ''free_desc 2''
      else wakeup Ch_disk (upd_vd (\<lambda>v. v\<lparr>desc := (desc v)(i := zero_desc), dfree := (dfree v)(i := True)\<rparr>) s))"

lemma wakeup_vd: "wakeup c s = Ok v t \<Longrightarrow> vd t = vd s"
  by (auto dest!: wakeup_frame)

definition busy :: "vdisk \<Rightarrow> nat set" where
  "busy v = {i. i < NUM \<and> \<not> dfree v i}"

lemma finite_busy [simp]: "finite (busy v)"
  by (simp add: busy_def)

lemma free_desc_vd:
  assumes "free_desc i s = Ok v t"
  shows "vd t = (vd s)\<lparr>desc := (desc (vd s))(i := zero_desc), dfree := (dfree (vd s))(i := True)\<rparr>"
    and "i \<in> busy (vd s)" and "busy (vd t) = busy (vd s) - {i}"
proof -
  have i: "i < NUM" "\<not> dfree (vd s) i" and
    w: "wakeup Ch_disk (upd_vd (\<lambda>v. v\<lparr>desc := (desc v)(i := zero_desc), dfree := (dfree v)(i := True)\<rparr>) s) = Ok v t"
    using assms by (auto simp: free_desc_def split: if_splits)
  show e: "vd t = (vd s)\<lparr>desc := (desc (vd s))(i := zero_desc), dfree := (dfree (vd s))(i := True)\<rparr>"
    using wakeup_vd [OF w] by simp
  show "i \<in> busy (vd s)" using i by (simp add: busy_def)
  show "busy (vd t) = busy (vd s) - {i}" unfolding e busy_def by auto
qed

text \<open>The flags and the successor are read before the descriptor is cleared.\<close>

function free_chain :: "nat \<Rightarrow> 'a kvirtio_scheme \<Rightarrow> ('a kvirtio_scheme, unit) res" where
  "free_chain i s =
     (let flag = d_flags (desc (vd s) i); nxt = d_next (desc (vd s) i) in
      kbind (free_desc i s) (\<lambda>_ s.
      if flag AND VRING_DESC_F_NEXT \<noteq> 0 then free_chain (unat nxt) s else Ok () s))"
  by pat_completeness auto
termination
proof (relation "measure (\<lambda>(i, s). card (busy (vd s)))")
  fix i :: nat and s t :: "'a kvirtio_scheme" and f n v
  assume "free_desc i s = Ok v t"
  note f = free_desc_vd(2,3) [OF this]
  have "card (busy (vd t)) < card (busy (vd s))"
    unfolding f(2) using f(1) by (simp add: card_Diff1_less del: card_Diff_insert)
  then show "((unat n, t), (i, s)) \<in> measure (\<lambda>(i, s). card (busy (vd s)))" by simp
qed simp

declare free_chain.simps [simp del]

primrec free_list_desc :: "nat list \<Rightarrow> 'a kvirtio_scheme \<Rightarrow> ('a kvirtio_scheme, unit) res" where
  "free_list_desc [] s = Ok () s"
| "free_list_desc (i # is) s = kbind (free_desc i s) (\<lambda>_ s. free_list_desc is s)"

text \<open>The loop of \<open>alloc3_desc\<close> with \<open>k\<close> rounds left; \<open>idx\<close> holds the indices so far.\<close>

primrec alloc3_loop :: "nat \<Rightarrow> nat list \<Rightarrow> 'a kvirtio_scheme \<Rightarrow> ('a kvirtio_scheme, nat list option) res" where
  "alloc3_loop 0 idx s = Ok (Some idx) s"
| "alloc3_loop (Suc k) idx s =
     (let (r, s) = alloc_desc s in
      case r of
        None \<Rightarrow> kbind (free_list_desc idx s) (\<lambda>_ s. Ok None s)
      | Some i \<Rightarrow> alloc3_loop k (idx @ [i]) s)"

definition alloc3_desc :: "'a kvirtio_scheme \<Rightarrow> ('a kvirtio_scheme, nat list option) res" where
  "alloc3_desc s = alloc3_loop 3 [] s"

subsection \<open>Requests\<close>

definition format_request :: "nat \<Rightarrow> bool \<Rightarrow> u64 \<Rightarrow> nat \<Rightarrow> nat \<Rightarrow> nat \<Rightarrow> vdisk \<Rightarrow> vdisk" where
  "format_request b write sector i0 i1 i2 v =
     (let v = v\<lparr>ops := (ops v)(i0 := \<lparr>q_type = (if write then VIRTIO_BLK_T_OUT else VIRTIO_BLK_T_IN),
                                    q_reserved = 0, q_sector = sector\<rparr>)\<rparr>;
          v = v\<lparr>desc := (desc v)(i0 := \<lparr>d_addr = A_req i0, d_len = 16, d_flags = VRING_DESC_F_NEXT,
                                      d_next = of_nat i1\<rparr>)\<rparr>;
          v = v\<lparr>desc := (desc v)(i1 := \<lparr>d_addr = A_data b, d_len = of_nat BSIZE,
                                      d_flags = (if write then 0 else VRING_DESC_F_WRITE) OR VRING_DESC_F_NEXT,
                                      d_next = of_nat i2\<rparr>)\<rparr>;
          v = v\<lparr>info_status := (info_status v)(i0 := 0xff)\<rparr>;
          v = v\<lparr>desc := (desc v)(i2 := \<lparr>d_addr = A_status i0, d_len = 1, d_flags = VRING_DESC_F_WRITE,
                                      d_next = 0\<rparr>)\<rparr>;
          v = v\<lparr>b_disk := (b_disk v)(b := True), info_b := (info_b v)(i0 := Some b)\<rparr>;
          v = v\<lparr>avail_ring := (avail_ring v)(unat (avail_idx v) mod NUM := of_nat i0)\<rparr> in
      v\<lparr>avail_idx := avail_idx v + 1\<rparr>)"

text \<open>The wait for the interrupt handler, which a woken process runs again, and the end of the call.\<close>

definition rw_wait :: "nat \<Rightarrow> nat \<Rightarrow> 'a kvirtio_scheme \<Rightarrow> ('a kvirtio_scheme, unit) res" where
  "rw_wait b i0 s =
     (if b_disk (vd s) b then sleep (Ch_buf b) L_disk s
      else
        kbind (free_chain i0 (upd_vd (\<lambda>v. v\<lparr>info_b := (info_b v)(i0 := None)\<rparr>) s)) (\<lambda>_ s.
        release L_disk s))"

text \<open>The call from the allocation of descriptors on, with the lock held.\<close>

definition rw_submit :: "nat \<Rightarrow> bool \<Rightarrow> 'a kvirtio_scheme \<Rightarrow> ('a kvirtio_scheme, unit) res" where
  "rw_submit b write s =
     (let sector = ucast (b_blockno (bufs s b) * 2) in
      kbind (alloc3_desc s) (\<lambda>r s.
      case r of
        None \<Rightarrow> sleep Ch_disk L_disk s
      | Some idx \<Rightarrow>
          let s = upd_vd (format_request b write sector (idx ! 0) (idx ! 1) (idx ! 2)) s;
              s = mmio_write 0x050 0 s in
          rw_wait b (idx ! 0) s))"

definition virtio_disk_rw :: "nat \<Rightarrow> bool \<Rightarrow> 'a kvirtio_scheme \<Rightarrow> ('a kvirtio_scheme, unit) res" where
  "virtio_disk_rw b write s = kbind (acquire L_disk s) (\<lambda>_ s. rw_submit b write s)"

subsection \<open>The interrupt handler\<close>

function intr_loop :: "'a kvirtio_scheme \<Rightarrow> ('a kvirtio_scheme, unit) res" where
  "intr_loop s =
     (if used_idx (vd s) \<noteq> used_idx_dev (vd s) then
        let i = unat (used_ring (vd s) (unat (used_idx (vd s)) mod NUM)) in
        if NUM \<le> i then UB
        else if info_status (vd s) i \<noteq> 0 then Panic ''virtio_disk_intr status''
        else case info_b (vd s) i of None \<Rightarrow> UB
        | Some b \<Rightarrow>
            kbind (wakeup (Ch_buf b) (upd_vd (\<lambda>v. v\<lparr>b_disk := (b_disk v)(b := False)\<rparr>) s)) (\<lambda>_ s.
            intr_loop (upd_vd (\<lambda>v. v\<lparr>used_idx := used_idx v + 1\<rparr>) s))
      else Ok () s)"
  by pat_completeness auto
termination
proof (relation "measure (\<lambda>s. unat (used_idx_dev (vd s) - used_idx (vd s)))")
  fix s t :: "'a kvirtio_scheme" and i b v
  assume ne: "used_idx (vd s) \<noteq> used_idx_dev (vd s)"
    and w: "wakeup (Ch_buf b) (upd_vd (\<lambda>v. v\<lparr>b_disk := (b_disk v)(b := False)\<rparr>) s) = Ok v t"
  let ?d = "used_idx_dev (vd s) - used_idx (vd s)"
  have "?d \<noteq> 0" using ne by simp
  then have "unat (?d - 1) < unat ?d" by (simp add: unat_minus_one unat_gt_0)
  then have "unat (used_idx_dev (vd s) - (used_idx (vd s) + 1)) < unat ?d" by (simp only: diff_diff_add)
  then show "(upd_vd (\<lambda>v. v\<lparr>used_idx := used_idx v + 1\<rparr>) t, s)
      \<in> measure (\<lambda>s. unat (used_idx_dev (vd s) - used_idx (vd s)))"
    using wakeup_vd [OF w] by simp
qed simp

declare intr_loop.simps [simp del]

definition virtio_disk_intr ::
  "((nat \<times> u32) list \<Rightarrow> nat \<Rightarrow> u32) \<Rightarrow> 'a kvirtio_scheme \<Rightarrow> ('a kvirtio_scheme, unit) res" where
  "virtio_disk_intr rd s =
     kbind (acquire L_disk s) (\<lambda>_ s.
     kbind (intr_loop (mmio_write 0x064 (rd (mmio_w s) 0x060 AND 3) s)) (\<lambda>_ s.
     release L_disk s))"

end
