(* ===== verification/Trap.thy ===== *)
theory Trap
  imports Syscall Virtio
begin

text \<open>
  Traps and interrupts (\<open>kernel/trap.c\<close>, \<open>kernel/plic.c\<close>), the first return of a new process
  (\<open>forkret\<close> of \<open>kernel/proc.c\<close>), and the boot sequence (\<open>kernel/main.c\<close>, \<open>kernel/start.c\<close>,
  \<open>kvminithart\<close> of \<open>kernel/vm.c\<close>). The control registers of the hart are fields of the state. What
  devices return is a parameter: \<open>claim\<close> the interrupt the PLIC hands out, \<open>rd\<close> the registers of the
  disk.
\<close>

subsection \<open>Registers\<close>

text \<open>
  The addresses of \<open>kernelvec\<close>, \<open>usertrap\<close> and of \<open>uservec\<close> within the trampoline page are fixed by
  the linker; \<open>r_tp\<close> is the hart number.
\<close>

record ktrap = kvirtio +
  r_sstatus :: u64
  r_scause :: u64
  r_sepc :: u64
  r_stval :: u64
  r_stvec :: u64
  r_satp :: u64
  r_stimecmp :: u64
  r_time :: u64
  r_tp :: nat
  plic_w :: "(u64 \<times> u32) list"
  kernelvec_addr :: u64
  usertrap_addr :: u64
  uservec_off :: u64

abbreviation (input) SSTATUS_SPP :: u64 where "SSTATUS_SPP \<equiv> 0x100"
abbreviation (input) SSTATUS_SPIE :: u64 where "SSTATUS_SPIE \<equiv> 0x20"
abbreviation (input) SSTATUS_SIE :: u64 where "SSTATUS_SIE \<equiv> 2"
abbreviation (input) SATP_SV39 :: u64 where "SATP_SV39 \<equiv> 0x8000000000000000"
abbreviation (input) UART0_IRQ :: nat where "UART0_IRQ \<equiv> 10"
abbreviation (input) VIRTIO0_IRQ :: nat where "VIRTIO0_IRQ \<equiv> 1"

definition MAKE_SATP :: "u64 \<Rightarrow> u64" where
  "MAKE_SATP pagetable = SATP_SV39 OR drop_bit 12 pagetable"

definition trapinithart :: "'a ktrap_scheme \<Rightarrow> 'a ktrap_scheme" where
  "trapinithart s = s\<lparr>r_stvec := kernelvec_addr s\<rparr>"

definition kvminithart :: "'a ktrap_scheme \<Rightarrow> 'a ktrap_scheme" where
  "kvminithart s = s\<lparr>r_satp := MAKE_SATP (kernel_pagetable s)\<rparr>"

subsection \<open>The interrupt controller\<close>

definition plic_store :: "u64 \<Rightarrow> u32 \<Rightarrow> 'a ktrap_scheme \<Rightarrow> 'a ktrap_scheme" where
  "plic_store a v s = s\<lparr>plic_w := plic_w s @ [(a, v)]\<rparr>"

definition PLIC_SENABLE :: "nat \<Rightarrow> u64" where
  "PLIC_SENABLE hart = PLIC + 0x2080 + of_nat hart * 0x100"

definition PLIC_SPRIORITY :: "nat \<Rightarrow> u64" where
  "PLIC_SPRIORITY hart = PLIC + 0x201000 + of_nat hart * 0x2000"

definition PLIC_SCLAIM :: "nat \<Rightarrow> u64" where
  "PLIC_SCLAIM hart = PLIC + 0x201004 + of_nat hart * 0x2000"

definition plicinit :: "'a ktrap_scheme \<Rightarrow> 'a ktrap_scheme" where
  "plicinit s = plic_store (PLIC + of_nat VIRTIO0_IRQ * 4) 1 (plic_store (PLIC + of_nat UART0_IRQ * 4) 1 s)"

definition plicinithart :: "'a ktrap_scheme \<Rightarrow> 'a ktrap_scheme" where
  "plicinithart s =
     (let hart = r_tp s;
          s = plic_store (PLIC_SENABLE hart) (push_bit UART0_IRQ 1 OR push_bit VIRTIO0_IRQ 1) s in
      plic_store (PLIC_SPRIORITY hart) 0 s)"

definition plic_claim :: "(u64 \<Rightarrow> u32) \<Rightarrow> 'a ktrap_scheme \<Rightarrow> u32" where
  "plic_claim claim s = claim (PLIC_SCLAIM (r_tp s))"

definition plic_complete :: "u32 \<Rightarrow> 'a ktrap_scheme \<Rightarrow> 'a ktrap_scheme" where
  "plic_complete irq s = plic_store (PLIC_SCLAIM (r_tp s)) irq s"

subsection \<open>Device interrupts\<close>

definition clockintr :: "'a ktrap_scheme \<Rightarrow> ('a ktrap_scheme, unit) res" where
  "clockintr s =
     kbind
       (if r_tp s = 0 then
          kbind (acquire L_ticks s) (\<lambda>_ s.
          kbind (wakeup Ch_ticks (s\<lparr>ticks := ticks s + 1\<rparr>)) (\<lambda>_ s. release L_ticks s))
        else Ok () s) (\<lambda>_ s.
     Ok () (s\<lparr>r_stimecmp := r_time s + 1000000\<rparr>))"

definition devintr ::
  "(u64 \<Rightarrow> u32) \<Rightarrow> ((nat \<times> u32) list \<Rightarrow> nat \<Rightarrow> u32) \<Rightarrow> 'a ktrap_scheme \<Rightarrow> ('a ktrap_scheme, int) res" where
  "devintr claim rd s =
     (if r_scause s = 0x8000000000000009 then
        let irq = plic_claim claim s in
        kbind
          (if irq = of_nat UART0_IRQ then uartintr s
           else if irq = of_nat VIRTIO0_IRQ then virtio_disk_intr rd s
           else if irq \<noteq> 0 then
             kbind (printf (''unexpected interrupt irq=%d'' @ [CHR 0x0A]) [Aint (ucast irq)] s) (\<lambda>_ s. Ok () s)
           else Ok () s) (\<lambda>_ s.
        Ok 1 (if irq \<noteq> 0 then plic_complete irq s else s))
      else if r_scause s = 0x8000000000000005 then kbind (clockintr s) (\<lambda>_ s. Ok 2 s)
      else Ok 0 s)"

subsection \<open>Returning to user space\<close>

definition prepare_return :: "'a ktrap_scheme \<Rightarrow> ('a ktrap_scheme, unit) res" where
  "prepare_return s =
     kbind (myproc s) (\<lambda>p s.
     let s = s\<lparr>r_sstatus := r_sstatus s AND NOT SSTATUS_SIE\<rparr>;
         s = s\<lparr>r_stvec := TRAMPOLINE + uservec_off s\<rparr>;
         tf = p_trapframe (procs s p);
         s = s\<lparr>mem := st64 (mem s) (tf + TF_kernel_satp) (r_satp s)\<rparr>;
         s = s\<lparr>mem := st64 (mem s) (tf + TF_kernel_sp) (p_kstack (procs s p) + PGSIZE)\<rparr>;
         s = s\<lparr>mem := st64 (mem s) (tf + TF_kernel_trap) (usertrap_addr s)\<rparr>;
         s = s\<lparr>mem := st64 (mem s) (tf + TF_kernel_hartid) (of_nat (r_tp s))\<rparr>;
         x = r_sstatus s AND NOT SSTATUS_SPP OR SSTATUS_SPIE;
         s = s\<lparr>r_sstatus := x\<rparr> in
     Ok () (s\<lparr>r_sepc := ld64 (mem s) (tf + TF_epc)\<rparr>))"

text \<open>\<open>kexit\<close> does not return, so nothing follows it.\<close>

definition exit_if_killed :: "nat \<Rightarrow> 'a ktrap_scheme \<Rightarrow> ('a ktrap_scheme, unit) res" where
  "exit_if_killed p s = kbind (killed p s) (\<lambda>k s. if k then kexit (-1) s else Ok () s)"

definition unexpected_trap :: "nat \<Rightarrow> 'a ktrap_scheme \<Rightarrow> ('a ktrap_scheme, unit) res" where
  "unexpected_trap p s =
     kbind (printf (''usertrap(): unexpected scause 0x%lx pid=%d'' @ [CHR 0x0A])
              [Aint (r_scause s), Aint (word_of_int (p_pid (procs s p)))] s) (\<lambda>_ s.
     kbind (printf (''            sepc=0x%lx stval=0x%lx'' @ [CHR 0x0A])
              [Aint (r_sepc s), Aint (r_stval s)] s) (\<lambda>_ s.
     setkilled p s))"

text \<open>The value of \<open>usertrap\<close> is the \<open>satp\<close> value for the trampoline.\<close>

definition usertrap ::
  "(u64 \<Rightarrow> u32) \<Rightarrow> ((nat \<times> u32) list \<Rightarrow> nat \<Rightarrow> u32) \<Rightarrow> 'a ktrap_scheme \<Rightarrow> ('a ktrap_scheme, u64) res" where
  "usertrap claim rd s =
     (if r_sstatus s AND SSTATUS_SPP \<noteq> 0 then Panic ''usertrap: not from user mode''
      else
        let s = s\<lparr>r_stvec := kernelvec_addr s\<rparr> in
        kbind (myproc s) (\<lambda>p s.
        let epc = p_trapframe (procs s p) + TF_epc;
            s = s\<lparr>mem := st64 (mem s) epc (r_sepc s)\<rparr> in
        kbind
          (if r_scause s = 8 then
             kbind (exit_if_killed p s) (\<lambda>_ s.
             let s = s\<lparr>mem := st64 (mem s) epc (ld64 (mem s) epc + 4)\<rparr>;
                 s = s\<lparr>r_sstatus := r_sstatus s OR SSTATUS_SIE\<rparr> in
             kbind (syscall s) (\<lambda>_ s. Ok 0 s))
           else
             kbind (devintr claim rd s) (\<lambda>which_dev s.
             if which_dev \<noteq> 0 then Ok which_dev s
             else
               kbind (if r_scause s = 15 \<or> r_scause s = 13
                      then vmfault (p_pagetable (procs s p)) (r_stval s) (r_scause s = 13) s
                      else Ok 0 s) (\<lambda>pa s.
               if pa \<noteq> 0 then Ok which_dev s
               else kbind (unexpected_trap p s) (\<lambda>_ s. Ok which_dev s)))) (\<lambda>which_dev s.
        kbind (exit_if_killed p s) (\<lambda>_ s.
        kbind (if which_dev = 2 then yield s else Ok () s) (\<lambda>_ s.
        kbind (prepare_return s) (\<lambda>_ s.
        Ok (MAKE_SATP (p_pagetable (procs s p))) s))))))"

definition kerneltrap ::
  "(u64 \<Rightarrow> u32) \<Rightarrow> ((nat \<times> u32) list \<Rightarrow> nat \<Rightarrow> u32) \<Rightarrow> 'a ktrap_scheme \<Rightarrow> ('a ktrap_scheme, unit) res" where
  "kerneltrap claim rd s =
     (let sepc = r_sepc s; sstatus = r_sstatus s; scause = r_scause s in
      if sstatus AND SSTATUS_SPP = 0 then Panic ''kerneltrap: not from supervisor mode''
      else if r_sstatus s AND SSTATUS_SIE \<noteq> 0 then Panic ''kerneltrap: interrupts enabled''
      else
        kbind (devintr claim rd s) (\<lambda>which_dev s.
        if which_dev = 0 then
          kbind (printf (''scause=0x%lx sepc=0x%lx stval=0x%lx'' @ [CHR 0x0A])
                   [Aint scause, Aint (r_sepc s), Aint (r_stval s)] s) (\<lambda>_ s. Panic ''kerneltrap'')
        else
          kbind (if which_dev = 2 \<and> curproc s \<noteq> None then yield s else Ok () s) (\<lambda>_ s.
          Ok () (s\<lparr>r_sepc := sepc, r_sstatus := sstatus\<rparr>))))"

text \<open>\<open>forkret\<close> ends with the jump to \<open>userret\<close>; its value is the argument of the jump.\<close>

definition forkret :: "'a ktrap_scheme \<Rightarrow> ('a ktrap_scheme, u64) res" where
  "forkret s =
     kbind (myproc s) (\<lambda>p s.
     kbind (release (L_proc p) s) (\<lambda>_ s.
     kbind
       (if first_fork s then
          kbind (fsinit ROOTDEV s) (\<lambda>_ s.
          let s = s\<lparr>first_fork := False\<rparr> in
          kbind (kexec (c_string ''/init'') 6 [map of_char ''/init''] s) (\<lambda>r s.
          let s = set_a0 p (word_of_int r) s in
          if ld64 (mem s) (p_trapframe (procs s p) + TF_a0) = -1 then Panic ''exec'' else Ok () s))
        else Ok () s) (\<lambda>_ s.
     kbind (prepare_return s) (\<lambda>_ s.
     Ok (MAKE_SATP (p_pagetable (procs s p))) s))))"

subsection \<open>Booting\<close>

text \<open>\<open>main\<close> on hart 0 up to the call of \<open>scheduler\<close>; initialising a lock does nothing here.\<close>

definition main0 :: "((nat \<times> u32) list \<Rightarrow> nat \<Rightarrow> u32) \<Rightarrow> 'a ktrap_scheme \<Rightarrow> ('a ktrap_scheme, unit) res" where
  "main0 rd s =
     (let s = consoleinit s in
      kbind (printf [CHR 0x0A] [] s) (\<lambda>_ s.
      kbind (printf (''xv6 kernel is booting'' @ [CHR 0x0A]) [] s) (\<lambda>_ s.
      kbind (printf [CHR 0x0A] [] s) (\<lambda>_ s.
      kbind (kinit s) (\<lambda>_ s.
      kbind (kvminit s) (\<lambda>_ s.
      let s = trapinithart (procinit (kvminithart s));
          s = plicinithart (plicinit s);
          s = iinit (binit s) in
      kbind (virtio_disk_init rd s) (\<lambda>_ s. userinit s)))))))"

text \<open>The machine-mode registers \<open>start\<close> sets up before it drops to supervisor mode.\<close>

record mregs =
  r_mstatus :: u64
  r_mepc :: u64
  r_msatp :: u64
  r_medeleg :: u64
  r_mideleg :: u64
  r_sie :: u64
  r_pmpaddr0 :: u64
  r_pmpcfg0 :: u64
  r_mie :: u64
  r_menvcfg :: u64
  r_mcounteren :: u64
  r_mstimecmp :: u64
  r_mtime :: u64
  r_mhartid :: u64
  r_mtp :: u64

definition timerinit :: "mregs \<Rightarrow> mregs" where
  "timerinit m =
     m\<lparr>r_mie := r_mie m OR 0x20, r_menvcfg := r_menvcfg m OR push_bit 63 1,
       r_mcounteren := r_mcounteren m OR 2, r_mstimecmp := r_mtime m + 1000000\<rparr>"

definition start :: "u64 \<Rightarrow> mregs \<Rightarrow> mregs" where
  "start main_addr m =
     (let m = m\<lparr>r_mstatus := (r_mstatus m AND NOT (push_bit 11 3)) OR push_bit 11 1\<rparr>;
          m = m\<lparr>r_mepc := main_addr\<rparr>;
          m = m\<lparr>r_msatp := 0\<rparr>;
          m = m\<lparr>r_medeleg := 0xffff, r_mideleg := 0xffff, r_sie := r_sie m OR 0x200 OR 0x20\<rparr>;
          m = m\<lparr>r_pmpaddr0 := 0x3fffffffffffff, r_pmpcfg0 := 0xf\<rparr>;
          m = timerinit m in
      m\<lparr>r_mtp := r_mhartid m\<rparr>)"

end
