(* ===== verification/Fsops.thy ===== *)
theory Fsops
  imports Fs
begin

text \<open>
  File-system operations inside a transaction, on the contents of the blocks. \<open>in_op s\<close>: an operation
  is under way, exactly the logged blocks are pinned, and every other reference to a buffer is by a
  lock. \<open>opstep W L C s t\<close>: from \<open>s\<close> to \<open>t\<close> the blocks \<open>W\<close> were logged, the locks became \<open>L\<close> and the contents
  of the blocks \<open>C\<close>; the disk and the state outside the cache and the log header are as before, and the
  process keeps the buffers it still holds.
\<close>

definition lockset :: "'a kbio_scheme \<Rightarrow> u32 set" where
  "lockset s = {m. lockedby s m \<noteq> None}"

definition in_op :: "'a klog_scheme \<Rightarrow> bool" where
  "in_op s \<longleftrightarrow> bcache_inv s \<and> ready s \<and> 1 \<le> lg_outstanding (lg s) \<and> 0 \<le> lgn s \<and> distinct (lblocks s) \<and>
     refs s = (\<lambda>m. (if m \<in> set (lblocks s) then 1 else 0) + (if m \<in> lockset s then 1 else 0))"

text \<open>There is room for \<open>k\<close> more blocks, in the log and in the cache.\<close>

definition space :: "'a klog_scheme \<Rightarrow> nat \<Rightarrow> bool" where
  "space s k \<longleftrightarrow> length (lblocks s) + card (lockset s) + k \<le> NBUF"

definition oframe :: "'a klog_scheme \<Rightarrow> 'a klog_scheme \<Rightarrow> bool" where
  "oframe s t \<longleftrightarrow> (\<exists>f. bframe (upd_lh f s) t)"

definition opstep ::
  "u32 set \<Rightarrow> (u32 \<Rightarrow> int option) \<Rightarrow> (u32 \<Rightarrow> block) \<Rightarrow> 'a klog_scheme \<Rightarrow> 'a klog_scheme \<Rightarrow> bool" where
  "opstep W L C s t \<longleftrightarrow> in_op t \<and> oframe s t \<and> disk t = disk s \<and> dhist t = dhist s \<and>
     set (lblocks t) = set (lblocks s) \<union> W \<and> lockedby t = L \<and> blk t = C \<and>
     (\<forall>k c. has_buf s k c \<longrightarrow> L k = Some (mypid s) \<longrightarrow> has_buf t k c)"

lemma upd_lh_id: "upd_lh (\<lambda>h. h) s = s"
  by (simp add: upd_lh_def upd_lg_def)

lemma oframe_bframe: "bframe s t \<Longrightarrow> oframe s t"
  unfolding oframe_def by (rule exI [of _ "\<lambda>h. h"]) (simp add: upd_lh_id)

lemma oframe_refl [simp]: "oframe s s"
  by (simp add: oframe_bframe)

lemma oframe_trans: "oframe s t \<Longrightarrow> oframe t u \<Longrightarrow> oframe s u"
proof -
  assume "oframe s t" "oframe t u"
  then obtain f g where fg: "bframe (upd_lh f s) t" "bframe (upd_lh g t) u" by (auto simp: oframe_def)
  have "bframe (upd_lh g (upd_lh f s)) (upd_lh g t)" by (rule bframe_upd_lh [OF fg(1)])
  then have "bframe (upd_lh (\<lambda>h. g (f h)) s) u" using bframe_trans [OF _ fg(2)] by (simp add: upd_lh_upd_lh)
  then show ?thesis by (auto simp: oframe_def)
qed

lemma oframe_more:
  assumes "oframe s t"
  shows "klog.more t = klog.more s" and "held t = held s" and "curproc t = curproc s" and "mypid t = mypid s"
    and "mem t = mem s" and "lg_outstanding (lg t) = lg_outstanding (lg s)" and "lg_start (lg t) = lg_start (lg s)"
proof -
  obtain f where f: "bframe (upd_lh f s) t" using assms by (auto simp: oframe_def)
  show "klog.more t = klog.more s" using bframe_lg(2) [OF f] by simp
  show "mypid t = mypid s" using bframe_ready(2) [OF f] by simp
  show "held t = held s" "curproc t = curproc s" "mem t = mem s" using f by (simp_all add: bframe_def)
  have "lg t = lg_lh_update f (lg s)" using bframe_lg(1) [OF f] by simp
  then show "lg_outstanding (lg t) = lg_outstanding (lg s)" "lg_start (lg t) = lg_start (lg s)" by simp_all
qed

lemma oframe_fs:
  fixes s t :: "'a kfs_scheme"
  assumes "oframe s t"
  shows "sb t = sb s" and "itable t = itable s"
  using oframe_more(1) [OF assms] by (cases s; cases t; simp)+

lemma opstepD:
  assumes "opstep W L C s t"
  shows "in_op t" and "oframe s t" and "disk t = disk s" and "lockedby t = L" and "blk t = C"
    and "set (lblocks t) = set (lblocks s) \<union> W" and "dhist t = dhist s"
  using assms unfolding opstep_def by blast+

lemma opstep_refl: "in_op s \<Longrightarrow> opstep {} (lockedby s) (blk s) s s"
  by (simp add: opstep_def)

lemma opstep_trans:
  assumes "opstep V L C s t" and "opstep W L' C' t u" 
    and "\<And>k. L' k = Some (mypid s) \<Longrightarrow> lockedby s k = Some (mypid s) \<Longrightarrow> L k = Some (mypid s)"
  shows "opstep (V \<union> W) L' C' s u"
proof -
  have m: "mypid t = mypid s" using assms(1) oframe_more(4) by (auto simp: opstep_def)
  have "oframe s u" using oframe_trans [of s t u] assms(1,2) by (simp add: opstep_def)
  moreover have "has_buf u k c" if "has_buf s k c" "L' k = Some (mypid s)" for k c
  proof -
    have "L k = Some (mypid s)" using assms(3) [OF that(2)] that(1) by (simp add: has_buf_def)
    then have "has_buf t k c" using assms(1) that(1) by (simp add: opstep_def)
    then show ?thesis using assms(2) that(2) m by (simp add: opstep_def)
  qed
  moreover have "set (lblocks u) = set (lblocks s) \<union> (V \<union> W)" and "disk u = disk s" and "dhist u = dhist s"
    using assms(1,2) by (auto simp: opstep_def)
  ultimately show ?thesis using assms(2) unfolding opstep_def by blast
qed

lemma in_op_used:
  assumes "in_op s"
  shows "used_blocks s = set (lblocks s) \<union> lockset s" and "finite (lockset s)" and "card (used_blocks s) \<le> length (lblocks s) + card (lockset s)"
proof -
  show u: "used_blocks s = set (lblocks s) \<union> lockset s" using assms by (auto simp: in_op_def used_blocks_def)
  then show "finite (lockset s)" using finite_used_blocks [of s] assms by (simp add: in_op_def)
  show "card (used_blocks s) \<le> length (lblocks s) + card (lockset s)"
    unfolding u using card_Un_le [of "set (lblocks s)" "lockset s"] card_length [of "lblocks s"] by linarith
qed

lemma length_lblocks: "0 \<le> lgn s \<Longrightarrow> int (length (lblocks s)) = lgn s"
  by (simp add: lblocks_def)

lemma space_opstep:
  assumes "opstep W L C s t" and "L = lockedby s" and "space s (k + card W)" and "finite W"
  shows "space t k"
proof -
  have "distinct (lblocks t)" using assms(1) by (simp add: opstep_def in_op_def)
  then have "length (lblocks t) = card (set (lblocks t))" by (rule distinct_card [symmetric])
  also have "\<dots> \<le> card (set (lblocks s)) + card W" using assms(1) by (simp add: opstep_def card_Un_le)
  also have "\<dots> \<le> length (lblocks s) + card W" by (simp add: card_length)
  finally show ?thesis using assms(1,2,3) by (simp add: space_def opstep_def lockset_def)
qed

lemma in_op_can_bread:
  assumes "in_op s" and "space s 1" and "n \<notin> lockset s"
  shows "can_bread s n"
  using assms in_op_used(3) [OF assms(1)] by (auto simp: can_bread_def in_op_def space_def lockset_def)

subsection \<open>Reading, changing and releasing a block\<close>

lemma opstep_bupd:
  assumes "bupd s t C R L (disk s) (dhist s)" and "in_op t" and "lblocks t = lblocks s"
  shows "opstep {} L C s t"
proof -
  have "set (lblocks t) = set (lblocks s) \<union> {}" using assms(3) by simp
  then show ?thesis using assms(1,2) oframe_bframe [of s t] unfolding opstep_def bupd_def by blast
qed

lemma bread_op:
  assumes "in_op s" and "space s 1" and "n \<notin> lockset s"
  obtains b t where "bread ROOTDEV n s = Ok b t" and "has_buf t n b"
    and "opstep {} ((lockedby s)(n := Some (mypid s))) (blk s) s t" and "lblocks t = lblocks s"
    and "n \<in> set (lblocks t) \<or> blk t n = disk t n"
proof -
  have i: "bcache_inv s" "ready s" using assms(1) by (simp_all add: in_op_def)
  obtain b t where t: "bread ROOTDEV n s = Ok b t" "has_buf t n b"
    "bupd s t (blk s) ((refs s)(n := refs s n + 1)) ((lockedby s)(n := Some (mypid s))) (disk s) (dhist s)"
    using bread_ok [OF i in_op_can_bread [OF assms]] .
  note u = bupdD [OF t(3)]
  have lg: "lg t = lg s" using bframe_lg(1) [OF u(2)] .
  then have lb: "lblocks t = lblocks s" by (simp add: lblocks_def)
  have ls: "lockset t = insert n (lockset s)" using u(5) by (auto simp: lockset_def)
  have "refs t = (\<lambda>m. (if m \<in> set (lblocks t) then 1 else 0) + (if m \<in> lockset t then 1 else 0))"
    unfolding u(4) ls lb using assms(1,3) by (auto simp: in_op_def)
  then have "in_op t" using assms(1) u(1,8) lg lb by (simp add: in_op_def)
  then have "opstep {} ((lockedby s)(n := Some (mypid s))) (blk s) s t"
    by (rule opstep_bupd [OF t(3)]) (fact lb)
  moreover have "n \<in> set (lblocks t) \<or> blk t n = disk t n"
  proof (cases "n \<in> set (lblocks s)")
    case False
    then have "refs s n = 0" using assms(1,3) by (simp add: in_op_def)
    then have "blk s n = disk s n" using blk_unreferenced i(1) by blast
    then show ?thesis using u(3,6) by metis
  qed (simp add: lb)
  ultimately show ?thesis using that t lb by blast
qed

lemma brelse_op:
  assumes "in_op s" and "has_buf s n b" and "n \<in> set (lblocks s) \<or> blk s n = disk s n"
  obtains t where "brelse b s = Ok () t" and "opstep {} ((lockedby s)(n := None)) (blk s) s t" and "lblocks t = lblocks s"
proof -
  have i: "bcache_inv s" "ready s" using assms(1) by (simp_all add: in_op_def)
  have n: "n \<in> lockset s" using assms(2) by (simp add: lockset_def has_buf_def)
  then have r: "blk s n = disk s n" if "refs s n = 1" using that assms(1,3) by (auto simp: in_op_def)
  obtain t where t: "brelse b s = Ok () t"
    "bupd s t (blk s) ((refs s)(n := refs s n - 1)) ((lockedby s)(n := None)) (disk s) (dhist s)"
    using brelse_ok [OF i assms(2) r] .
  note u = bupdD [OF t(2)]
  have lg: "lg t = lg s" using bframe_lg(1) [OF u(2)] .
  then have lb: "lblocks t = lblocks s" by (simp add: lblocks_def)
  have ls: "lockset t = lockset s - {n}" using u(5) by (auto simp: lockset_def)
  have "refs t = (\<lambda>m. (if m \<in> set (lblocks t) then 1 else 0) + (if m \<in> lockset t then 1 else 0))"
    unfolding u(4) ls lb using assms(1) n by (auto simp: in_op_def)
  then have "in_op t" using assms(1) u(1,8) lg lb by (simp add: in_op_def)
  then have "opstep {} ((lockedby s)(n := None)) (blk s) s t"
    by (rule opstep_bupd [OF t(2)]) (fact lb)
  then show ?thesis using that t lb by blast
qed

lemma log_write_op:
  assumes "in_op s" and "has_buf s n b" and "length (lblocks s) < LOGBLOCKS"
  obtains t where "log_write b (upd_buf b (b_data_update f) s) = Ok () t"
    and "opstep {n} (lockedby s) ((blk s)(n := f (blk s n))) s t" and "has_buf t n b"
proof -
  let ?s = "upd_buf b (b_data_update f) s"
  have i: "bcache_inv s" "ready s" using assms(1) by (simp_all add: in_op_def)
  note sd = set_data_ok [OF i(1) assms(2), of f]
  note d = bupdD [OF sd]
  have lg: "lg ?s = lg s" by simp
  have lb: "lblocks ?s = lblocks s" by (simp add: lblocks_def)
  have hb: "has_buf ?s n b" using bupd_has_buf [OF sd assms(2)] assms(2) by (simp add: has_buf_def)
  have h: "L_log \<notin> set (held ?s)" "L_bcache \<notin> set (held ?s)" using d(8) i(2) by (simp_all add: ready_def)
  have k: "0 \<le> lgn ?s" "lgn ?s < int LOGBLOCKS" "1 \<le> lg_outstanding (lg ?s)"
    using assms(1,3) length_lblocks [of s] by (auto simp: in_op_def)
  have r: "refs ?s n < 0xFFFFFFFF" using assms(1) d(4) by (simp add: in_op_def)
  obtain t g where t: "log_write b ?s = Ok () t"
    "bupd (upd_lh g ?s) t (blk ?s) (if n \<in> set (lblocks ?s) then refs ?s else (refs ?s)(n := refs ?s n + 1))
           (lockedby ?s) (disk ?s) (dhist ?s)"
    "lblocks t = (if n \<in> set (lblocks ?s) then lblocks ?s else lblocks ?s @ [n])"
    "lgn t = int (length (lblocks t))" "lg t = lg_lh_update g (lg ?s)"
    using log_write_spec [OF d(1) h hb k r] .
  note u = bupdD [OF t(2)]
  have ls: "lockset t = lockset s" using u(5) d(5) by (simp add: lockset_def)
  have lt: "set (lblocks t) = set (lblocks s) \<union> {n}" "distinct (lblocks t)"
    using t(3) assms(1) lb by (auto simp: in_op_def)
  have rf: "refs t = (\<lambda>m. (if m \<in> set (lblocks t) then 1 else 0) + (if m \<in> lockset t then 1 else 0))"
    unfolding u(4) ls lt(1) using assms(1) d(4) lb by (auto simp: in_op_def)
  have of: "oframe s t"
    using oframe_trans [OF oframe_bframe [OF d(2)], of t] u(2) by (auto simp: oframe_def)
  have "in_op t"
    using u(1) u(8) d(8) i(2) rf lt(2) t(4) oframe_more(6) [OF of] assms(1) by (simp add: in_op_def)
  moreover have hbs: "has_buf t k c" if "has_buf s k c" for k c
  proof -
    have l: "lockedby s k = Some (mypid s)" using that by (simp add: has_buf_def)
    have "has_buf (upd_lh g ?s) k c" using bupd_has_buf [OF sd that l] by simp
    then show ?thesis by (rule bupd_has_buf [OF t(2)]) (use l d(5,9) in simp)
  qed
  moreover have "disk t = disk s" "dhist t = dhist s" "lockedby t = lockedby s" using u(5-7) d(5-7) by simp_all
  moreover have "blk t = (blk s)(n := f (blk s n))" using u(3) d(3) by metis
  ultimately have "opstep {n} (lockedby s) ((blk s)(n := f (blk s n))) s t"
    using of lt(1) unfolding opstep_def by blast
  then show ?thesis using that t(1) hbs [OF assms(2)] by blast
qed

text \<open>The pattern of most operations: read a block, change it, log it and release it.\<close>

lemma write_block_op:
  assumes "in_op s" and "space s 1" and "n \<notin> lockset s"
  obtains b s1 s2 t where "bread ROOTDEV n s = Ok b s1" and "has_buf s1 n b" and "blk s1 = blk s"
    and "opstep {} ((lockedby s)(n := Some (mypid s))) (blk s) s s1"
    and "log_write b (upd_buf b (b_data_update f) s1) = Ok () s2" and "brelse b s2 = Ok () t"
    and "opstep {n} (lockedby s) ((blk s)(n := f (blk s n))) s t" and "oframe s s1" and "oframe s s2"
proof -
  obtain b s1 where r: "bread ROOTDEV n s = Ok b s1" "has_buf s1 n b"
    "opstep {} ((lockedby s)(n := Some (mypid s))) (blk s) s s1" "lblocks s1 = lblocks s"
    using bread_op [OF assms] by blast
  note s1 = opstepD(1,5,4,2) [OF r(3)]
  have sp: "length (lblocks s1) < LOGBLOCKS" using assms(2) r(4) by (simp add: space_def)
  obtain s2 where w: "log_write b (upd_buf b (b_data_update f) s1) = Ok () s2"
    "opstep {n} (lockedby s1) ((blk s1)(n := f (blk s1 n))) s1 s2" "has_buf s2 n b"
    using log_write_op [OF s1(1) r(2) sp] .
  have s2: "in_op s2" "n \<in> set (lblocks s2)" "lockedby s2 = (lockedby s)(n := Some (mypid s))"
    "blk s2 = (blk s)(n := f (blk s n))" "oframe s1 s2"
    using opstepD [OF w(2)] s1(2,3) by (simp, simp, metis, metis, blast)
  obtain t where t: "brelse b s2 = Ok () t" "opstep {} ((lockedby s2)(n := None)) (blk s2) s2 t"
    using brelse_op [OF s2(1) w(3)] s2(2) by blast
  have l: "(lockedby s2)(n := None) = lockedby s" using assms(3) s2(3) by (auto simp: lockset_def)
  have a: "opstep ({} \<union> {n}) (lockedby s1) ((blk s1)(n := f (blk s1 n))) s s2"
    by (rule opstep_trans [OF r(3) w(2)]) (use s1(3) in simp)
  have "opstep ({} \<union> {n} \<union> {}) (lockedby s) (blk s2) s t"
    by (rule opstep_trans [OF a t(2) [unfolded l]]) (use s1(3) in simp)
  then have "opstep {n} (lockedby s) ((blk s)(n := f (blk s n))) s t" unfolding s2(4) by simp
  moreover have "oframe s s2" using oframe_trans s1(4) s2(5) by blast
  ultimately show ?thesis using that r s1(2,4) w(1) t(1) by blast
qed

lemma read_block_op:
  assumes "in_op s" and "space s 1" and "n \<notin> lockset s"
  obtains b s1 t where "bread ROOTDEV n s = Ok b s1" and "has_buf s1 n b" and "blk s1 = blk s" and "oframe s s1"
    and "brelse b s1 = Ok () t" and "opstep {} (lockedby s) (blk s) s t"
proof -
  obtain b s1 where r: "bread ROOTDEV n s = Ok b s1" "has_buf s1 n b"
    "opstep {} ((lockedby s)(n := Some (mypid s))) (blk s) s s1" "lblocks s1 = lblocks s"
    "n \<in> set (lblocks s1) \<or> blk s1 n = disk s1 n"
    using bread_op [OF assms] .
  note s1 = opstepD(1,5,4,2) [OF r(3)]
  obtain t where t: "brelse b s1 = Ok () t" "opstep {} ((lockedby s1)(n := None)) (blk s1) s1 t"
    using brelse_op [OF s1(1) r(2,5)] by blast
  have l: "(lockedby s1)(n := None) = lockedby s" using assms(3) s1(3) by (auto simp: lockset_def)
  have "opstep ({} \<union> {}) (lockedby s) (blk s1) s t"
    by (rule opstep_trans [OF r(3) t(2) [unfolded l]]) simp
  then have "opstep {} (lockedby s) (blk s) s t" unfolding s1(2) by simp
  then show ?thesis using that r s1 t(1) by blast
qed

subsection \<open>Zeroing and freeing blocks\<close>

lemma bzero_op:
  assumes "in_op s" and "space s 1" and "n \<notin> lockset s"
  obtains t where "bzero ROOTDEV n s = Ok () t" and "opstep {n} (lockedby s) ((blk s)(n := replicate BSIZE 0)) s t"
proof -
  obtain b s1 s2 t where "bread ROOTDEV n s = Ok b s1" "log_write b (upd_buf b (b_data_update (\<lambda>_. replicate BSIZE 0)) s1) = Ok () s2"
    "brelse b s2 = Ok () t" "opstep {n} (lockedby s) ((blk s)(n := replicate BSIZE 0)) s t"
    by (rule write_block_op [OF assms, of "\<lambda>_. replicate BSIZE 0"]) blast
  then show ?thesis using that by (simp add: bzero_def)
qed

subsection \<open>A file system with an operation under way\<close>

text \<open>The disk of \<open>mkfs\<close>: the boot block, the super block, the log, the inodes and the bitmap, 47 blocks, are in use.\<close>

definition fs_bitmap :: block where
  "fs_bitmap = replicate 5 255 @ [127] @ replicate 1018 0"

definition fs_op :: kfs where
  "fs_op = fs_boot\<lparr>disk := (\<lambda>_. zero_block)(46 := fs_bitmap), lg := (lg fs_boot)\<lparr>lg_outstanding := 1\<rparr>\<rparr>"

lemma fs_op_views:
  "in_op fs_op" "space fs_op 5" "blk fs_op = (\<lambda>_. zero_block)(46 := fs_bitmap)" "lockset fs_op = {}" "sb fs_op = sb fs_boot"
proof -
  have b: "bufs fs_op = bufs bio_boot" "disk fs_op = (\<lambda>_. zero_block)(46 := fs_bitmap)" "held fs_op = held bio_boot" "curproc fs_op = curproc bio_boot"
    "lblocks fs_op = []" "lgn fs_op = 0" "lg_outstanding (lg fs_op) = 1"
    by (simp_all add: fs_op_def fs_boot_def klog.defs lblocks_def)
  let ?s = "kproc.extend (kproc_boot\<lparr>curproc := Some 0\<rparr>)
     \<lparr>bufs = (\<lambda>_. blank_buf), disk = (\<lambda>_. zero_block), dhist = []\<rparr> :: kbio"
  have z: "b_dev (bufs ?s i) = 0 \<and> b_refcnt (bufs ?s i) = 0" for i by (simp add: kproc.defs blank_buf_def)
  note c = binit_cache [of ?s, OF z, folded bio_boot_def]
  show l: "lockset fs_op = {}" by (simp add: lockset_def b c)
  show "in_op fs_op" using bio_boot_views(2) by (simp add: in_op_def b c l ready_def)
  show "space fs_op 5" by (simp add: space_def b l)
  show "blk fs_op = (\<lambda>_. zero_block)(46 := fs_bitmap)" unfolding b c ..
  show "sb fs_op = sb fs_boot" by (simp add: fs_op_def)
qed

end
