(* ===== verification/Balloc.thy ===== *)
theory Balloc
  imports Fsops
begin

text \<open>
  The block allocator of \<open>kernel/fs.c\<close> against the free map: \<open>used s b\<close> is the bit of block \<open>b\<close> in the
  bitmap, read through the buffer cache. \<open>balloc\<close> takes the lowest free block and zeroes it, \<open>bfree\<close>
  clears the bit, and no other bit or block changes.
\<close>

subsection \<open>Bits of a bitmap block\<close>

definition bit_at :: "block \<Rightarrow> nat \<Rightarrow> bool" where
  "bit_at d j \<longleftrightarrow> d ! (j div 8) AND bit_mask j \<noteq> 0"

lemma bit_bit_mask: "bit (bit_mask j) n \<longleftrightarrow> n = j mod 8"
  by (auto simp: bit_mask_def bit_exp_iff possible_bit_word)

lemma and_bit_mask: "w AND bit_mask j \<noteq> 0 \<longleftrightarrow> bit w (j mod 8)"
  by (auto simp: bit_eq_iff [of "w AND bit_mask j" 0] bit_and_iff bit_bit_mask)

lemma bit_at_iff: "bit_at d j \<longleftrightarrow> bit (d ! (j div 8)) (j mod 8)"
  by (simp add: bit_at_def and_bit_mask)

lemma div_mod_8: "i div 8 = j div 8 \<Longrightarrow> i mod 8 = j mod 8 \<Longrightarrow> i = (j :: nat)"
  by (metis div_mult_mod_eq)

lemma bit_at_set:
  assumes "i div 8 < length d"
  shows "bit_at (d[i div 8 := d ! (i div 8) OR bit_mask i]) j \<longleftrightarrow> j = i \<or> bit_at d j"
  using assms div_mod_8 [of j i] by (cases "j div 8 = i div 8") (auto simp: bit_at_iff bit_or_iff bit_bit_mask)

lemma bit_at_clear:
  assumes "i div 8 < length d"
  shows "bit_at (d[i div 8 := d ! (i div 8) AND NOT (bit_mask i)]) j \<longleftrightarrow> j \<noteq> i \<and> bit_at d j"
  using assms div_mod_8 [of j i] by (cases "j div 8 = i div 8") (auto simp: bit_at_iff bit_and_iff bit_not_iff bit_bit_mask)

text \<open>What the scan of \<open>balloc\<close> finds in the bytes of a bitmap block.\<close>

primrec first_clear :: "block \<Rightarrow> nat \<Rightarrow> nat \<Rightarrow> nat list \<Rightarrow> nat option" where
  "first_clear d b fsz [] = None"
| "first_clear d b fsz (bi # bis) =
     (if b + bi < fsz then if bit_at d bi then first_clear d b fsz bis else Some bi else None)"

lemma balloc_scan_eq:
  "\<forall>bi\<in>set bis. bi < BPB \<Longrightarrow> balloc_scan bp b fsz bis s = Ok (first_clear (b_data (bufs s bp)) b fsz bis) s"
  by (induction bis) (auto simp: bit_at_def Suc_le_eq less_mult_imp_div_less)

lemma first_clear_Some:
  "first_clear d b fsz is = Some i \<Longrightarrow>
   i \<in> set is \<and> b + i < fsz \<and> \<not> bit_at d i \<and> (\<forall>j\<in>set (takeWhile (\<lambda>x. x \<noteq> i) is). bit_at d j)"
  by (induction "is") (auto split: if_splits)

lemma first_clear_None:
  "first_clear d b fsz is = None \<Longrightarrow> sorted is \<Longrightarrow> j \<in> set is \<Longrightarrow> b + j < fsz \<Longrightarrow> bit_at d j"
  by (induction "is") (auto split: if_splits)

lemma takeWhile_upt: "i < n \<Longrightarrow> set (takeWhile (\<lambda>x. x \<noteq> i) [0..<n]) = {..<i}"
proof -
  assume "i < n"
  then have "[0..<n] = [0..<i] @ i # [Suc i..<n]"
    by (metis add_0 le_add1 less_imp_le upt_conv_Cons upt_add_eq_append le_add_diff_inverse zero_le)
  moreover have "takeWhile (\<lambda>x. x \<noteq> i) ([0..<i] @ i # [Suc i..<n]) = [0..<i]" by (subst takeWhile_append2) auto
  ultimately show ?thesis by (simp add: atLeast0LessThan)
qed

lemma first_clear_upt:
  shows "first_clear d b fsz [0..<n] = Some i \<Longrightarrow> i < n \<and> b + i < fsz \<and> \<not> bit_at d i \<and> (\<forall>j<i. bit_at d j)"
    and "first_clear d b fsz [0..<n] = None \<Longrightarrow> j < n \<Longrightarrow> b + j < fsz \<Longrightarrow> bit_at d j"
proof -
  assume "first_clear d b fsz [0..<n] = Some i"
  from first_clear_Some [OF this] show "i < n \<and> b + i < fsz \<and> \<not> bit_at d i \<and> (\<forall>j<i. bit_at d j)"
    using takeWhile_upt [of i n] by auto
next
  assume "first_clear d b fsz [0..<n] = None" "j < n" "b + j < fsz"
  then show "bit_at d j" using first_clear_None [of d b fsz "[0..<n]" j] by simp
qed

lemma bit_byte_inside: "n mod BPB div 8 + 1 \<le> BSIZE"
proof -
  have "n mod BPB < BPB" by simp
  then show ?thesis by simp
qed

subsection \<open>The free map\<close>

definition fsize :: "'a kfs_scheme \<Rightarrow> nat" where
  "fsize s = unat (sb_size (sb s))"

definition bmblock :: "'a kfs_scheme \<Rightarrow> nat \<Rightarrow> u32" where
  "bmblock s k = of_nat k + sb_bmapstart (sb s)"

definition used :: "'a kfs_scheme \<Rightarrow> nat \<Rightarrow> bool" where
  "used s b \<longleftrightarrow> bit_at (blk s (bmblock s (b div BPB))) (b mod BPB)"

definition bmblocks :: "'a kfs_scheme \<Rightarrow> u32 set" where
  "bmblocks s = {bmblock s k |k. k * BPB < fsize s}"

text \<open>The bitmap blocks are whole blocks that nobody has locked, and they and the locked blocks are in use.\<close>

definition map_ok :: "'a kfs_scheme \<Rightarrow> bool" where
  "map_ok s \<longleftrightarrow> (\<forall>m\<in>bmblocks s. length (blk s m) = BSIZE \<and> m \<notin> lockset s) \<and>
     (\<forall>m\<in>bmblocks s \<union> lockset s. unat m < fsize s \<longrightarrow> used s (unat m))"

lemma bmblock_inj: "j * BPB < fsize s \<Longrightarrow> k * BPB < fsize s \<Longrightarrow> bmblock s j = bmblock s k \<longleftrightarrow> j = k"
proof -
  assume "j * BPB < fsize s" "k * BPB < fsize s"
  moreover have "fsize s < 2 ^ 32" using unat_u32_lt [of "sb_size (sb s)"] by (simp add: fsize_def)
  ultimately have "j < 2 ^ 32" "k < 2 ^ 32" by linarith+
  then show ?thesis by (simp add: bmblock_def of_nat_u32_eq)
qed

lemma BBLOCK_bmblock: "b < 2 ^ 32 \<Longrightarrow> BBLOCK (of_nat b) (sb s) = bmblock s (b div BPB)"
proof -
  assume "b < 2 ^ 32"
  then have "(of_nat b :: u32) div of_nat BPB = of_nat (b div BPB)" by (simp add: word_unat_eq_iff unat_div unat_of_nat)
  then show ?thesis by (simp add: BBLOCK_def bmblock_def)
qed

lemma view_cong:
  assumes "blk t = blk s" and "lockedby t = lockedby s" and "sb t = sb s"
  shows "used t = used s" and "map_ok t = map_ok s" and "bmblocks t = bmblocks s" and "fsize t = fsize s" and "bmblock t = bmblock s"
proof -
  show f: "fsize t = fsize s" and b: "bmblock t = bmblock s" using assms(3) by (simp_all add: fsize_def bmblock_def fun_eq_iff)
  then show bs: "bmblocks t = bmblocks s" by (simp add: bmblocks_def)
  show u: "used t = used s" by (simp add: used_def fun_eq_iff assms(1) b)
  have "lockset t = lockset s" using assms(2) by (simp add: lockset_def)
  then show "map_ok t = map_ok s" unfolding map_ok_def bs u f assms(1) by simp
qed

lemma fsize_lt: "fsize s < 2 ^ 32"
  using unat_u32_lt [of "sb_size (sb s)"] by (simp add: fsize_def)

lemma bmblock_in: "x < fsize s \<Longrightarrow> bmblock s (x div BPB) \<in> bmblocks s"
  unfolding bmblocks_def using div_mult_mod_eq [of x BPB] by (intro CollectI exI [of _ "x div BPB"] conjI refl) linarith

lemma map_okD:
  assumes "map_ok s" and "x < fsize s"
  shows "length (blk s (bmblock s (x div BPB))) = BSIZE" and "bmblock s (x div BPB) \<notin> lockset s"
    and "\<not> used s x \<Longrightarrow> of_nat x \<notin> bmblocks s" and "\<not> used s x \<Longrightarrow> of_nat x \<notin> lockset s"
proof -
  show "length (blk s (bmblock s (x div BPB))) = BSIZE" and "bmblock s (x div BPB) \<notin> lockset s"
    using assms(1) bmblock_in [OF assms(2)] by (auto simp: map_ok_def)
  have "unat (of_nat x :: u32) = x" using assms(2) fsize_lt [of s] by (simp add: unat_of_nat)
  then show "\<not> used s x \<Longrightarrow> of_nat x \<notin> bmblocks s" "\<not> used s x \<Longrightarrow> of_nat x \<notin> lockset s"
    using assms unfolding map_ok_def by (metis UnCI)+
qed

text \<open>Changing one bitmap block, and blocks outside the bitmap.\<close>

lemma used_change:
  assumes "sb t = sb s" and "x < fsize s" and "k * BPB < fsize s"
    and "\<And>m. m \<in> bmblocks s \<Longrightarrow> m \<noteq> bmblock s k \<Longrightarrow> blk t m = blk s m"
  shows "used t x \<longleftrightarrow> (if x div BPB = k then bit_at (blk t (bmblock s k)) (x mod BPB) else used s x)"
proof -
  have b: "bmblock t = bmblock s" using assms(1) by (simp add: bmblock_def fun_eq_iff)
  have "x div BPB * BPB < fsize s" using assms(2) div_mult_mod_eq [of x BPB] by linarith
  then have "bmblock s (x div BPB) = bmblock s k \<longleftrightarrow> x div BPB = k" by (rule bmblock_inj [OF _ assms(3)])
  then show ?thesis using assms(4) [OF bmblock_in [OF assms(2)]] by (auto simp: used_def b)
qed

subsection \<open>Freeing a block\<close>

lemma bfree_op:
  assumes "in_op s" and "space s 1" and "map_ok s" and "unat b < fsize s" and "used s (unat b)"
  obtains t C where "bfree ROOTDEV b s = Ok () t" and "opstep {bmblock s (unat b div BPB)} (lockedby s) C s t"
    and "\<forall>x<fsize s. used t x \<longleftrightarrow> x \<noteq> unat b \<and> used s x" and "\<forall>m. m \<notin> bmblocks s \<longrightarrow> blk t m = blk s m"
proof -
  let ?k = "unat b div BPB"
  let ?n = "bmblock s ?k"
  let ?i = "unat b mod BPB"
  let ?f = "\<lambda>d :: block. d[?i div 8 := d ! (?i div 8) AND NOT (bit_mask ?i)]"
  note m = map_okD(1,2) [OF assms(3,4)]
  have bb: "BBLOCK b (sb s) = ?n" using BBLOCK_bmblock [of "unat b" s] unat_u32_lt [of b] by simp
  obtain bp s1 s2 t where r: "bread ROOTDEV ?n s = Ok bp s1" "has_buf s1 ?n bp" "blk s1 = blk s"
    "log_write bp (upd_buf bp (b_data_update ?f) s1) = Ok () s2" "brelse bp s2 = Ok () t"
    "opstep {?n} (lockedby s) ((blk s)(?n := ?f (blk s ?n))) s t"
    by (rule write_block_op [OF assms(1,2) m(2), of ?f]) blast
  have d: "b_data (bufs s1 bp) = blk s ?n" using has_bufD(4) [OF r(2)] r(3) by metis
  have set: "b_data (bufs s1 bp) ! (?i div 8) AND bit_mask ?i \<noteq> 0"
    using assms(5) unfolding d used_def bit_at_def .
  have run: "bfree ROOTDEV b s = Ok () t" using r(1,4,5) set unfolding bfree_def bb by (simp add: bit_byte_inside)
  note C = opstepD(5) [OF r(6)]
  have sb: "sb t = sb s" using oframe_fs(1) opstepD(2) [OF r(6)] by blast
  have kb: "?k * BPB < fsize s" using assms(4) div_mult_mod_eq [of "unat b" BPB] by linarith
  have i8: "?i div 8 < length (blk s ?n)" using m(1) by (simp add: less_mult_imp_div_less)
  have u: "used t x \<longleftrightarrow> x \<noteq> unat b \<and> used s x" if "x < fsize s" for x
  proof -
    have "used t x \<longleftrightarrow> (if x div BPB = ?k then bit_at (?f (blk s ?n)) (x mod BPB) else used s x)"
      using used_change [OF sb that kb] unfolding C by simp
    then show ?thesis using bit_at_clear [OF i8, of "x mod BPB"] by (auto simp: used_def) (metis div_mult_mod_eq)
  qed
  have "blk t m = blk s m" if "m \<notin> bmblocks s" for m
    unfolding C using that bmblock_in [OF assms(4)] by auto
  then show ?thesis using that run r(6) u by blast
qed

lemma bfree_free:
  assumes "in_op s" and "space s 1" and "bmblock s (unat b div BPB) \<notin> lockset s" and "\<not> used s (unat b)"
  shows "bfree ROOTDEV b s = Panic ''freeing free block''"
proof -
  let ?n = "bmblock s (unat b div BPB)"
  have bb: "BBLOCK b (sb s) = ?n" using BBLOCK_bmblock [of "unat b" s] unat_u32_lt [of b] by simp
  obtain bp t where r: "bread ROOTDEV ?n s = Ok bp t" "has_buf t ?n bp" "opstep {} ((lockedby s)(?n := Some (mypid s))) (blk s) s t"
    using bread_op [OF assms(1-3)] by blast
  have "b_data (bufs t bp) = blk s ?n" using has_bufD(4) [OF r(2)] opstepD(5) [OF r(3)] by metis
  then show ?thesis using r(1) assms(4) unfolding bfree_def bb
    by (simp add: used_def bit_at_def bit_byte_inside)
qed

subsection \<open>Allocating a block\<close>

text \<open>\<open>taken b s t\<close>: block \<open>b\<close> was free in \<open>s\<close>, and in \<open>t\<close> it is in use and zero and nothing else has changed.\<close>

definition taken :: "nat \<Rightarrow> 'a kfs_scheme \<Rightarrow> 'a kfs_scheme \<Rightarrow> bool" where
  "taken b s t \<longleftrightarrow> b < fsize s \<and> \<not> used s b \<and>
     (\<exists>C. opstep {bmblock s (b div BPB), of_nat b} (lockedby s) C s t) \<and>
     (\<forall>x<fsize s. used t x \<longleftrightarrow> x = b \<or> used s x) \<and> blk t (of_nat b) = replicate BSIZE 0 \<and>
     (\<forall>m\<in>bmblocks s. length (blk t m) = length (blk s m)) \<and> (\<forall>m. m \<notin> bmblocks s \<longrightarrow> m \<noteq> of_nat b \<longrightarrow> blk t m = blk s m)"

lemma balloc_take:
  assumes "in_op s" and "space s 2" and "map_ok s" and "b < fsize s" and "\<not> used s b"
  defines "k \<equiv> b div BPB" and "i \<equiv> b mod BPB"
  obtains bp s1 s2 s3 t where "bread ROOTDEV (bmblock s k) s = Ok bp s1" and "b_data (bufs s1 bp) = blk s (bmblock s k)" and "sb s1 = sb s"
    and "log_write bp (upd_buf bp (b_data_update (\<lambda>d. d[i div 8 := d ! (i div 8) OR bit_mask i])) s1) = Ok () s2"
    and "brelse bp s2 = Ok () s3" and "bzero ROOTDEV (of_nat b) s3 = Ok () t" and "taken b s t"
proof -
  let ?n = "bmblock s k"
  let ?f = "\<lambda>d :: block. d[i div 8 := d ! (i div 8) OR bit_mask i]"
  note m = map_okD [OF assms(3,4)]
  have sp: "space s 1" using assms(2) by (simp add: space_def)
  have nl: "?n \<notin> lockset s" using m(2) by (simp add: k_def)
  obtain bp s1 s2 s3 where r: "bread ROOTDEV ?n s = Ok bp s1" "has_buf s1 ?n bp" "blk s1 = blk s" "oframe s s1"
    "log_write bp (upd_buf bp (b_data_update ?f) s1) = Ok () s2" "brelse bp s2 = Ok () s3"
    "opstep {?n} (lockedby s) ((blk s)(?n := ?f (blk s ?n))) s s3"
    by (rule write_block_op [OF assms(1) sp nl, of ?f]) blast
  have d: "b_data (bufs s1 bp) = blk s ?n" using has_bufD(4) [OF r(2)] r(3) by metis
  note s3 = opstepD [OF r(7)]
  have sp3: "space s3 1" by (rule space_opstep [OF r(7)]) (use assms(2) in \<open>simp_all add: numeral_2_eq_2\<close>)
  have l3: "of_nat b \<notin> lockset s3" using m(4) [OF assms(5)] s3(4) by (simp add: lockset_def)
  obtain t where z: "bzero ROOTDEV (of_nat b) s3 = Ok () t" "opstep {of_nat b} (lockedby s3) ((blk s3)(of_nat b := replicate BSIZE 0)) s3 t"
    using bzero_op [OF s3(1) sp3 l3] .
  note t = opstepD [OF z(2)]
  have st: "opstep ({?n} \<union> {of_nat b}) (lockedby s) (blk t) s t"
    unfolding t(5) by (rule opstep_trans [OF r(7) z(2) [unfolded s3(4)]]) simp
  have C: "blk t = ((blk s)(?n := ?f (blk s ?n)))(of_nat b := replicate BSIZE 0)" unfolding t(5) s3(5) ..
  have sb: "sb t = sb s" using oframe_fs(1) opstepD(2) [OF st] by blast
  have nb: "of_nat b \<notin> bmblocks s" using m(3) [OF assms(5)] .
  have kb: "k * BPB < fsize s" using assms(4) div_mult_mod_eq [of b BPB] unfolding k_def by linarith
  have nn: "?n \<noteq> of_nat b" using nb bmblock_in [OF assms(4)] by (auto simp: k_def)
  have i8: "i div 8 < length (blk s ?n)" using m(1) by (simp add: k_def i_def less_mult_imp_div_less)
  have u: "used t x \<longleftrightarrow> x = b \<or> used s x" if "x < fsize s" for x
  proof -
    have "used t x \<longleftrightarrow> (if x div BPB = k then bit_at (?f (blk s ?n)) (x mod BPB) else used s x)"
      using used_change [OF sb that kb] nb nn unfolding C by (metis fun_upd_apply)
    then show ?thesis using bit_at_set [OF i8, of "x mod BPB"] by (auto simp: used_def k_def i_def) (metis div_mult_mod_eq)
  qed
  have "taken b s t"
    unfolding taken_def
  proof (intro conjI)
    show "\<exists>C. opstep {bmblock s (b div BPB), of_nat b} (lockedby s) C s t" using st by (auto simp: k_def insert_commute)
    show "blk t (of_nat b) = replicate BSIZE 0" unfolding C by simp
    show "\<forall>m\<in>bmblocks s. length (blk t m) = length (blk s m)" unfolding C using nb by auto
    show "\<forall>m. m \<notin> bmblocks s \<longrightarrow> m \<noteq> of_nat b \<longrightarrow> blk t m = blk s m"
      unfolding C using bmblock_in [OF assms(4)] by (auto simp: k_def)
  qed (use assms u in auto)
  then show ?thesis using that r(1,5,6) d oframe_fs(1) [OF r(4)] z(1) by blast
qed

lemma taken_after:
  assumes "opstep {} (lockedby s) (blk s) s t" and "taken b t u"
  shows "taken b s u"
proof -
  note o = opstepD [OF assms(1)]
  note v = view_cong [OF o(5,4) oframe_fs(1) [OF o(2)]]
  obtain C where "opstep {bmblock t (b div BPB), of_nat b} (lockedby t) C t u" using assms(2) by (auto simp: taken_def)
  then have "opstep ({} \<union> {bmblock s (b div BPB), of_nat b}) (lockedby s) C s u"
    unfolding v(5) o(4) by (rule opstep_trans [OF assms(1)]) simp
  then show ?thesis using assms(2) unfolding taken_def v o(5) by auto
qed

lemma opstep_printed:
  assumes "opstep W L C s t" and "printed t u"
  shows "opstep W L C s u"
proof -
  obtain bs where u: "u = t\<lparr>uart_out := bs\<rparr>" using assms(2) by (auto simp: printed_def)
  have e: "in_op u = in_op t" "oframe s u = oframe s t" "has_buf u = has_buf t" "lblocks u = lblocks t"
    "bufs u = bufs t" "disk u = disk t" "dhist u = dhist t"
    by (simp_all add: u in_op_def ready_def lblocks_def lockset_def oframe_def bframe_def has_buf_def mypid_def fun_eq_iff)
  show ?thesis using assms(1) unfolding opstep_def e .
qed

lemma nb_le: "(x + BPB - 1) div BPB \<le> k \<longleftrightarrow> x \<le> k * BPB"
  using div_less_iff_less_mult [of BPB "x + BPB - 1" "Suc k"] by auto

lemma balloc_loop_op:
  fixes s :: "'a kfs_scheme"
  assumes "in_op s" and "space s 2" and "map_ok s" and "\<And>x. x < k * BPB \<Longrightarrow> x < fsize s \<Longrightarrow> used s x"
    and "nb = (fsize s + BPB - 1) div BPB"
  shows "(\<exists>b t. balloc_loop ROOTDEV (map (\<lambda>k. k * BPB) [k..<nb]) s = Ok (of_nat b) t \<and> taken b s t \<and> (\<forall>x<b. used s x)) \<or>
    ((\<forall>x<fsize s. used s x) \<and> (\<exists>t. balloc_loop ROOTDEV (map (\<lambda>k. k * BPB) [k..<nb]) s = Ok 0 t \<and> opstep {} (lockedby s) (blk s) s t))"
  using assms
proof (induction "nb - k" arbitrary: k s)
  case 0
  have "fsize s \<le> k * BPB" using 0(1) nb_le [of "fsize s" k] unfolding 0(6) by simp
  then have u: "\<forall>x<fsize s. used s x" using 0 by (meson less_le_trans)
  have "held s = []" using 0(2) by (simp add: in_op_def ready_def)
  then obtain t where "printf (''balloc: out of blocks'' @ [CHR 0x0A]) [] s = Ok 0 t" "printed s t"
    using printf_ok [of "''balloc: out of blocks'' @ [CHR 0x0A]" "[]" s] by (auto simp: args_ok.simps)
  then show ?case using u 0 opstep_printed [OF opstep_refl [OF 0(2)]] by auto
next
  case (Suc n)
  have k: "k < nb" and n: "n = nb - Suc k" using Suc.hyps(2) by simp_all
  have kb: "k * BPB < fsize s" using k nb_le [of "fsize s" k] unfolding Suc.prems(5) by simp
  let ?n = "bmblock s k"
  let ?d = "blk s ?n"
  have bb: "BBLOCK (of_nat (k * BPB)) (sb s) = ?n" using BBLOCK_bmblock [of "k * BPB" s] kb fsize_lt [of s] by simp
  have us: "used s (k * BPB + j) \<longleftrightarrow> bit_at ?d j" if "j < BPB" for j using that by (simp add: used_def)
  have l: "[k..<nb] = k # [Suc k..<nb]" using k by (simp add: upt_conv_Cons)
  show ?case
  proof (cases "first_clear ?d (k * BPB) (fsize s) [0..<BPB]")
    case (Some i)
    note c = first_clear_upt(1) [OF Some]
    let ?b = "k * BPB + i"
    have b: "?b div BPB = k" "?b mod BPB = i" "?b < fsize s" "\<not> used s ?b" using c us by auto
    obtain bp s1 s2 s3 t where t: "bread ROOTDEV ?n s = Ok bp s1" "b_data (bufs s1 bp) = ?d" "sb s1 = sb s"
      "log_write bp (upd_buf bp (b_data_update (\<lambda>d. d[i div 8 := d ! (i div 8) OR bit_mask i])) s1) = Ok () s2"
      "brelse bp s2 = Ok () s3" "bzero ROOTDEV (of_nat ?b) s3 = Ok () t" "taken ?b s t"
      by (rule balloc_take [OF Suc.prems(1,2,3) b(3,4), unfolded b(1,2)]) blast
    have "balloc_loop ROOTDEV (map (\<lambda>k. k * BPB) [k..<nb]) s = Ok (of_nat ?b) t"
      unfolding l list.map balloc_loop.simps bb using t(1-6) Some c by (simp add: fsize_def balloc_scan_eq Suc_le_eq less_mult_imp_div_less)
    moreover have "used s x" if "x < ?b" for x
    proof (cases "x < k * BPB")
      case True
      then show ?thesis using Suc.prems(4) kb by simp
    next
      case False
      then have "x = k * BPB + (x - k * BPB)" "x - k * BPB < i" using that by auto
      then show ?thesis using us [of "x - k * BPB"] c by simp
    qed
    ultimately show ?thesis using t(7) by blast
  next
    case None
    have lk: "?n \<notin> lockset s" using map_okD(2) [OF Suc.prems(3) kb] by simp
    have sp: "space s 1" using Suc.prems(2) by (simp add: space_def)
    obtain bp s1 t where r: "bread ROOTDEV ?n s = Ok bp s1" "has_buf s1 ?n bp" "blk s1 = blk s" "oframe s s1"
      "brelse bp s1 = Ok () t" "opstep {} (lockedby s) (blk s) s t"
      using read_block_op [OF Suc.prems(1) sp lk] .
    have d: "b_data (bufs s1 bp) = ?d" using has_bufD(4) [OF r(2)] r(3) by metis
    have run: "balloc_loop ROOTDEV (map (\<lambda>k. k * BPB) [k..<nb]) s = balloc_loop ROOTDEV (map (\<lambda>k. k * BPB) [Suc k..<nb]) t"
      unfolding l list.map balloc_loop.simps bb using r(1,5) d None oframe_fs(1) [OF r(4)]
      by (simp add: fsize_def balloc_scan_eq)
    note v = view_cong [OF opstepD(5,4) [OF r(6)] oframe_fs(1) [OF opstepD(2) [OF r(6)]]]
    have sp2: "space t 2" by (rule space_opstep [OF r(6)]) (use Suc.prems(2) in simp_all)
    have "used s x" if "x < Suc k * BPB" "x < fsize s" for x
    proof (cases "x < k * BPB")
      case False
      then have "x = k * BPB + (x - k * BPB)" "x - k * BPB < BPB" using that by auto
      then show ?thesis using us [of "x - k * BPB"] first_clear_upt(2) [OF None, of "x - k * BPB"] that(2) by simp
    qed (use Suc.prems(4) that in simp)
    then have "(\<exists>b u. balloc_loop ROOTDEV (map (\<lambda>k. k * BPB) [Suc k..<nb]) t = Ok (of_nat b) u \<and> taken b t u \<and> (\<forall>x<b. used t x)) \<or>
      ((\<forall>x<fsize t. used t x) \<and> (\<exists>u. balloc_loop ROOTDEV (map (\<lambda>k. k * BPB) [Suc k..<nb]) t = Ok 0 u \<and> opstep {} (lockedby t) (blk t) t u))"
      by (intro Suc.hyps(1) [OF n opstepD(1) [OF r(6)] sp2]) (use v Suc.prems(3,5) in simp_all)
    then show ?thesis
    proof (elim disjE exE conjE)
      fix b u
      assume u: "balloc_loop ROOTDEV (map (\<lambda>k. k * BPB) [Suc k..<nb]) t = Ok (of_nat b) u" "taken b t u" "\<forall>x<b. used t x"
      have "taken b s u" by (rule taken_after [OF r(6) u(2)])
      then show ?thesis using run u v(1) by metis
    next
      fix u
      assume u: "\<forall>x<fsize t. used t x" "balloc_loop ROOTDEV (map (\<lambda>k. k * BPB) [Suc k..<nb]) t = Ok 0 u"
        "opstep {} (lockedby t) (blk t) t u"
      have "opstep ({} \<union> {}) (lockedby s) (blk s) s u"
        by (rule opstep_trans [OF r(6) u(3) [unfolded opstepD(4,5) [OF r(6)]]]) simp
      then show ?thesis using run u(1,2) v(1,4) by simp
    qed
  qed
qed

lemma balloc_op:
  assumes "in_op s" and "space s 2" and "map_ok s"
  shows "(\<exists>b t. balloc ROOTDEV s = Ok (of_nat b) t \<and> taken b s t \<and> (\<forall>x<b. used s x)) \<or>
    ((\<forall>x<fsize s. used s x) \<and> (\<exists>t. balloc ROOTDEV s = Ok 0 t \<and> opstep {} (lockedby s) (blk s) s t))"
  unfolding balloc_def by (rule balloc_loop_op [OF assms]) (simp_all add: fsize_def)

lemma map_ok_taken:
  assumes "map_ok s" and "taken b s t"
  shows "map_ok t" and "fsize t = fsize s" and "bmblocks t = bmblocks s"
proof -
  obtain C where o: "opstep {bmblock s (b div BPB), of_nat b} (lockedby s) C s t" using assms(2) by (auto simp: taken_def)
  have sb: "sb t = sb s" using oframe_fs(1) [OF opstepD(2) [OF o]] .
  show f: "fsize t = fsize s" using sb by (simp add: fsize_def)
  show m: "bmblocks t = bmblocks s" by (simp add: bmblocks_def bmblock_def f sb)
  have l: "lockset t = lockset s" using opstepD(4) [OF o] by (simp add: lockset_def)
  show "map_ok t" using assms unfolding map_ok_def f m l taken_def by auto
qed

subsection \<open>A file system with a free map\<close>

lemma fs_op_fsize: "fsize fs_op = 2000"
  by (simp add: fsize_def fs_op_views(5) fs_boot_def klog.defs)

lemma fs_op_bmapstart: "sb_bmapstart (sb fs_op) = 46"
  by (simp add: fs_op_views(5) fs_boot_def klog.defs)

lemma fs_bitmap_bits: "bit_at fs_bitmap b \<longleftrightarrow> b < 47" if "b < 8192"
proof -
  have lo: "\<forall>b\<in>set [0..<48]. bit_at fs_bitmap b \<longleftrightarrow> b < 47" by code_simp
  have hi: "\<not> bit_at fs_bitmap b" if "48 \<le> b" "b < 8192" for b
  proof -
    have "6 \<le> b div 8" "b div 8 < 1024" using that by auto
    then have "fs_bitmap ! (b div 8) = 0" by (simp add: fs_bitmap_def nth_append)
    then show ?thesis by (simp add: bit_at_iff)
  qed
  show ?thesis using lo hi [of b] that by (cases "b < 48") auto
qed

lemma fs_op_used: "b < 2000 \<Longrightarrow> used fs_op b \<longleftrightarrow> b < 47"
  using fs_bitmap_bits [of b] by (simp add: used_def bmblock_def fs_op_views(3) fs_op_bmapstart)

lemma fs_op_map: "map_ok fs_op"
proof -
  have "k * BPB < 2000 \<longleftrightarrow> k = 0" for k by auto
  then have "bmblocks fs_op = {46}" unfolding bmblocks_def bmblock_def fs_op_fsize fs_op_bmapstart by simp
  then show ?thesis using fs_op_used [of 46] by (simp add: map_ok_def fs_op_views(3,4) fs_op_fsize) (simp add: fs_bitmap_def)
qed

subsection \<open>Properties\<close>

text \<open>C9: Inside a transaction \<open>balloc\<close> returns the lowest block that is free in the bitmap, marks it in
  use and zeroes it, and changes no other bit and no other block; when no block is free it returns
  0 and changes nothing.\<close>

theorem balloc_correct:
  assumes "in_op s" and "space s 2" and "map_ok s"
  shows "if \<forall>x<fsize s. used s x
     then \<exists>t. balloc ROOTDEV s = Ok 0 t \<and> opstep {} (lockedby s) (blk s) s t
     else \<exists>t. balloc ROOTDEV s = Ok (of_nat (LEAST b. \<not> used s b)) t \<and> taken (LEAST b. \<not> used s b) s t \<and> map_ok t"
proof (cases "\<forall>x<fsize s. used s x")
  case True
  then show ?thesis using balloc_op [OF assms] by (auto simp: taken_def)
next
  case False
  then obtain b t where t: "balloc ROOTDEV s = Ok (of_nat b) t" "taken b s t" "\<forall>x<b. used s x"
    using balloc_op [OF assms] by blast
  moreover have "(LEAST b. \<not> used s b) = b" by (rule Least_equality) (use t in \<open>auto simp: taken_def not_less [symmetric]\<close>)
  ultimately show ?thesis using False map_ok_taken(1) [OF assms(3) t(2)] by auto
qed

theorem balloc_correct_witness:
  "\<exists>t. balloc ROOTDEV fs_op = Ok 47 t \<and> used t 47 \<and> blk t 47 = replicate BSIZE 0 \<and> \<not> used t 48"
proof -
  have sp: "space fs_op 2" using fs_op_views(2) by (simp add: space_def)
  have l: "(LEAST b. \<not> used fs_op b) = 47"
  proof (rule Least_equality)
    show "\<not> used fs_op 47" using fs_op_used [of 47] by simp
    show "47 \<le> b" if "\<not> used fs_op b" for b using that fs_op_used [of b] by (cases "b < 47") auto
  qed
  have neg: "\<not> (\<forall>x<fsize fs_op. used fs_op x)" using fs_op_used [of 47] fs_op_fsize by (intro notI) simp
  obtain t where t: "balloc ROOTDEV fs_op = Ok (of_nat 47) t" "taken 47 fs_op t"
    using balloc_correct [OF fs_op_views(1) sp fs_op_map] unfolding l if_not_P [OF neg] by blast
  then show ?thesis using fs_op_used [of 48] fs_op_fsize by (auto simp: taken_def)
qed

text \<open>C30: \<open>bfree\<close> undoes \<open>balloc\<close> and detects double frees: freeing the block that \<open>balloc\<close> just returned
  succeeds and restores the free map, and freeing it once more panics.\<close>

theorem balloc_bfree_roundtrip:
  assumes "in_op s" and "space s 4" and "map_ok s" and "\<exists>x<fsize s. \<not> used s x"
  shows "\<exists>b t u. balloc ROOTDEV s = Ok b t \<and> bfree ROOTDEV b t = Ok () u \<and> (\<forall>x<fsize s. used u x \<longleftrightarrow> used s x) \<and>
    bfree ROOTDEV b u = Panic ''freeing free block''"
proof -
  obtain b t where t: "balloc ROOTDEV s = Ok (of_nat b) t" "taken b s t"
    using balloc_op [OF assms(1) _ assms(3)] assms(2,4) by (fastforce simp: space_def)
  note m = map_ok_taken [OF assms(3) t(2)]
  obtain C where o: "opstep {bmblock s (b div BPB), of_nat b} (lockedby s) C s t" using t(2) by (auto simp: taken_def)
  have b: "b < fsize s" "\<not> used s b" "used t b" using t(2) by (auto simp: taken_def)
  have ub: "unat (of_nat b :: u32) = b" using b(1) fsize_lt [of s] by (simp add: unat_of_nat)
  have "card {bmblock s (b div BPB), of_nat b} \<le> 2" by (simp add: card_insert_if)
  then have sp: "space t 2" using space_opstep [OF o refl, of 2] assms(2) by (simp add: space_def)
  have sp1: "space t 1" using sp by (simp add: space_def)
  obtain u C' where u: "bfree ROOTDEV (of_nat b) t = Ok () u" "opstep {bmblock t (b div BPB)} (lockedby t) C' t u"
    "\<forall>x<fsize t. used u x \<longleftrightarrow> x \<noteq> b \<and> used t x" "\<forall>m. m \<notin> bmblocks t \<longrightarrow> blk u m = blk t m"
    by (rule bfree_op [OF opstepD(1) [OF o] sp1 m(1), of "of_nat b"]) (use b m ub in simp_all)
  have same: "\<forall>x<fsize s. used u x \<longleftrightarrow> used s x" using u(3) t(2) m(2) b(2) by (auto simp: taken_def)
  have sp0: "space u 1" by (rule space_opstep [OF u(2)]) (use sp in \<open>simp_all add: numeral_2_eq_2\<close>)
  have nu: "\<not> used u (unat (of_nat b :: u32))" using same b(1,2) ub by simp
  have sb: "sb u = sb t" using oframe_fs(1) [OF opstepD(2) [OF u(2)]] .
  have "bmblock t (b div BPB) \<notin> lockset t" using map_okD(2) [OF m(1), of b] b(1) m(2) by simp
  then have nl: "bmblock u (unat (of_nat b :: u32) div BPB) \<notin> lockset u"
    using opstepD(4) [OF u(2)] sb ub by (simp add: lockset_def bmblock_def)
  have "bfree ROOTDEV (of_nat b) u = Panic ''freeing free block''" by (rule bfree_free [OF opstepD(1) [OF u(2)] sp0 nl nu])
  then show ?thesis using t(1) u(1) same by blast
qed

theorem balloc_bfree_roundtrip_witness:
  "\<exists>b t u. balloc ROOTDEV fs_op = Ok b t \<and> bfree ROOTDEV b t = Ok () u \<and> bfree ROOTDEV b u = Panic ''freeing free block''"
proof -
  have sp: "space fs_op 4" using fs_op_views(2) by (simp add: space_def)
  have "\<exists>x<fsize fs_op. \<not> used fs_op x" using fs_op_used [of 47] fs_op_fsize by (intro exI [of _ 47]) simp
  then show ?thesis using balloc_bfree_roundtrip [OF fs_op_views(1) sp fs_op_map] by blast
qed

end
