(* ===== verification/Inode.thy ===== *)
theory Inode
  imports Fsops
begin

text \<open>
  Inodes on disk (\<open>kernel/fs.c\<close>): what \<open>iupdate\<close> writes into the inode block, \<open>ilock\<close> reads back, and the
  other inodes of the block stay as they are. \<open>same_inode\<close> compares the fields that the disk keeps.
\<close>

definition same_inode :: "inode \<Rightarrow> inode \<Rightarrow> bool" where
  "same_inode a b \<longleftrightarrow> i_type a = i_type b \<and> i_major a = i_major b \<and> i_minor a = i_minor b \<and> i_nlink a = i_nlink b \<and>
     i_size a = i_size b \<and> (\<forall>k<NDIRECT + 1. i_addrs a k = i_addrs b k)"

subsection \<open>The layout of an inode\<close>

lemma get_put_addrs_other:
  "\<forall>i\<in>set is. o' + 16 + 4 * i \<le> length d \<and> (x + k \<le> o' + 12 + 4 * i \<or> o' + 16 + 4 * i \<le> x) \<Longrightarrow>
   getb k (put_addrs a o' is d) x = getb k d x"
  by (induction "is" arbitrary: d) (auto simp: getb_putw_other)

lemma get_put_addrs:
  "\<forall>i\<in>set is. o' + 16 + 4 * i \<le> length d \<Longrightarrow> j \<in> set is \<Longrightarrow> get32 (put_addrs a o' is d) (o' + 12 + 4 * j) = a j"
proof (induction "is" arbitrary: d)
  case (Cons i "is")
  show ?case
  proof (cases "j \<in> set is")
    case True
    then show ?thesis using Cons by simp
  next
    case False
    then have j: "j = i" using Cons.prems(2) by simp
    have "getb 4 (put_addrs a o' is (put32 d (o' + 12 + 4 * i) (a i))) (o' + 12 + 4 * j) = getb 4 (put32 d (o' + 12 + 4 * i) (a i)) (o' + 12 + 4 * j)"
    proof (rule get_put_addrs_other, intro ballI)
      fix x
      assume x: "x \<in> set is"
      then have "x < i \<or> i < x" using False j by (metis nat_neq_iff)
      then show "o' + 16 + 4 * x \<le> length (put32 d (o' + 12 + 4 * i) (a i)) \<and> (o' + 12 + 4 * j + 4 \<le> o' + 12 + 4 * x \<or> o' + 16 + 4 * x \<le> o' + 12 + 4 * j)"
        using Cons.prems(1) x j by auto
    qed
    then have "get32 (put_addrs a o' (i # is) d) (o' + 12 + 4 * j) = get32 (put32 d (o' + 12 + 4 * i) (a i)) (o' + 12 + 4 * j)"
      by (simp add: getw_def)
    then show ?thesis using Cons.prems(1) j by (simp add: getw_putw_same)
  qed
qed simp

lemma get_put_dinode:
  assumes "o' + 64 \<le> length d"
  shows "same_inode (get_dinode (put_dinode ip o' d) o' jp) ip"
    and "i_dev (get_dinode (put_dinode ip o' d) o' jp) = i_dev jp" and "length (put_dinode ip o' d) = length d"
    and "x + k \<le> o' \<or> o' + 64 \<le> x \<Longrightarrow> getb k (put_dinode ip o' d) x = getb k d x"
proof -
  define e where "e = put32 (put16 (put16 (put16 (put16 d o' (i_type ip)) (o' + 2) (i_major ip)) (o' + 4) (i_minor ip))
    (o' + 6) (i_nlink ip)) (o' + 8) (i_size ip)"
  have p: "put_dinode ip o' d = put_addrs (i_addrs ip) o' [0..<NDIRECT + 1] e" by (simp add: put_dinode_def e_def)
  have l: "length e = length d" using assms by (simp add: e_def)
  have a: "\<forall>i\<in>set [0..<NDIRECT + 1]. o' + 16 + 4 * i \<le> length e" using assms l by auto
  show "length (put_dinode ip o' d) = length d" unfolding p using length_put_addrs [OF a] l by simp
  have o: "getb k (put_dinode ip o' d) x = getb k e x" if "x + k \<le> o' + 12 \<or> o' + 64 \<le> x" for x k
    unfolding p by (rule get_put_addrs_other) (use a that in auto)
  have f: "get16 e o' = i_type ip" "get16 e (o' + 2) = i_major ip" "get16 e (o' + 4) = i_minor ip"
    "get16 e (o' + 6) = i_nlink ip" "get32 e (o' + 8) = i_size ip"
    using assms by (simp_all add: e_def getw_putw_other getw_putw_same)
  have "get32 (put_dinode ip o' d) (o' + 12 + 4 * j) = i_addrs ip j" if "j < NDIRECT + 1" for j
    unfolding p by (rule get_put_addrs [OF a]) (use that in simp)
  then show "same_inode (get_dinode (put_dinode ip o' d) o' jp) ip"
    using o [of o' 2] o [of "o' + 2" 2] o [of "o' + 4" 2] o [of "o' + 6" 2] o [of "o' + 8" 4] f
    by (simp add: same_inode_def get_dinode_def getw_def)
  show "i_dev (get_dinode (put_dinode ip o' d) o' jp) = i_dev jp" by (simp add: get_dinode_def)
  show "getb k (put_dinode ip o' d) x = getb k d x" if "x + k \<le> o' \<or> o' + 64 \<le> x"
    using o [of x k] that assms by (auto simp: e_def getb_putw_other)
qed

lemma dip_off_disjoint: "dip_off n \<noteq> dip_off m \<Longrightarrow> dip_off n + 64 \<le> dip_off m \<or> dip_off m + 64 \<le> dip_off n"
  by (auto simp: dip_off_def)

subsection \<open>Writing and reading inodes\<close>

lemma upd_inode_fields [simp]:
  "bufs (upd_inode i f s) = bufs s" "disk (upd_inode i f s) = disk s" "sb (upd_inode i f s) = sb s" "held (upd_inode i f s) = held s"
  "curproc (upd_inode i f s) = curproc s" "procs (upd_inode i f s) = procs s" "lg (upd_inode i f s) = lg s"
  "in_op (upd_inode i f s) = in_op s" "lockset (upd_inode i f s) = lockset s" "space (upd_inode i f s) = space s"
  "itable (upd_inode i f s) i = f (itable s i)"
  by (simp_all add: upd_inode_def in_op_def ready_def lblocks_def lockset_def space_def fun_eq_iff)

lemma iupdate_op:
  assumes "in_op s" and "space s 1" and "i_dev (itable s i) = ROOTDEV" and "IBLOCK (i_inum (itable s i)) (sb s) \<notin> lockset s"
  defines "n \<equiv> IBLOCK (i_inum (itable s i)) (sb s)" and "o' \<equiv> dip_off (i_inum (itable s i))"
  obtains t where "iupdate i s = Ok () t" and "opstep {n} (lockedby s) ((blk s)(n := put_dinode (itable s i) o' (blk s n))) s t"
proof -
  obtain b s1 s2 t where r: "bread ROOTDEV n s = Ok b s1" "oframe s s1"
    "log_write b (upd_buf b (b_data_update (put_dinode (itable s i) o')) s1) = Ok () s2" "brelse b s2 = Ok () t"
    "opstep {n} (lockedby s) ((blk s)(n := put_dinode (itable s i) o' (blk s n))) s t"
    by (rule write_block_op [OF assms(1,2,4), folded n_def, of "put_dinode (itable s i) o'"]) blast
  have "iupdate i s = Ok () t"
    using r(1,3,4) oframe_fs(2) [OF r(2)] assms(3) by (simp add: iupdate_def Let_def n_def [symmetric] o'_def [symmetric])
  then show ?thesis using that r(5) by blast
qed

lemma oframe_proc:
  assumes "oframe s t"
  shows "held t = held s" and "curproc t = curproc s" and "mypid t = mypid s" and "mem t = mem s"
proof -
  obtain f where f: "bframe (upd_lh f s) t" using assms by (auto simp: oframe_def)
  then show "held t = held s" and c: "curproc t = curproc s" and "mem t = mem s"
    by (simp_all add: bframe_def upd_lh_def upd_lg_def)
  obtain x where "procs t (the (curproc s)) = (procs s (the (curproc s)))\<lparr>p_state := x\<rparr>"
    using f by (auto simp: bframe_def upd_lh_def upd_lg_def)
  then show "mypid t = mypid s" unfolding mypid_def c by simp
qed

lemma ilock_op:
  assumes "in_op s" and "space s 1" and "i_dev (itable s i) = ROOTDEV" and "IBLOCK (i_inum (itable s i)) (sb s) \<notin> lockset s"
    and "1 \<le> i_ref (itable s i)" and "\<not> i_valid (itable s i)" and "\<not> sl_locked (i_lock (itable s i))"
  defines "d \<equiv> blk s (IBLOCK (i_inum (itable s i)) (sb s))" and "o' \<equiv> dip_off (i_inum (itable s i))"
  assumes "get16 d o' \<noteq> 0"
  obtains u where "ilock i s = Ok () u" and "blk u = blk s" and "in_op u"
    and "itable u i = (get_dinode d o' (itable s i))\<lparr>i_valid := True, i_lock := \<lparr>sl_locked = True, sl_pid = mypid s\<rparr>\<rparr>"
    and "curproc u = curproc s" and "mypid u = mypid s"
proof -
  let ?n = "IBLOCK (i_inum (itable s i)) (sb s)"
  let ?l = "\<lparr>sl_locked = True, sl_pid = mypid s\<rparr>"
  let ?s = "set_inode_lock i ?l s"
  have r: "ready s" using assms(1) by (simp add: in_op_def)
  then obtain p where p: "curproc s = Some p" "held s = []" by (auto simp: ready_def)
  have acq: "acquiresleep (Ch_inodelock i) (inode_lock i) (set_inode_lock i) s = Ok () ?s"
    using p assms(7) by (simp add: acquiresleep_def myproc_def inode_lock_def set_inode_lock_def upd_inode_def mypid_def)
  have s: "in_op ?s" "space ?s 1" "?n \<notin> lockset ?s" "blk ?s = blk s" "sb ?s = sb s"
    "itable ?s i = (itable s i)\<lparr>i_lock := ?l\<rparr>" "lockedby ?s = lockedby s"
    using assms(1,2,4) by (simp_all add: set_inode_lock_def)
  obtain b s1 where b: "bread ROOTDEV ?n ?s = Ok b s1" "has_buf s1 ?n b"
    "opstep {} ((lockedby ?s)(?n := Some (mypid ?s))) (blk ?s) ?s s1" "lblocks s1 = lblocks ?s"
    "?n \<in> set (lblocks s1) \<or> blk s1 ?n = disk s1 ?n"
    using bread_op [OF s(1-3)] .
  note o1 = opstepD [OF b(3)]
  have d: "b_data (bufs s1 b) = d" using has_bufD(4) [OF b(2)] o1(5) s(4) unfolding d_def by metis
  have it: "itable s1 = itable ?s" using oframe_fs(2) [OF o1(2)] .
  let ?s1 = "upd_inode i (get_dinode d o') s1"
  have s1: "in_op ?s1" "has_buf ?s1 ?n b" "?n \<in> set (lblocks ?s1) \<or> blk ?s1 ?n = disk ?s1 ?n" "blk ?s1 = blk s"
    using o1(1,5) b(2,5) s(4) by (simp_all add: has_buf_def mypid_def lblocks_def)
  obtain t where t: "brelse b ?s1 = Ok () t" "opstep {} ((lockedby ?s1)(?n := None)) (blk ?s1) ?s1 t"
    using brelse_op [OF s1(1-3)] by blast
  note o2 = opstepD [OF t(2)]
  have it2: "itable t i = get_dinode d o' ((itable s i)\<lparr>i_lock := ?l\<rparr>)" using oframe_fs(2) [OF o2(2)] it s(6) by simp
  let ?u = "upd_inode i (i_valid_update (\<lambda>_. True)) t"
  have "i_type (itable ?u i) \<noteq> 0" using assms(10) it2 by (simp add: get_dinode_def)
  then have "ilock i s = Ok () ?u"
    using acq b(1) t(1) assms(3,5,6) d s(5,6) it by (simp add: ilock_def Let_def o'_def)
  moreover have "blk ?u = blk s" using o2(5) s1(4) by simp
  moreover have "itable ?u i = (get_dinode d o' (itable s i))\<lparr>i_valid := True, i_lock := ?l\<rparr>"
    using it2 by (cases "itable s i") (simp add: get_dinode_def cong: if_cong)
  moreover have "curproc ?u = curproc s" "mypid ?u = mypid s"
    using oframe_proc(2,3) [OF o1(2)] oframe_proc(2,3) [OF o2(2)] by (simp_all add: mypid_def set_inode_lock_def)
  ultimately show ?thesis using that o2(1) by simp
qed

lemma iunlock_held:
  assumes "held s = []" and "curproc s \<noteq> None" and "i_lock (itable s i) = \<lparr>sl_locked = True, sl_pid = mypid s\<rparr>"
    and "1 \<le> i_ref (itable s i)"
  shows "\<exists>t. iunlock i s = Ok () t \<and> itable t i = (itable s i)\<lparr>i_lock := initsleeplock\<rparr>"
proof -
  obtain p where p: "curproc s = Some p" using assms(2) by blast
  let ?s = "set_inode_lock i initsleeplock (s\<lparr>held := [L_inner (Ch_inodelock i)]\<rparr>)"
  obtain u where u: "wakeup (Ch_inodelock i) ?s = Ok () u" "held u = [L_inner (Ch_inodelock i)]" "itable u = itable ?s"
    using wakeup_spec [of ?s "Ch_inodelock i"] by (simp add: set_inode_lock_def upd_inode_def)
  have "iunlock i s = Ok () (u\<lparr>held := []\<rparr>)"
    using assms p u
    by (simp add: iunlock_def holdingsleep_def releasesleep_def myproc_def inode_lock_def mypid_def Let_def initsleeplock_def)
  then show ?thesis using u(3) by (simp add: set_inode_lock_def)
qed

subsection \<open>Properties\<close>

text \<open>C14: An inode survives the trip to disk: after \<open>iupdate\<close>, locking an inode-table entry for the same
  inode whose contents have been forgotten brings back the type, device numbers, link count, size
  and block addresses, and the update has not touched the other inodes of the block.\<close>

theorem iupdate_ilock_roundtrip:
  assumes "in_op s" and "space s 2" and "i_dev (itable s i) = ROOTDEV" and "i_type (itable s i) \<noteq> 0"
    and "n = IBLOCK (i_inum (itable s i)) (sb s)" and "n \<notin> lockset s" and "length (blk s n) = BSIZE"
    and "i_dev ip = ROOTDEV" and "i_inum ip = i_inum (itable s i)" and "1 \<le> i_ref ip" and "\<not> i_valid ip" and "\<not> sl_locked (i_lock ip)"
  shows "\<exists>t u. iupdate i s = Ok () t \<and> ilock i (upd_inode i (\<lambda>_. ip) t) = Ok () u \<and> same_inode (itable u i) (itable s i) \<and>
    (\<forall>m. dip_off m \<noteq> dip_off (i_inum ip) \<longrightarrow> getb 64 (blk u n) (dip_off m) = getb 64 (blk s n) (dip_off m)) \<and>
    (\<forall>k. k \<noteq> n \<longrightarrow> blk u k = blk s k)"
proof -
  let ?o = "dip_off (i_inum ip)"
  have sp: "space s 1" using assms(2) by (simp add: space_def)
  obtain t where t: "iupdate i s = Ok () t" "opstep {n} (lockedby s) ((blk s)(n := put_dinode (itable s i) ?o (blk s n))) s t"
    using iupdate_op [OF assms(1) sp assms(3) assms(6) [unfolded assms(5)]] unfolding assms(5,9) .
  note o = opstepD [OF t(2)]
  have sp1: "space t 1" by (rule space_opstep [OF t(2)]) (use assms(2) in \<open>simp_all add: numeral_2_eq_2\<close>)
  have le: "?o + 64 \<le> length (blk s n)" using dip_off_le [of "i_inum ip"] assms(7) by simp
  note g = get_put_dinode [OF le, where ip = "itable s i"]
  let ?t = "upd_inode i (\<lambda>_. ip) t"
  have b: "blk ?t = (blk s)(n := put_dinode (itable s i) ?o (blk s n))" using o(5) by simp
  have n: "IBLOCK (i_inum (itable ?t i)) (sb ?t) = n" using assms(5,9) oframe_fs(1) [OF o(2)] by simp
  have nl: "n \<notin> lockset ?t" using assms(6) o(4) by (simp add: lockset_def)
  have ty: "get16 (put_dinode (itable s i) ?o (blk s n)) ?o \<noteq> 0"
    using g(1) [of ip] assms(4) by (simp add: same_inode_def get_dinode_def)
  obtain u where u: "ilock i ?t = Ok () u" "blk u = blk ?t"
    "itable u i = (get_dinode (blk ?t n) ?o ip)\<lparr>i_valid := True, i_lock := \<lparr>sl_locked = True, sl_pid = mypid ?t\<rparr>\<rparr>"
    using ilock_op [of ?t i] o(1) sp1 assms(8,10,11,12) nl ty b unfolding n by auto
  have "same_inode (itable u i) (itable s i)" using g(1) [of ip] u(3) unfolding b by (simp add: same_inode_def)
  moreover have "getb 64 (blk u n) (dip_off m) = getb 64 (blk s n) (dip_off m)" if "dip_off m \<noteq> ?o" for m
    using g(4) [of "dip_off m" 64] dip_off_disjoint [OF that] unfolding u(2) b by auto
  moreover have "blk u k = blk s k" if "k \<noteq> n" for k unfolding u(2) b using that by simp
  ultimately show ?thesis using t(1) u(1) by blast
qed

theorem iupdate_ilock_roundtrip_witness:
  "\<exists>s t u. iupdate 0 s = Ok () t \<and> i_size (itable s 0) = 77 \<and>
     ilock 0 (upd_inode 0 (\<lambda>_. blank_inode\<lparr>i_dev := 1, i_inum := 1, i_ref := 1\<rparr>) t) = Ok () u \<and> i_size (itable (u :: kfs) 0) = 77"
proof -
  let ?ip = "blank_inode\<lparr>i_dev := 1, i_inum := 1, i_ref := 1\<rparr>"
  let ?s = "upd_inode 0 (\<lambda>_. ?ip\<lparr>i_type := 2, i_size := 77\<rparr>) fs_op"
  have sp: "space ?s 2" using fs_op_views(2) by (simp add: space_def)
  have b: "length (blk ?s 33) = BSIZE" using fs_op_views(3) by (simp add: zero_block_def)
  have n: "33 = IBLOCK (i_inum (itable ?s 0)) (sb ?s)" by (simp add: IBLOCK_def fs_op_views(5) fs_boot_def klog.defs)
  have "\<exists>t u. iupdate 0 ?s = Ok () t \<and> ilock 0 (upd_inode 0 (\<lambda>_. ?ip) t) = Ok () u \<and> same_inode (itable u 0) (itable ?s 0) \<and>
    (\<forall>m. dip_off m \<noteq> dip_off (i_inum ?ip) \<longrightarrow> getb 64 (blk u 33) (dip_off m) = getb 64 (blk ?s 33) (dip_off m)) \<and>
    (\<forall>k. k \<noteq> 33 \<longrightarrow> blk u k = blk ?s k)"
    by (rule iupdate_ilock_roundtrip [OF _ sp _ _ n _ b]) (simp_all add: fs_op_views blank_inode_def initsleeplock_def)
  then obtain t u where "iupdate 0 ?s = Ok () t" "ilock 0 (upd_inode 0 (\<lambda>_. ?ip) t) = Ok () u" "same_inode (itable u 0) (itable ?s 0)"
    by blast
  then show ?thesis by (intro exI [of _ ?s] exI [of _ t] exI [of _ u]) (simp add: same_inode_def)
qed

end
