(* ===== verification/Path.thy ===== *)
theory Path
  imports Fs
begin

text \<open>
  Path names (\<open>skipelem\<close> and the loop of \<open>namex\<close> in \<open>kernel/fs.c\<close>) against a specification on lists: the
  elements of a path are the non-empty parts between slashes, cut to \<open>DIRSIZ\<close> bytes.
\<close>

subsection \<open>Specification\<close>

fun splits :: "u8 list \<Rightarrow> u8 list list" where
  "splits [] = [[]]"
| "splits (c # cs) = (if c = SLASH then [] # splits cs else (c # hd (splits cs)) # tl (splits cs))"

definition elements :: "u8 list \<Rightarrow> u8 list list" where
  "elements p = filter (\<lambda>e. e \<noteq> []) (splits p)"

lemma splits_ne [simp]: "splits p \<noteq> []"
  by (cases p) auto

lemma splits_takeWhile: "hd (splits p) = takeWhile (\<lambda>c. c \<noteq> SLASH) p"
  by (induction p) auto

lemma tl_splits: "tl (splits p) = (case dropWhile (\<lambda>c. c \<noteq> SLASH) p of [] \<Rightarrow> [] | c # cs \<Rightarrow> splits cs)"
  by (induction p) auto

lemma elements_slashes: "elements (dropWhile (\<lambda>c. c = SLASH) p) = elements p"
  by (induction p) (auto simp: elements_def)

lemma elements_step:
  assumes "p \<noteq> []" and "hd p \<noteq> SLASH"
  shows "elements p = takeWhile (\<lambda>c. c \<noteq> SLASH) p # elements (dropWhile (\<lambda>c. c \<noteq> SLASH) p)"
proof -
  have "elements p = filter (\<lambda>e. e \<noteq> []) (hd (splits p) # tl (splits p))" by (simp add: elements_def)
  moreover have "takeWhile (\<lambda>c. c \<noteq> SLASH) p \<noteq> []" using assms by (cases p) auto
  moreover have "filter (\<lambda>e. e \<noteq> []) (tl (splits p)) = elements (dropWhile (\<lambda>c. c \<noteq> SLASH) p)"
  proof (cases "dropWhile (\<lambda>c. c \<noteq> SLASH) p")
    case Nil
    then show ?thesis unfolding tl_splits elements_def Nil by simp
  next
    case (Cons c cs)
    then have "c = SLASH" using hd_dropWhile [of "\<lambda>c. c \<noteq> SLASH" p] by simp
    then show ?thesis unfolding tl_splits elements_def Cons by simp
  qed
  ultimately show ?thesis unfolding splits_takeWhile by (simp only: filter.simps if_True not_False_eq_True)
qed

subsection \<open>The loops of skipelem\<close>

text \<open>\<open>holds path n off q\<close>: from offset \<open>off\<close> on, the array of \<open>n\<close> bytes holds the string \<open>q\<close> and its NUL.\<close>

definition holds :: "bytes \<Rightarrow> nat \<Rightarrow> nat \<Rightarrow> u8 list \<Rightarrow> bool" where
  "holds path n off q \<longleftrightarrow> off + length q < n \<and> (\<forall>i<length q. path (off + i) = q ! i) \<and> path (off + length q) = 0 \<and> 0 \<notin> set q"

lemma holds_Nil: "holds path n off [] \<longleftrightarrow> off < n \<and> path off = 0"
  by (simp add: holds_def)

lemma holds_Cons: "holds path n off (c # q) \<longleftrightarrow> path off = c \<and> c \<noteq> 0 \<and> holds path n (Suc off) q"
  by (auto simp: holds_def nth_Cons split: nat.splits)

lemma holds_drop: "holds path n off (p @ q) \<Longrightarrow> holds path n (off + length p) q"
  by (induction p arbitrary: off) (fastforce simp: holds_Cons)+

lemma skip_slashes_holds:
  "holds path n off q \<Longrightarrow> skip_slashes path n off = Some (off + length (takeWhile (\<lambda>c. c = SLASH) q))"
proof (induction q arbitrary: off)
  case Nil
  then show ?case by (subst skip_slashes.simps) (simp add: holds_Nil)
next
  case (Cons c q)
  then have "off < n" by (simp add: holds_def)
  then show ?case using Cons by (subst skip_slashes.simps) (simp add: holds_Cons)
qed

lemma skip_name_holds:
  "holds path n off q \<Longrightarrow> skip_name path n off = Some (off + length (takeWhile (\<lambda>c. c \<noteq> SLASH) q))"
proof (induction q arbitrary: off)
  case Nil
  then show ?case by (subst skip_name.simps) (simp add: holds_Nil)
next
  case (Cons c q)
  then have "off < n" by (simp add: holds_def)
  then show ?case using Cons by (subst skip_name.simps) (simp add: holds_Cons)
qed

lemma cstr_elem:
  assumes "0 \<notin> set e" and "\<And>k. k < min (length e) N \<Longrightarrow> a k = e ! k" and "length e < N \<Longrightarrow> a (length e) = 0"
  shows "cstr a N = take N e"
  using assms
proof (induction N arbitrary: e a)
  case (Suc N)
  show ?case
  proof (cases e)
    case Nil
    then show ?thesis using Suc.prems(3) by (simp add: cstr_Suc)
  next
    case (Cons c f)
    have "a 0 = c" "c \<noteq> 0" using Suc.prems(1) Suc.prems(2) [of 0] Cons by auto
    moreover have "cstr (\<lambda>i. a (Suc i)) N = take N f"
      by (rule Suc.IH) (use Suc.prems Suc.prems(2) [of "Suc _"] Cons in auto)
    ultimately show ?thesis using Cons by (simp add: cstr_Suc)
  qed
qed simp

text \<open>One step of \<open>skipelem\<close>.\<close>

lemma skipelem_holds:
  assumes "holds path n off q"
  shows "elements q = [] \<Longrightarrow> skipelem path n off name = Some None"
    and "elements q = e # es \<Longrightarrow> \<exists>r name' q'. skipelem path n off name = Some (Some (r, name')) \<and>
      cstr name' DIRSIZ = take DIRSIZ e \<and> holds path n r q' \<and> elements q' = es"
proof -
  let ?sl = "\<lambda>c :: u8. c = SLASH"
  let ?ns = "\<lambda>c :: u8. c \<noteq> SLASH"
  define q1 where "q1 = dropWhile ?sl q"
  define st where "st = off + length (takeWhile ?sl q)"
  have s1: "skip_slashes path n off = Some st" using skip_slashes_holds [OF assms] by (simp add: st_def)
  have h1: "holds path n st q1" using holds_drop [of path n off "takeWhile ?sl q" q1] assms by (simp add: st_def q1_def)
  have el: "elements q = elements q1" using elements_slashes [of q] by (simp add: q1_def)
  have hd1: "q1 \<noteq> [] \<Longrightarrow> hd q1 \<noteq> SLASH" using hd_dropWhile [of ?sl q] by (auto simp: q1_def)
  show "skipelem path n off name = Some None" if "elements q = []"
  proof -
    have "q1 = []" using that el elements_step [of q1] hd1 by auto
    then have "path st = 0" using h1 by (simp add: holds_Nil)
    then show ?thesis using s1 by (simp add: skipelem_def)
  qed
  assume es: "elements q = e # es"
  have "q1 \<noteq> []" using es el by (auto simp: elements_def)
  then have e: "e = takeWhile ?ns q1" "es = elements (dropWhile ?ns q1)" using es el elements_step [of q1] hd1 by auto
  define en where "en = st + length e"
  have z: "path st \<noteq> 0" using h1 \<open>q1 \<noteq> []\<close> by (cases q1) (auto simp: holds_Cons)
  have s2: "skip_name path n st = Some en" using skip_name_holds [OF h1] by (simp add: en_def e(1))
  have h2: "holds path n en (dropWhile ?ns q1)" using holds_drop [of path n st e "dropWhile ?ns q1"] h1 by (simp add: en_def e(1))
  define q3 where "q3 = dropWhile ?sl (dropWhile ?ns q1)"
  define r where "r = en + length (takeWhile ?sl (dropWhile ?ns q1))"
  have s3: "skip_slashes path n en = Some r" using skip_slashes_holds [OF h2] by (simp add: r_def)
  have h3: "holds path n r q3"
    using holds_drop [of path n en "takeWhile ?sl (dropWhile ?ns q1)" q3] h2 by (simp add: r_def q3_def)
  let ?name = "if DIRSIZ \<le> length e then (\<lambda>k. if k < DIRSIZ then path (st + k) else name k)
    else (\<lambda>k. if k < length e then path (st + k) else if k = length e then 0 else name k)"
  have run: "skipelem path n off name = Some (Some (r, ?name))"
    using s1 z s2 s3 by (simp add: skipelem_def en_def Let_def)
  have pe: "path (st + k) = e ! k" if "k < length e" for k
    using h1 that length_takeWhile_le [of ?ns q1] by (simp add: holds_def e(1) takeWhile_nth)
  have "0 \<notin> set e" using h1 by (auto simp: holds_def e(1) dest: set_takeWhileD)
  then have "cstr ?name DIRSIZ = take DIRSIZ e" by (rule cstr_elem) (use pe in auto)
  moreover have "elements q3 = es" using elements_slashes [of "dropWhile ?ns q1"] e(2) by (simp add: q3_def)
  ultimately show "\<exists>r name' q'. skipelem path n off name = Some (Some (r, name')) \<and>
      cstr name' DIRSIZ = take DIRSIZ e \<and> holds path n r q' \<and> elements q' = es"
    using run h3 by blast
qed

subsection \<open>Properties\<close>

text \<open>The names that the loop of \<open>namex\<close> looks up, in order.\<close>

function path_names :: "bytes \<Rightarrow> nat \<Rightarrow> nat \<Rightarrow> bytes \<Rightarrow> u8 list list option" where
  "path_names path n off name =
     (case skipelem path n off name of
        None \<Rightarrow> None
      | Some None \<Rightarrow> Some []
      | Some (Some x) \<Rightarrow> map_option (\<lambda>ns. cstr (snd x) DIRSIZ # ns) (path_names path n (fst x) (snd x)))"
  by pat_completeness auto
termination
proof (relation "measure (\<lambda>(path, n, off, name). n - off)")
  fix path :: bytes and n off :: nat and name :: bytes and x2 x2a
  assume "skipelem path n off name = Some x2" "x2 = Some x2a"
  then show "((path, n, fst x2a, snd x2a), path, n, off, name) \<in> measure (\<lambda>(path, n, off, name). n - off)"
    using skipelem_advances [of path n off name "fst x2a" "snd x2a"] by (auto split: prod.splits)
qed simp

declare path_names.simps [simp del]

text \<open>C26: The path parser agrees with its specification: on an array that holds a NUL-terminated path,
  repeated \<open>skipelem\<close> stays inside the array, ends, and yields exactly the non-empty parts of the path
  between slashes, in order and cut to 14 bytes, whatever the name buffer held before.\<close>

theorem skipelem_elements:
  assumes "holds path n off p"
  shows "path_names path n off name = Some (map (take DIRSIZ) (elements p))"
  using assms
proof (induction "elements p" arbitrary: p off name)
  case Nil
  then show ?case using skipelem_holds(1) [OF Nil(2)] by (subst path_names.simps) simp
next
  case (Cons e es)
  obtain r name' q' where r: "skipelem path n off name = Some (Some (r, name'))" "cstr name' DIRSIZ = take DIRSIZ e"
    "holds path n r q'" "elements q' = es"
    using skipelem_holds(2) [OF Cons.prems Cons.hyps(2) [symmetric]] by blast
  have "path_names path n r name' = Some (map (take DIRSIZ) (elements q'))" by (rule Cons.hyps(1)) (use r in simp_all)
  then show ?case using r Cons.hyps(2) [symmetric] by (subst path_names.simps) simp
qed

theorem skipelem_elements_witness:
  "path_names (\<lambda>i. if i < 9 then [47, 97, 47, 47, 98, 99, 46, 100, 47] ! i else 0) 10 0 (\<lambda>_. 1) = Some [[97], [98, 99, 46, 100]]"
proof -
  let ?a = "\<lambda>i :: nat. if i < 9 then [47, 97, 47, 47, 98, 99, 46, 100, 47] ! i else 0 :: u8"
  have "holds ?a 10 0 [47, 97, 47, 47, 98, 99, 46, 100, 47]" by (simp add: holds_def)
  from skipelem_elements [OF this, of "\<lambda>_. 1"] show ?thesis by (simp add: elements_def)
qed

end
