(* ===== verification/Mmap.thy ===== *)
theory Mmap
  imports Sysproc
begin

text \<open>
  The address ranges of memory-mapped files (\<open>sys_mmap\<close> and \<open>sys_munmap\<close> of \<open>kernel/sysproc.c\<close>). Mappings
  grow down from \<open>TRAPFRAME\<close>; \<open>mmap_base\<close> is the lowest address in use. \<open>vmas_ok\<close> says that the valid VMAs
  are disjoint and lie between \<open>mmap_base\<close> and \<open>TRAPFRAME\<close>.
\<close>

definition vmas_ok :: "proc \<Rightarrow> bool" where
  "vmas_ok q \<longleftrightarrow> page_aligned (p_mmap_base q) \<and> p_mmap_base q \<le> TRAPFRAME \<and> p_sz q \<le> p_mmap_base q \<and>
     (\<forall>i<NVMA. vma_valid (p_vma q i) \<longrightarrow> p_mmap_base q \<le> vma_start (p_vma q i) \<and> vma_start (p_vma q i) < vma_end (p_vma q i) \<and>
        vma_end (p_vma q i) \<le> TRAPFRAME \<and> page_aligned (vma_start (p_vma q i))) \<and>
     (\<forall>i<NVMA. \<forall>j<NVMA. vma_valid (p_vma q i) \<longrightarrow> vma_valid (p_vma q j) \<longrightarrow> i \<noteq> j \<longrightarrow>
        vma_end (p_vma q i) \<le> vma_start (p_vma q j) \<or> vma_end (p_vma q j) \<le> vma_start (p_vma q i))"

text \<open>What a successful \<open>mmap\<close> does.\<close>

definition mapped :: "nat \<Rightarrow> nat \<Rightarrow> nat \<Rightarrow> u64 \<Rightarrow> u64 \<Rightarrow> int \<Rightarrow> int \<Rightarrow> int \<Rightarrow> 'a kfile_scheme \<Rightarrow> 'a kfile_scheme" where
  "mapped p i f start fin prot flags offset s =
     upd_proc p (\<lambda>q. q\<lparr>p_vma := (p_vma q)(i := \<lparr>vma_valid = True, vma_start = start, vma_end = fin, vma_prot = prot,
       vma_flags = flags, vma_f = Some f, vma_offset = offset\<rparr>), p_mmap_base := start\<rparr>)
     (upd_file f (\<lambda>x. x\<lparr>f_ref := f_ref x + 1\<rparr>) s)"

lemma VMA_literal:
  "v\<lparr>vma_start := a, vma_end := b, vma_f := g, vma_offset := c, vma_prot := d, vma_flags := e, vma_valid := True\<rparr> =
   \<lparr>vma_valid = True, vma_start = a, vma_end = b, vma_prot = d, vma_flags = e, vma_f = g, vma_offset = c\<rparr>"
  by (cases v) simp

text \<open>The length rounded up to pages, when the rounding does not overflow.\<close>

definition pgup :: "int \<Rightarrow> u64" where
  "pgup len = scast ((word_of_int len + 4095 :: u32) AND NOT 4095)"

lemma mmap_body_run:
  assumes "curproc s = Some p" and "held s = []" and "0 \<le> fd" and "fd < int NOFILE" and "p_ofile (procs s p) (nat fd) = Some f"
    and "1 \<le> f_ref (ftable s f)" and "len + 4096 \<le> INT_MAX"
  shows "mmap_body len prot flags fd offset s =
    (if bit prot PROT_READ \<and> \<not> f_readable (ftable s f) then Ok (-1) s
     else if bit prot PROT_WRITE \<and> \<not> f_writable (ftable s f) \<and> bit flags MAP_SHARED then Ok (-1) s
     else
       let size = pgup len; start = PGROUNDDOWN (p_mmap_base (procs s p) - size) in
       if start < p_sz (procs s p) \<or> start \<ge> TRAPFRAME then Ok (-1) s
       else case free_vma (p_vma (procs s p)) [0..<NVMA] of None \<Rightarrow> Ok (-1) s
         | Some i \<Rightarrow> Ok start (mapped p i f start (start + size) prot flags offset s))"
  using assms
  by (auto simp: mmap_body_def pground_int_def pgup_def myproc_def Let_def filedup_def mapped_def upd_vma_def upd_proc_def upd_file_def VMA_literal split: option.splits)

lemma free_vma_Some: "free_vma vs is = Some i \<Longrightarrow> i \<in> set is \<and> \<not> vma_valid (vs i)"
  by (induction "is") (auto split: if_splits)

lemma free_vma_None: "free_vma vs is = None \<Longrightarrow> i \<in> set is \<Longrightarrow> vma_valid (vs i)"
  by (induction "is") (auto split: if_splits)

lemma unat_scast_small:
  fixes w :: u32
  assumes "unat w < 2 ^ 31"
  shows "unat (scast w :: u64) = unat w"
proof -
  have u: "uint w < 2 ^ 31" using assms unfolding of_nat_less_iff [symmetric, where 'a = int] by simp
  moreover have "- (2 ^ 31) \<le> uint w" by (rule order_trans [OF _ uint_ge_0]) simp
  ultimately have "signed_take_bit 31 (uint w) = uint w" by (intro signed_take_bit_int_eq_self)
  then have s: "sint w = uint w" by (simp add: sint_uint)
  have "(scast w :: u64) = ucast w" unfolding scast_eq ucast_eq s ..
  then show ?thesis using assms by (simp add: unsigned_ucast_eq take_bit_nat_eq_self)
qed

lemma unat_pgup:
  assumes "0 < len" and "len \<le> 2 ^ 31 - 4097"
  shows "unat (pgup len) = (nat len + 4095) div 4096 * 4096"
proof -
  let ?w = "word_of_int len + 4095 :: u32"
  have "unat (word_of_int len :: u32) = nat (uint (word_of_int len :: u32))" by simp
  also have "\<dots> = nat len" using assms by (simp add: uint_word_of_int del: nat_uint_eq)
  finally have "unat (word_of_int len :: u32) = nat len" .
  then have w: "unat ?w = nat len + 4095" using assms by (simp add: unat_word_ariths nat_less_iff)
  have m: "(4095 :: u32) = mask 12" by (simp add: mask_eq_exp_minus_1)
  have u: "unat (?w AND NOT 4095) = (nat len + 4095) div 4096 * 4096"
    using unat_and_not_mask [of 12 ?w, folded m] w by simp
  have "(nat len + 4095) div 4096 * 4096 \<le> nat len + 4095" by simp
  also have "\<dots> < 2 ^ 31" using assms by simp
  finally show ?thesis unfolding pgup_def using u unat_scast_small [of "?w AND NOT 4095"] by simp
qed

lemma mmap_range:
  assumes "0 < len" and "len \<le> 2 ^ 31 - 4097" and "page_aligned base" and "base \<le> TRAPFRAME"
  defines "sz \<equiv> pgup len" and "start \<equiv> PGROUNDDOWN (base - pgup len)"
  assumes "\<not> start \<ge> TRAPFRAME"
  shows "start + sz = base" and "start < base" and "page_aligned start"
proof -
  have us: "unat sz = (nat len + 4095) div 4096 * 4096" unfolding sz_def by (rule unat_pgup [OF assms(1,2)])
  have pos: "0 < unat sz" using assms(1) unfolding us by auto
  have lt: "unat sz < 2 ^ 31"
  proof -
    have "unat sz \<le> nat len + 4095" unfolding us by simp
    moreover have "nat len + 4095 < 2 ^ 31" using assms(1,2) by simp
    ultimately show ?thesis by (rule le_less_trans)
  qed
  have tf: "unat base \<le> unat TRAPFRAME" using assms(4) by (simp add: word_le_nat_alt)
  have st: "unat start = unat (base - sz) div 4096 * 4096" by (simp add: start_def sz_def unat_PGROUNDDOWN)
  have le: "unat sz \<le> unat base"
  proof (rule ccontr)
    assume "\<not> unat sz \<le> unat base"
    then have "unat (base - sz) = 2 ^ 64 + unat base - unat sz" by (simp add: unat_sub_if')
    then have "unat TRAPFRAME \<le> unat start" using lt unfolding st by simp
    then show False using assms(7) by (simp add: word_le_nat_alt)
  qed
  have d: "4096 dvd unat base - unat sz" using assms(3) unfolding us by (simp add: dvd_diff_nat)
  have "unat (base - sz) = unat base - unat sz" using le by (simp add: unat_sub_if')
  then have e: "unat start = unat base - unat sz" unfolding st using d by (simp add: dvd_div_mult_self)
  have "unat (start + sz) = unat start + unat sz" using e le tf by (simp add: unat_word_ariths)
  then show "start + sz = base" using e le by (simp add: word_unat_eq_iff)
  show "start < base" using e pos le by (simp add: word_less_nat_alt)
  show "page_aligned start" using d e by simp
qed

lemma vmas_ok_mapped:
  assumes "vmas_ok q" and "\<not> vma_valid (p_vma q i)" and "start < p_mmap_base q" and "page_aligned start" and "p_sz q \<le> start"
    and "vma_start v = start" and "vma_end v = p_mmap_base q"
  shows "vmas_ok (q\<lparr>p_vma := (p_vma q)(i := v), p_mmap_base := start\<rparr>)"
proof -
  have b: "p_mmap_base q \<le> TRAPFRAME" using assms(1) by (simp add: vmas_ok_def)
  have o: "p_mmap_base q \<le> vma_start (p_vma q j)" "vma_start (p_vma q j) < vma_end (p_vma q j)" "vma_end (p_vma q j) \<le> TRAPFRAME"
    "page_aligned (vma_start (p_vma q j))" if "vma_valid (p_vma q j)" "j < NVMA" for j
    using assms(1) that by (simp_all add: vmas_ok_def)
  have le: "start \<le> vma_start (p_vma q j)" if "vma_valid (p_vma q j)" "j < NVMA" for j
    using o(1) [OF that] assms(3) by (meson less_imp_le order_trans)
  have "start \<le> TRAPFRAME" using b assms(3) by (meson less_imp_le order_trans)
  then show ?thesis
    using assms b o le unfolding vmas_ok_def by auto
qed

lemma mapped_fields:
  "procs (mapped p i f start fin prot flags offset s) p = (procs s p)\<lparr>p_vma := (p_vma (procs s p))(i := \<lparr>vma_valid = True,
     vma_start = start, vma_end = fin, vma_prot = prot, vma_flags = flags, vma_f = Some f, vma_offset = offset\<rparr>), p_mmap_base := start\<rparr>"
  "curproc (mapped p i f start fin prot flags offset s) = curproc s" "held (mapped p i f start fin prot flags offset s) = held s"
  "ftable (mapped p i f start fin prot flags offset s) = (ftable s)(f := (ftable s f)\<lparr>f_ref := f_ref (ftable s f) + 1\<rparr>)"
  by (simp_all add: mapped_def upd_proc_def upd_file_def)

subsection \<open>Properties\<close>

text \<open>C23: \<open>mmap\<close> with a descriptor in range of an open file and a positive length of at most \<open>2 ^ 31 - 4097\<close> (for
  which rounding it up to pages does not overflow an \<open>int\<close>), called with no lock held, returns without a panic
  and keeps the mappings of the process disjoint, page-aligned and between the heap and the trap frame: it either
  changes nothing and returns -1, or it takes a free VMA slot for the range from the returned address to the old
  \<open>mmap_base\<close> and counts one more reference to the file.\<close>

theorem mmap_keeps_vmas:
  assumes "curproc s = Some p" and "held s = []" and "0 \<le> fd" and "fd < int NOFILE" and "p_ofile (procs s p) (nat fd) = Some f"
    and "1 \<le> f_ref (ftable s f)" and "vmas_ok (procs s p)" and "0 < len" and "len \<le> 2 ^ 31 - 4097"
  shows "\<exists>r t. mmap_body len prot flags fd offset s = Ok r t \<and> vmas_ok (procs t p) \<and>
    (r = -1 \<and> t = s \<or>
     (\<exists>i<NVMA. \<not> vma_valid (p_vma (procs s p) i) \<and> p_mmap_base (procs t p) = r \<and>
        p_vma (procs t p) = (p_vma (procs s p))(i := \<lparr>vma_valid = True, vma_start = r, vma_end = p_mmap_base (procs s p),
          vma_prot = prot, vma_flags = flags, vma_f = Some f, vma_offset = offset\<rparr>) \<and>
        f_ref (ftable t f) = f_ref (ftable s f) + 1))"
proof -
  let ?q = "procs s p"
  let ?start = "PGROUNDDOWN (p_mmap_base ?q - pgup len)"
  have b: "page_aligned (p_mmap_base ?q)" "p_mmap_base ?q \<le> TRAPFRAME" using assms(7) by (simp_all add: vmas_ok_def)
  have "len + 4096 \<le> INT_MAX" using assms(9) by simp
  note run = mmap_body_run [OF assms(1-6) this, of prot flags offset, unfolded Let_def]
  show ?thesis
  proof (cases "mmap_body len prot flags fd offset s = Ok (-1) s")
    case True
    then show ?thesis using assms(7) by blast
  next
    case False
    then obtain i where i: "free_vma (p_vma ?q) [0..<NVMA] = Some i" "\<not> ?start < p_sz ?q" "\<not> ?start \<ge> TRAPFRAME"
      "mmap_body len prot flags fd offset s = Ok ?start (mapped p i f ?start (?start + pgup len) prot flags offset s)"
      using run by (auto split: if_splits option.splits)
    note r = mmap_range [OF assms(8,9) b i(3)]
    have fr: "i < NVMA" "\<not> vma_valid (p_vma ?q i)" using free_vma_Some [OF i(1)] by auto
    let ?t = "mapped p i f ?start (?start + pgup len) prot flags offset s"
    have "vmas_ok (procs ?t p)"
      unfolding mapped_fields by (rule vmas_ok_mapped [OF assms(7) fr(2) r(2,3)]) (use i(2) r(1) in auto)
    then show ?thesis using i(4) fr r(1) by (auto simp: mapped_fields)
  qed
qed

text \<open>A process with file 0 open for reading as descriptor 3.\<close>

definition mmap_boot :: ksys where
  "mmap_boot = upd_file 0 (\<lambda>x. x\<lparr>f_type := FD_INODE, f_ref := 1, f_readable := True, f_ip := Some 0\<rparr>)
     (upd_proc 0 (\<lambda>q. q\<lparr>p_ofile := (p_ofile q)(3 := Some 0), p_mmap_base := TRAPFRAME, p_sz := 0x4000\<rparr>)
       (kdev.extend typed_boot \<lparr>ticks = 0, first_fork = False\<rparr>))"

lemma mmap_boot_fields:
  "curproc mmap_boot = Some 0" "held mmap_boot = []" "p_ofile (procs mmap_boot 0) 3 = Some 0" "f_ref (ftable mmap_boot 0) = 1"
  "f_readable (ftable mmap_boot 0)" "p_mmap_base (procs mmap_boot 0) = TRAPFRAME" "p_sz (procs mmap_boot 0) = 0x4000"
  "\<not> vma_valid (p_vma (procs mmap_boot 0) i)"
  by (simp_all add: mmap_boot_def upd_proc_def upd_file_def kdev.defs typed_boot_def kfile.defs file_boot_fields blank_proc_def)

lemma mmap_boot_vmas: "vmas_ok (procs mmap_boot 0)"
  by (simp add: vmas_ok_def mmap_boot_fields)

theorem mmap_keeps_vmas_witness:
  "\<exists>t. mmap_body 5000 1 1 3 0 mmap_boot = Ok (TRAPFRAME - 0x2000) t \<and> vmas_ok (procs t 0)"
proof -
  have "\<exists>r t. mmap_body 5000 1 1 3 0 mmap_boot = Ok r t \<and> vmas_ok (procs t 0) \<and>
    (r = -1 \<and> t = mmap_boot \<or>
     (\<exists>i<NVMA. \<not> vma_valid (p_vma (procs mmap_boot 0) i) \<and> p_mmap_base (procs t 0) = r \<and>
        p_vma (procs t 0) = (p_vma (procs mmap_boot 0))(i := \<lparr>vma_valid = True, vma_start = r, vma_end = p_mmap_base (procs mmap_boot 0),
          vma_prot = 1, vma_flags = 1, vma_f = Some 0, vma_offset = 0\<rparr>) \<and>
        f_ref (ftable t 0) = f_ref (ftable mmap_boot 0) + 1))"
    by (rule mmap_keeps_vmas) (simp_all add: mmap_boot_fields mmap_boot_vmas)
  moreover have "\<exists>t. mmap_body 5000 1 1 3 0 mmap_boot = Ok (TRAPFRAME - 0x2000) t"
  proof -
    have "pgup 5000 = 0x2000" by code_simp
    moreover have "free_vma (p_vma (procs mmap_boot 0)) [0..<NVMA] = Some 0" by (simp add: upt_rec mmap_boot_fields)
    moreover have "PGROUNDDOWN (TRAPFRAME - 0x2000) = TRAPFRAME - 0x2000" by (simp add: word_unat_eq_iff unat_PGROUNDDOWN)
    ultimately show ?thesis
      using mmap_body_run [of mmap_boot 0 3 0 5000 1 1 0] by (simp add: mmap_boot_fields Let_def)
  qed
  ultimately show ?thesis by auto
qed

text \<open>C38: A negative length defeats the check for overlaps. In a process with disjoint mappings whose lowest
  mapping starts at \<open>mmap_base\<close>, more than a page below the trap frame, with two free VMA slots and an
  open readable file: \<open>mmap\<close> with length -4096 succeeds and raises \<open>mmap_base\<close> by a page, into or above that
  mapping, and the next \<open>mmap\<close> of one page returns the start of the lowest mapping, so that an address lies in two
  valid VMAs.\<close>

theorem mmap_negative_length_overlaps:
  assumes "curproc s = Some p" and "held s = []" and "0 \<le> fd" and "fd < int NOFILE" and "p_ofile (procs s p) (nat fd) = Some f"
    and "1 \<le> f_ref (ftable s f)" and "f_readable (ftable s f)" and "vmas_ok (procs s p)"
    and "j < NVMA" and "vma_valid (p_vma (procs s p) j)" and "vma_start (p_vma (procs s p) j) = p_mmap_base (procs s p)"
    and "p_mmap_base (procs s p) + 4096 < TRAPFRAME"
    and "free_vma (p_vma (procs s p)) [0..<NVMA] = Some i" and "k < NVMA" and "k \<noteq> i" and "\<not> vma_valid (p_vma (procs s p) k)"
  shows "\<exists>t u x. mmap_body (-4096) 1 1 fd 0 s = Ok (p_mmap_base (procs s p) + 4096) t \<and>
    mmap_body 4096 1 1 fd 0 t = Ok (p_mmap_base (procs s p)) u \<and> x \<noteq> j \<and> x < NVMA \<and>
    vma_valid (p_vma (procs u p) j) \<and> vma_valid (p_vma (procs u p) x) \<and>
    (\<exists>a. vma_start (p_vma (procs u p) j) \<le> a \<and> a < vma_end (p_vma (procs u p) j) \<and>
         vma_start (p_vma (procs u p) x) \<le> a \<and> a < vma_end (p_vma (procs u p) x))"
proof -
  let ?q = "procs s p"
  let ?b = "p_mmap_base ?q"
  have je: "?b < vma_end (p_vma ?q j)" using assms(8-11) unfolding vmas_ok_def by metis
  have b: "page_aligned ?b" "?b \<le> TRAPFRAME" "p_sz ?q \<le> ?b" using assms(8) by (simp_all add: vmas_ok_def)
  have pg: "pgup (-4096) = -4096" "pgup 4096 = 4096" by code_simp+
  have ub: "unat (?b + 4096) = unat ?b + 4096" using b(2) by (simp add: unat_word_ariths word_le_nat_alt)
  have up: "PGROUNDDOWN (?b + 4096) = ?b + 4096" "PGROUNDDOWN ?b = ?b"
    using b(1) by (simp_all add: word_unat_eq_iff [of "PGROUNDDOWN _"] unat_PGROUNDDOWN ub dvd_div_mult_self)
  have sz: "\<not> ?b + 4096 < p_sz ?q" using b(3) ub by (simp add: word_less_nat_alt word_le_nat_alt)
  have tf: "\<not> TRAPFRAME \<le> ?b + 4096" using assms(12) by (simp add: not_le)
  have tf2: "\<not> TRAPFRAME \<le> ?b" using assms(12) ub by (simp add: word_less_nat_alt word_le_nat_alt)
  let ?t = "mapped p i f (?b + 4096) ?b 1 1 0 s"
  have t: "mmap_body (-4096) 1 1 fd 0 s = Ok (?b + 4096) ?t"
    using mmap_body_run [OF assms(1-6), of "-4096" 1 1 0] assms(7,13) sz tf by (simp add: pg up Let_def)
  have ij: "i < NVMA" "i \<noteq> j" using free_vma_Some [OF assms(13)] assms(10) by auto
  have "\<not> vma_valid (p_vma (procs ?t p) k)" using assms(15,16) by (simp add: mapped_fields)
  then obtain x where x: "free_vma (p_vma (procs ?t p)) [0..<NVMA] = Some x"
    using free_vma_None [of "p_vma (procs ?t p)" "[0..<NVMA]" k] assms(14) by (cases "free_vma (p_vma (procs ?t p)) [0..<NVMA]") auto
  have xj: "x < NVMA" "x \<noteq> j" using free_vma_Some [OF x] assms(10) ij(2) by (auto simp: mapped_fields split: if_splits)
  let ?u = "mapped p x f ?b (?b + 4096) 1 1 0 ?t"
  have bt: "p_mmap_base (procs ?t p) - 4096 = ?b" "p_sz (procs ?t p) = p_sz ?q" by (simp_all add: mapped_fields)
  have "mmap_body 4096 1 1 fd 0 ?t = Ok ?b ?u"
    using mmap_body_run [of ?t p fd f 4096 1 1 0] assms(1-7) leD [OF b(3)] tf2 x unfolding Let_def pg bt up
    by (simp add: mapped_fields)
  moreover have "?b < ?b + 4096" using ub by (simp add: word_less_nat_alt)
  ultimately show ?thesis
    using t xj ij(2) assms(10,11) je
    by (intro exI [of _ ?t] exI [of _ ?u] exI [of _ x]) (auto simp: mapped_fields intro!: exI [of _ ?b])
qed

theorem mmap_negative_length_overlaps_witness:
  "\<exists>s t u x. mmap_body (-4096) 1 1 3 0 s = Ok 0x3FFFFFD000 t \<and> mmap_body 4096 1 1 3 0 t = Ok 0x3FFFFFC000 (u :: ksys) \<and>
    x \<noteq> 0 \<and> vma_valid (p_vma (procs u 0) 0) \<and> vma_valid (p_vma (procs u 0) x) \<and>
    (\<exists>a. vma_start (p_vma (procs u 0) 0) \<le> a \<and> a < vma_end (p_vma (procs u 0) 0) \<and>
         vma_start (p_vma (procs u 0) x) \<le> a \<and> a < vma_end (p_vma (procs u 0) x))"
proof -
  let ?s = "mapped 0 0 0 0x3FFFFFC000 TRAPFRAME 1 1 0 mmap_boot"
  have ok: "vmas_ok (procs ?s 0)" by (auto simp: vmas_ok_def mapped_fields mmap_boot_fields split: if_splits)
  have fr: "free_vma (p_vma (procs ?s 0)) [0..<NVMA] = Some 1" by (simp add: upt_rec mapped_fields mmap_boot_fields)
  have "\<exists>t u x. mmap_body (-4096) 1 1 3 0 ?s = Ok (p_mmap_base (procs ?s 0) + 4096) t \<and>
    mmap_body 4096 1 1 3 0 t = Ok (p_mmap_base (procs ?s 0)) u \<and> x \<noteq> 0 \<and> x < NVMA \<and>
    vma_valid (p_vma (procs u 0) 0) \<and> vma_valid (p_vma (procs u 0) x) \<and>
    (\<exists>a. vma_start (p_vma (procs u 0) 0) \<le> a \<and> a < vma_end (p_vma (procs u 0) 0) \<and>
         vma_start (p_vma (procs u 0) x) \<le> a \<and> a < vma_end (p_vma (procs u 0) x))"
    by (rule mmap_negative_length_overlaps [OF _ _ _ _ _ _ _ ok _ _ _ _ fr, of 3 0 0 2])
      (simp_all add: mapped_fields mmap_boot_fields)
  moreover have "p_mmap_base (procs ?s 0) = 0x3FFFFFC000" "(0x3FFFFFC000 :: u64) + 4096 = 0x3FFFFFD000"
    by (simp_all add: mapped_fields)
  ultimately show ?thesis by metis
qed

text \<open>C39: \<open>munmap\<close> of an address range without any mapping can raise \<open>mmap_base\<close> above the trap frame: in a
  process without mappings it succeeds for one page at \<open>TRAPFRAME\<close>, and the next \<open>mmap\<close> of two pages then
  covers the page of the trap frame.\<close>

theorem munmap_exposes_trapframe:
  assumes "curproc s = Some p" and "held s = []" and "0 \<le> fd" and "fd < int NOFILE" and "p_ofile (procs s p) (nat fd) = Some f"
    and "1 \<le> f_ref (ftable s f)" and "f_readable (ftable s f)" and "\<And>i. i < NVMA \<Longrightarrow> \<not> vma_valid (p_vma (procs s p) i)"
    and "p_mmap_base (procs s p) = TRAPFRAME" and "p_sz (procs s p) \<le> TRAPFRAME - 4096"
  shows "\<exists>t u. munmap_body TRAPFRAME 4096 s = Ok 0 t \<and> mmap_body 8192 1 1 fd 0 t = Ok (TRAPFRAME - 4096) u \<and>
    (\<exists>i<NVMA. vma_valid (p_vma (procs u p) i) \<and> vma_start (p_vma (procs u p) i) \<le> TRAPFRAME \<and>
       TRAPFRAME < vma_end (p_vma (procs u p) i))"
proof -
  let ?t = "upd_proc p (p_mmap_base_update (\<lambda>_. TRAPFRAME + 4096)) s"
  have loop: "munmap_loop p a l is s = Ok True s" if "set is \<subseteq> {..<NVMA}" for a l "is"
    using that assms(8) by (induction "is") (auto simp: Let_def)
  have "PGROUNDUP (TRAPFRAME + word_of_int 4096) = TRAPFRAME + 4096" by code_simp
  then have t: "munmap_body TRAPFRAME 4096 s = Ok 0 ?t"
    using assms(1,9) loop [of "[0..<NVMA]"] by (simp add: munmap_body_def myproc_def Let_def atLeast0LessThan)
  have fr: "free_vma (p_vma (procs ?t p)) [0..<NVMA] = Some 0" using assms(8) [of 0] by (simp add: upt_rec upd_proc_def)
  have pg: "pgup 8192 = 8192" "PGROUNDDOWN (TRAPFRAME + 4096 - 8192) = TRAPFRAME - 4096" by code_simp+
  let ?u = "mapped p 0 f (TRAPFRAME - 4096) (TRAPFRAME + 4096) 1 1 0 ?t"
  have f: "curproc ?t = curproc s" "held ?t = held s" "ftable ?t = ftable s" "p_ofile (procs ?t p) = p_ofile (procs s p)"
    "p_mmap_base (procs ?t p) = TRAPFRAME + 4096" "p_sz (procs ?t p) = p_sz (procs s p)"
    by (simp_all add: upd_proc_def)
  have "mmap_body 8192 1 1 fd 0 ?t = Ok (TRAPFRAME - 4096) ?u"
    using mmap_body_run [of ?t p fd f 8192 1 1 0] assms(1-7) leD [OF assms(10)] fr unfolding Let_def f pg by simp
  then show ?thesis using t by (intro exI [of _ ?t] exI [of _ ?u]) (auto simp: mapped_fields intro!: exI [of _ 0])
qed

theorem munmap_exposes_trapframe_witness:
  "\<exists>t u. munmap_body TRAPFRAME 4096 mmap_boot = Ok 0 t \<and> mmap_body 8192 1 1 3 0 t = Ok (TRAPFRAME - 4096) u"
  using munmap_exposes_trapframe [of mmap_boot 0 3 0] mmap_boot_fields by auto

end
