(* ===== verification/Sized.thy ===== *)
theory Sized
  imports Fs
begin

text \<open>
  Every block is a whole block: the type invariant behind \<open>uchar data[BSIZE]\<close>. In C an array has its
  size by its type; here a block is a list, and \<open>sized\<close> says that each list in the cache and on the
  disk has length \<open>BSIZE\<close>. Every operation of the cache, the log and the file system keeps it, from any
  state, whatever else it does, and accesses no block outside of its \<open>BSIZE\<close> bytes: no result is \<open>Oob\<close>. The rules in \<open>sized\<close> follow the structure of the definitions.
\<close>

named_theorems sized \<open>operations keep the size of blocks\<close>

definition sized :: "'a kbio_scheme \<Rightarrow> bool" where
  "sized s \<longleftrightarrow> (\<forall>i. length (b_data (bufs s i)) = BSIZE) \<and> (\<forall>n. length (disk s n) = BSIZE)"

abbreviation okS :: "('a kbio_scheme, 'b) res \<Rightarrow> bool" where "okS \<equiv> res_all sized"

lemmas okS_kbind_eq = res_all_kbind_eq [of sized] and okS_kbind = res_all_kbind [of sized]

lemma sized_cong: "bufs t = bufs s \<Longrightarrow> disk t = disk s \<Longrightarrow> sized t \<longleftrightarrow> sized s"
  by (simp add: sized_def)

lemma sized_upd [simp]:
  "sized (s\<lparr>held := h\<rparr>) = sized s" "sized (s\<lparr>procs := P\<rparr>) = sized s" "sized (upd_proc p f s) = sized s" "sized (s\<lparr>uart_out := z\<rparr>) = sized s"
  by (simp_all add: sized_def upd_proc_def)

lemma sized_fs_upd [simp]:
  "sized (upd_lg g l) = sized l" "sized (upd_lh e l) = sized l" "sized (upd_inode i f m) = sized m" "sized (m\<lparr>sb := b\<rparr>) = sized m"
  by (simp_all add: sized_def upd_lg_def upd_lh_def upd_inode_def)

lemma sized_upd_buf:
  assumes "sized s" and "\<And>d. length (b_data d) = BSIZE \<Longrightarrow> length (b_data (f d)) = BSIZE"
  shows "sized (upd_buf b f s)"
  using assms by (simp add: sized_def upd_buf_def)

lemma okS_acquire [sized]: "sized s \<Longrightarrow> okS (acquire l s)"
  by (simp add: acquire_def)

lemma okS_release [sized]: "sized s \<Longrightarrow> okS (release l s)"
  by (simp add: release_def)

lemma okS_myproc [sized]: "sized s \<Longrightarrow> okS (myproc s)"
  by (simp add: myproc_def split: option.splits)

lemma okS_sched [sized]: "sized s \<Longrightarrow> okS (sched s)"
  by (auto simp: sched_def intro!: okS_kbind sized)

lemma okS_sleep [sized]: "sized s \<Longrightarrow> okS (sleep c l s)"
  by (auto simp: sleep_def Let_def intro!: okS_kbind sized)

lemma okS_wakeup_loop [sized]: "sized s \<Longrightarrow> okS (wakeup_loop c ps s)"
  by (induction ps arbitrary: s) (auto simp: Let_def intro!: okS_kbind sized)

lemma okS_wakeup [sized]: "sized s \<Longrightarrow> okS (wakeup c s)"
  by (simp add: wakeup_def sized)

lemma sized_consputc [simp]: "sized (Printf.consputc c s) = sized s"
  by (simp add: Printf.consputc_def uartputc_sync_def)

lemma sized_putbuf [simp]: "sized (putbuf bs s) = sized s"
  by (induction bs arbitrary: s) (simp_all add: putbuf_def)

lemma sized_printptr_loop [simp]: "sized (printptr_loop n x s) = sized s"
  by (induction n arbitrary: x s) simp_all

lemma okS_conv_int [sized]: "sized s \<Longrightarrow> okS (conv_int k cast base sign ap s)"
  by (auto simp: conv_int_def printint_def Let_def intro!: okS_kbind split: option.splits)

lemma okS_printf_conv [sized]: "sized s \<Longrightarrow> okS (printf_conv c0 c1 c2 ap s)"
  by (simp add: printf_conv_def printptr_def sized split: option.splits list.splits parg.splits)

lemma okS_printf_loop [sized]: "sized s \<Longrightarrow> okS (printf_loop fmt ap s)"
proof (induction "length fmt" arbitrary: fmt ap s rule: less_induct)
  case less
  then show ?case
    by (subst printf_loop.simps) (auto simp: Let_def intro!: okS_kbind sized split: list.splits)
qed

lemma okS_printf [sized]: "sized s \<Longrightarrow> okS (printf fmt ap s)"
  by (auto simp: printf_def intro!: okS_kbind sized)

lemma okS_acquiresleep [sized]:
  "sized s \<Longrightarrow> (\<And>l t. sized t \<Longrightarrow> sized (put l t)) \<Longrightarrow> okS (acquiresleep c get put s)"
  by (auto simp: acquiresleep_def Let_def intro!: okS_kbind sized)

lemma okS_releasesleep [sized]:
  "sized s \<Longrightarrow> (\<And>l t. sized t \<Longrightarrow> sized (put l t)) \<Longrightarrow> okS (releasesleep c put s)"
  by (auto simp: releasesleep_def Let_def intro!: okS_kbind sized)

lemma okS_holdingsleep [sized]: "sized s \<Longrightarrow> okS (holdingsleep c get s)"
  by (auto simp: holdingsleep_def Let_def intro!: okS_kbind sized)

lemma sized_set_buf_lock [simp]: "sized s \<Longrightarrow> sized (set_buf_lock b l s)"
  by (simp add: set_buf_lock_def sized_upd_buf)

lemma sized_set_inode_lock [simp]: "sized (set_inode_lock i l s) = sized s"
  by (simp add: set_inode_lock_def)

subsection \<open>The cache and the log\<close>

lemma okS_bget [sized]: "sized s \<Longrightarrow> okS (bget dev n s)"
  by (auto simp: bget_def Let_def intro!: okS_kbind sized sized_upd_buf split: option.splits)

lemma sized_disk_rw [simp]: "sized s \<Longrightarrow> sized (disk_rw b w s)"
  by (simp add: sized_def disk_rw_def upd_buf_def)

lemma okS_bread [sized]: "sized s \<Longrightarrow> okS (bread dev n s)"
  by (auto simp: bread_def intro!: okS_kbind sized sized_upd_buf)

lemma okS_bwrite [sized]: "sized s \<Longrightarrow> okS (bwrite b s)"
  by (auto simp: bwrite_def intro!: okS_kbind sized)

lemma sized_relink: "sized s \<Longrightarrow> sized (s\<lparr>bufs := link_front b (unlink b (bufs s))\<rparr>)"
  using same_data_link_front same_data_unlink unfolding sized_def same_data_def by simp

lemma okS_brelse [sized]: "sized s \<Longrightarrow> okS (brelse b s)"
  by (auto simp: brelse_def Let_def intro!: okS_kbind sized sized_upd_buf sized_relink)

lemma okS_bpin [sized]: "sized s \<Longrightarrow> okS (bpin b s)"
  by (auto simp: bpin_def intro!: okS_kbind sized sized_upd_buf)

lemma okS_bunpin [sized]: "sized s \<Longrightarrow> okS (bunpin b s)"
  by (auto simp: bunpin_def intro!: okS_kbind sized sized_upd_buf)

lemma okS_log_write [sized]: "sized s \<Longrightarrow> okS (log_write b s)"
  by (auto simp: log_write_def Let_def intro!: okS_kbind sized)

lemma okS_install_block [sized]: "sized s \<Longrightarrow> okS (install_block r tail s)"
  by (auto simp: install_block_def Let_def intro!: okS_kbind sized sized_upd_buf) (simp_all add: sized_def)

lemma okS_recovery_message [sized]: "sized s \<Longrightarrow> okS (recovery_message r tail s)"
  by (auto simp: recovery_message_def intro!: sized)

lemma okS_install_trans_loop [sized]: "sized s \<Longrightarrow> okS (install_trans_loop r tails s)"
  by (induction tails arbitrary: s) (auto intro!: okS_kbind sized)

lemma okS_install_trans [sized]: "sized s \<Longrightarrow> okS (install_trans r s)"
  by (simp add: install_trans_def sized)

lemma okS_read_head_loop [sized]: "sized s \<Longrightarrow> okS (read_head_loop d is s)"
  by (induction "is" arbitrary: s) auto

lemma okS_read_head [sized]: "sized s \<Longrightarrow> okS (read_head s)"
  by (auto simp: read_head_def Let_def intro!: okS_kbind sized)

lemma length_write_head_loop:
  "\<forall>i \<in> set is. i < LOGBLOCKS \<Longrightarrow> length d = BSIZE \<Longrightarrow> length (write_head_loop bl is d) = BSIZE"
  by (induction "is" arbitrary: d) auto

lemma okS_write_head [sized]: "sized s \<Longrightarrow> okS (write_head s)"
  by (auto simp: write_head_def Let_def intro!: okS_kbind sized sized_upd_buf length_write_head_loop) arith

lemma okS_recover_from_log [sized]: "sized s \<Longrightarrow> okS (recover_from_log s)"
  by (auto simp: recover_from_log_def Let_def intro!: okS_kbind sized)

lemma okS_initlog [sized]: "sized s \<Longrightarrow> okS (initlog dev start s)"
  by (simp add: initlog_def sized)

lemma okS_begin_op [sized]: "sized s \<Longrightarrow> okS (begin_op s)"
  by (auto simp: begin_op_def intro!: okS_kbind sized)

lemma okS_write_log_loop [sized]: "sized s \<Longrightarrow> okS (write_log_loop tails s)"
proof (induction tails arbitrary: s)
  case (Cons a tails)
  then show ?case by (auto simp: Let_def intro!: okS_kbind sized sized_upd_buf) (simp_all add: sized_def)
qed simp

lemma okS_write_log [sized]: "sized s \<Longrightarrow> okS (write_log s)"
  by (simp add: write_log_def sized)

lemma okS_commit [sized]: "sized s \<Longrightarrow> okS (commit s)"
  by (auto simp: commit_def Let_def intro!: okS_kbind sized)

lemma okS_end_op [sized]: "sized s \<Longrightarrow> okS (end_op s)"
  by (auto simp: end_op_def Let_def intro!: okS_kbind sized)

subsection \<open>The file system\<close>

lemma okS_bdata_read [sized]: "off + n \<le> BSIZE \<Longrightarrow> sized s \<Longrightarrow> okS (bdata_read n get b off s)"
  by simp

lemma okS_bdata_write [sized]:
  "off + n \<le> BSIZE \<Longrightarrow> sized s \<Longrightarrow> (\<And>d. length d = BSIZE \<Longrightarrow> length (put d off) = BSIZE) \<Longrightarrow>
   okS (bdata_write n put b off s)"
  by (simp add: sized_upd_buf)

lemma bit_byte_in: "bi < BPB \<Longrightarrow> bi div 8 + 1 \<le> BSIZE"
  by (simp add: Suc_le_eq less_mult_imp_div_less)

lemma okS_readsb [sized]: "sized s \<Longrightarrow> okS (readsb dev s)"
  by (auto simp: readsb_def Let_def intro!: okS_kbind sized)

lemma okS_bzero [sized]: "sized s \<Longrightarrow> okS (bzero dev n s)"
  by (auto simp: bzero_def Let_def intro!: okS_kbind sized sized_upd_buf)

lemma okS_balloc_scan [sized]:
  "\<forall>bi\<in>set bis. bi < BPB \<Longrightarrow> sized s \<Longrightarrow> okS (balloc_scan bp b fsz bis s)"
  by (induction bis arbitrary: s) (simp_all add: Suc_le_eq less_mult_imp_div_less)

lemma balloc_scan_in: "balloc_scan bp b fsz bis s = Ok (Some bi) t \<Longrightarrow> bi \<in> set bis"
  by (induction bis arbitrary: s) (auto simp: res_iff split: if_splits)

lemma okS_balloc_loop [sized]:
  fixes s :: "'a kfs_scheme"
  shows "sized s \<Longrightarrow> okS (balloc_loop dev bs s)"
proof (induction bs arbitrary: s)
  case (Cons b bs)
  have "okS (case found of
       Some bi \<Rightarrow>
         kbind (bdata_write 1 (\<lambda>d k. d[k := d ! k OR bit_mask bi]) bp (bi div 8) t) (\<lambda>_ s.
         kbind (log_write bp s) (\<lambda>_ s.
         kbind (brelse bp s) (\<lambda>_ s.
         kbind (bzero dev (of_nat (b + bi)) s) (\<lambda>_ s. Ok (of_nat (b + bi)) s))))
     | None \<Rightarrow> kbind (brelse bp t) (\<lambda>_ s. balloc_loop dev bs s))"
    if "balloc_scan bp b fsz [0..<BPB] u = Ok found t" "sized t" for found bp fsz and t u :: "'a kfs_scheme"
  proof (cases found)
    case None
    then show ?thesis using that(2) Cons.IH by (auto intro!: okS_kbind sized)
  next
    case (Some bi)
    then have "bi < BPB" using balloc_scan_in that(1) by fastforce
    then show ?thesis using Some that(2) by (auto simp: bit_byte_in intro!: okS_kbind sized sized_upd_buf)
  qed
  then show ?case using Cons.prems
    unfolding balloc_loop.simps by (intro okS_kbind okS_kbind_eq okS_bread okS_balloc_scan) auto
qed (auto intro!: okS_kbind sized)

lemma okS_balloc [sized]: "sized s \<Longrightarrow> okS (balloc dev s)"
  by (simp add: balloc_def sized)

lemma okS_bfree [sized]: "sized s \<Longrightarrow> okS (bfree dev b s)"
  by (auto simp: bfree_def Let_def bit_byte_in simp del: bdata_read_inside bdata_write_inside intro!: okS_kbind sized)

lemma okS_iget [sized]: "sized s \<Longrightarrow> okS (iget dev inum s)"
  by (auto simp: iget_def Let_def intro!: okS_kbind sized split: prod.splits option.splits)

lemma okS_ialloc_loop [sized]: "sized s \<Longrightarrow> okS (ialloc_loop dev type ns s)"
proof (induction ns arbitrary: s)
  case (Cons n ns)
  have o: "dip_off (of_nat n) + 64 \<le> BSIZE" "dip_off (of_nat n) + 2 \<le> BSIZE" by (rule dip_off_le dip_off_le2)+
  show ?case using Cons o by (auto simp: Let_def intro!: okS_kbind sized sized_upd_buf)
qed (auto intro!: okS_kbind sized)

lemma okS_ialloc [sized]: "sized s \<Longrightarrow> okS (ialloc dev type s)"
  by (simp add: ialloc_def sized)

lemma length_put_dinode: "off + 64 \<le> length d \<Longrightarrow> length (put_dinode ip off d) = length d"
  by (simp add: put_dinode_def Let_def length_put_addrs del: upt_Suc)

lemma okS_iupdate [sized]: "sized s \<Longrightarrow> okS (iupdate i s)"
  using dip_off_le by (auto simp: iupdate_def Let_def length_put_dinode intro!: okS_kbind sized sized_upd_buf)

lemma okS_idup [sized]: "sized s \<Longrightarrow> okS (idup i s)"
  by (auto simp: idup_def Let_def intro!: okS_kbind sized)

lemma okS_ilock [sized]: "sized s \<Longrightarrow> okS (ilock i s)"
  by (auto simp: ilock_def Let_def intro!: okS_kbind sized)

lemma okS_iunlock [sized]: "sized s \<Longrightarrow> okS (iunlock i s)"
  by (auto simp: iunlock_def Let_def intro!: okS_kbind sized)

lemma okS_itrunc_direct [sized]: "sized s \<Longrightarrow> okS (itrunc_direct i ks s)"
  by (induction ks arbitrary: s) (auto intro!: okS_kbind sized)

lemma okS_itrunc_indirect [sized]:
  "\<forall>j\<in>set js. j < NINDIRECT \<Longrightarrow> sized s \<Longrightarrow> okS (itrunc_indirect i bp js s)"
  by (induction js arbitrary: s) (auto intro!: okS_kbind sized)

lemma okS_itrunc [sized]: "sized s \<Longrightarrow> okS (itrunc i s)"
  by (auto simp: itrunc_def simp del: upt_Suc intro!: okS_kbind sized)

lemma okS_iput [sized]: "sized s \<Longrightarrow> okS (iput i s)"
  by (auto simp: iput_def intro!: okS_kbind sized)

lemma okS_iunlockput [sized]: "sized s \<Longrightarrow> okS (iunlockput i s)"
  by (auto simp: iunlockput_def intro!: okS_kbind sized)

lemma okS_ireclaim_loop [sized]: "sized s \<Longrightarrow> okS (ireclaim_loop dev ns s)"
  by (induction ns arbitrary: s) (auto simp: Let_def intro!: okS_kbind sized split: option.splits)

lemma okS_ireclaim [sized]: "sized s \<Longrightarrow> okS (ireclaim dev s)"
  by (simp add: ireclaim_def sized)

lemma okS_fsinit [sized]: "sized s \<Longrightarrow> okS (fsinit dev s)"
  by (auto simp: fsinit_def intro!: okS_kbind sized)

lemma okS_bmap [sized]: "sized s \<Longrightarrow> okS (bmap i bn s)"
  by (auto simp: bmap_def Let_def intro!: okS_kbind sized sized_upd_buf)

text \<open>
  Reading and writing take the copy routine as a parameter: it must keep the invariant itself, and
  on writing it must not deliver more bytes than it is asked for.
\<close>

declare readi_loop.simps [simp del] writei_loop.simps [simp del] namex_loop.simps [simp del]

lemma within_block:
  fixes off k :: u32
  assumes "a \<le> unat (min k (1024 - off mod 1024))"
  shows "unat (off mod 1024) + a \<le> BSIZE"
proof -
  have "off mod 1024 < 1024" by (simp add: word_mod_less_divisor)
  then have m: "unat (1024 - off mod 1024) = unat (1024 :: u32) - unat (off mod 1024)"
    by (intro unat_sub) simp
  have "unat (off mod 1024) < unat (1024 :: u32)" using \<open>off mod 1024 < 1024\<close> by (simp only: word_less_nat_alt)
  note m this
  moreover have "unat (min k (1024 - off mod 1024)) \<le> unat (1024 - off mod 1024)"
    by (simp add: word_le_nat_alt [symmetric])
  ultimately show ?thesis using assms by simp
qed

lemma okS_readi_loop:
  assumes co: "\<And>dst bs l s. sized s \<Longrightarrow> okS (co dst bs l s)"
  shows "sized s \<Longrightarrow> okS (readi_loop co i dst off n tot l s)"
proof (induction "unat (n - tot)" arbitrary: dst off tot l s rule: less_induct)
  case less
  have ih: "okS (readi_loop co i dst' (off + m) n (tot + m) l' t)"
    if "tot < n" "m = min (n - tot) (1024 - off mod 1024)" "sized t" for dst' m l' t
    using less(1) readi_step_measure [OF that(1)] that(2,3) by simp
  show ?case
    by (subst readi_loop.simps)
      (auto simp: Let_def less(2) simp del: bdata_read_inside intro!: okS_kbind sized co ih within_block [OF order_refl])
qed

lemma okS_readi [sized]:
  assumes "\<And>dst bs l s. sized s \<Longrightarrow> okS (co dst bs l s)"
  shows "sized s \<Longrightarrow> okS (readi co i dst off n l s)"
  using assms by (auto simp: readi_def Let_def intro!: okS_kbind okS_readi_loop)

lemma okS_writei_loop:
  assumes ci: "\<And>src m s. sized s \<Longrightarrow> okS (ci src m s)"
    and len: "\<And>src m s x t. ci src m s = Ok x t \<Longrightarrow> length (fst x) \<le> m"
  shows "sized s \<Longrightarrow> okS (writei_loop ci i src off n tot s)"
proof (induction "unat (n - tot)" arbitrary: src off tot s rule: less_induct)
  case less
  let ?m = "min (n - tot) (1024 - off mod 1024)"
  have ih: "okS (writei_loop ci i src' (off + ?m) n (tot + ?m) t)" if "tot < n" "sized t" for src' t
    using less(1) readi_step_measure [OF that(1)] that(2) by simp
  have put: "okS (bdata_write (length a) (\<lambda>d k. putb d k a) bp (unat (off mod 1024)) t)"
    if "ci src (unat ?m) u = Ok (a, b) t" "sized t" for bp t u a b
    using that len [OF that(1)] by (intro okS_bdata_write) (simp_all add: within_block)
  show ?case
    by (subst writei_loop.simps)
      (auto simp: Let_def less(2) simp del: bdata_write_inside intro!: okS_kbind_eq sized ci ih put)
qed

lemma okS_writei:
  assumes ci: "\<And>src m s. sized s \<Longrightarrow> okS (ci src m s)"
    and len: "\<And>src m s x t. ci src m s = Ok x t \<Longrightarrow> length (fst x) \<le> m"
  shows "sized s \<Longrightarrow> okS (writei ci i src off n s)"
  by (auto simp: writei_def Let_def intro!: okS_kbind okS_writei_loop [OF ci len] sized)

lemma okS_readi_local [sized]: "sized s \<Longrightarrow> okS (readi copy_to_local i dst off n l s)"
  by (rule okS_readi) (simp_all add: copy_to_local_def)

lemma okS_writei_local [sized]: "sized s \<Longrightarrow> okS (writei (copy_from_local d) i src off n s)"
  by (rule okS_writei) (auto simp: copy_from_local_def length_getb)

lemma okS_dirlookup_loop [sized]: "sized s \<Longrightarrow> okS (dirlookup_loop dp name offs s)"
  by (induction offs arbitrary: s) (auto intro!: okS_kbind sized)

lemma okS_dirlookup [sized]: "sized s \<Longrightarrow> okS (dirlookup dp name s)"
  by (simp add: dirlookup_def sized)

lemma okS_dirlink_scan [sized]: "sized s \<Longrightarrow> okS (dirlink_scan dp offs lim s)"
  by (induction offs arbitrary: s) (auto intro!: okS_kbind sized)

lemma okS_dirlink [sized]: "sized s \<Longrightarrow> okS (dirlink dp name inum s)"
  by (auto simp: dirlink_def Let_def intro!: okS_kbind sized split: option.splits)

lemma okS_namex_loop [sized]:
  fixes s :: "'a kfs_scheme"
  shows "sized s \<Longrightarrow> okS (namex_loop path n np off name ip s)"
proof (induction "n - off" arbitrary: np off name ip s rule: less_induct)
  case less
  have ih: "okS (namex_loop path n np' a b ip' t)"
    if "skipelem path n off name = Some (Some (a, b))" "sized t" for a b ip' np' and t :: "'a kfs_scheme"
    using less(1) [of a t np' b ip'] skipelem_advances [OF that(1)] that(2) by (simp add: diff_less_mono2)
  show ?case
    by (subst namex_loop.simps) (auto simp: less(2) intro!: okS_kbind sized ih split: option.splits)
qed

lemma okS_namex [sized]: "sized s \<Longrightarrow> okS (namex path n np name s)"
  by (auto simp: namex_def intro!: okS_kbind sized split: option.splits)

end
