(* ===== verification/Sizedvm.thy ===== *)
theory Sizedvm
  imports Sized Procsys
begin

text \<open>
  The size of blocks is kept by user memory, pipes, the console, open files and processes: the rules
  of \<open>sized\<close> for the layers above the file system, in the order of the theories that define them.
\<close>

subsection \<open>Memory\<close>

lemma sized_mem_upd [simp]:
  "sized (s\<lparr>mem := m\<rparr>) = sized s" "sized (s\<lparr>freelist := a\<rparr>) = sized s"
  by (simp_all add: sized_def)

lemma sized_proc_upd [simp]:
  "sized (s\<lparr>nextpid := n\<rparr>) = sized s" "sized (s\<lparr>initproc := p\<rparr>) = sized s" "sized (s\<lparr>curproc := p\<rparr>) = sized s"
  by (simp_all add: sized_def)

lemma okS_kalloc [sized]: "sized s \<Longrightarrow> okS (kalloc s)"
  by (auto simp: kalloc_def Let_def intro!: okS_kbind sized)

lemma okS_kfree [sized]: "sized s \<Longrightarrow> okS (kfree pa s)"
  by (auto simp: kfree_def Let_def intro!: okS_kbind sized)

lemma okS_walk_loop [sized]: "sized s \<Longrightarrow> okS (walk_loop l pt va alloc s)"
  by (induction l arbitrary: pt s) (auto simp: Let_def intro!: okS_kbind sized)

lemma okS_walk [sized]: "sized s \<Longrightarrow> okS (walk pt va alloc s)"
  by (simp add: walk_def sized)

lemma okS_walkaddr [sized]: "sized s \<Longrightarrow> okS (walkaddr pt va s)"
  by (auto simp: walkaddr_def Let_def intro!: okS_kbind sized)

lemma okS_ismapped [sized]: "sized s \<Longrightarrow> okS (ismapped pt va s)"
  by (auto simp: ismapped_def Let_def intro!: okS_kbind sized)

text \<open>A loop over pages makes progress because \<open>walk\<close> only returns below \<open>MAXVA\<close>.\<close>

lemma page_loop_induct:
  assumes "\<And>a. (\<And>b. a < MAXVA \<Longrightarrow> b = a + PGSIZE \<Longrightarrow> P b) \<Longrightarrow> P a"
  shows "P (a :: u64)"
proof (induction "2 ^ 39 - unat a" arbitrary: a rule: less_induct)
  case less
  show ?case by (rule assms) (use less page_step_measure in blast)
qed

lemma okS_mappages_loop [sized]: "sized s \<Longrightarrow> okS (mappages_loop pt a lst pa perm s)"
proof (induction a arbitrary: pa s rule: page_loop_induct)
  case (1 a)
  show ?case
    by (subst mappages_loop.simps) (auto simp: Let_def intro!: okS_kbind_eq sized 1 dest!: walk_Ok_lt)
qed

lemma okS_mappages [sized]: "sized s \<Longrightarrow> okS (mappages pt va sz pa perm s)"
  by (simp add: mappages_def sized)

lemma okS_uvmcreate [sized]: "sized s \<Longrightarrow> okS (uvmcreate s)"
  by (auto simp: uvmcreate_def intro!: okS_kbind sized)

lemma okS_uvmunmap_loop [sized]: "sized s \<Longrightarrow> okS (uvmunmap_loop pt a lim fr s)"
proof (induction a arbitrary: fr s rule: page_loop_induct)
  case (1 a)
  show ?case
    by (subst uvmunmap_loop.simps) (auto simp: Let_def intro!: okS_kbind_eq sized 1 dest!: walk_Ok_lt)
qed

lemma okS_uvmunmap [sized]: "sized s \<Longrightarrow> okS (uvmunmap pt va n fr s)"
  by (simp add: uvmunmap_def sized)

lemma okS_uvmdealloc [sized]: "sized s \<Longrightarrow> okS (uvmdealloc pt a b s)"
  by (auto simp: uvmdealloc_def Let_def intro!: okS_kbind sized)

lemma okS_uvmalloc_loop [sized]: "sized s \<Longrightarrow> okS (uvmalloc_loop pt old new perm a s)"
proof (induction a arbitrary: s rule: page_loop_induct)
  case (1 a)
  show ?case
    by (subst uvmalloc_loop.simps) (auto simp: Let_def intro!: okS_kbind_eq sized 1 dest!: mappages_Ok_lt)
qed

lemma okS_uvmalloc [sized]: "sized s \<Longrightarrow> okS (uvmalloc pt old new perm s)"
  by (simp add: uvmalloc_def Let_def sized)

lemma okS_freewalk_loop:
  assumes "\<And>pa s. sized s \<Longrightarrow> okS (rec pa s)"
  shows "sized s \<Longrightarrow> okS (freewalk_loop rec pt is s)"
  by (induction "is" arbitrary: s) (auto simp: freewalk_entry_def Let_def intro!: okS_kbind assms)

lemma okS_freewalk [sized]: "sized s \<Longrightarrow> okS (freewalk d pt s)"
  by (induction d arbitrary: pt s) (auto intro!: okS_kbind okS_freewalk_loop sized)

lemma okS_uvmfree [sized]: "sized s \<Longrightarrow> okS (uvmfree pt sz s)"
  by (auto simp: uvmfree_def intro!: okS_kbind sized)

lemma okS_uvmcopy_err [sized]: "sized s \<Longrightarrow> okS (uvmcopy_err new i s)"
  by (auto simp: uvmcopy_err_def intro!: okS_kbind sized)

lemma okS_uvmcopy_loop [sized]: "sized s \<Longrightarrow> okS (uvmcopy_loop old new sz i s)"
proof (induction i arbitrary: s rule: page_loop_induct)
  case (1 i)
  show ?case
    by (subst uvmcopy_loop.simps) (auto simp: Let_def intro!: okS_kbind_eq sized 1 dest!: walk_Ok_lt)
qed

lemma okS_uvmcopy [sized]: "sized s \<Longrightarrow> okS (uvmcopy old new sz s)"
  by (simp add: uvmcopy_def sized)

lemma okS_uvmclear [sized]: "sized s \<Longrightarrow> okS (uvmclear pt va s)"
  by (auto simp: uvmclear_def intro!: okS_kbind sized)

subsection \<open>Page faults and copying\<close>

lemma okS_readi_kernel [sized]: "sized s \<Longrightarrow> okS (readi copy_to_kernel i dst off n l s)"
  by (rule okS_readi) (simp_all add: copy_to_kernel_def)

lemma okS_vmfault [sized]: "sized s \<Longrightarrow> okS (vmfault pt va r s)"
  by (auto simp: vmfault_def Let_def intro!: okS_kbind sized split: option.splits)

lemma okS_copyout [sized]: "sized s \<Longrightarrow> okS (copyout pt va src s)"
proof (induction "length src" arbitrary: va src s rule: less_induct)
  case less
  then show ?case
    by (subst copyout.simps) (auto simp: Let_def page_rest_pos intro!: okS_kbind sized)
qed

lemma okS_copyin [sized]: "sized s \<Longrightarrow> okS (copyin pt va n s)"
proof (induction n arbitrary: va s rule: less_induct)
  case (less n)
  then show ?case
    by (subst copyin.simps) (auto simp: Let_def page_rest_pos intro!: okS_kbind sized)
qed

lemma okS_copyinstr [sized]: "sized s \<Longrightarrow> okS (copyinstr pt va n s)"
proof (induction n arbitrary: va s rule: less_induct)
  case (less n)
  then show ?case
    by (subst copyinstr.simps) (auto simp: Let_def page_rest_pos intro!: okS_kbind sized)
qed

lemma okS_either_copyout [sized]: "sized s \<Longrightarrow> okS (either_copyout u dst src s)"
  by (auto simp: either_copyout_def copy_to_kernel_def intro!: okS_kbind sized)

lemma okS_either_copyin [sized]: "sized s \<Longrightarrow> okS (either_copyin u src n s)"
  by (auto simp: either_copyin_def intro!: okS_kbind sized)

text \<open>\<open>copyin\<close> never delivers more than it is asked for.\<close>

lemma length_copyin:
  fixes s :: "'a kfile_scheme"
  shows "copyin pt va n s = Ok x t \<Longrightarrow> length (fst x) \<le> n"
proof (induction n arbitrary: va s x t rule: less_induct)
  case (less n)
  show ?case
  proof (cases "n = 0")
    case True then show ?thesis using less.prems by (auto simp: copyin.simps [of _ _ 0])
  next
    case False
    have le: "page_rest va n \<le> n" by (simp add: page_rest_def)
    have ih: "length (fst y) \<le> n - page_rest va n"
      if "copyin pt (PGROUNDDOWN va + PGSIZE) (n - page_rest va n) u = Ok y w" for y and u w :: "'a kfile_scheme"
      using less.IH [OF _ that] page_rest_pos [of n va] False by simp
    show ?thesis
      using less.prems le False by (subst (asm) copyin.simps) (auto simp: Let_def res_iff dest!: ih split: if_splits)
  qed
qed

lemma okS_readi_user [sized]: "sized s \<Longrightarrow> okS (readi copy_to_user i dst off n l s)"
  by (rule okS_readi) (auto simp: copy_to_user_def intro!: okS_kbind sized)

lemma length_copy_from_user: "copy_from_user src m s = Ok x t \<Longrightarrow> length (fst x) \<le> m"
  unfolding copy_from_user_def either_copyin_def by (auto simp: res_iff dest: length_copyin)

lemma okS_writei_user [sized]: "sized s \<Longrightarrow> okS (writei copy_from_user i src off n s)"
  by (rule okS_writei) (auto simp: copy_from_user_def sized dest: length_copy_from_user [unfolded copy_from_user_def])

subsection \<open>Pipes, the console and open files\<close>

lemma sized_file_upd [simp]: "sized (upd_file f g s) = sized s" "sized (upd_pipe pi h s) = sized s"
  by (simp_all add: sized_def upd_file_def upd_pipe_def)

lemma sized_dev_upd [simp]:
  "sized (upd_cons f s) = sized s" "sized (s\<lparr>uart_out := w, tx_busy := b\<rparr>) = sized s"
  by (simp_all add: sized_def upd_cons_def)

lemma okS_killed [sized]: "sized s \<Longrightarrow> okS (killed p s)"
  by (auto simp: killed_def Let_def intro!: okS_kbind sized)

lemma okS_pipeclose [sized]: "sized s \<Longrightarrow> okS (pipeclose pi w s)"
  by (auto simp: pipeclose_def intro!: okS_kbind sized)

lemma okS_pipewrite_loop [sized]: "sized s \<Longrightarrow> okS (pipewrite_loop pi addr n i s)"
proof (induction "nat (n - int i)" arbitrary: i s rule: less_induct)
  case less
  then show ?case by (subst pipewrite_loop.simps) (auto intro!: okS_kbind sized)
qed

lemma okS_pipewrite [sized]: "sized s \<Longrightarrow> okS (pipewrite pi addr n s)"
  by (auto simp: pipewrite_def intro!: okS_kbind sized)

lemma okS_piperead_loop [sized]: "sized s \<Longrightarrow> okS (piperead_loop pi addr n i s)"
proof (induction "nat (n - int i)" arbitrary: i s rule: less_induct)
  case less
  then show ?case by (subst piperead_loop.simps) (auto simp: Let_def intro!: okS_kbind sized)
qed

lemma okS_piperead [sized]: "sized s \<Longrightarrow> okS (piperead pi addr n s)"
  by (auto simp: piperead_def intro!: okS_kbind sized)

lemma okS_uartwrite_loop [sized]: "sized s \<Longrightarrow> okS (uartwrite_loop bs s)"
  by (induction bs arbitrary: s) (auto intro!: sized)

lemma okS_uartwrite [sized]: "sized s \<Longrightarrow> okS (uartwrite bs s)"
  by (auto simp: uartwrite_def intro!: okS_kbind sized)

lemma okS_consolewrite_loop [sized]: "sized s \<Longrightarrow> okS (consolewrite_loop u src n i s)"
proof (induction "nat (n - i)" arbitrary: i s rule: less_induct)
  case less
  then show ?case by (subst consolewrite_loop.simps) (auto simp: Let_def intro!: okS_kbind sized)
qed

lemma okS_consoleread_loop [sized]: "sized s \<Longrightarrow> okS (consoleread_loop u dst target n s)"
proof (induction "nat n" arbitrary: dst n s rule: less_induct)
  case less
  then show ?case by (subst consoleread_loop.simps) (auto simp: Let_def intro!: okS_kbind sized)
qed

lemma okS_consoleread [sized]: "sized s \<Longrightarrow> okS (consoleread u dst n s)"
  by (auto simp: consoleread_def intro!: okS_kbind sized)

lemma okS_filealloc [sized]: "sized s \<Longrightarrow> okS (filealloc s)"
  by (auto simp: filealloc_def intro!: okS_kbind sized split: option.splits)

lemma okS_filedup [sized]: "sized s \<Longrightarrow> okS (filedup f s)"
  by (auto simp: filedup_def intro!: okS_kbind sized)

lemma okS_fileclose [sized]: "sized s \<Longrightarrow> okS (fileclose f s)"
  by (auto simp: fileclose_def Let_def intro!: okS_kbind sized split: option.splits)

lemma okS_filestat [sized]: "sized s \<Longrightarrow> okS (filestat f addr s)"
  by (auto simp: filestat_def Let_def intro!: okS_kbind sized split: option.splits)

lemma okS_fileread [sized]: "sized s \<Longrightarrow> okS (fileread f addr n s)"
  by (auto simp: fileread_def Let_def intro!: okS_kbind sized split: option.splits ftype.splits)

lemma okS_filewrite_loop [sized]: "sized s \<Longrightarrow> okS (filewrite_loop f ip addr n i s)"
proof (induction "nat (n - i)" arbitrary: i s rule: less_induct)
  case less
  then show ?case by (subst filewrite_loop.simps) (auto simp: Let_def intro!: okS_kbind sized)
qed

lemma okS_filewrite [sized]: "sized s \<Longrightarrow> okS (filewrite f addr n s)"
  by (auto simp: filewrite_def consolewrite_def intro!: okS_kbind sized split: option.splits ftype.splits)

lemma okS_pipealloc [sized]: "sized s \<Longrightarrow> okS (pipealloc s)"
  by (auto simp: pipealloc_def pipealloc_bad_def Let_def intro!: okS_kbind sized split: option.splits)

lemma okS_writeback_loop [sized]: "sized s \<Longrightarrow> okS (writeback_loop ip addr off n i s)"
proof (induction "nat (n - i)" arbitrary: off i s rule: less_induct)
  case less
  then show ?case by (subst writeback_loop.simps) (auto simp: Let_def intro!: okS_kbind sized)
qed

lemma okS_writeback_pages [sized]: "sized s \<Longrightarrow> okS (writeback_pages pt ip a lim off s)"
proof (induction a arbitrary: off s rule: page_loop_induct)
  case (1 a)
  show ?case
    by (subst writeback_pages.simps) (auto simp: Let_def intro!: okS_kbind_eq sized 1 dest!: walk_Ok_lt)
qed

lemma sized_upd_vma [simp]: "sized (upd_vma p k f s) = sized s"
  by (simp add: upd_vma_def)

lemma okS_uvmunmap_vma [sized]: "sized s \<Longrightarrow> okS (uvmunmap_vma pt p k addr lim s)"
  by (auto simp: uvmunmap_vma_def Let_def intro!: okS_kbind sized split: option.splits)

end
