(* ===== verification/Sizedsys.thy ===== *)
theory Sizedsys
  imports Sizedvm Syscall Inode
begin

text \<open>
  The size of blocks is kept by every system call, and none accesses a block outside of its bytes: the rules of
  \<open>sized\<close> for processes, \<open>exec\<close>, the arguments and the handlers, up to the dispatcher.
\<close>

subsection \<open>Processes\<close>

lemma okS_allocpid [sized]: "sized s \<Longrightarrow> okS (allocpid s)"
  by (auto simp: allocpid_def Let_def intro!: okS_kbind sized)

lemma okS_proc_pagetable [sized]: "sized s \<Longrightarrow> okS (proc_pagetable p s)"
  by (auto simp: proc_pagetable_def intro!: okS_kbind sized)

lemma okS_proc_freepagetable [sized]: "sized s \<Longrightarrow> okS (proc_freepagetable pt sz s)"
  by (auto simp: proc_freepagetable_def intro!: okS_kbind sized)

lemma okS_freeproc [sized]: "sized s \<Longrightarrow> okS (freeproc p s)"
  by (auto simp: freeproc_def Let_def intro!: okS_kbind sized)

lemma okS_allocproc_scan [sized]: "sized s \<Longrightarrow> okS (allocproc_scan ps s)"
  by (induction ps arbitrary: s) (auto intro!: okS_kbind sized)

lemma okS_allocproc [sized]: "sized s \<Longrightarrow> okS (allocproc s)"
  by (auto simp: allocproc_def Let_def intro!: okS_kbind sized split: option.splits)

lemma okS_growproc [sized]: "sized s \<Longrightarrow> okS (growproc n s)"
  by (auto simp: growproc_def Let_def intro!: okS_kbind sized)

lemma okS_kkill_loop [sized]: "sized s \<Longrightarrow> okS (kkill_loop pid ps s)"
  by (induction ps arbitrary: s) (auto simp: Let_def intro!: okS_kbind sized)

lemma okS_kkill [sized]: "sized s \<Longrightarrow> okS (kkill pid s)"
  by (simp add: kkill_def sized)

lemma okS_reparent_loop [sized]: "sized s \<Longrightarrow> okS (reparent_loop p ps s)"
  by (induction ps arbitrary: s) (auto simp: Let_def intro!: okS_kbind sized split: option.splits)

lemma okS_reparent [sized]: "sized s \<Longrightarrow> okS (reparent p s)"
  by (simp add: reparent_def sized)

lemma okS_fork_vmas [sized]: "sized s \<Longrightarrow> okS (fork_vmas p np is s)"
  by (induction "is" arbitrary: s) (auto simp: Let_def intro!: okS_kbind sized split: option.splits)

lemma okS_fork_files [sized]: "sized s \<Longrightarrow> okS (fork_files p np is s)"
  by (induction "is" arbitrary: s) (auto intro!: okS_kbind sized split: option.splits)

lemma okS_kfork [sized]: "sized s \<Longrightarrow> okS (kfork s)"
  by (auto simp: kfork_def Let_def intro!: okS_kbind sized split: option.splits)

lemma okS_exit_files [sized]: "sized s \<Longrightarrow> okS (exit_files p is s)"
  by (induction "is" arbitrary: s) (auto intro!: okS_kbind sized split: option.splits)

lemma okS_exit_vmas [sized]: "sized s \<Longrightarrow> okS (exit_vmas p is s)"
  by (induction "is" arbitrary: s) (auto intro!: okS_kbind sized)

lemma okS_kexit [sized]: "sized s \<Longrightarrow> okS (kexit st s)"
  by (auto simp: kexit_def Let_def intro!: okS_kbind sized split: option.splits)

lemma okS_kwait_scan [sized]: "sized s \<Longrightarrow> okS (kwait_scan p addr k ps s)"
  by (induction ps arbitrary: k s) (auto simp: Let_def intro!: okS_kbind sized)

lemma okS_kwait [sized]: "sized s \<Longrightarrow> okS (kwait addr s)"
  by (auto simp: kwait_def kwait_round_def intro!: okS_kbind sized split: sum.splits)

subsection \<open>exec\<close>

lemma okS_namei [sized]: "sized s \<Longrightarrow> okS (namei path n s)"
  by (auto simp: namei_def intro!: okS_kbind sized)

lemma okS_nameiparent [sized]: "sized s \<Longrightarrow> okS (nameiparent path n name s)"
  by (simp add: nameiparent_def sized)

lemma okS_loadseg_loop [sized]: "sized s \<Longrightarrow> okS (loadseg_loop pt va ip off sz is s)"
  by (induction "is" arbitrary: s) (auto simp: Let_def intro!: okS_kbind sized)

lemma okS_exec_load [sized]: "sized s \<Longrightarrow> okS (exec_load pt ip n off sz s)"
  by (induction n arbitrary: off sz s) (auto simp: Let_def loadseg_def intro!: okS_kbind sized)

lemma okS_exec_args [sized]: "sized s \<Longrightarrow> okS (exec_args pt base as sp us s)"
  by (induction as arbitrary: sp us s) (auto simp: Let_def intro!: okS_kbind sized)

lemma okS_exec_bad [sized]: "sized s \<Longrightarrow> okS (exec_bad pt sz ip s)"
  by (auto simp: exec_bad_def intro!: okS_kbind sized split: option.splits)

lemma okS_exec_commit [sized]: "sized s \<Longrightarrow> okS (exec_commit p path n argv entry pt sz s)"
  by (auto simp: exec_commit_def Let_def intro!: okS_kbind sized split: option.splits)

lemma okS_kexec [sized]: "sized s \<Longrightarrow> okS (kexec path n argv s)"
  by (auto simp: kexec_def Let_def intro!: okS_kbind sized split: option.splits)

subsection \<open>System calls\<close>

lemma okS_args [sized]:
  "sized s \<Longrightarrow> okS (argraw n s)" "sized s \<Longrightarrow> okS (argint n s)" "sized s \<Longrightarrow> okS (argaddr n s)"
  by (auto simp: argraw_def argint_def argaddr_def intro!: okS_kbind sized)

lemma okS_fetchaddr [sized]: "sized s \<Longrightarrow> okS (fetchaddr addr s)"
  by (auto simp: fetchaddr_def intro!: okS_kbind sized)

lemma okS_fetchstr [sized]: "sized s \<Longrightarrow> okS (fetchstr addr mx s)"
  by (auto simp: fetchstr_def intro!: okS_kbind sized split: option.splits)

lemma okS_argstr [sized]: "sized s \<Longrightarrow> okS (argstr n mx s)"
  by (auto simp: argstr_def intro!: okS_kbind sized)

lemma okS_argfd [sized]: "sized s \<Longrightarrow> okS (argfd n s)"
  by (auto simp: argfd_def intro!: okS_kbind sized split: option.splits)

lemma sized_set_ofile [simp]: "sized (set_ofile p fd f s) = sized s"
  by (simp add: set_ofile_def)

lemma okS_fdalloc [sized]: "sized s \<Longrightarrow> okS (fdalloc f s)"
  by (auto simp: fdalloc_def intro!: okS_kbind sized split: option.splits)

lemma okS_fail_op [sized]: "sized s \<Longrightarrow> okS (fail_op s)"
  by (auto simp: fail_op_def intro!: okS_kbind sized)

lemma okS_link_bad [sized]: "sized s \<Longrightarrow> okS (link_bad ip s)"
  by (auto simp: link_bad_def intro!: okS_kbind sized)

lemma okS_unlink_bad [sized]: "sized s \<Longrightarrow> okS (unlink_bad dp s)"
  by (auto simp: unlink_bad_def intro!: okS_kbind sized)

lemma okS_isdirempty_loop [sized]: "sized s \<Longrightarrow> okS (isdirempty_loop dp offs s)"
  by (induction offs arbitrary: s) (auto intro!: okS_kbind sized)

lemma okS_create_fail [sized]: "sized s \<Longrightarrow> okS (create_fail ip dp s)"
  by (auto simp: create_fail_def intro!: okS_kbind sized)

lemma okS_create [sized]: "sized s \<Longrightarrow> okS (create path type major minor s)"
  by (auto simp: create_def intro!: okS_kbind sized split: option.splits)

lemma okS_open_inode [sized]: "sized s \<Longrightarrow> okS (open_inode path omode s)"
  by (auto simp: open_inode_def intro!: okS_kbind sized split: option.splits)

lemma okS_exec_fetch [sized]: "sized s \<Longrightarrow> okS (exec_fetch uargv is pgs strs s)"
  by (induction "is" arbitrary: pgs strs s) (auto simp: Let_def intro!: okS_kbind sized split: option.splits)

lemma okS_kfree_all [sized]: "sized s \<Longrightarrow> okS (kfree_all pgs s)"
  by (induction pgs arbitrary: s) (auto intro!: okS_kbind sized)

lemma okS_close_both [sized]: "sized s \<Longrightarrow> okS (close_both r w s)"
  by (auto simp: close_both_def intro!: okS_kbind sized)

lemma okS_munmap_loop [sized]: "sized s \<Longrightarrow> okS (munmap_loop p addr lim is s)"
  by (induction "is" arbitrary: s) (auto simp: Let_def intro!: okS_kbind sized)

lemma okS_pground_int [sized]: "sized s \<Longrightarrow> okS (pground_int len s)"
  by (simp add: pground_int_def)

lemma okS_mmap_body [sized]: "sized s \<Longrightarrow> okS (mmap_body len prot flags fd off s)"
  by (auto simp: mmap_body_def Let_def intro!: okS_kbind sized split: option.splits)

lemma okS_munmap_body [sized]: "sized s \<Longrightarrow> okS (munmap_body addr len s)"
  by (auto simp: munmap_body_def Let_def intro!: okS_kbind sized)

lemma okS_proc_calls [sized]:
  "sized s \<Longrightarrow> okS (sys_exit s)" "sized s \<Longrightarrow> okS (sys_getpid s)" "sized s \<Longrightarrow> okS (sys_fork s)"
  "sized s \<Longrightarrow> okS (sys_wait s)" "sized s \<Longrightarrow> okS (sys_sbrk s)" "sized s \<Longrightarrow> okS (sys_pause s)"
  "sized s \<Longrightarrow> okS (sys_kill s)" "sized s \<Longrightarrow> okS (sys_uptime s)"
  "sized s \<Longrightarrow> okS (sys_mmap s)" "sized s \<Longrightarrow> okS (sys_munmap s)"
  by (auto simp: sys_exit_def sys_getpid_def sys_fork_def sys_wait_def sys_sbrk_def sys_pause_def sys_pause_loop_def
      sys_kill_def sys_uptime_def sys_mmap_def sys_munmap_def Let_def intro!: okS_kbind sized)

lemma okS_fd_calls [sized]:
  "sized s \<Longrightarrow> okS (sys_dup s)" "sized s \<Longrightarrow> okS (sys_read s)" "sized s \<Longrightarrow> okS (sys_write s)"
  "sized s \<Longrightarrow> okS (sys_close s)" "sized s \<Longrightarrow> okS (sys_fstat s)"
  by (auto simp: sys_dup_def sys_read_def sys_write_def sys_close_def sys_fstat_def
      intro!: okS_kbind sized split: option.splits)

lemma okS_sys_link [sized]: "sized s \<Longrightarrow> okS (sys_link s)"
  by (auto simp: sys_link_def intro!: okS_kbind sized split: option.splits)

lemma okS_sys_unlink [sized]: "sized s \<Longrightarrow> okS (sys_unlink s)"
  by (auto simp: sys_unlink_def isdirempty_def intro!: okS_kbind sized split: option.splits)

lemma okS_sys_open [sized]: "sized s \<Longrightarrow> okS (sys_open s)"
  by (auto simp: sys_open_def Let_def intro!: okS_kbind sized split: option.splits)

lemma okS_dir_calls [sized]:
  "sized s \<Longrightarrow> okS (sys_mkdir s)" "sized s \<Longrightarrow> okS (sys_mknod s)" "sized s \<Longrightarrow> okS (sys_chdir s)"
  by (auto simp: sys_mkdir_def sys_mknod_def sys_chdir_def intro!: okS_kbind sized split: option.splits)

lemma okS_sys_exec [sized]: "sized s \<Longrightarrow> okS (sys_exec s)"
  by (auto simp: sys_exec_def intro!: okS_kbind sized split: option.splits)

lemma okS_sys_pipe [sized]: "sized s \<Longrightarrow> okS (sys_pipe s)"
  by (auto simp: sys_pipe_def intro!: okS_kbind sized split: option.splits)

lemma okS_syscalls: "syscalls num = Some f \<Longrightarrow> sized s \<Longrightarrow> okS (f s)"
  by (auto simp: syscalls_def intro!: sized split: if_splits)

lemma okS_syscall [sized]: "sized s \<Longrightarrow> okS (syscall s)"
  by (auto simp: syscall_def set_a0_def Let_def intro!: okS_kbind sized dest: okS_syscalls split: option.splits if_splits)

text \<open>C4: No system call accesses a block outside of its bytes, and a block is always a whole block. If every
  buffer of the cache and every block of the disk has \<open>BSIZE\<close> bytes, then in any system call, of any process and
  with any arguments, every read or write of the data of a buffer for the superblock, the bitmap, an inode, an
  indirect block, a directory or the contents of a file is inside of the \<open>BSIZE\<close> bytes (the result is
  never \<open>Oob\<close>), and all buffers and blocks still have \<open>BSIZE\<close> bytes when the call returns, goes to sleep in the
  middle of its work, or ends the process.\<close>

theorem syscall_keeps_block_size:
  assumes "\<And>i. length (b_data (bufs s i)) = BSIZE" and "\<And>n. length (disk s n) = BSIZE"
  shows "syscall s \<noteq> Oob \<and>
    (\<forall>v c t. syscall s = Ok v t \<or> syscall s = Sleep c t \<or> syscall s = Exit t \<longrightarrow>
       (\<forall>i. length (b_data (bufs t i)) = BSIZE) \<and> (\<forall>n. length (disk t n) = BSIZE))"
proof -
  have o: "okS (syscall s)" using okS_syscall [of s] assms by (simp add: sized_def)
  have "sized t" if "syscall s = Ok v t \<or> syscall s = Sleep c t \<or> syscall s = Exit t" for v c t
    using o that by auto
  then show ?thesis using o by (auto simp: sized_def)
qed

text \<open>
  A process about to execute \<open>fstat\<close> on descriptor 0, which is open on an inode that is not yet read from the
  disk; its block there has type 2 and size 77 for it. The address for the result is not mapped.
\<close>

definition stat_block :: block where
  "stat_block = put32 (put16 zero_block 64 2) 72 77"

definition call_boot :: ksys where
  "call_boot =
     upd_inode 0 (\<lambda>_. blank_inode\<lparr>i_dev := 1, i_inum := 1, i_ref := 1\<rparr>)
     (upd_file 0 (\<lambda>x. x\<lparr>f_type := FD_INODE, f_ref := 1, f_readable := True, f_ip := Some 0\<rparr>)
     (upd_proc 0 (\<lambda>q. q\<lparr>p_ofile := (p_ofile q)(0 := Some 0)\<rparr>)
     ((kdev.extend typed_boot \<lparr>ticks = 7, first_fork = False\<rparr>)
        \<lparr>mem := st64 (st64 (\<lambda>_. 0) TF_a1 0x4000000000) TF_a7 8, disk := (\<lambda>_. zero_block)(33 := stat_block),
         lg := (lg fs_boot)\<lparr>lg_outstanding := 1\<rparr>\<rparr>)))"

lemma call_boot_fields:
  "curproc call_boot = Some 0" "held call_boot = []"
  "procs call_boot 0 = blank_proc\<lparr>p_ofile := (\<lambda>_. None)(0 := Some 0)\<rparr>"
  "itable call_boot 0 = blank_inode\<lparr>i_dev := 1, i_inum := 1, i_ref := 1\<rparr>"
  "ftable call_boot 0 = blank_file\<lparr>f_type := FD_INODE, f_ref := 1, f_readable := True, f_ip := Some 0\<rparr>"
  "mem call_boot = st64 (st64 (\<lambda>_. 0) TF_a1 0x4000000000) TF_a7 8"
  by (simp_all add: call_boot_def upd_inode_def upd_file_def upd_proc_def typed_boot_def kdev.defs kfile.defs file_boot_fields
      blank_proc_def)

lemma call_boot_blocks:
  "bufs call_boot = bufs bio_boot" "disk call_boot = (\<lambda>_. zero_block)(33 := stat_block)" "sb call_boot = sb fs_boot"
  "lblocks call_boot = []" "lgn call_boot = 0" "lg_outstanding (lg call_boot) = 1"
  by (simp_all add: call_boot_def upd_inode_def upd_file_def upd_proc_def typed_boot_def file_boot_def fs_boot_def lblocks_def
      kdev.defs kfile.defs kfs.defs klog.defs log_boot_def kbio.defs)

lemma bio_boot_sized: "sized bio_boot"
  by (simp add: sized_def bio_boot_views zero_block_def)
    (simp add: bio_boot_def binit_def Let_def binit_loop_fields blank_buf_def kproc.defs)

lemma call_boot_op:
  "in_op call_boot" "space call_boot 1" "blk call_boot = (\<lambda>_. zero_block)(33 := stat_block)" "lockset call_boot = {}"
proof -
  let ?s = "kproc.extend (kproc_boot\<lparr>curproc := Some 0\<rparr>)
     \<lparr>bufs = (\<lambda>_. blank_buf), disk = (\<lambda>_. zero_block), dhist = []\<rparr> :: kbio"
  have z: "b_dev (bufs ?s i) = 0 \<and> b_refcnt (bufs ?s i) = 0" for i by (simp add: kproc.defs blank_buf_def)
  note c = binit_cache [of ?s, OF z, folded bio_boot_def] and b = call_boot_blocks
  show l: "lockset call_boot = {}" by (simp add: lockset_def b c)
  show "in_op call_boot" by (simp add: in_op_def b c l ready_def call_boot_fields)
  show "space call_boot 1" by (simp add: space_def b l)
  show "blk call_boot = (\<lambda>_. zero_block)(33 := stat_block)" unfolding b c ..
qed

lemma stat_block_inode:
  "length stat_block = BSIZE" "get16 stat_block 64 = 2" "get32 stat_block 72 = 77"
  by (simp_all add: stat_block_def zero_block_def getw_putw_other getw_putw_same)

lemma call_boot_stat:
  "\<exists>t. filestat 0 0x4000000000 call_boot = Ok (-1) t \<and> i_valid (itable t 0) \<and> i_size (itable t 0) = 77"
proof -
  have n: "IBLOCK (i_inum (itable call_boot 0)) (sb call_boot) = 33" "dip_off (i_inum (itable call_boot 0)) = 64"
    by (simp_all add: IBLOCK_def dip_off_def call_boot_fields call_boot_blocks fs_boot_def klog.defs)
  have v: "blk call_boot 33 = stat_block" by (simp add: call_boot_op)
  obtain u where u: "ilock 0 call_boot = Ok () u" "in_op u" "curproc u = curproc call_boot" "mypid u = mypid call_boot"
    "itable u 0 = (get_dinode stat_block 64 (itable call_boot 0))
       \<lparr>i_valid := True, i_lock := \<lparr>sl_locked = True, sl_pid = mypid call_boot\<rparr>\<rparr>"
    using ilock_op [of call_boot 0, unfolded n v] call_boot_op(1,2,4) stat_block_inode(2)
    by (auto simp: call_boot_fields blank_inode_def initsleeplock_def)
  have r: "held u = []" "curproc u \<noteq> None" using u(2) by (auto simp: in_op_def ready_def)
  obtain t where t: "iunlock 0 u = Ok () t" "itable t 0 = (itable u 0)\<lparr>i_lock := initsleeplock\<rparr>"
    using iunlock_held [OF r, of 0] u(4,5) by (auto simp: get_dinode_def call_boot_fields)
  have c: "copyout pt 0x4000000000 (stat_bytes st) t = Ok (-1) t" for pt st
    by (subst copyout.simps) (simp add: Let_def PGROUNDDOWN_def stat_bytes_def)
  have "filestat 0 0x4000000000 call_boot = Ok (-1) t"
    using u(1) t(1) c by (simp add: filestat_def myproc_def call_boot_fields Let_def)
  then show ?thesis using t(2) u(5) stat_block_inode(3) by (simp add: get_dinode_def)
qed

theorem syscall_keeps_block_size_witness:
  "\<exists>t. syscall call_boot = Ok () t \<and> i_size (itable t 0) = 77 \<and>
     length (b_data (bufs t 3)) = BSIZE \<and> length (disk t 33) = BSIZE"
proof -
  obtain u where u: "filestat 0 0x4000000000 call_boot = Ok (-1) u" "i_size (itable u 0) = 77"
    using call_boot_stat by blast
  have a: "ld64 (mem call_boot) TF_a7 = 8" "ld64 (mem call_boot) TF_a0 = 0" "ld64 (mem call_boot) TF_a1 = 0x4000000000"
    by (simp_all add: call_boot_fields ld64_st64_other)
  have "syscall call_boot = Ok () (set_a0 0 (-1) u)"
    using u(1) by (simp add: syscall_def myproc_def call_boot_fields(1-3) a blank_proc_def syscalls_def sys_fstat_def
        argaddr_def argraw_def argfd_def argint_def Let_def)
  then obtain t where t: "syscall call_boot = Ok () t" "itable t = itable u" by (auto simp: set_a0_def)
  have b: "length (b_data (bufs call_boot i)) = BSIZE" and d: "length (disk call_boot n) = BSIZE" for i n
    using bio_boot_sized by (simp_all add: sized_def call_boot_blocks stat_block_inode zero_block_def)
  show ?thesis using syscall_keeps_block_size [OF b d] t u(2) by auto
qed

end
