(* ===== verification/Bscan.thy ===== *)
theory Bscan
  imports Bio
begin

text \<open>
  The scans of \<open>bget\<close> end. The cache is searched by following \<open>next\<close> and \<open>prev\<close> pointers until the list
  head comes round again, so a search ends only while the pointers form a ring through the head. The
  ring is built by \<open>binit\<close> and is an invariant of every operation on the cache, in any order, by any
  number of threads that give up the processor inside them.
\<close>

definition ring_ok :: "'a kbio_scheme \<Rightarrow> bool" where
  "ring_ok s \<longleftrightarrow> (\<exists>xs. lru (bufs s) xs)"

inductive cache_step :: "'a kbio_scheme \<Rightarrow> 'a kbio_scheme \<Rightarrow> bool" where
  bread: "leads (bread dev n s) t \<Longrightarrow> cache_step s t"
| bwrite: "leads (bwrite b s) t \<Longrightarrow> cache_step s t"
| brelse: "b < NBUF \<Longrightarrow> leads (brelse b s) t \<Longrightarrow> cache_step s t"
| bpin: "leads (bpin b s) t \<Longrightarrow> cache_step s t"
| bunpin: "leads (bunpin b s) t \<Longrightarrow> cache_step s t"
| data: "cache_step s (upd_buf b (b_data_update f) s)"

definition cache_init :: "'a kbio_scheme \<Rightarrow> bool" where
  "cache_init s \<longleftrightarrow> (\<exists>s0. s = binit s0)"

subsection \<open>The operations keep the ring\<close>

named_theorems ringed \<open>operations keep the ring of buffers\<close>

abbreviation okR :: "('a kbio_scheme, 'b) res \<Rightarrow> bool" where "okR \<equiv> res_all ring_ok"

lemmas okR_kbind = res_all_kbind [of ring_ok]

lemma ring_upd [simp]:
  "ring_ok (s\<lparr>held := h\<rparr>) = ring_ok s" "ring_ok (upd_proc p f s) = ring_ok s"
  by (simp_all add: ring_ok_def upd_proc_def)

lemma ring_upd_buf:
  assumes "\<And>x. b_next (f x) = b_next x" and "\<And>x. b_prev (f x) = b_prev x"
  shows "ring_ok (upd_buf b f s) = ring_ok s"
  using lru_cong [of "(bufs s)(b := f (bufs s b))" "bufs s"] assms by (simp add: ring_ok_def upd_buf_def)

lemma ring_set_buf_lock [simp]: "ring_ok (set_buf_lock b l s) = ring_ok s"
  by (simp add: set_buf_lock_def ring_upd_buf)

lemma ring_disk_rw [simp]: "ring_ok (disk_rw b w s) = ring_ok s"
  using lru_cong [of "bufs (disk_rw b w s)" "bufs s"] by (simp add: ring_ok_def disk_rw_def upd_buf_def)

lemma okR_locks [ringed]:
  "ring_ok s \<Longrightarrow> okR (acquire l s)" "ring_ok s \<Longrightarrow> okR (release l s)" "ring_ok s \<Longrightarrow> okR (myproc s)"
  by (auto simp: acquire_def release_def myproc_def split: option.splits)

lemma okR_sched [ringed]: "ring_ok s \<Longrightarrow> okR (sched s)"
  by (auto simp: sched_def intro!: okR_kbind ringed)

lemma okR_sleep [ringed]: "ring_ok s \<Longrightarrow> okR (sleep c l s)"
  by (auto simp: sleep_def Let_def intro!: okR_kbind ringed)

lemma okR_wakeup_loop [ringed]: "ring_ok s \<Longrightarrow> okR (wakeup_loop c ps s)"
  by (induction ps arbitrary: s) (auto simp: Let_def intro!: okR_kbind ringed)

lemma okR_sleeplocks [ringed]:
  "ring_ok s \<Longrightarrow> okR (acquiresleep c (buf_lock b) (set_buf_lock b) s)"
  "ring_ok s \<Longrightarrow> okR (releasesleep c (set_buf_lock b) s)" "ring_ok s \<Longrightarrow> okR (holdingsleep c (buf_lock b) s)"
  by (auto simp: acquiresleep_def releasesleep_def holdingsleep_def wakeup_def Let_def intro!: okR_kbind ringed)

lemma okR_bread [ringed]: "ring_ok s \<Longrightarrow> okR (bread dev n s)"
  by (auto simp: bread_def bget_def Let_def ring_upd_buf intro!: okR_kbind ringed split: option.splits)

lemma okR_bwrite [ringed]: "ring_ok s \<Longrightarrow> okR (bwrite b s)"
  by (auto simp: bwrite_def intro!: okR_kbind ringed)

lemma ring_touch: "ring_ok s \<Longrightarrow> b < NBUF \<Longrightarrow> ring_ok (s\<lparr>bufs := link_front b (unlink b (bufs s))\<rparr>)"
  unfolding ring_ok_def using lru_touch by fastforce

lemma okR_brelse [ringed]: "ring_ok s \<Longrightarrow> b < NBUF \<Longrightarrow> okR (brelse b s)"
  by (auto simp: brelse_def Let_def ring_upd_buf intro!: okR_kbind ringed ring_touch)

lemma okR_pins [ringed]: "ring_ok s \<Longrightarrow> okR (bpin b s)" "ring_ok s \<Longrightarrow> okR (bunpin b s)"
  by (auto simp: bpin_def bunpin_def ring_upd_buf intro!: okR_kbind ringed)

interpretation bring: inv_system cache_init cache_step ring_ok
proof (unfold_locales)
  show "ring_ok s" if "cache_init s" for s :: "'a kbio_scheme"
    using that lru_binit by (auto simp: cache_init_def ring_ok_def)
  show "ring_ok t" if "ring_ok s" and "cache_step s t" for s t :: "'a kbio_scheme"
    using that(2,1) by (cases rule: cache_step.cases) (auto intro: leads_res_all ringed simp: ring_upd_buf)
qed

subsection \<open>The scans\<close>

lemma ring_scans:
  assumes "lru B xs"
  shows "bget_cached B dev n (b_next (B BHEAD)) = Some (List.find (\<lambda>b. b_dev (B b) = dev \<and> b_blockno (B b) = n) xs)"
    and "bget_unused B (b_prev (B BHEAD)) = Some (List.find (\<lambda>b. b_refcnt (B b) = 0) (rev xs))"
  using assms bget_cached_find [of B BHEAD xs dev n] bget_unused_find [of B xs BHEAD] by (auto simp: lru_def)

text \<open>C20: The loops of \<open>bget\<close> over the linked list of buffers always end. In every state that any sequence of
  \<open>bread\<close>, \<open>bwrite\<close>, \<open>brelse\<close>, \<open>bpin\<close>, \<open>bunpin\<close> and writes to the data of buffers can produce after \<open>binit\<close>, the
  forward scan for a cached block and the backward scan for a free buffer come to a result; the first
  finds a buffer exactly when one of the \<open>NBUF\<close> buffers holds the block, and the second exactly when one of
  them is not in use.\<close>

theorem bget_scans_end:
  assumes "reach cache_init cache_step s"
  shows "\<exists>r q. bget_cached (bufs s) dev n (b_next (bufs s BHEAD)) = Some r \<and>
     bget_unused (bufs s) (b_prev (bufs s BHEAD)) = Some q \<and>
     (r = None \<longleftrightarrow> (\<forall>b<NBUF. \<not> (b_dev (bufs s b) = dev \<and> b_blockno (bufs s b) = n))) \<and>
     (q = None \<longleftrightarrow> (\<forall>b<NBUF. b_refcnt (bufs s b) \<noteq> 0))"
proof -
  obtain xs where xs: "lru (bufs s) xs" using bring.reach_inv [OF assms] by (auto simp: ring_ok_def)
  have set: "b \<in> set xs \<longleftrightarrow> b < NBUF" for b using xs by (auto simp: lru_def)
  show ?thesis unfolding ring_scans [OF xs] by (auto simp: find_None_iff set)
qed

theorem bget_scans_end_witness:
  "\<exists>s r. cache_step bio_boot s \<and> bget_cached (bufs s) 1 5 (b_next (bufs s BHEAD)) = Some r"
proof -
  let ?t = "upd_buf 3 (b_data_update (\<lambda>d. d)) bio_boot"
  have st: "cache_step bio_boot ?t" by (rule cache_step.data)
  have "cache_init bio_boot" unfolding cache_init_def bio_boot_def by (rule exI) (rule refl)
  then have "reach cache_init cache_step ?t" using st by (rule reach_step [OF reach_init])
  from bget_scans_end [OF this, of 1 5] st show ?thesis by blast
qed

end
