(* ===== verification/Ulib.thy ===== *)
theory Ulib
  imports Prelude
begin

text \<open>
  Strings in user programs (\<open>user/ulib.c\<close>). A C string is a list of bytes that ends at its first NUL or
  at the end of the list; a position in it is an index.
\<close>

text \<open>\<open>s[i]\<close> of a C string.\<close>

definition ch :: "u8 list \<Rightarrow> nat \<Rightarrow> u8" where
  "ch s i = (if i < length s then s ! i else 0)"

lemma ch_simps [simp]: "ch [] i = 0" "ch (x # s) 0 = x" "ch (x # s) (Suc i) = ch s i"
  by (simp_all add: ch_def)

lemma ch_neq_0: "ch s 0 \<noteq> 0 \<Longrightarrow> s \<noteq> []"
  by auto

definition cstr_at :: "u8 list \<Rightarrow> nat \<Rightarrow> u8 list" where
  "cstr_at b q = takeWhile (\<lambda>c. c \<noteq> 0) (drop q b)"

primrec strchr :: "u8 list \<Rightarrow> u8 \<Rightarrow> nat option" where
  "strchr [] c = None"
| "strchr (x # xs) c = (if x = 0 then None else if x = c then Some 0 else map_option Suc (strchr xs c))"

lemma strchr_SomeD: "strchr xs c = Some k \<Longrightarrow> k < length xs \<and> xs ! k = c \<and> 0 \<notin> set (take k xs) \<and> c \<notin> set (take k xs)"
  by (induction xs arbitrary: k) (auto split: if_splits)

lemma strchr_None: "0 \<notin> set xs \<Longrightarrow> strchr xs c = None \<longleftrightarrow> c \<notin> set xs"
  by (induction xs) auto

text \<open>The digits at the start of a string, and their value, computed in 32 bits.\<close>

fun atoi_loop :: "u8 list \<Rightarrow> u32 \<Rightarrow> u32" where
  "atoi_loop [] n = n"
| "atoi_loop (c # s) n = (if 48 \<le> c \<and> c \<le> 57 then atoi_loop s (n * 10 + ucast c - 48) else n)"

definition atoi :: "u8 list \<Rightarrow> int" where
  "atoi s = sint (atoi_loop s 0)"

function strcmp :: "u8 list \<Rightarrow> u8 list \<Rightarrow> int" where
  "strcmp p q =
     (if ch p 0 \<noteq> 0 \<and> ch p 0 = ch q 0 then strcmp (drop 1 p) (drop 1 q) else uint (ch p 0) - uint (ch q 0))"
  by pat_completeness auto
termination
  by (relation "measure (\<lambda>(p, q). length p)") (auto dest: ch_neq_0)

declare strcmp.simps [simp del]

lemma uint_eq_u8: "uint (a :: u8) = uint b \<longleftrightarrow> a = b"
  by (rule word_uint_eq_iff [symmetric])

lemma strcmp_eq_0_iff: "0 \<notin> set p \<Longrightarrow> 0 \<notin> set q \<Longrightarrow> strcmp p q = 0 \<longleftrightarrow> p = q"
proof (induction p arbitrary: q)
  case Nil
  then show ?case by (cases q) (auto simp: strcmp.simps [of "[]"] uint_0_iff)
next
  case (Cons x p)
  then show ?case by (cases q) (auto simp: strcmp.simps [of "x # p"] uint_0_iff uint_eq_u8)
qed

end
