(* ===== verification/Grep.thy ===== *)
theory Grep
  imports Ulib
begin

text \<open>
  The user program \<open>user/grep.c\<close>: the pattern matcher and the loop that
  reads a file through a buffer. The matcher is shown equivalent to a declarative meaning of patterns, and the loop to
  print the matching lines of the file however \<open>read\<close> cuts it into pieces.
\<close>

abbreviation (input) STAR :: u8 where "STAR \<equiv> 42"
abbreviation (input) DOT :: u8 where "DOT \<equiv> 46"
abbreviation (input) DOLLAR :: u8 where "DOLLAR \<equiv> 36"
abbreviation (input) CARET :: u8 where "CARET \<equiv> 94"
abbreviation (input) NEWLINE :: u8 where "NEWLINE \<equiv> 10"

subsection \<open>The matcher\<close>

function matchhere :: "u8 list \<Rightarrow> u8 list \<Rightarrow> bool" and matchstar :: "u8 \<Rightarrow> u8 list \<Rightarrow> u8 list \<Rightarrow> bool" where
  "matchhere re text =
     (if ch re 0 = 0 then True
      else if ch re 1 = STAR then matchstar (ch re 0) (drop 2 re) text
      else if ch re 0 = DOLLAR \<and> ch re 1 = 0 then ch text 0 = 0
      else if ch text 0 \<noteq> 0 \<and> (ch re 0 = DOT \<or> ch re 0 = ch text 0) then matchhere (drop 1 re) (drop 1 text)
      else False)"
| "matchstar c re text =
     (if matchhere re text then True
      else if ch text 0 \<noteq> 0 \<and> (ch text 0 = c \<or> c = DOT) then matchstar c re (drop 1 text)
      else False)"
  by pat_completeness auto
termination
  by (relation "measures [\<lambda>x. case x of Inl (re, text) \<Rightarrow> length re | Inr (c, re, text) \<Rightarrow> length re,
        \<lambda>x. case x of Inl (re, text) \<Rightarrow> 0 | Inr (c, re, text) \<Rightarrow> Suc (length text)]")
    (auto dest: ch_neq_0 simp: length_greater_0_conv [symmetric] simp del: length_greater_0_conv)

function match_loop :: "u8 list \<Rightarrow> u8 list \<Rightarrow> bool" where
  "match_loop re text =
     (if matchhere re text then True else if ch text 0 \<noteq> 0 then match_loop re (drop 1 text) else False)"
  by pat_completeness auto
termination
  by (relation "measure (\<lambda>(re, text). length text)") (auto dest: ch_neq_0)

declare matchhere.simps [simp del] matchstar.simps [simp del] match_loop.simps [simp del]

definition match :: "u8 list \<Rightarrow> u8 list \<Rightarrow> bool" where
  "match re text = (if ch re 0 = CARET then matchhere (drop 1 re) text else match_loop re text)"

subsection \<open>Reading a file\<close>

text \<open>
  The inner loop of \<open>grep\<close> over the lines that are complete in the buffer, from the pointer \<open>p\<close> on: the
  bytes that remain and the output. The text of a line ends where its newline is overwritten by NUL.
\<close>

function grep_lines :: "u8 list \<Rightarrow> u8 list \<Rightarrow> u8 list \<Rightarrow> u8 list \<times> u8 list" where
  "grep_lines pattern p out =
     (case strchr p NEWLINE of
        None \<Rightarrow> (p, out)
      | Some k \<Rightarrow>
          grep_lines pattern (drop (k + 1) p) (if match pattern (take k p) then out @ take (k + 1) p else out))"
  by pat_completeness auto
termination
  by (relation "measure (\<lambda>(pattern, p, out). length p)") (auto dest: strchr_SomeD)

declare grep_lines.simps [simp del]

text \<open>
  \<open>grep\<close> on an open file. \<open>read k f\<close> is the system call: the bytes it delivers, none at the end of the
  file or on an error, and the file after it. \<open>keep\<close> is the incomplete line at the start of the buffer.
\<close>

partial_function (option) grep_loop ::
  "(nat \<Rightarrow> 'f \<Rightarrow> u8 list \<times> 'f) \<Rightarrow> u8 list \<Rightarrow> u8 list \<Rightarrow> u8 list \<Rightarrow> 'f \<Rightarrow> (u8 list \<times> 'f) option" where
  "grep_loop read pattern keep out f =
     (let r = read (1024 - length keep - 1) f in
      if fst r = [] then Some (out, snd r)
      else let x = grep_lines pattern (keep @ fst r) out in grep_loop read pattern (fst x) (snd x) (snd r))"

definition grep :: "(nat \<Rightarrow> 'f \<Rightarrow> u8 list \<times> 'f) \<Rightarrow> u8 list \<Rightarrow> 'f \<Rightarrow> (u8 list \<times> 'f) option" where
  "grep read pattern f = grep_loop read pattern [] [] f"

subsection \<open>The meaning of a pattern\<close>

text \<open>
  A pattern is a sequence of items: one character, a repeated character, or, at the end only, the end
  of the text. \<open>spells is w rest\<close>: the items match exactly the text \<open>w\<close>, which \<open>rest\<close> follows.
\<close>

datatype atom = Lit u8 | Any

fun atom_ok :: "atom \<Rightarrow> u8 \<Rightarrow> bool" where
  "atom_ok (Lit c) x \<longleftrightarrow> x = c"
| "atom_ok Any x \<longleftrightarrow> True"

datatype item = One atom | Many atom | Eol

definition atom_of :: "u8 \<Rightarrow> atom" where
  "atom_of c = (if c = DOT then Any else Lit c)"

fun items :: "u8 list \<Rightarrow> item list" where
  "items [] = []"
| "items [c] = [if c = DOLLAR then Eol else One (atom_of c)]"
| "items (c # d # re) = (if d = STAR then Many (atom_of c) # items re else One (atom_of c) # items (d # re))"

fun spells :: "item list \<Rightarrow> u8 list \<Rightarrow> u8 list \<Rightarrow> bool" where
  "spells [] w rest \<longleftrightarrow> w = []"
| "spells (One a # is) w rest \<longleftrightarrow> (\<exists>x v. w = x # v \<and> atom_ok a x \<and> spells is v rest)"
| "spells (Many a # is) w rest \<longleftrightarrow> (\<exists>u v. w = u @ v \<and> (\<forall>x\<in>set u. atom_ok a x) \<and> spells is v rest)"
| "spells (Eol # is) w rest \<longleftrightarrow> w = [] \<and> rest = [] \<and> is = []"

definition begins :: "item list \<Rightarrow> u8 list \<Rightarrow> bool" where
  "begins is text \<longleftrightarrow> (\<exists>w rest. text = w @ rest \<and> spells is w rest)"

lemma begins_Nil [simp]: "begins [] text"
  by (auto simp: begins_def)

lemma begins_Eol [simp]: "begins [Eol] text \<longleftrightarrow> text = []"
  by (auto simp: begins_def)

lemma begins_One [simp]: "begins (One a # is) text \<longleftrightarrow> (\<exists>x t. text = x # t \<and> atom_ok a x \<and> begins is t)"
proof
  assume "\<exists>x t. text = x # t \<and> atom_ok a x \<and> begins is t"
  then obtain x w rest where "text = x # w @ rest" "atom_ok a x" "spells is w rest" by (auto simp: begins_def)
  then show "begins (One a # is) text" unfolding begins_def by (intro exI [of _ "x # w"] exI [of _ rest]) simp
qed (auto simp: begins_def, blast)

lemma begins_Many:
  "begins (Many a # is) text \<longleftrightarrow> begins is text \<or> (\<exists>x t. text = x # t \<and> atom_ok a x \<and> begins (Many a # is) t)"
  (is "?L \<longleftrightarrow> ?R")
proof
  assume ?L
  then obtain u v rest where u: "text = u @ v @ rest" "\<forall>x\<in>set u. atom_ok a x" "spells is v rest"
    by (auto simp: begins_def)
  show ?R
  proof (cases u)
    case Nil then show ?thesis using u by (auto simp: begins_def)
  next
    case (Cons x u')
    have "begins (Many a # is) (u' @ v @ rest)"
      unfolding begins_def by (rule exI [of _ "u' @ v"], rule exI [of _ rest]) (use u Cons in auto)
    then show ?thesis using u Cons by auto
  qed
next
  assume ?R
  then show ?L
  proof
    assume "begins is text"
    then obtain w rest where "text = w @ rest" "spells is w rest" by (auto simp: begins_def)
    then have "text = w @ rest \<and> spells (Many a # is) w rest" by (auto intro: exI [of _ "[]"])
    then show ?L unfolding begins_def by blast
  next
    assume "\<exists>x t. text = x # t \<and> atom_ok a x \<and> begins (Many a # is) t"
    then obtain x u v rest where u: "text = x # u @ v @ rest" "atom_ok a x" "\<forall>y\<in>set u. atom_ok a y" "spells is v rest"
      by (auto simp: begins_def)
    then have "spells (Many a # is) ((x # u) @ v) rest" unfolding spells.simps by (intro exI [of _ "x # u"] exI [of _ v]) auto
    then show ?L using u(1) unfolding begins_def by (intro exI [of _ "(x # u) @ v"] exI [of _ rest]) auto
  qed
qed

lemma atom_ok_atom_of [simp]: "atom_ok (atom_of c) x \<longleftrightarrow> c = DOT \<or> x = c"
  by (simp add: atom_of_def)

text \<open>The code computes this meaning, on strings without NUL.\<close>

lemma matchhere_begins:
  "0 \<notin> set re \<Longrightarrow> 0 \<notin> set tx \<Longrightarrow> matchhere re tx \<longleftrightarrow> begins (items re) tx"
  "0 \<notin> set re \<Longrightarrow> 0 \<notin> set tx \<Longrightarrow> matchstar c re tx \<longleftrightarrow> begins (Many (atom_of c) # items re) tx"
proof (induction re tx and c re tx rule: matchhere_matchstar.induct)
  case (1 re tx)
  consider "re = []" | c where "re = [c]" | c d re' where "re = c # d # re'" by (metis list.exhaust)
  then show ?case
  proof cases
    case 1 then show ?thesis by (simp add: matchhere.simps [of "[]"])
  next
    case (2 c)
    have "matchhere [] t" for t by (simp add: matchhere.simps [of "[]"])
    then show ?thesis using 2 "1.prems" by (cases tx) (auto simp: matchhere.simps [of "[c]"])
  next
    case (3 c d re')
    show ?thesis
    proof (cases "d = STAR")
      case True then show ?thesis using 3 "1.prems" "1.IH"(1) by (simp add: matchhere.simps [of "c # d # re'"] matchhere.simps [of "c # 42 # re'"])
    next
      case False
      then show ?thesis using 3 "1.prems" "1.IH"(2) by (cases tx) (auto simp: matchhere.simps [of "c # d # re'"])
    qed
  qed
next
  case (2 c re tx)
  then show ?case
    by (subst matchstar.simps, subst begins_Many) (cases tx; auto)
qed

lemma match_loop_begins:
  "0 \<notin> set re \<Longrightarrow> 0 \<notin> set tx \<Longrightarrow> match_loop re tx \<longleftrightarrow> (\<exists>pre t. tx = pre @ t \<and> begins (items re) t)"
proof (induction tx)
  case Nil
  then show ?case by (simp add: match_loop.simps [of re "[]"] matchhere_begins)
next
  case (Cons x tx)
  have "(\<exists>pre t. x # tx = pre @ t \<and> begins (items re) t) \<longleftrightarrow>
      begins (items re) (x # tx) \<or> (\<exists>pre t. tx = pre @ t \<and> begins (items re) t)"
    by (metis append_Cons append_Nil list.sel(3) neq_Nil_conv)
  then show ?case using Cons by (auto simp: match_loop.simps [of re "x # tx"] matchhere_begins)
qed

text \<open>C17: The matcher of \<open>grep\<close> computes the meaning of the pattern: \<open>match re text\<close> is true exactly when some part of
  the text, at its beginning if the pattern starts with a caret, is spelled by the pattern's items, where a
  dot stands for any character, a starred character for any number of its occurrences, and a final
  dollar for the end of the text. This holds for all patterns and texts without NUL, and the search
  always ends.\<close>

theorem match_correct:
  assumes "0 \<notin> set re" and "0 \<notin> set tx"
  shows "match re tx \<longleftrightarrow>
    (\<exists>pre w post. tx = pre @ w @ post \<and>
       (if re \<noteq> [] \<and> hd re = CARET then pre = [] \<and> spells (items (tl re)) w post else spells (items re) w post))"
proof (cases "re \<noteq> [] \<and> hd re = CARET")
  case True
  then obtain re' where re: "re = CARET # re'" by (cases re) auto
  then show ?thesis using assms by (simp add: match_def matchhere_begins begins_def)
next
  case False
  then have "ch re 0 \<noteq> CARET" by (cases re) auto
  then show ?thesis using False assms by (simp add: match_def match_loop_begins begins_def) blast
qed

theorem match_correct_witness: "match [97, 42, 98] [99, 97, 97, 98]"
proof (rule iffD2 [OF match_correct])
  show "\<exists>pre w post. [99, 97, 97, 98 :: u8] = pre @ w @ post \<and>
    (if [97, 42, 98 :: u8] \<noteq> [] \<and> hd [97, 42, 98 :: u8] = CARET then pre = [] \<and> spells (items (tl [97, 42, 98])) w post
     else spells (items [97, 42, 98]) w post)"
    by (rule exI [of _ "[99]"], rule exI [of _ "[97, 97] @ [98]"], rule exI [of _ "[]"]) (simp add: atom_of_def)
qed simp_all

subsection \<open>The lines of a file\<close>

text \<open>The complete lines, each with its newline, and what follows the last newline.\<close>

primrec cut :: "u8 list \<Rightarrow> u8 list list \<times> u8 list" where
  "cut [] = ([], [])"
| "cut (x # xs) =
     (if x = NEWLINE then ([NEWLINE] # fst (cut xs), snd (cut xs))
      else case fst (cut xs) of [] \<Rightarrow> ([], x # snd (cut xs)) | l # ls \<Rightarrow> ((x # l) # ls, snd (cut xs)))"

lemma cut_line: "NEWLINE \<notin> set w \<Longrightarrow> cut (w @ NEWLINE # r) = ((w @ [NEWLINE]) # fst (cut r), snd (cut r))"
  by (induction w) auto

lemma cut_none: "NEWLINE \<notin> set w \<Longrightarrow> cut w = ([], w)"
  by (induction w) auto

lemma cut_tail: "NEWLINE \<notin> set (snd (cut w))" "set (snd (cut w)) \<subseteq> set w"
  by (induction w) (auto split: list.splits)

lemma cut_append: "cut (a @ b) = (fst (cut a) @ fst (cut (snd (cut a) @ b)), snd (cut (snd (cut a) @ b)))"
proof (induction "length a" arbitrary: a rule: less_induct)
  case less
  show ?case
  proof (cases "NEWLINE \<in> set a")
    case False then show ?thesis by (simp add: cut_none)
  next
    case True
    then obtain w r where a: "a = w @ NEWLINE # r" "NEWLINE \<notin> set w" by (metis split_list_first)
    then show ?thesis using less [of r] by (simp add: cut_line)
  qed
qed

definition grepped :: "u8 list \<Rightarrow> u8 list \<Rightarrow> u8 list" where
  "grepped pattern xs = concat (filter (\<lambda>l. match pattern (butlast l)) (fst (cut xs)))"

lemma grep_lines_cut: "0 \<notin> set p \<Longrightarrow> grep_lines pattern p out = (snd (cut p), out @ grepped pattern p)"
proof (induction "length p" arbitrary: p out rule: less_induct)
  case less
  show ?case
  proof (cases "strchr p NEWLINE")
    case None
    then show ?thesis using less.prems strchr_None [of p NEWLINE] by (simp add: grep_lines.simps [of _ p] cut_none grepped_def)
  next
    case (Some k)
    note k = strchr_SomeD [OF Some]
    have p: "p = take k p @ NEWLINE # drop (k + 1) p" using k id_take_nth_drop [of k p] by simp
    have t: "take (k + 1) p = take k p @ [NEWLINE]" using k by (simp add: take_Suc_conv_app_nth)
    have c: "cut p = ((take k p @ [NEWLINE]) # fst (cut (drop (k + 1) p)), snd (cut (drop (k + 1) p)))"
      using cut_line [of "take k p" "drop (k + 1) p"] k p by simp
    have "0 \<notin> set (drop (k + 1) p)" using less.prems by (meson in_set_dropD)
    moreover have "length (drop (k + 1) p) < length p" using k by (cases p) auto
    ultimately have ih: "grep_lines pattern (drop (k + 1) p) o' = (snd (cut (drop (k + 1) p)), o' @ grepped pattern (drop (k + 1) p))" for o'
      using less.hyps by blast
    show ?thesis by (subst grep_lines.simps) (simp add: Some ih t c grepped_def del: One_nat_def)
  qed
qed

text \<open>
  The loop, for a file whose bytes still to be read are \<open>content f\<close>. Every line must fit in the buffer
  together with its newline.
\<close>

lemma grep_loop_correct:
  assumes rd: "\<And>k f. content f = fst (read k f) @ content (snd (read k f))" "\<And>k f. length (fst (read k f)) \<le> k"
      "\<And>k f. fst (read k f) = [] \<Longrightarrow> k = 0 \<or> content f = []"
    and "0 \<notin> set (keep @ content f)" and "NEWLINE \<notin> set keep"
    and "\<forall>l\<in>set (fst (cut (keep @ content f))). length l \<le> 1023"
  shows "\<exists>f'. grep_loop read pattern keep out f = Some (out @ grepped pattern (keep @ content f), f')"
  using assms(4-6)
proof (induction "length (content f)" arbitrary: keep out f rule: less_induct)
  case less
  define k where "k = 1024 - length keep - 1"
  define bs f' where "bs = fst (read k f)" and "f' = snd (read k f)"
  have cf: "content f = bs @ content f'" using rd(1) [of f k] by (simp add: bs_def f'_def)
  have st: "grep_loop read pattern keep out f = (if bs = [] then Some (out, f')
      else grep_loop read pattern (fst (grep_lines pattern (keep @ bs) out)) (snd (grep_lines pattern (keep @ bs) out)) f')"
    by (subst grep_loop.simps) (simp only: Let_def bs_def f'_def k_def)
  show ?case
  proof (cases "bs = []")
    case True
    have "NEWLINE \<notin> set (content f)"
    proof
      assume "NEWLINE \<in> set (content f)"
      then obtain w r where w: "content f = w @ NEWLINE # r" "NEWLINE \<notin> set w" by (metis split_list_first)
      then have "k = 0" using rd(3) [of k f] True by (simp add: bs_def)
      then have "1023 \<le> length keep" by (simp add: k_def)
      moreover have "length (keep @ w @ [NEWLINE]) \<le> 1023"
        using less.prems(3) cut_line [of "keep @ w" r] less.prems(2) w by simp
      ultimately show False by simp
    qed
    then have "grepped pattern (keep @ content f) = []" using less.prems(2) by (simp add: grepped_def cut_none)
    then show ?thesis using True st by simp
  next
    case False
    let ?keep = "snd (cut (keep @ bs))"
    have n: "0 \<notin> set (keep @ bs)" using less.prems(1) cf by simp
    have c: "cut (keep @ content f) = (fst (cut (keep @ bs)) @ fst (cut (?keep @ content f')), snd (cut (?keep @ content f')))"
      using cut_append [of "keep @ bs" "content f'"] cf by simp
    have "length (content f') < length (content f)" using False cf by simp
    moreover have "0 \<notin> set (?keep @ content f')" using cut_tail(2) [of "keep @ bs"] n less.prems(1) cf by auto
    moreover have "\<forall>l\<in>set (fst (cut (?keep @ content f'))). length l \<le> 1023" using less.prems(3) c by simp
    ultimately obtain g where "grep_loop read pattern ?keep o' f' = Some (o' @ grepped pattern (?keep @ content f'), g o')" for o'
      using less.hyps [of f' ?keep] cut_tail(1) by metis
    then have "grep_loop read pattern keep out f = Some (out @ grepped pattern (keep @ bs) @ grepped pattern (?keep @ content f'), g (out @ grepped pattern (keep @ bs)))"
      using False st by (simp add: grep_lines_cut [OF n])
    then show ?thesis using c by (simp add: grepped_def)
  qed
qed

text \<open>C19: \<open>grep\<close> prints exactly the matching lines of its input, in order and each with its newline, however the
  system call \<open>read\<close> cuts the input into pieces, and it comes to an end. It is assumed of \<open>read\<close> that it
  delivers the next bytes of the file, no more than asked for, and none only at the end of the file
  or when none are asked for; of the input, that it has no NUL and that its lines fit in the buffer.\<close>

theorem grep_correct:
  assumes read_next: "\<And>k f. content f = fst (read k f) @ content (snd (read k f))"
    and read_bound: "\<And>k f. length (fst (read k f)) \<le> k"
    and read_none: "\<And>k f. fst (read k f) = [] \<Longrightarrow> k = 0 \<or> content f = []"
    and "0 \<notin> set (content f)" and "\<forall>l\<in>set (fst (cut (content f))). length l \<le> 1023"
  shows "\<exists>f'. grep read pattern f = Some (concat (filter (\<lambda>l. match pattern (butlast l)) (fst (cut (content f)))), f')"
  using grep_loop_correct [OF assms(1-3), of "[]" f pattern "[]"] assms(4,5) by (simp add: grep_def grepped_def)

theorem grep_correct_witness:
  "\<exists>f'. grep (\<lambda>k f. (take (min k 2) f, drop (min k 2) f)) [98] [97, 98, 10, 99, 10, 98] = Some ([97, 98, 10], f')"
proof -
  have c: "fst (cut [97, 98, 10, 99, 10, 98]) = [[97, 98, 10], [99, 10]]" by simp
  have m: "match [98] [97, 98]" "\<not> match [98] [99]" by code_simp+
  have "\<exists>f'. grep (\<lambda>k f. (take (min k 2) f, drop (min k 2) f)) [98] [97, 98, 10, 99, 10, 98] =
    Some (concat (filter (\<lambda>l. match [98] (butlast l)) (fst (cut (id [97, 98, 10, 99, 10, 98])))), f')"
    by (rule grep_correct [where content = id]) auto
  then show ?thesis unfolding id_apply c using m by simp
qed

text \<open>A line that does not fit ends the run: the rest of the input is never looked at.\<close>

lemma grep_long_line:
  assumes "length w = 1023" and "0 \<notin> set w" and "NEWLINE \<notin> set w"
  shows "grep (\<lambda>k f. (take k f, drop k f)) pattern (w @ more) = Some ([], more)"
proof -
  have "grep_lines pattern w [] = (w, [])" using assms by (simp add: grep_lines_cut cut_none grepped_def)
  then show ?thesis unfolding grep_def using assms
    by (subst grep_loop.simps) (simp add: Let_def, subst grep_loop.simps, auto simp: Let_def)
qed

end
