(* ===== verification/Sh.thy ===== *)
theory Sh
  imports Ulib
begin

text \<open>
  The parser of the shell (\<open>user/sh.c\<close>). The line is a list of bytes without its NUL, \<open>es\<close> is its length and
  a \<open>char *\<close> into it is an index. A string of a command is the pair of its start and end, \<open>argv[i]\<close> and
  \<open>eargv[i]\<close> or \<open>file\<close> and \<open>efile\<close>; \<open>nulterminate\<close> later writes a NUL at the end. A panic of the parser,
  which prints a message and exits, is \<open>Inl\<close> of the message.

  The parsing functions call each other, and the first argument bounds the depth of the calls: \<open>None\<close> is
  a bound that was too small. That \<open>parsecmd\<close>, which starts with four calls for each byte, always has
  enough is a theorem.
\<close>

abbreviation (input) MAXARGS :: nat where "MAXARGS \<equiv> 10"

subsection \<open>Commands\<close>

datatype 's cmd =
    EXEC "'s list"
  | REDIR "'s cmd" 's int int
  | PIPE "'s cmd" "'s cmd"
  | LIST "'s cmd" "'s cmd"
  | BACK "'s cmd"

type_synonym tok = "nat \<times> nat"

text \<open>\<open>O_RDONLY\<close>, \<open>O_WRONLY|O_CREATE|O_TRUNC\<close> and \<open>O_WRONLY|O_CREATE\<close>.\<close>

abbreviation (input) M_IN :: int where "M_IN \<equiv> 0"
abbreviation (input) M_OUT :: int where "M_OUT \<equiv> 0x601"
abbreviation (input) M_APP :: int where "M_APP \<equiv> 0x201"

subsection \<open>Tokens\<close>

definition whitespace :: "u8 list" where
  "whitespace = [32, 9, 13, 10, 11]"

definition symbols :: "u8 list" where
  "symbols = [60, 124, 62, 38, 59, 40, 41]"

abbreviation (input) LT :: u8 where "LT \<equiv> 60"
abbreviation (input) BAR :: u8 where "BAR \<equiv> 124"
abbreviation (input) GT :: u8 where "GT \<equiv> 62"
abbreviation (input) AMP :: u8 where "AMP \<equiv> 38"
abbreviation (input) SEMI :: u8 where "SEMI \<equiv> 59"
abbreviation (input) LPAR :: u8 where "LPAR \<equiv> 40"
abbreviation (input) RPAR :: u8 where "RPAR \<equiv> 41"

function skip_ws :: "u8 list \<Rightarrow> nat \<Rightarrow> nat" where
  "skip_ws b s = (if s < length b \<and> strchr whitespace (ch b s) \<noteq> None then skip_ws b (s + 1) else s)"
  by pat_completeness auto
termination by (relation "measure (\<lambda>(b, s). length b - s)") auto

function skip_word :: "u8 list \<Rightarrow> nat \<Rightarrow> nat" where
  "skip_word b s =
     (if s < length b \<and> strchr whitespace (ch b s) = None \<and> strchr symbols (ch b s) = None
      then skip_word b (s + 1) else s)"
  by pat_completeness auto
termination by (relation "measure (\<lambda>(b, s). length b - s)") auto

declare skip_ws.simps [simp del] skip_word.simps [simp del]

text \<open>The kind of a token: the character itself, \<open>'+'\<close> for \<open>>>\<close>, \<open>'a'\<close> for a word, and 0 at the end.\<close>

definition tok_end :: "u8 list \<Rightarrow> nat \<Rightarrow> u8 \<times> nat" where
  "tok_end b s =
     (let c = ch b s in
      if c = 0 then (0, s)
      else if c = BAR \<or> c = LPAR \<or> c = RPAR \<or> c = SEMI \<or> c = AMP \<or> c = LT then (c, s + 1)
      else if c = GT then (if ch b (s + 1) = GT then (43, s + 2) else (c, s + 1))
      else (97, skip_word b s))"

text \<open>The values of \<open>gettoken\<close>: the kind, the start and end of the token, and the new position.\<close>

definition gettoken :: "u8 list \<Rightarrow> nat \<Rightarrow> u8 \<times> tok \<times> nat" where
  "gettoken b s =
     (let q = skip_ws b s; r = tok_end b q in (fst r, (q, snd r), skip_ws b (snd r)))"

definition peek :: "u8 list \<Rightarrow> nat \<Rightarrow> u8 list \<Rightarrow> bool" where
  "peek b s toks \<longleftrightarrow> ch b (skip_ws b s) \<noteq> 0 \<and> strchr toks (ch b (skip_ws b s)) \<noteq> None"

abbreviation kind :: "u8 list \<Rightarrow> nat \<Rightarrow> u8" where "kind b s \<equiv> fst (gettoken b s)"
abbreviation tok :: "u8 list \<Rightarrow> nat \<Rightarrow> tok" where "tok b s \<equiv> fst (snd (gettoken b s))"
abbreviation adv :: "u8 list \<Rightarrow> nat \<Rightarrow> nat" where "adv b s \<equiv> snd (snd (gettoken b s))"

subsection \<open>Positions only move forward\<close>

lemma skip_ws_ge: "s \<le> skip_ws b s"
proof (induction b s rule: skip_ws.induct)
  case (1 b s) then show ?case by (subst skip_ws.simps) auto
qed

lemma skip_word_ge: "s \<le> skip_word b s"
proof (induction b s rule: skip_word.induct)
  case (1 b s) then show ?case by (subst skip_word.simps) auto
qed

lemma skip_ws_stop: "skip_ws b s < length b \<Longrightarrow> strchr whitespace (ch b (skip_ws b s)) = None"
proof (induction b s rule: skip_ws.induct)
  case (1 b s)
  show ?case
  proof (cases "s < length b \<and> strchr whitespace (ch b s) \<noteq> None")
    case True
    then have "skip_ws b s = skip_ws b (s + 1)" by (subst skip_ws.simps) simp
    then show ?thesis using 1 True by simp
  next
    case False
    then have "skip_ws b s = s" by (subst skip_ws.simps) auto
    then show ?thesis using 1(2) False by auto
  qed
qed

lemma ch_lt: "ch b s \<noteq> 0 \<Longrightarrow> s < length b"
  by (auto simp: ch_def split: if_splits)

lemma not_symbol:
  "strchr symbols c = None" if "c \<noteq> BAR" "c \<noteq> LPAR" "c \<noteq> RPAR" "c \<noteq> SEMI" "c \<noteq> AMP" "c \<noteq> LT" "c \<noteq> GT"
  using that by (simp add: symbols_def)

lemma tok_end_gt: "ch b s \<noteq> 0 \<Longrightarrow> strchr whitespace (ch b s) = None \<Longrightarrow> s < snd (tok_end b s)"
  using not_symbol [of "ch b s"] skip_word_ge [of "s + 1" b] ch_lt [of b s]
  by (auto simp: tok_end_def Let_def skip_word.simps [of b s])

lemma kind_0: "kind b s = 0 \<longleftrightarrow> ch b (skip_ws b s) = 0"
  by (auto simp: gettoken_def Let_def tok_end_def)

lemma adv_gt: "ch b (skip_ws b s) \<noteq> 0 \<Longrightarrow> s < adv b s \<and> s < length b"
  using skip_ws_ge [of s b] tok_end_gt [of b "skip_ws b s"] skip_ws_stop [of b s] ch_lt [of b "skip_ws b s"]
    skip_ws_ge [of "snd (tok_end b (skip_ws b s))" b]
  by (simp add: gettoken_def Let_def)

lemma adv_ge: "s \<le> adv b s"
proof (cases "ch b (skip_ws b s) = 0")
  case True
  then show ?thesis using skip_ws_ge [of s b] skip_ws_ge [of "skip_ws b s" b] by (simp add: gettoken_def Let_def tok_end_def)
qed (use adv_gt in \<open>simp add: less_imp_le\<close>)

lemma peekD: "peek b s toks \<Longrightarrow> ch b (skip_ws b s) \<noteq> 0"
  by (simp add: peek_def)

subsection \<open>The parser\<close>

function parseredirs :: "tok cmd \<Rightarrow> u8 list \<Rightarrow> nat \<Rightarrow> string + tok cmd \<times> nat" where
  "parseredirs c b s =
     (if peek b s [LT, GT] then
        let s1 = adv b s in
        if kind b s1 \<noteq> 97 then Inl ''missing file for redirection''
        else
          let t = tok b s1;
              c = (if kind b s = LT then REDIR c t M_IN 0
                   else if kind b s = GT then REDIR c t M_OUT 1
                   else if kind b s = 43 then REDIR c t M_APP 1 else c) in
          parseredirs c b (adv b s1)
      else Inr (c, skip_ws b s))"
  by pat_completeness auto
termination
proof (relation "measure (\<lambda>(c, b, s). length b - s)")
  fix c :: "tok cmd" and b s x t c'
  assume "peek b s [LT, GT]" and "x = adv b s"
  then have "s < adv b x" "s < length b" using adv_gt [OF peekD] adv_ge [of x b] by (auto intro: less_le_trans)
  then show "((c', b, adv b x), c, b, s) \<in> measure (\<lambda>(c, b, s). length b - s)" by auto
qed simp

text \<open>\<open>cmd->argv[argc] = q; cmd->eargv[argc] = eq\<close>: the node is the innermost one under the redirections.\<close>

primrec add_arg :: "tok \<Rightarrow> tok cmd \<Rightarrow> tok cmd" where
  "add_arg t (EXEC ts) = EXEC (ts @ [t])"
| "add_arg t (REDIR c f m d) = REDIR (add_arg t c) f m d"
| "add_arg t (PIPE l r) = PIPE l r"
| "add_arg t (LIST l r) = LIST l r"
| "add_arg t (BACK c) = BACK c"

function exec_loop :: "nat \<Rightarrow> tok cmd \<Rightarrow> u8 list \<Rightarrow> nat \<Rightarrow> string + tok cmd \<times> nat" where
  "exec_loop argc ret b s =
     (if peek b s [BAR, RPAR, AMP, SEMI] then Inr (ret, skip_ws b s)
      else if kind b s = 0 then Inr (ret, adv b s)
      else if kind b s \<noteq> 97 then Inl ''syntax''
      else
        let ret = add_arg (tok b s) ret in
        if MAXARGS \<le> argc + 1 then Inl ''too many args''
        else case parseredirs ret b (adv b s) of Inl m \<Rightarrow> Inl m | Inr x \<Rightarrow> exec_loop (argc + 1) (fst x) b (snd x))"
  by pat_completeness auto
termination by (relation "measure (\<lambda>(argc, ret, b, s). MAXARGS - argc)") auto

function back_loop :: "tok cmd \<Rightarrow> u8 list \<Rightarrow> nat \<Rightarrow> tok cmd \<times> nat" where
  "back_loop c b s = (if peek b s [AMP] then back_loop (BACK c) b (adv b s) else (c, skip_ws b s))"
  by pat_completeness auto
termination
  by (relation "measure (\<lambda>(c, b, s). length b - s)") (auto dest!: peekD adv_gt)

declare parseredirs.simps [simp del] exec_loop.simps [simp del] back_loop.simps [simp del]

fun pbind :: "(string + 'a) option \<Rightarrow> ('a \<Rightarrow> (string + 'b) option) \<Rightarrow> (string + 'b) option" where
  "pbind None k = None"
| "pbind (Some (Inl m)) k = Some (Inl m)"
| "pbind (Some (Inr x)) k = k x"

fun parseline :: "nat \<Rightarrow> u8 list \<Rightarrow> nat \<Rightarrow> (string + tok cmd \<times> nat) option"
  and parsepipe :: "nat \<Rightarrow> u8 list \<Rightarrow> nat \<Rightarrow> (string + tok cmd \<times> nat) option"
  and parseblock :: "nat \<Rightarrow> u8 list \<Rightarrow> nat \<Rightarrow> (string + tok cmd \<times> nat) option"
  and parseexec :: "nat \<Rightarrow> u8 list \<Rightarrow> nat \<Rightarrow> (string + tok cmd \<times> nat) option" where
  "parseline 0 b s = None"
| "parseline (Suc n) b s =
     pbind (parsepipe n b s) (\<lambda>x.
     let y = back_loop (fst x) b (snd x) in
     if peek b (snd y) [SEMI] then
       pbind (parseline n b (adv b (snd y))) (\<lambda>z. Some (Inr (LIST (fst y) (fst z), snd z)))
     else Some (Inr (fst y, skip_ws b (snd y))))"
| "parsepipe 0 b s = None"
| "parsepipe (Suc n) b s =
     pbind (parseexec n b s) (\<lambda>x.
     if peek b (snd x) [BAR] then
       pbind (parsepipe n b (adv b (snd x))) (\<lambda>z. Some (Inr (PIPE (fst x) (fst z), snd z)))
     else Some (Inr (fst x, skip_ws b (snd x))))"
| "parseblock 0 b s = None"
| "parseblock (Suc n) b s =
     (if \<not> peek b s [LPAR] then Some (Inl ''parseblock'')
      else
        pbind (parseline n b (adv b s)) (\<lambda>x.
        if \<not> peek b (snd x) [RPAR] then Some (Inl ''syntax - missing )'')
        else Some (parseredirs (fst x) b (adv b (snd x)))))"
| "parseexec 0 b s = None"
| "parseexec (Suc n) b s =
     (if peek b s [LPAR] then parseblock n b (skip_ws b s)
      else
        pbind (Some (parseredirs (EXEC []) b (skip_ws b s))) (\<lambda>x.
        Some (exec_loop 0 (fst x) b (snd x))))"

text \<open>Writing a NUL at position \<open>es\<close> changes nothing, since the line already ends there.\<close>

primrec nulterminate :: "tok cmd \<Rightarrow> u8 list \<Rightarrow> u8 list" where
  "nulterminate (EXEC ts) b = fold (\<lambda>t b. b[snd t := 0]) ts b"
| "nulterminate (REDIR c f m d) b = (nulterminate c b)[snd f := 0]"
| "nulterminate (PIPE l r) b = nulterminate r (nulterminate l b)"
| "nulterminate (LIST l r) b = nulterminate r (nulterminate l b)"
| "nulterminate (BACK c) b = nulterminate c b"

definition parsecmd :: "u8 list \<Rightarrow> (string + tok cmd \<times> u8 list) option" where
  "parsecmd b =
     pbind (parseline (4 * length b + 4) b 0) (\<lambda>x.
     if skip_ws b (snd x) \<noteq> length b then Some (Inl ''syntax'')
     else Some (Inr (fst x, nulterminate (fst x) b)))"

subsection \<open>Words\<close>

definition wordc :: "u8 \<Rightarrow> bool" where
  "wordc c \<longleftrightarrow> strchr whitespace c = None \<and> strchr symbols c = None"

text \<open>A token that is a word: its bytes are word characters, and it goes on as far as they do.\<close>

definition tok_ok :: "u8 list \<Rightarrow> tok \<Rightarrow> bool" where
  "tok_ok b t \<longleftrightarrow> fst t < snd t \<and> snd t \<le> length b \<and> (\<forall>i. fst t \<le> i \<and> i < snd t \<longrightarrow> wordc (b ! i)) \<and>
     (snd t < length b \<longrightarrow> \<not> wordc (b ! snd t))"

lemma skip_word_spec:
  "s \<le> length b \<Longrightarrow> skip_word b s \<le> length b \<and> (\<forall>i. s \<le> i \<and> i < skip_word b s \<longrightarrow> wordc (b ! i)) \<and>
     (skip_word b s < length b \<longrightarrow> \<not> wordc (b ! skip_word b s))"
proof (induction b s rule: skip_word.induct)
  case (1 b s)
  show ?case
  proof (cases "s < length b \<and> wordc (ch b s)")
    case True
    then have e: "skip_word b s = skip_word b (s + 1)" by (subst skip_word.simps) (simp add: wordc_def)
    have ih: "skip_word b (s + 1) \<le> length b" "\<forall>i. s + 1 \<le> i \<and> i < skip_word b (s + 1) \<longrightarrow> wordc (b ! i)"
      "skip_word b (s + 1) < length b \<longrightarrow> \<not> wordc (b ! skip_word b (s + 1))"
      using 1(1) True by (simp_all add: wordc_def)
    have "wordc (b ! i)" if "s \<le> i" "i < skip_word b (s + 1)" for i
      using ih(2) that True by (cases "i = s") (auto simp: ch_def)
    then show ?thesis using ih e by simp
  next
    case False
    then have "skip_word b s = s" by (subst skip_word.simps) (auto simp: wordc_def)
    then show ?thesis using False 1(2) by (auto simp: ch_def)
  qed
qed

lemma tok_word: "kind b s = 97 \<Longrightarrow> tok_ok b (tok b s)"
proof -
  let ?q = "skip_ws b s"
  assume k: "kind b s = 97"
  then have c: "ch b ?q \<noteq> 0" using kind_0 [of b s] by auto
  then have q: "?q < length b" by (rule ch_lt)
  have "snd (tok_end b ?q) = skip_word b ?q"
    using k by (auto simp: gettoken_def Let_def tok_end_def split: if_splits)
  then show ?thesis using skip_word_spec [of ?q b] q tok_end_gt [OF c skip_ws_stop [OF q]]
    by (simp add: tok_ok_def gettoken_def Let_def)
qed

subsection \<open>What the parser returns\<close>

abbreviation toks_ok :: "u8 list \<Rightarrow> tok cmd \<Rightarrow> bool" where
  "toks_ok b c \<equiv> \<forall>t\<in>set_cmd c. tok_ok b t"

lemma parseredirs_ok:
  "parseredirs c b s = Inr (d, u) \<Longrightarrow> toks_ok b c \<Longrightarrow> s \<le> u \<and> toks_ok b d"
proof (induction "length b - s" arbitrary: c s rule: less_induct)
  case less
  show ?case
  proof (cases "peek b s [LT, GT]")
    case False
    then show ?thesis using less.prems skip_ws_ge [of s b] by (simp add: parseredirs.simps [of c])
  next
    case True
    let ?s = "adv b (adv b s)"
    have lt: "s < ?s" "s < length b" using adv_gt [OF peekD [OF True]] adv_ge [of "adv b s" b] by auto
    obtain c' where c': "parseredirs c' b ?s = Inr (d, u)" "kind b (adv b s) = 97"
      "set_cmd c' \<subseteq> insert (tok b (adv b s)) (set_cmd c)"
      using less.prems True by (subst (asm) parseredirs.simps) (auto simp: Let_def split: if_splits)
    have "toks_ok b c'" using c'(3) tok_word [OF c'(2)] less.prems(2) by auto
    moreover have "length b - ?s < length b - s" using lt by linarith
    ultimately have "?s \<le> u \<and> toks_ok b d" using less.hyps [OF _ c'(1)] by blast
    then show ?thesis using lt(1) by simp
  qed
qed

lemma set_add_arg: "set_cmd (add_arg t c) \<subseteq> insert t (set_cmd c)"
  by (induction c) auto

lemma exec_loop_ok: "exec_loop argc c b s = Inr (d, u) \<Longrightarrow> toks_ok b c \<Longrightarrow> s \<le> u \<and> toks_ok b d"
proof (induction "MAXARGS - argc" arbitrary: argc c s rule: less_induct)
  case less
  consider (stop) "u = skip_ws b s \<or> u = adv b s" "d = c"
    | (arg) v e where "argc + 1 < MAXARGS" "kind b s = 97" "parseredirs (add_arg (tok b s) c) b (adv b s) = Inr (e, v)"
      "exec_loop (argc + 1) e b v = Inr (d, u)"
    using less.prems(1) by (subst (asm) exec_loop.simps) (auto simp: Let_def split: if_splits sum.splits)
  then show ?case
  proof cases
    case stop then show ?thesis using skip_ws_ge [of s b] adv_ge [of s b] less.prems(2) by auto
  next
    case arg
    have "toks_ok b (add_arg (tok b s) c)" using set_add_arg tok_word [OF arg(2)] less.prems(2) by blast
    note r = parseredirs_ok [OF arg(3) this]
    moreover have "MAXARGS - (argc + 1) < MAXARGS - argc" using arg(1) by linarith
    ultimately have "v \<le> u \<and> toks_ok b d" using less.hyps [OF _ arg(4)] by blast
    then show ?thesis using r adv_ge [of s b] by simp
  qed
qed

lemma back_loop_ok: "s \<le> snd (back_loop c b s) \<and> set_cmd (fst (back_loop c b s)) = set_cmd c"
proof (induction c b s rule: back_loop.induct)
  case (1 c b s)
  then show ?case using skip_ws_ge [of s b] adv_ge [of s b] by (subst (1 2) back_loop.simps) auto
qed

lemma pbind_Some_Inr: "pbind r k = Some (Inr x) \<longleftrightarrow> (\<exists>y. r = Some (Inr y) \<and> k y = Some (Inr x))"
  by (cases "(r, k)" rule: pbind.cases) auto

lemma parse_ok:
  "(parseline n b s = Some (Inr (c, u)) \<longrightarrow> s \<le> u \<and> toks_ok b c) \<and>
   (parsepipe n b s = Some (Inr (c, u)) \<longrightarrow> s \<le> u \<and> toks_ok b c) \<and>
   (parseblock n b s = Some (Inr (c, u)) \<longrightarrow> s \<le> u \<and> toks_ok b c) \<and>
   (parseexec n b s = Some (Inr (c, u)) \<longrightarrow> s \<le> u \<and> toks_ok b c)"
proof (induction n arbitrary: s c u)
  case (Suc n)
  have line: "s \<le> u \<and> toks_ok b c" if h: "parseline (Suc n) b s = Some (Inr (c, u))"
  proof -
    obtain d v where p: "parsepipe n b s = Some (Inr (d, v))" using h by (auto simp: pbind_Some_Inr)
    let ?y = "back_loop d b v"
    have y: "s \<le> snd ?y" "toks_ok b (fst ?y)" using Suc [of s d v] p back_loop_ok [of v d b] by auto
    show ?thesis
    proof (cases "peek b (snd ?y) [SEMI]")
      case True
      then obtain e w where "parseline n b (adv b (snd ?y)) = Some (Inr (e, w))" "c = LIST (fst ?y) e" "u = w"
        using h p by (auto simp: pbind_Some_Inr Let_def)
      then show ?thesis using Suc [of "adv b (snd ?y)" e w] y adv_ge [of "snd ?y" b] by auto
    next
      case False
      then show ?thesis using h p y skip_ws_ge [of "snd ?y" b] by (auto simp: Let_def)
    qed
  qed
  have pipe: "s \<le> u \<and> toks_ok b c" if h: "parsepipe (Suc n) b s = Some (Inr (c, u))"
  proof -
    obtain d v where p: "parseexec n b s = Some (Inr (d, v))" using h by (auto simp: pbind_Some_Inr)
    have y: "s \<le> v" "toks_ok b d" using Suc [of s d v] p by auto
    show ?thesis
    proof (cases "peek b v [BAR]")
      case True
      then obtain e w where "parsepipe n b (adv b v) = Some (Inr (e, w))" "c = PIPE d e" "u = w"
        using h p by (auto simp: pbind_Some_Inr)
      then show ?thesis using Suc [of "adv b v" e w] y adv_ge [of v b] by auto
    next
      case False
      then show ?thesis using h p y skip_ws_ge [of v b] by auto
    qed
  qed
  have block: "s \<le> u \<and> toks_ok b c" if h: "parseblock (Suc n) b s = Some (Inr (c, u))"
  proof -
    obtain d v where p: "parseline n b (adv b s) = Some (Inr (d, v))" "parseredirs d b (adv b v) = Inr (c, u)"
      using h by (auto simp: pbind_Some_Inr split: if_splits)
    then show ?thesis using Suc [of "adv b s" d v] parseredirs_ok [OF p(2)] adv_ge [of s b] adv_ge [of v b] by auto
  qed
  have exec: "s \<le> u \<and> toks_ok b c" if h: "parseexec (Suc n) b s = Some (Inr (c, u))"
  proof (cases "peek b s [LPAR]")
    case True
    then show ?thesis using h Suc [of "skip_ws b s" c u] skip_ws_ge [of s b] by auto
  next
    case False
    then obtain d v where p: "parseredirs (EXEC []) b (skip_ws b s) = Inr (d, v)" "exec_loop 0 d b v = Inr (c, u)"
      using h by (auto simp: pbind_Some_Inr)
    have r: "skip_ws b s \<le> v \<and> toks_ok b d" by (rule parseredirs_ok [OF p(1)]) simp
    then have "v \<le> u \<and> toks_ok b c" using exec_loop_ok [OF p(2)] by blast
    then show ?thesis using r skip_ws_ge [of s b] by (meson le_trans)
  qed
  show ?case using line pipe block exec by blast
qed simp

subsection \<open>The parser ends\<close>

lemma pbind_None: "pbind r k = None \<longleftrightarrow> r = None \<or> (\<exists>y. r = Some (Inr y) \<and> k y = None)"
  by (cases "(r, k)" rule: pbind.cases) auto

lemma skip_ws_idem [simp]: "skip_ws b (skip_ws b s) = skip_ws b s"
proof (cases "skip_ws b s < length b")
  case True
  then show ?thesis using skip_ws_stop [OF True] by (subst skip_ws.simps) simp
qed (subst skip_ws.simps, simp)

lemma peek_skip_ws [simp]: "peek b (skip_ws b s) toks = peek b s toks"
  by (simp add: peek_def)

lemma adv_room: "peek b s toks \<Longrightarrow> length b - adv b s + 1 \<le> length b - s"
  using adv_gt [OF peekD] by fastforce

lemma parse_fuel:
  "(4 * (length b - s) + 3 \<le> n \<longrightarrow> parseline n b s \<noteq> None) \<and>
   (4 * (length b - s) + 2 \<le> n \<longrightarrow> parsepipe n b s \<noteq> None) \<and>
   (peek b s [LPAR] \<and> 4 * (length b - s) \<le> n \<longrightarrow> parseblock n b s \<noteq> None) \<and>
   (4 * (length b - s) + 1 \<le> n \<longrightarrow> parseexec n b s \<noteq> None)"
proof (induction n arbitrary: s)
  case 0
  show ?case using adv_room [of b s "[LPAR]"] by auto
next
  case (Suc n)
  have line: "parseline (Suc n) b s \<noteq> None" if h: "4 * (length b - s) + 3 \<le> Suc n"
  proof
    assume "parseline (Suc n) b s = None"
    moreover have "parsepipe n b s \<noteq> None" using Suc [of s] h by auto
    ultimately obtain d v where p: "parsepipe n b s = Some (Inr (d, v))" and pk: "peek b (snd (back_loop d b v)) [SEMI]"
      and l: "parseline n b (adv b (snd (back_loop d b v))) = None"
      by (auto simp: pbind_None Let_def split: if_splits)
    have "s \<le> snd (back_loop d b v)" using parse_ok [of n b s d v] p back_loop_ok [of v d b] by auto
    then have "4 * (length b - adv b (snd (back_loop d b v))) + 3 \<le> n" using adv_room [OF pk] h by linarith
    then show False using Suc [of "adv b (snd (back_loop d b v))"] l by blast
  qed
  have pipe: "parsepipe (Suc n) b s \<noteq> None" if h: "4 * (length b - s) + 2 \<le> Suc n"
  proof
    assume "parsepipe (Suc n) b s = None"
    moreover have "parseexec n b s \<noteq> None" using Suc [of s] h by auto
    ultimately obtain d v where p: "parseexec n b s = Some (Inr (d, v))" and pk: "peek b v [BAR]"
      and l: "parsepipe n b (adv b v) = None"
      by (auto simp: pbind_None split: if_splits)
    have "s \<le> v" using parse_ok [of n b s d v] p by auto
    then have "4 * (length b - adv b v) + 2 \<le> n" using adv_room [OF pk] h by linarith
    then show False using Suc [of "adv b v"] l by blast
  qed
  have block: "parseblock (Suc n) b s \<noteq> None" if h: "peek b s [LPAR]" "4 * (length b - s) \<le> Suc n"
  proof -
    have "4 * (length b - adv b s) + 3 \<le> n" using adv_room [OF h(1)] h(2) by linarith
    then have "parseline n b (adv b s) \<noteq> None" using Suc [of "adv b s"] by blast
    then show ?thesis using h(1) by (auto simp: pbind_None split: if_splits)
  qed
  have exec: "parseexec (Suc n) b s \<noteq> None" if h: "4 * (length b - s) + 1 \<le> Suc n"
  proof (cases "peek b s [LPAR]")
    case True
    have "4 * (length b - skip_ws b s) \<le> n" using h skip_ws_ge [of s b] by linarith
    then show ?thesis using Suc [of "skip_ws b s"] True by auto
  next
    case False
    then show ?thesis by (auto simp: pbind_None)
  qed
  show ?case using line pipe block exec by blast
qed

subsection \<open>Terminating the strings\<close>

lemma nth_upd: "j < length xs \<Longrightarrow> xs[i := x] ! j = (if i = j then x else xs ! j)"
  by (cases "i = j") auto

lemma nulterminate_spec:
  "length (nulterminate c b) = length b \<and>
   (\<forall>i<length b. nulterminate c b ! i = (if i \<in> snd ` set_cmd c then 0 else b ! i))"
proof (induction c arbitrary: b)
  case (EXEC ts)
  show ?case
  proof (induction ts arbitrary: b)
    case (Cons t ts)
    then show ?case by (auto simp: nth_upd)
  qed simp
qed (auto simp: nth_upd)

lemma cstr_at_token:
  assumes "0 \<notin> set b" and "toks_ok b c" and "(q, eq) \<in> set_cmd c"
  shows "cstr_at (nulterminate c b) q = take (eq - q) (drop q b)"
proof -
  let ?b = "nulterminate c b"
  note n = nulterminate_spec [of c b]
  have t: "q < eq" "eq \<le> length b" "wordc (b ! i)" if "q \<le> i" "i < eq" for i
    using assms(2,3) that by (auto simp: tok_ok_def)
  have keep: "?b ! i = b ! i" if "q \<le> i" "i < eq" for i
  proof -
    have "i < length b" using t [OF that] that by simp
    moreover have "i \<notin> snd ` set_cmd c" using t(3) [OF that] assms(2) \<open>i < length b\<close> by (auto simp: tok_ok_def)
    ultimately show ?thesis using n by simp
  qed
  have qe: "q < eq" "eq \<le> length b" using assms(2,3) by (auto simp: tok_ok_def)
  have d: "drop q ?b = take (eq - q) (drop q b) @ drop eq ?b"
  proof -
    have "take (eq - q) (drop q ?b) = take (eq - q) (drop q b)"
      using n qe keep by (intro nth_equalityI) auto
    moreover have "drop q ?b = take (eq - q) (drop q ?b) @ drop eq ?b"
      using append_take_drop_id [of "eq - q" "drop q ?b"] qe by simp
    ultimately show ?thesis by simp
  qed
  have z: "drop eq ?b = [] \<or> hd (drop eq ?b) = 0"
  proof (cases "eq < length b")
    case True
    have "eq \<in> snd ` set_cmd c" using assms(3) by force
    then show ?thesis using n True by (simp add: hd_drop_conv_nth)
  qed (use n in simp)
  have "\<forall>x\<in>set (take (eq - q) (drop q b)). x \<noteq> 0" using assms(1) by (metis in_set_dropD in_set_takeD)
  then have "takeWhile (\<lambda>c. c \<noteq> 0) (take (eq - q) (drop q b) @ drop eq ?b) =
      take (eq - q) (drop q b) @ takeWhile (\<lambda>c. c \<noteq> 0) (drop eq ?b)"
    by (intro takeWhile_append2) blast
  moreover have "takeWhile (\<lambda>c. c \<noteq> 0) (drop eq ?b) = []" using z by (cases "drop eq ?b") auto
  ultimately show ?thesis unfolding cstr_at_def d by simp
qed

text \<open>C18: On every line without NUL the parser of the shell ends, with a command or with an error message, and in
  the command every argument and file name is, after \<open>nulterminate\<close> has written its NULs into the line, exactly
  the word of the line that it was parsed from: a non-empty run of word characters that is not cut
  short by the NUL of another word.\<close>

theorem parsecmd_total:
  assumes "0 \<notin> set b"
  shows "(\<exists>m. parsecmd b = Some (Inl m)) \<or>
    (\<exists>c b'. parsecmd b = Some (Inr (c, b')) \<and> length b' = length b \<and>
       (\<forall>(q, eq)\<in>set_cmd c. q < eq \<and> eq \<le> length b \<and> cstr_at b' q = take (eq - q) (drop q b) \<and>
          (\<forall>x\<in>set (cstr_at b' q). wordc x) \<and> (eq < length b \<longrightarrow> \<not> wordc (b ! eq))))"
proof -
  obtain r where r: "parseline (4 * length b + 4) b 0 = Some r" using parse_fuel [of b 0 "4 * length b + 4"] by auto
  show ?thesis
  proof (cases r)
    case (Inl m) then show ?thesis using r by (simp add: parsecmd_def)
  next
    case (Inr x)
    obtain c u where x: "x = (c, u)" by (cases x)
    have ok: "toks_ok b c" using parse_ok [of "4 * length b + 4" b 0 c u] r Inr x by blast
    have tok: "q < eq \<and> eq \<le> length b \<and> cstr_at (nulterminate c b) q = take (eq - q) (drop q b) \<and>
        (\<forall>x\<in>set (cstr_at (nulterminate c b) q). wordc x) \<and> (eq < length b \<longrightarrow> \<not> wordc (b ! eq))"
      if "(q, eq) \<in> set_cmd c" for q eq
    proof -
      note s = cstr_at_token [OF assms ok that]
      have t: "tok_ok b (q, eq)" using ok that by blast
      then have "\<forall>x\<in>set (take (eq - q) (drop q b)). wordc x" by (auto simp: tok_ok_def in_set_conv_nth)
      then show ?thesis using s t by (simp add: tok_ok_def)
    qed
    show ?thesis using r Inr x tok nulterminate_spec [of c b] by (cases "skip_ws b u = length b") (auto simp: parsecmd_def)
  qed
qed

theorem parsecmd_total_witness:
  "\<exists>c b'. parsecmd [108, 115, 62, 102] = Some (Inr (c, b')) \<and> set_cmd c = {(3, 4), (0, 2)} \<and>
     cstr_at b' 0 = [108, 115] \<and> cstr_at b' 3 = [102]"
proof -
  let ?b = "[108, 115, 62, 102] :: u8 list"
  have v: "parsecmd ?b = Some (Inr (REDIR (EXEC [(0, 2)]) (3, 4) 0x601 1, [108, 115, 0, 102]))" by code_simp
  have "0 \<notin> set ?b" by simp
  from parsecmd_total [OF this] have "cstr_at [108, 115, 0, 102] 0 = [108, 115] \<and> cstr_at [108, 115, 0, 102] 3 = [102]"
    unfolding v by simp
  then show ?thesis using v by simp
qed

subsection \<open>Printing a command\<close>

text \<open>Every part of a command is put in parentheses, and the words of a simple command are separated by blanks.\<close>

fun print_words :: "u8 list list \<Rightarrow> u8 list" where
  "print_words [] = []"
| "print_words [w] = w"
| "print_words (w # ws) = w @ 32 # print_words ws"

definition print_op :: "int \<Rightarrow> u8 list" where
  "print_op m = (if m = M_IN then [LT] else if m = M_OUT then [GT] else [GT, GT])"

primrec print_cmd :: "u8 list cmd \<Rightarrow> u8 list" where
  "print_cmd (EXEC ws) = print_words ws"
| "print_cmd (REDIR c f m d) = LPAR # print_cmd c @ RPAR # print_op m @ f"
| "print_cmd (PIPE l r) = LPAR # print_cmd l @ RPAR # BAR # LPAR # print_cmd r @ [RPAR]"
| "print_cmd (LIST l r) = LPAR # print_cmd l @ RPAR # SEMI # LPAR # print_cmd r @ [RPAR]"
| "print_cmd (BACK c) = LPAR # print_cmd c @ [RPAR, AMP]"

definition word_ok :: "u8 list \<Rightarrow> bool" where
  "word_ok w \<longleftrightarrow> w \<noteq> [] \<and> (\<forall>x\<in>set w. x \<noteq> 0 \<and> wordc x)"

text \<open>The commands the shell can represent: at most nine words, and the three kinds of redirection.\<close>

primrec cmd_ok :: "u8 list cmd \<Rightarrow> bool" where
  "cmd_ok (EXEC ws) \<longleftrightarrow> length ws < MAXARGS \<and> (\<forall>w\<in>set ws. word_ok w)"
| "cmd_ok (REDIR c f m d) \<longleftrightarrow> cmd_ok c \<and> word_ok f \<and> (m, d) \<in> {(M_IN, 0), (M_OUT, 1), (M_APP, 1)}"
| "cmd_ok (PIPE l r) \<longleftrightarrow> cmd_ok l \<and> cmd_ok r"
| "cmd_ok (LIST l r) \<longleftrightarrow> cmd_ok l \<and> cmd_ok r"
| "cmd_ok (BACK c) \<longleftrightarrow> cmd_ok c"

subsection \<open>Reading at a position\<close>

definition plain :: "u8 list \<Rightarrow> bool" where
  "plain xs \<longleftrightarrow> xs = [] \<or> strchr whitespace (hd xs) = None"

lemma ch_drop: "ch b (s + i) = ch (drop s b) i"
  by (simp add: ch_def less_diff_conv add.commute)

lemma ch_here: "ch b s = ch (drop s b) 0"
  using ch_drop [of b s 0] by simp

lemma drop_next: "drop s b = xs @ ys \<Longrightarrow> drop (s + length xs) b = ys"
  by (metis add.commute append_eq_conv_conj drop_drop)

lemma drop_Cons_next: "drop s b = x # ys \<Longrightarrow> drop (Suc s) b = ys"
  using drop_next [of s b "[x]" ys] by simp

lemma skip_ws_plain: "plain (drop s b) \<Longrightarrow> skip_ws b s = s"
  by (cases "drop s b") (auto simp: plain_def skip_ws.simps [of b s] ch_here [of b s])

lemma skip_ws_blank: "drop s b = 32 # xs \<Longrightarrow> plain xs \<Longrightarrow> skip_ws b s = s + 1"
proof -
  assume a: "drop s b = 32 # xs" "plain xs"
  then have "s < length b" by (metis drop_eq_Nil list.distinct(1) not_less)
  moreover have "skip_ws b (s + 1) = s + 1" using drop_Cons_next [OF a(1)] a(2) by (intro skip_ws_plain) simp
  ultimately show ?thesis using a(1) by (subst skip_ws.simps) (simp add: ch_here [of b s] whitespace_def)
qed

lemma peek_plain:
  "plain (drop s b) \<Longrightarrow> peek b s toks \<longleftrightarrow> ch (drop s b) 0 \<noteq> 0 \<and> strchr toks (ch (drop s b) 0) \<noteq> None"
  by (simp add: peek_def skip_ws_plain ch_here [of b s])

lemma plain_symbol: "c \<in> set symbols \<Longrightarrow> plain (c # xs)"
  by (auto simp: plain_def symbols_def whitespace_def)

lemma token_symbol:
  assumes "drop s b = c # xs" and "c \<in> {BAR, LPAR, RPAR, SEMI, AMP, LT}" and "plain xs"
  shows "kind b s = c" and "adv b s = s + 1"
proof -
  have "plain (drop s b)" using assms(1,2) plain_symbol [of c xs] by (auto simp: symbols_def)
  then have q: "skip_ws b s = s" by (rule skip_ws_plain)
  have "tok_end b s = (c, s + 1)" using assms(1,2) by (auto simp: tok_end_def ch_here [of b s])
  moreover have "skip_ws b (s + 1) = s + 1" using drop_Cons_next [OF assms(1)] assms(3) by (intro skip_ws_plain) simp
  ultimately show "kind b s = c" "adv b s = s + 1" using q by (simp_all add: gettoken_def Let_def)
qed

lemma token_gt:
  assumes "drop s b = print_op m @ xs" and "plain xs" and "ch xs 0 \<noteq> GT" and "m = M_OUT \<or> m = M_APP"
  shows "kind b s = (if m = M_OUT then GT else 43)" and "adv b s = s + length (print_op m)"
proof -
  have "plain (drop s b)" using assms(1,4) plain_symbol [of GT] by (auto simp: print_op_def symbols_def)
  then have q: "skip_ws b s = s" by (rule skip_ws_plain)
  have "tok_end b s = (if m = M_OUT then GT else 43, s + length (print_op m))"
    using assms(1,3,4) by (auto simp: tok_end_def ch_here [of b s] ch_drop [of b s 1, simplified] print_op_def)
  moreover have "skip_ws b (s + length (print_op m)) = s + length (print_op m)"
    using drop_next [OF assms(1)] assms(2) by (intro skip_ws_plain) simp
  ultimately show "kind b s = (if m = M_OUT then GT else 43)" "adv b s = s + length (print_op m)"
    using q by (simp_all add: gettoken_def Let_def)
qed

lemma skip_word_all:
  "drop s b = w @ xs \<Longrightarrow> \<forall>x\<in>set w. x \<noteq> 0 \<and> wordc x \<Longrightarrow> xs = [] \<or> \<not> wordc (hd xs) \<Longrightarrow> skip_word b s = s + length w"
proof (induction w arbitrary: s)
  case Nil
  then have "\<not> (s < length b \<and> wordc (ch b s))" by (cases xs) (auto simp: ch_here [of b s])
  then show ?case by (subst skip_word.simps) (auto simp: wordc_def)
next
  case (Cons x w)
  have d: "drop (s + 1) b = w @ xs" using drop_Cons_next [of s b x "w @ xs"] Cons.prems(1) by simp
  have "s < length b" using Cons.prems(1) by (metis append_Cons drop_eq_Nil list.distinct(1) not_less)
  then have "skip_word b s = skip_word b (s + 1)"
    using Cons.prems(1,2) by (subst skip_word.simps) (simp add: ch_here [of b s] wordc_def)
  then show ?case using Cons.IH [OF d] Cons.prems(2,3) by simp
qed

lemma wordc_first: "wordc c \<Longrightarrow> c \<notin> set whitespace \<and> c \<notin> set symbols"
  using strchr_None [of whitespace c] strchr_None [of symbols c]
  by (simp add: wordc_def) (simp add: whitespace_def symbols_def)

lemma word_okE:
  assumes "word_ok w"
  obtains x v where "w = x # v" and "x \<noteq> 0" and "wordc x"
  using assms by (cases w) (auto simp: word_ok_def)

lemma plain_word: "word_ok w \<Longrightarrow> plain (w @ xs)"
  by (erule word_okE) (simp add: plain_def wordc_def)

lemma token_word:
  assumes "drop s b = w @ xs" and "word_ok w" and "xs = [] \<or> \<not> wordc (hd xs)"
  shows "kind b s = 97" and "tok b s = (s, s + length w)" and "adv b s = skip_ws b (s + length w)"
proof -
  have q: "skip_ws b s = s" using assms(1) plain_word [OF assms(2)] by (intro skip_ws_plain) simp
  have w: "skip_word b s = s + length w" using assms by (intro skip_word_all) (auto simp: word_ok_def)
  obtain x v where x: "w = x # v" "x \<noteq> 0" "wordc x" using assms(2) by (rule word_okE)
  have "tok_end b s = (97, s + length w)"
    using assms(1) x(1,2) w wordc_first [OF x(3)] by (auto simp: tok_end_def ch_here [of b s] symbols_def)
  then show "kind b s = 97" "tok b s = (s, s + length w)" "adv b s = skip_ws b (s + length w)"
    using q by (simp_all add: gettoken_def Let_def)
qed

text \<open>What may follow a command: the end, or a closing parenthesis; and what may follow a parenthesis.\<close>

definition closed :: "u8 list \<Rightarrow> bool" where
  "closed xs \<longleftrightarrow> xs = [] \<or> hd xs = RPAR"

definition ended :: "u8 list \<Rightarrow> bool" where
  "ended xs \<longleftrightarrow> xs = [] \<or> hd xs \<in> {RPAR, BAR, SEMI, AMP}"

lemma closed_ended: "closed xs \<Longrightarrow> ended xs"
  by (auto simp: closed_def ended_def)

lemma ended_plain: "ended xs \<Longrightarrow> plain xs"
  by (auto simp: ended_def plain_def whitespace_def)

lemma ended_not_word: "ended xs \<Longrightarrow> xs = [] \<or> \<not> wordc (hd xs)"
  by (auto simp: ended_def wordc_def symbols_def)

lemma parseredirs_none: "plain (drop s b) \<Longrightarrow> ch (drop s b) 0 \<notin> {LT, GT} \<Longrightarrow> parseredirs c b s = Inr (c, s)"
  by (subst parseredirs.simps) (simp add: peek_plain skip_ws_plain)

lemma ended_no_redir: "ended xs \<Longrightarrow> ch xs 0 \<notin> {LT, GT}"
  by (cases xs) (auto simp: ended_def)

lemma parseredirs_print:
  assumes "drop s b = print_op m @ f @ xs" and "word_ok f" and "ended xs" and "(m, d) \<in> {(M_IN, 0), (M_OUT, 1), (M_APP, 1)}"
  defines "q \<equiv> s + length (print_op m)"
  shows "parseredirs c b s = Inr (REDIR c (q, q + length f) m d, q + length f)"
proof -
  have pf: "plain (f @ xs)" using assms(2) by (rule plain_word)
  have f1: "ch (f @ xs) 0 \<noteq> GT" using assms(2) wordc_first by (elim word_okE) (auto simp: symbols_def)
  have op: "peek b s [LT, GT]"
    using assms(1,4) plain_symbol by (subst peek_plain) (auto simp: print_op_def symbols_def)
  have k: "kind b s = (if m = M_IN then LT else if m = M_OUT then GT else 43) \<and> adv b s = q"
  proof (cases "m = M_IN")
    case True
    then show ?thesis using token_symbol [of s b LT "f @ xs"] assms(1) pf by (simp add: print_op_def q_def)
  next
    case False
    then show ?thesis using token_gt [OF assms(1) pf f1] assms(4) by (auto simp: q_def)
  qed
  have d: "drop q b = f @ xs" using drop_next [OF assms(1)] by (simp add: q_def)
  note t = token_word [OF d assms(2) ended_not_word [OF assms(3)]]
  have x: "drop (q + length f) b = xs" using drop_next [OF d] .
  have e: "skip_ws b (q + length f) = q + length f" using x ended_plain [OF assms(3)] by (intro skip_ws_plain) simp
  have "parseredirs c' b (q + length f) = Inr (c', q + length f)" for c'
    using x ended_plain [OF assms(3)] ended_no_redir [OF assms(3)] by (intro parseredirs_none) simp_all
  then show ?thesis using op k t e assms(4) by (subst parseredirs.simps) auto
qed

subsection \<open>The parser reads back what the printer writes\<close>

definition tok_text :: "u8 list \<Rightarrow> tok \<Rightarrow> u8 list" where
  "tok_text b t = take (snd t - fst t) (drop (fst t) b)"

lemma print_words_first: "\<exists>r. print_words (w # ws) = w @ r"
  by (cases ws) auto

lemma words_first:
  assumes "\<forall>w\<in>set ws. word_ok w" and "plain xs" and "ch xs 0 \<notin> S" and "S \<subseteq> set symbols"
  shows "plain (print_words ws @ xs) \<and> ch (print_words ws @ xs) 0 \<notin> S"
proof (cases ws)
  case (Cons w vs)
  obtain r where r: "print_words ws = w @ r" using print_words_first Cons by blast
  have w: "word_ok w" using assms(1) Cons by simp
  then obtain x v where "w = x # v" "wordc x" by (rule word_okE)
  then show ?thesis using r plain_word [OF w, of "r @ xs"] wordc_first assms(4) by auto
qed (use assms in simp)

lemma exec_loop_print:
  "drop s b = print_words ws @ xs \<Longrightarrow> \<forall>w\<in>set ws. word_ok w \<Longrightarrow> ended xs \<Longrightarrow> argc + length ws < MAXARGS \<Longrightarrow>
   \<exists>us. exec_loop argc (EXEC ts) b s = Inr (EXEC (ts @ us), s + length (print_words ws)) \<and> map (tok_text b) us = ws"
proof (induction ws arbitrary: s argc ts)
  case Nil
  then have "plain (drop s b)" using ended_plain by simp
  then show ?case using Nil
    by (subst exec_loop.simps) (cases xs, auto simp: ended_def peek_plain skip_ws_plain gettoken_def tok_end_def ch_here [of b s])
next
  case (Cons w ws)
  have w: "word_ok w" and ws: "\<forall>v\<in>set ws. word_ok v" using Cons.prems(2) by auto
  let ?xs = "if ws = [] then xs else 32 # print_words ws @ xs"
  have d: "drop s b = w @ ?xs" using Cons.prems(1) by (cases ws) auto
  have nw: "?xs = [] \<or> \<not> wordc (hd ?xs)" using ended_not_word [OF Cons.prems(3)] by (auto simp: wordc_def whitespace_def)
  note t = token_word [OF d w nw]
  have d1: "drop (s + length w) b = ?xs" using drop_next [OF d] .
  have n: "plain (print_words ws @ xs) \<and> ch (print_words ws @ xs) 0 \<notin> {LT, GT}"
    using words_first [OF ws ended_plain ended_no_redir] Cons.prems(3) by (simp add: symbols_def)
  have adv: "drop (adv b s) b = print_words ws @ xs \<and> adv b s + length (print_words ws) = s + length (print_words (w # ws))"
  proof (cases ws)
    case Nil
    then have "plain (drop (s + length w) b)" using d1 n by simp
    then show ?thesis using Nil d1 t(3) skip_ws_plain by simp
  next
    case (Cons v vs)
    then have "skip_ws b (s + length w) = s + length w + 1" using d1 n by (intro skip_ws_blank) auto
    then show ?thesis using Cons d1 t(3) drop_Cons_next [of "s + length w" b] by simp
  qed
  obtain x v where x: "w = x # v" "wordc x" using w by (rule word_okE)
  have "\<not> peek b s [BAR, RPAR, AMP, SEMI]"
    using d x wordc_first [OF x(2)] plain_word [OF w] by (subst peek_plain) (auto simp: symbols_def)
  moreover have "parseredirs c b (adv b s) = Inr (c, adv b s)" for c using adv n by (intro parseredirs_none) auto
  ultimately have "exec_loop argc (EXEC ts) b s = exec_loop (argc + 1) (EXEC (ts @ [tok b s])) b (adv b s)"
    using t(1) Cons.prems(4) by (subst exec_loop.simps) simp
  moreover have "tok_text b (tok b s) = w" using t(2) d by (simp add: tok_text_def)
  moreover obtain us where "exec_loop (argc + 1) (EXEC (ts @ [tok b s])) b (adv b s) =
      Inr (EXEC (ts @ tok b s # us), s + length (print_words (w # ws)))" "map (tok_text b) us = ws"
    using Cons.IH [of "adv b s" "argc + 1" "ts @ [tok b s]"] adv ws Cons.prems(3,4) by auto
  ultimately show ?case by (intro exI [of _ "tok b s # us"]) simp
qed

definition reads :: "u8 list \<Rightarrow> u8 list cmd \<Rightarrow> bool" where
  "reads b c \<longleftrightarrow> (\<forall>s xs n. drop s b = print_cmd c @ xs \<longrightarrow> closed xs \<longrightarrow> 4 * (length b - s) + 3 \<le> n \<longrightarrow>
     (\<exists>p. parseline n b s = Some (Inr (p, s + length (print_cmd c))) \<and> map_cmd (tok_text b) p = c))"

lemma plain_print: "cmd_ok c \<Longrightarrow> plain (print_cmd c @ RPAR # xs)"
  using words_first [of _ "RPAR # xs" "{}"] plain_symbol [of RPAR] plain_symbol [of LPAR] by (cases c) (auto simp: symbols_def)

abbreviation print_par :: "u8 list cmd \<Rightarrow> u8 list" where
  "print_par c \<equiv> LPAR # print_cmd c @ [RPAR]"

lemma parseexec_par:
  assumes r: "reads b c" and c: "cmd_ok c" and d: "drop s b = print_par c @ xs" and xs: "plain xs"
    and n: "4 * (length b - s) + 1 \<le> n"
  shows "\<exists>p. parseexec n b s = Some (parseredirs p b (s + length (print_par c))) \<and> map_cmd (tok_text b) p = c"
proof -
  have pl: "plain (drop s b)" using d plain_symbol [of LPAR] by (simp add: symbols_def)
  have s: "s < length b" using d by (metis append_Cons drop_eq_Nil list.distinct(1) not_less)
  then obtain m where m: "n = Suc (Suc m)" "4 * (length b - (s + 1)) + 3 \<le> m" using n by (intro that [of "n - 2"]) linarith+
  have a: "adv b s = s + 1" using d plain_print [OF c] by (intro token_symbol(2)) auto
  have d1: "drop (s + 1) b = print_cmd c @ RPAR # xs" using drop_Cons_next [of s b] d by simp
  obtain p where p: "parseline m b (s + 1) = Some (Inr (p, s + 1 + length (print_cmd c)))" "map_cmd (tok_text b) p = c"
    using r d1 m(2) unfolding reads_def closed_def by (metis list.sel(1))
  let ?u = "s + 1 + length (print_cmd c)"
  have d2: "drop ?u b = RPAR # xs" using drop_next [OF d1] .
  have "adv b ?u = ?u + 1" using d2 xs by (intro token_symbol(2)) auto
  moreover have "peek b ?u [RPAR]" using d2 plain_symbol [of RPAR xs] by (subst peek_plain) (simp_all add: symbols_def)
  moreover have "peek b s [LPAR]" using d pl by (simp add: peek_plain)
  ultimately show ?thesis using p a m(1) skip_ws_plain [OF pl] by (intro exI [of _ p]) simp
qed

lemma parsepipe_end:
  "parseexec n b s = Some (Inr (p, u)) \<Longrightarrow> ended (drop u b) \<Longrightarrow> ch (drop u b) 0 \<noteq> BAR \<Longrightarrow>
   parsepipe (Suc n) b s = Some (Inr (p, u))"
  using ended_plain [of "drop u b"] by (simp add: peek_plain skip_ws_plain)

lemma back_loop_end: "ended (drop u b) \<Longrightarrow> ch (drop u b) 0 \<noteq> AMP \<Longrightarrow> back_loop c b u = (c, u)"
  using ended_plain [of "drop u b"] by (subst back_loop.simps) (simp add: peek_plain skip_ws_plain)

lemma closed_ch: "closed xs \<Longrightarrow> ch xs 0 \<in> {0, RPAR}"
  by (cases xs) (auto simp: closed_def)

lemma parseline_end:
  assumes "parsepipe n b s = Some (Inr (p, u))" and "closed (drop u b)"
  shows "parseline (Suc n) b s = Some (Inr (p, u))"
  using assms closed_ch [OF assms(2)] closed_ended [OF assms(2)] ended_plain [OF closed_ended [OF assms(2)]]
    back_loop_end [of u b p]
  by (auto simp: peek_plain skip_ws_plain)

lemma parseexec_par_end:
  assumes "reads b c" "cmd_ok c" "drop s b = print_par c @ xs" "ended xs" "4 * (length b - s) + 1 \<le> n"
  shows "\<exists>p. parseexec n b s = Some (Inr (p, s + length (print_par c))) \<and> map_cmd (tok_text b) p = c"
proof -
  note xs = ended_plain [OF assms(4)]
  obtain p where p: "parseexec n b s = Some (parseredirs p b (s + length (print_par c)))" "map_cmd (tok_text b) p = c"
    using parseexec_par [OF assms(1-3) xs assms(5)] by blast
  have "parseredirs p b (s + length (print_par c)) = Inr (p, s + length (print_par c))"
    using drop_next [OF assms(3)] xs ended_no_redir [OF assms(4)] by (intro parseredirs_none) simp_all
  then show ?thesis using p by auto
qed

lemma parsepipe_par_end:
  assumes "reads b c" "cmd_ok c" "drop s b = print_par c @ xs" "ended xs" "ch xs 0 \<noteq> BAR" "4 * (length b - s) + 2 \<le> n"
  shows "\<exists>p. parsepipe n b s = Some (Inr (p, s + length (print_par c))) \<and> map_cmd (tok_text b) p = c"
proof -
  obtain m where m: "n = Suc m" "4 * (length b - s) + 1 \<le> m" using assms(6) by (intro that [of "n - 1"]) linarith+
  obtain p where p: "parseexec m b s = Some (Inr (p, s + length (print_par c)))" "map_cmd (tok_text b) p = c"
    using parseexec_par_end [OF assms(1-4) m(2)] by blast
  have "drop (s + length (print_par c)) b = xs" using drop_next [OF assms(3)] .
  then show ?thesis using parsepipe_end [OF p(1)] p(2) assms(4,5) m(1) by auto
qed

lemma reads_EXEC:
  assumes "cmd_ok (EXEC ws)"
  shows "reads b (EXEC ws)"
  unfolding reads_def
proof (intro allI impI)
  fix s xs n
  assume d: "drop s b = print_cmd (EXEC ws) @ xs" and xs: "closed xs" and n: "4 * (length b - s) + 3 \<le> n"
  note e = closed_ended [OF xs]
  have ok: "\<forall>w\<in>set ws. word_ok w" "length ws < MAXARGS" using assms by auto
  obtain m where m: "n = Suc (Suc (Suc m))" using n by (intro that [of "n - 3"]) linarith
  have f: "plain (drop s b)" "ch (drop s b) 0 \<notin> {LT, GT, LPAR}"
    using words_first [OF ok(1) ended_plain [OF e], of "{LT, GT, LPAR}"] closed_ch [OF xs] d by (auto simp: symbols_def)
  obtain us where us: "exec_loop 0 (EXEC []) b s = Inr (EXEC us, s + length (print_words ws))" "map (tok_text b) us = ws"
    using exec_loop_print [of s b ws xs 0 "[]"] d ok e by auto
  have "parseexec (Suc m) b s = Some (Inr (EXEC us, s + length (print_words ws)))"
    using f us(1) parseredirs_none [of s b "EXEC []"] by (simp add: peek_plain skip_ws_plain)
  moreover have x: "drop (s + length (print_words ws)) b = xs" using d drop_next by simp
  ultimately have "parsepipe (Suc (Suc m)) b s = Some (Inr (EXEC us, s + length (print_words ws)))"
    using e closed_ch [OF xs] by (intro parsepipe_end) auto
  then have "parseline n b s = Some (Inr (EXEC us, s + length (print_words ws)))"
    unfolding m using x xs by (intro parseline_end) simp_all
  then show "\<exists>p. parseline n b s = Some (Inr (p, s + length (print_cmd (EXEC ws)))) \<and> map_cmd (tok_text b) p = EXEC ws"
    using us(2) by auto
qed

lemma reads_REDIR:
  assumes "reads b c" and "cmd_ok (REDIR c f m d)"
  shows "reads b (REDIR c f m d)"
  unfolding reads_def
proof (intro allI impI)
  fix s xs n
  let ?c = "REDIR c f m d"
  assume a: "drop s b = print_cmd ?c @ xs" "closed xs" "4 * (length b - s) + 3 \<le> n"
  note e = closed_ended [OF a(2)]
  obtain k where k: "n = Suc (Suc k)" "4 * (length b - s) + 1 \<le> k" using a(3) by (intro that [of "n - 2"]) linarith+
  have ok: "cmd_ok c" "word_ok f" "(m, d) \<in> {(M_IN, 0), (M_OUT, 1), (M_APP, 1)}" using assms(2) by auto
  have a1: "drop s b = print_par c @ print_op m @ f @ xs" using a(1) by simp
  have "plain (print_op m @ f @ xs)" using plain_symbol by (auto simp: print_op_def symbols_def)
  then obtain p where p: "parseexec k b s = Some (parseredirs p b (s + length (print_par c)))" "map_cmd (tok_text b) p = c"
    using parseexec_par [OF assms(1) ok(1) a1 _ k(2)] by blast
  let ?q = "s + length (print_par c) + length (print_op m)" and ?u = "s + length (print_cmd ?c)"
  have u: "?u = ?q + length f" by simp
  have "drop (?q) b = f @ xs" using drop_next [OF drop_next [OF a1]] .
  then have t: "tok_text b (?q, ?u) = f" by (simp add: tok_text_def u)
  have "drop ?u b = xs" using drop_next [OF a(1)] .
  moreover have "parseexec k b s = Some (Inr (REDIR p (?q, ?u) m d, ?u))"
    unfolding p(1) u using parseredirs_print [OF drop_next [OF a1] ok(2) e ok(3)] by simp
  ultimately have "parseline n b s = Some (Inr (REDIR p (?q, ?u) m d, ?u))"
    unfolding k(1) using a(2) e closed_ch [OF a(2)] by (intro parseline_end parsepipe_end) auto
  then show "\<exists>p. parseline n b s = Some (Inr (p, ?u)) \<and> map_cmd (tok_text b) p = ?c"
    using p(2) t by (intro exI [of _ "REDIR p (?q, ?u) m d"]) simp
qed

lemma reads_PIPE:
  assumes "reads b l" "reads b r" and "cmd_ok (PIPE l r)"
  shows "reads b (PIPE l r)"
  unfolding reads_def
proof (intro allI impI)
  fix s xs n
  let ?c = "PIPE l r" and ?u = "s + length (print_par l)"
  assume a: "drop s b = print_cmd ?c @ xs" "closed xs" "4 * (length b - s) + 3 \<le> n"
  note e = closed_ended [OF a(2)]
  have ok: "cmd_ok l" "cmd_ok r" using assms(3) by auto
  have a1: "drop s b = print_par l @ BAR # print_par r @ xs" using a(1) by simp
  have d: "drop ?u b = BAR # print_par r @ xs" using drop_next [OF a1] .
  have d1: "drop (?u + 1) b = print_par r @ xs" using drop_Cons_next [OF d] by simp
  have s: "s < length b" using a1 by (metis append_Cons drop_eq_Nil list.distinct(1) not_less)
  obtain k where k: "n = Suc (Suc k)" "4 * (length b - s) + 1 \<le> k" "4 * (length b - (?u + 1)) + 2 \<le> k"
    using a(3) s by (intro that [of "n - 2"]) simp_all
  obtain p where p: "parseexec k b s = Some (Inr (p, ?u))" "map_cmd (tok_text b) p = l"
    using parseexec_par_end [OF assms(1) ok(1) a1 _ k(2)] by (auto simp: ended_def)
  obtain q where q: "parsepipe k b (?u + 1) = Some (Inr (q, ?u + 1 + length (print_par r)))" "map_cmd (tok_text b) q = r"
    using parsepipe_par_end [OF assms(2) ok(2) d1 e _ k(3)] closed_ch [OF a(2)] by auto
  have "peek b ?u [BAR]" "adv b ?u = ?u + 1"
    using d plain_symbol [of BAR] plain_symbol [of LPAR] token_symbol(2) [OF d] by (simp_all add: peek_plain symbols_def)
  then have "parsepipe (Suc k) b s = Some (Inr (PIPE p q, s + length (print_cmd ?c)))" using p(1) q(1) by simp
  moreover have "drop (s + length (print_cmd ?c)) b = xs" using drop_next [OF a(1)] .
  ultimately have "parseline n b s = Some (Inr (PIPE p q, s + length (print_cmd ?c)))"
    unfolding k(1) using a(2) by (intro parseline_end) simp_all
  then show "\<exists>p. parseline n b s = Some (Inr (p, s + length (print_cmd ?c))) \<and> map_cmd (tok_text b) p = ?c"
    using p(2) q(2) by auto
qed

lemma reads_LIST:
  assumes "reads b l" "reads b r" and "cmd_ok (LIST l r)"
  shows "reads b (LIST l r)"
  unfolding reads_def
proof (intro allI impI)
  fix s xs n
  let ?c = "LIST l r" and ?u = "s + length (print_par l)"
  assume a: "drop s b = print_cmd ?c @ xs" "closed xs" "4 * (length b - s) + 3 \<le> n"
  have ok: "cmd_ok l" "cmd_ok r" using assms(3) by auto
  have a1: "drop s b = print_par l @ SEMI # print_par r @ xs" using a(1) by simp
  have d: "drop ?u b = SEMI # print_par r @ xs" using drop_next [OF a1] .
  have d1: "drop (?u + 1) b = print_par r @ xs" using drop_Cons_next [OF d] by simp
  have s: "s < length b" using a1 by (metis append_Cons drop_eq_Nil list.distinct(1) not_less)
  obtain k where k: "n = Suc (Suc k)" "4 * (length b - s) + 2 \<le> Suc k" "4 * (length b - (?u + 1)) + 2 \<le> k"
    using a(3) s by (intro that [of "n - 2"]) simp_all
  obtain p where p: "parsepipe (Suc k) b s = Some (Inr (p, ?u))" "map_cmd (tok_text b) p = l"
    using parsepipe_par_end [OF assms(1) ok(1) a1 _ _ k(2)] by (auto simp: ended_def)
  obtain q where q: "parsepipe k b (?u + 1) = Some (Inr (q, ?u + 1 + length (print_par r)))" "map_cmd (tok_text b) q = r"
    using parsepipe_par_end [OF assms(2) ok(2) d1 closed_ended _ k(3)] a(2) closed_ch [OF a(2)] by auto
  have x: "drop (s + length (print_cmd ?c)) b = xs" using drop_next [OF a(1)] .
  have "parsepipe k b (?u + 1) = Some (Inr (q, s + length (print_cmd ?c)))" using q(1) by (simp add: add.assoc)
  then have "parseline (Suc k) b (?u + 1) = Some (Inr (q, s + length (print_cmd ?c)))"
    by (rule parseline_end) (simp only: x a(2))
  moreover have "peek b ?u [SEMI]" "adv b ?u = ?u + 1"
    using d plain_symbol [of SEMI] plain_symbol [of LPAR] token_symbol(2) [OF d] by (simp_all add: peek_plain symbols_def)
  moreover have "back_loop p b ?u = (p, ?u)" using d by (intro back_loop_end) (auto simp: ended_def)
  ultimately have "parseline n b s = Some (Inr (LIST p q, s + length (print_cmd ?c)))"
    unfolding k(1) using p(1) by (subst parseline.simps) simp
  then show "\<exists>p. parseline n b s = Some (Inr (p, s + length (print_cmd ?c))) \<and> map_cmd (tok_text b) p = ?c"
    using p(2) q(2) by auto
qed

lemma reads_BACK:
  assumes "reads b c" and "cmd_ok (BACK c)"
  shows "reads b (BACK c)"
  unfolding reads_def
proof (intro allI impI)
  fix s xs n
  let ?u = "s + length (print_par c)"
  assume a: "drop s b = print_cmd (BACK c) @ xs" "closed xs" "4 * (length b - s) + 3 \<le> n"
  note e = closed_ended [OF a(2)]
  have ok: "cmd_ok c" using assms(2) by simp
  have a1: "drop s b = print_par c @ AMP # xs" using a(1) by simp
  have d: "drop ?u b = AMP # xs" using drop_next [OF a1] .
  have d1: "drop (?u + 1) b = xs" using drop_Cons_next [OF d] by simp
  obtain k where k: "n = Suc k" "4 * (length b - s) + 2 \<le> k" using a(3) by (intro that [of "n - 1"]) linarith+
  obtain p where p: "parsepipe k b s = Some (Inr (p, ?u))" "map_cmd (tok_text b) p = c"
    using parsepipe_par_end [OF assms(1) ok a1 _ _ k(2)] by (auto simp: ended_def)
  have "peek b ?u [AMP]" "adv b ?u = ?u + 1"
    using d plain_symbol [of AMP] token_symbol(2) [OF d] ended_plain [OF e] by (simp_all add: peek_plain symbols_def)
  moreover have "back_loop (BACK p) b (?u + 1) = (BACK p, ?u + 1)" using d1 e closed_ch [OF a(2)] by (intro back_loop_end) auto
  ultimately have "back_loop p b ?u = (BACK p, ?u + 1)" by (subst back_loop.simps) simp
  moreover have "\<not> peek b (?u + 1) [SEMI]" "skip_ws b (?u + 1) = ?u + 1"
    using d1 ended_plain [OF e] closed_ch [OF a(2)] by (auto simp: peek_plain skip_ws_plain)
  ultimately have "parseline n b s = Some (Inr (BACK p, ?u + 1))" unfolding k(1) using p(1) by simp
  then show "\<exists>p. parseline n b s = Some (Inr (p, s + length (print_cmd (BACK c)))) \<and> map_cmd (tok_text b) p = BACK c"
    using p(2) by auto
qed

lemma reads_all: "cmd_ok c \<Longrightarrow> reads b c"
  by (induction c) (simp_all add: reads_EXEC reads_REDIR reads_PIPE reads_LIST reads_BACK)

lemma print_words_nonzero: "\<forall>w\<in>set ws. word_ok w \<Longrightarrow> 0 \<notin> set (print_words ws)"
  by (induction ws rule: print_words.induct) (auto simp: word_ok_def)

lemma print_cmd_nonzero: "cmd_ok c \<Longrightarrow> 0 \<notin> set (print_cmd c)"
  by (induction c) (auto simp: print_words_nonzero print_op_def word_ok_def)

text \<open>C16: The shell parses every command that it can represent (at most nine words of word characters for each
  simple command, and the three kinds of redirection) back from its fully parenthesised text: the command has the
  same shape, redirection modes and descriptors, and the strings its nodes point to in the terminated line are
  the words and file names of the command.\<close>

theorem parsecmd_print_cmd:
  assumes "cmd_ok c"
  shows "\<exists>p b'. parsecmd (print_cmd c) = Some (Inr (p, b')) \<and> map_cmd (\<lambda>(q, eq). cstr_at b' q) p = c"
proof -
  let ?b = "print_cmd c"
  let ?n = "4 * length ?b + 4"
  obtain p where p: "parseline ?n ?b 0 = Some (Inr (p, length ?b))" "map_cmd (tok_text ?b) p = c"
    using reads_all [OF assms, of ?b, unfolded reads_def, rule_format, of 0 "[]" ?n] by (auto simp: closed_def)
  have ok: "toks_ok ?b p" using parse_ok [of ?n ?b 0 p "length ?b"] p(1) by blast
  have "map_cmd (\<lambda>(q, eq). cstr_at (nulterminate p ?b) q) p = map_cmd (tok_text ?b) p"
    using cstr_at_token [OF print_cmd_nonzero [OF assms] ok] by (intro cmd.map_cong) (auto simp: tok_text_def)
  moreover have "skip_ws ?b (length ?b) = length ?b" by (rule skip_ws_plain) (simp add: plain_def)
  ultimately show ?thesis using p by (simp add: parsecmd_def)
qed

theorem parsecmd_print_cmd_witness:
  "print_cmd (BACK (PIPE (EXEC [[108, 115], [46]]) (REDIR (EXEC [[119, 99]]) [102] M_OUT 1))) =
     [40, 40, 108, 115, 32, 46, 41, 124, 40, 40, 119, 99, 41, 62, 102, 41, 41, 38] \<and>
   (\<exists>p b'. parsecmd [40, 40, 108, 115, 32, 46, 41, 124, 40, 40, 119, 99, 41, 62, 102, 41, 41, 38] = Some (Inr (p, b')) \<and>
     map_cmd (\<lambda>(q, eq). cstr_at b' q) p =
       BACK (PIPE (EXEC [[108, 115], [46]]) (REDIR (EXEC [[119, 99]]) [102] M_OUT 1)))"
proof -
  let ?c = "BACK (PIPE (EXEC [[108, 115], [46]]) (REDIR (EXEC [[119, 99]]) [102] M_OUT 1)) :: u8 list cmd"
  have "cmd_ok ?c" by (simp add: word_ok_def wordc_def whitespace_def symbols_def)
  from parsecmd_print_cmd [OF this] show ?thesis by (simp add: print_op_def)
qed

end
