(* ===== verification/Umalloc.thy ===== *)
theory Umalloc
  imports Prelude
begin

text \<open>
  The allocator of user programs (\<open>user/umalloc.c\<close>). A pointer is a byte address, and the two fields of the
  \<open>Header\<close> at an address are kept in two stores; a header has 16 bytes, and \<open>p + n\<close> on header pointers is
  \<open>p + 16 * n\<close> on addresses. The address of the static \<open>base\<close> is a parameter. Addresses of user memory are far below \<open>2 ^ 64\<close>,
  sizes are 32-bit words as in the code. \<open>brk\<close> is the size of the process, which \<open>sbrk\<close> returns and
  changes; whether the kernel has the memory is the parameter \<open>grow\<close>.

  The two loops follow links, so that they need not end: \<open>None\<close> is a search that does not. That they end is part of
  the theorem.
\<close>

subsection \<open>Headers and the free list\<close>

record heap =
  hptr :: "nat \<Rightarrow> nat"
  hsize :: "nat \<Rightarrow> u32"
  freep :: nat
  brk :: nat

abbreviation set_ptr :: "nat \<Rightarrow> nat \<Rightarrow> heap \<Rightarrow> heap" where
  "set_ptr p q h \<equiv> h\<lparr>hptr := (hptr h)(p := q)\<rparr>"

abbreviation set_size :: "nat \<Rightarrow> u32 \<Rightarrow> heap \<Rightarrow> heap" where
  "set_size p n h \<equiv> h\<lparr>hsize := (hsize h)(p := n)\<rparr>"

text \<open>The address just after a block: \<open>p + p->s.size\<close>.\<close>

definition block_end :: "heap \<Rightarrow> nat \<Rightarrow> nat" where
  "block_end h p = p + 16 * unat (hsize h p)"

partial_function (option) free_loop :: "nat \<Rightarrow> heap \<Rightarrow> nat \<Rightarrow> nat option" where
  "free_loop bp h p =
     (if p < bp \<and> bp < hptr h p then Some p
      else if hptr h p \<le> p \<and> (p < bp \<or> bp < hptr h p) then Some p
      else free_loop bp h (hptr h p))"

definition join_next :: "nat \<Rightarrow> nat \<Rightarrow> heap \<Rightarrow> heap" where
  "join_next bp p h =
     (if block_end h bp = hptr h p then
        let h = set_size bp (hsize h bp + hsize h (hptr h p)) h in
        set_ptr bp (hptr h (hptr h p)) h
      else set_ptr bp (hptr h p) h)"

definition join_prev :: "nat \<Rightarrow> nat \<Rightarrow> heap \<Rightarrow> heap" where
  "join_prev bp p h =
     (if block_end h p = bp then
        let h = set_size p (hsize h p + hsize h bp) h in
        set_ptr p (hptr h bp) h
      else set_ptr p bp h)"

definition free :: "nat \<Rightarrow> heap \<Rightarrow> heap option" where
  "free ap h =
     (let bp = ap - 16 in
      map_option (\<lambda>p. (join_prev bp p (join_next bp p h))\<lparr>freep := p\<rparr>) (free_loop bp h (freep h)))"

text \<open>\<open>sbrk\<close> returns the old size of the process and grows it by a signed number of bytes.\<close>

definition sbrk :: "(int \<Rightarrow> nat \<Rightarrow> bool) \<Rightarrow> int \<Rightarrow> heap \<Rightarrow> (nat \<times> heap) option" where
  "sbrk grow n h = (if grow n (brk h) then Some (brk h, h\<lparr>brk := nat (int (brk h) + n)\<rparr>) else None)"

text \<open>The argument of \<open>sbrk\<close> is an \<open>int\<close>: the product is cut to 32 bits and read as a signed number.\<close>

definition morecore :: "(int \<Rightarrow> nat \<Rightarrow> bool) \<Rightarrow> u32 \<Rightarrow> heap \<Rightarrow> (nat \<times> heap) option" where
  "morecore grow nu h =
     (let nu = (if nu < 4096 then 4096 else nu) in
      case sbrk grow (sint (nu * 16)) h of
        None \<Rightarrow> Some (0, h)
      | Some (hp, h) \<Rightarrow> map_option (\<lambda>h. (freep h, h)) (free (hp + 16) (set_size hp nu h)))"

text \<open>A block of the right size is unlinked; from a bigger one the tail is cut off.\<close>

definition take_block :: "u32 \<Rightarrow> nat \<Rightarrow> nat \<Rightarrow> heap \<Rightarrow> nat \<times> heap" where
  "take_block nunits prevp p h =
     (if hsize h p = nunits then (p + 16, (set_ptr prevp (hptr h p) h)\<lparr>freep := prevp\<rparr>)
      else
        let h = set_size p (hsize h p - nunits) h;
            p = block_end h p;
            h = set_size p nunits h in
        (p + 16, h\<lparr>freep := prevp\<rparr>))"

partial_function (option) malloc_loop ::
    "(int \<Rightarrow> nat \<Rightarrow> bool) \<Rightarrow> u32 \<Rightarrow> nat \<Rightarrow> nat \<Rightarrow> heap \<Rightarrow> (nat \<times> heap) option" where
  "malloc_loop grow nunits prevp p h =
     (if nunits \<le> hsize h p then Some (take_block nunits prevp p h)
      else if p = freep h then
        Option.bind (morecore grow nunits h) (\<lambda>(q, h).
          if q = 0 then Some (0, h) else malloc_loop grow nunits q (hptr h q) h)
      else malloc_loop grow nunits p (hptr h p) h)"

definition units :: "u32 \<Rightarrow> u32" where
  "units nbytes = ucast ((ucast nbytes + 16 - 1) div 16 + 1 :: u64)"

definition malloc :: "(int \<Rightarrow> nat \<Rightarrow> bool) \<Rightarrow> nat \<Rightarrow> u32 \<Rightarrow> heap \<Rightarrow> (nat \<times> heap) option" where
  "malloc grow base nbytes h =
     (let h = (if freep h = 0 then set_size base 0 ((set_ptr base base h)\<lparr>freep := base\<rparr>) else h) in
      malloc_loop grow (units nbytes) (freep h) (hptr h (freep h)) h)"

subsection \<open>The list of free blocks\<close>

text \<open>
  The free list goes through its blocks in the order of their addresses and from the last one back to \<open>base\<close>, which
  lies below the heap.
\<close>

definition linked :: "nat \<Rightarrow> (nat \<Rightarrow> nat) \<Rightarrow> nat set \<Rightarrow> bool" where
  "linked base nxt S \<longleftrightarrow> finite S \<and> base \<in> S \<and> (\<forall>x\<in>S. base \<le> x) \<and>
     (\<forall>x\<in>S. if nxt x = base then \<forall>y\<in>S. y \<le> x else nxt x \<in> S \<and> x < nxt x \<and> (\<forall>y\<in>S. y \<le> x \<or> nxt x \<le> y))"

lemma linked_next: "linked base nxt S \<Longrightarrow> x \<in> S \<Longrightarrow> nxt x \<in> S"
  unfolding linked_def by metis

lemma linked_up:
  assumes "linked base nxt S"
  shows "q \<in> S \<Longrightarrow> t \<in> S \<Longrightarrow> q \<le> t \<Longrightarrow> \<exists>k. (nxt ^^ k) q = t"
proof (induction "card {y \<in> S. q < y}" arbitrary: q rule: less_induct)
  case less
  show ?case
  proof (cases "q = t")
    case True then show ?thesis by (intro exI [of _ 0]) simp
  next
    case False
    then have n: "nxt q \<in> S" "q < nxt q" "nxt q \<le> t" using assms less.prems unfolding linked_def by (metis le_antisym nat_less_le not_le)+
    have "{y \<in> S. nxt q < y} \<subset> {y \<in> S. q < y}" using n by auto
    then have "card {y \<in> S. nxt q < y} < card {y \<in> S. q < y}" using assms unfolding linked_def by (intro psubset_card_mono) auto
    then obtain k where "(nxt ^^ k) (nxt q) = t" using less.hyps n less.prems(2) by blast
    then show ?thesis by (intro exI [of _ "Suc k"]) (simp add: funpow_swap1)
  qed
qed

lemma linked_reach:
  assumes l: "linked base nxt S" and "q \<in> S" "t \<in> S"
  shows "\<exists>k. (nxt ^^ k) q = t"
proof -
  have S: "finite S" "base \<in> S" "base \<le> t" using l assms(3) by (auto simp: linked_def)
  have m: "Max S \<in> S" "q \<le> Max S" using S assms(2) by (auto intro!: Max_in)
  obtain i where i: "(nxt ^^ i) q = Max S" using linked_up [OF l assms(2) m] by blast
  have "nxt (Max S) = base" using l m(1) S(1) unfolding linked_def by (metis Max_ge not_le)
  then have b: "(nxt ^^ Suc i) q = base" using i by simp
  obtain j where "(nxt ^^ j) base = t" using linked_up [OF l S(2) assms(3) S(3)] by blast
  then have "(nxt ^^ (j + Suc i)) q = t" using b by (simp only: funpow_add comp_apply)
  then show ?thesis by blast
qed

text \<open>The free block before an address that is not in the list.\<close>

definition pred_of :: "nat set \<Rightarrow> nat \<Rightarrow> nat \<Rightarrow> bool" where
  "pred_of S bp p \<longleftrightarrow> p \<in> S \<and> p < bp \<and> (\<forall>y\<in>S. y \<le> p \<or> bp < y)"

lemma pred_of_iff:
  assumes "linked base (hptr h) S" "p \<in> S" "bp \<notin> S" "base < bp"
  shows "pred_of S bp p \<longleftrightarrow> p < bp \<and> bp < hptr h p \<or> hptr h p \<le> p \<and> (p < bp \<or> bp < hptr h p)"
proof (cases "hptr h p = base")
  case True
  then have "\<forall>y\<in>S. y \<le> p" "base \<le> p" using assms(1,2) unfolding linked_def by metis+
  then show ?thesis using True assms(2,4) unfolding pred_of_def by auto
next
  case False
  then have "hptr h p \<in> S" "p < hptr h p" "\<forall>y\<in>S. y \<le> p \<or> hptr h p \<le> y"
    using assms(1,2) unfolding linked_def by metis+
  then show ?thesis using assms(2) unfolding pred_of_def by fastforce
qed

lemma pred_of_ex: "finite S \<Longrightarrow> base \<in> S \<Longrightarrow> base < bp \<Longrightarrow> bp \<notin> S \<Longrightarrow> \<exists>p. pred_of S bp p"
proof -
  assume a: "finite S" "base \<in> S" "base < bp" "bp \<notin> S"
  let ?L = "{y \<in> S. y < bp}"
  have "finite ?L" "?L \<noteq> {}" using a by auto
  then have "Max ?L \<in> ?L" "\<forall>y\<in>?L. y \<le> Max ?L" using Max_in [of ?L] by simp_all
  then show ?thesis using a(4) unfolding pred_of_def by (intro exI [of _ "Max ?L"]) (metis (mono_tags, lifting) mem_Collect_eq nat_neq_iff)
qed

lemma free_loop_finds:
  assumes "linked base (hptr h) S" "bp \<notin> S" "base < bp" "p \<in> S" "(hptr h ^^ k) p = t" "pred_of S bp t"
  shows "free_loop bp h p = Some t"
  using assms(4,5)
proof (induction k arbitrary: p)
  case 0
  then show ?case using pred_of_iff [OF assms(1) _ assms(2,3), of t] assms(6) by (subst free_loop.simps) auto
next
  case (Suc k)
  show ?case
  proof (cases "pred_of S bp p")
    case True
    then have "p = t" using assms(6) unfolding pred_of_def by (meson le_antisym less_asym)
    then show ?thesis using pred_of_iff [OF assms(1) Suc.prems(1) assms(2,3)] True by (subst free_loop.simps) auto
  next
    case False
    then have "free_loop bp h p = free_loop bp h (hptr h p)"
      using pred_of_iff [OF assms(1) Suc.prems(1) assms(2,3)] by (subst free_loop.simps) auto
    then show ?thesis using Suc.IH [of "hptr h p"] Suc.prems linked_next [OF assms(1)] by (simp add: funpow_swap1)
  qed
qed

lemma free_loop_pred:
  assumes "linked base (hptr h) S" "bp \<notin> S" "base < bp" "p \<in> S"
  shows "\<exists>t. free_loop bp h p = Some t \<and> pred_of S bp t"
proof -
  obtain t where t: "pred_of S bp t" using pred_of_ex [of S base bp] assms unfolding linked_def by blast
  obtain k where "(hptr h ^^ k) p = t" using linked_reach [OF assms(1,4)] t unfolding pred_of_def by blast
  then show ?thesis using free_loop_finds [OF assms _ t] t by blast
qed

lemma linked_cong: "linked base nxt S \<Longrightarrow> (\<And>x. x \<in> S \<Longrightarrow> nxt' x = nxt x) \<Longrightarrow> linked base nxt' S"
  unfolding linked_def by simp

lemma linked_insert:
  assumes "linked base nxt S" "pred_of S bp p" "base < bp" "bp \<notin> S"
  shows "linked base (nxt(bp := nxt p, p := bp)) (insert bp S)"
proof -
  note l = assms(1) [unfolded linked_def] and p = assms(2) [unfolded pred_of_def]
  have n: "if nxt p = base then \<forall>y\<in>S. y \<le> p else nxt p \<in> S \<and> p < nxt p \<and> (\<forall>y\<in>S. y \<le> p \<or> nxt p \<le> y)"
    using l p by blast
  have bp: "if nxt p = base then \<forall>y\<in>insert bp S. y \<le> bp
    else nxt p \<in> S \<and> bp < nxt p \<and> (\<forall>y\<in>insert bp S. y \<le> bp \<or> nxt p \<le> y)"
  proof (cases "nxt p = base")
    case True then show ?thesis using n p by fastforce
  next
    case False
    then have "bp < nxt p" using n p by (meson leD)
    then show ?thesis using False n p by fastforce
  qed
  have old: "if nxt x = base then \<forall>y\<in>insert bp S. y \<le> x else nxt x \<in> S \<and> x < nxt x \<and> (\<forall>y\<in>insert bp S. y \<le> x \<or> nxt x \<le> y)"
    if x: "x \<in> S" "x \<noteq> p" for x
  proof -
    have "if nxt x = base then \<forall>y\<in>S. y \<le> x else nxt x \<in> S \<and> x < nxt x \<and> (\<forall>y\<in>S. y \<le> x \<or> nxt x \<le> y)" using l x by blast
    then show ?thesis using p x by (cases "nxt x = base") (auto; meson leD le_antisym less_imp_le less_trans not_le)+
  qed
  show ?thesis unfolding linked_def
    using l p assms(3,4) bp old by (auto split: if_splits)
qed

lemma linked_remove:
  assumes "linked base nxt S" "p \<in> S" "nxt p \<noteq> base"
  shows "linked base (nxt(p := nxt (nxt p))) (S - {nxt p})"
proof -
  let ?n = "nxt p"
  note l = assms(1) [unfolded linked_def]
  have n: "?n \<in> S" "p < ?n" "\<forall>y\<in>S. y \<le> p \<or> ?n \<le> y" using l assms(2,3) by metis+
  have nn: "if nxt ?n = base then \<forall>y\<in>S. y \<le> ?n else nxt ?n \<in> S \<and> ?n < nxt ?n \<and> (\<forall>y\<in>S. y \<le> ?n \<or> nxt ?n \<le> y)"
    using l n(1) by blast
  have other: "nxt x \<noteq> ?n" if "x \<in> S" "x \<noteq> p" for x
  proof
    assume e: "nxt x = ?n"
    then have "x < ?n" "\<forall>y\<in>S. y \<le> x \<or> ?n \<le> y" using l that assms(3) by metis+
    then show False using n that assms(2) by (meson le_antisym leD)
  qed
  show ?thesis unfolding linked_def
    using l n nn assms(2,3) other by (auto split: if_splits) (meson le_antisym leD le_trans less_imp_le)+
qed

text \<open>Blocks that do not overlap, between two addresses.\<close>

definition packed :: "(nat \<Rightarrow> nat) \<Rightarrow> nat set \<Rightarrow> nat \<Rightarrow> nat \<Rightarrow> bool" where
  "packed sz B lo hi \<longleftrightarrow> (\<forall>x\<in>B. lo \<le> x \<and> 0 < sz x \<and> x + 16 * sz x \<le> hi) \<and>
     (\<forall>x\<in>B. \<forall>y\<in>B. x < y \<longrightarrow> x + 16 * sz x \<le> y)"

lemma packed_cong: "packed sz B lo hi \<Longrightarrow> (\<And>x. x \<in> B \<Longrightarrow> sz' x = sz x) \<Longrightarrow> packed sz' B lo hi"
  unfolding packed_def by simp

lemma packed_merge:
  assumes "packed sz B lo hi" "x \<in> B" "y \<in> B" "y = x + 16 * sz x"
  shows "packed (sz(x := sz x + sz y)) (B - {y}) lo hi"
proof -
  note p = assms(1) [unfolded packed_def]
  have xy: "x < y" "y + 16 * sz y \<le> hi" using p assms(2-4) by auto
  have "x + 16 * (sz x + sz y) \<le> z" if z: "z \<in> B" "x < z" "z \<noteq> y" for z
  proof -
    have "y < z" using p assms(2,4) z by (metis nat_less_le)
    then show ?thesis using p assms(3,4) z(1) by fastforce
  qed
  then show ?thesis unfolding packed_def using p xy assms(4) by auto
qed

subsection \<open>The invariant\<close>

abbreviation usz :: "heap \<Rightarrow> nat \<Rightarrow> nat" where
  "usz h x \<equiv> unat (hsize h x)"

text \<open>\<open>S\<close> are the headers of the free list and \<open>A\<close> those of the blocks that the program holds.\<close>

definition uinv :: "nat \<Rightarrow> heap \<Rightarrow> nat set \<Rightarrow> nat set \<Rightarrow> bool" where
  "uinv base h S A \<longleftrightarrow> linked base (hptr h) S \<and> 0 < base \<and> hsize h base = 0 \<and> freep h \<in> S \<and> S \<inter> A = {} \<and>
     packed (usz h) (S - {base} \<union> A) (base + 16) (brk h) \<and> base + 16 \<le> brk h \<and> brk h \<le> 2 ^ 36"

lemma unat_add_u32: "unat a + unat b < 2 ^ 32 \<Longrightarrow> unat (a + b :: u32) = unat a + unat b"
  by (simp add: unat_word_ariths)

lemma packed_merge_u32:
  assumes "packed (\<lambda>x. unat (z x)) B lo hi" "x \<in> B" "y \<in> B" "y = x + 16 * unat (z x)" "hi \<le> 2 ^ 36" "0 < lo"
    and "z' x = z x + z y" "\<And>w. w \<in> B \<Longrightarrow> w \<noteq> x \<Longrightarrow> w \<noteq> y \<Longrightarrow> z' w = z w"
  shows "packed (\<lambda>x. unat (z' x :: u32)) (B - {y}) lo hi" and "unat (z' x) = unat (z x) + unat (z y)"
proof -
  have "lo \<le> x" "y + 16 * unat (z y) \<le> hi" using assms(1-3) unfolding packed_def by auto
  then have "unat (z x) + unat (z y) < 2 ^ 32" using assms(4-6) by simp
  then show e: "unat (z' x) = unat (z x) + unat (z y)" using assms(7) unat_add_u32 by simp
  show "packed (\<lambda>x. unat (z' x)) (B - {y}) lo hi"
    using assms(8) e by (intro packed_cong [OF packed_merge [OF assms(1-4)]]) auto
qed

text \<open>After \<open>join_next\<close> the block is not yet in the list, and its link says what follows it.\<close>

definition joined :: "nat \<Rightarrow> nat \<Rightarrow> nat \<Rightarrow> heap \<Rightarrow> nat set \<Rightarrow> nat set \<Rightarrow> bool" where
  "joined base bp p h S A \<longleftrightarrow> linked base ((hptr h)(p := hptr h bp)) S \<and> pred_of S bp p \<and>
     bp \<notin> S \<and> S \<inter> A = {} \<and> hsize h base = 0 \<and> packed (usz h) (S - {base} \<union> insert bp A) (base + 16) (brk h)"

lemma join_next_ok:
  assumes i: "uinv base h S (insert bp A)" and "bp \<notin> A" and p: "pred_of S bp p"
  shows "\<exists>T. joined base bp p (join_next bp p h) T A \<and> usz h bp \<le> usz (join_next bp p h) bp"
proof -
  let ?n = "hptr h p" and ?h = "join_next bp p h" and ?B = "S - {base} \<union> insert bp A"
  have l: "linked base (hptr h) S" and z: "hsize h base = 0" and A: "S \<inter> A = {}" "bp \<notin> S"
    and k: "packed (usz h) ?B (base + 16) (brk h)" "brk h \<le> 2 ^ 36" using i by (auto simp: uinv_def)
  have pS: "p \<in> S" "p < bp" using p by (auto simp: pred_of_def)
  have bp: "base < bp" "base \<in> S" using k(1) l unfolding packed_def linked_def by auto
  show ?thesis
  proof (cases "block_end h bp = ?n")
    case False
    then have e: "?h = set_ptr bp ?n h" by (simp add: join_next_def)
    have "linked base ((hptr ?h)(p := hptr ?h bp)) S" using A(2) by (intro linked_cong [OF l]) (auto simp: e)
    then have "joined base bp p ?h S A" unfolding joined_def using A p z k(1) by (simp add: e)
    then show ?thesis by (intro exI [of _ S]) (simp add: e)
  next
    case True
    have nb: "?n \<noteq> base" using True bp(1) by (simp add: block_end_def)
    have n: "?n \<in> S" "bp \<noteq> ?n" using linked_next [OF l pS(1)] A(2) by auto
    have h: "hptr ?h = (hptr h)(bp := hptr h ?n)" "hsize ?h = (hsize h)(bp := hsize h bp + hsize h ?n)" "brk ?h = brk h"
      using True by (simp_all add: join_next_def)
    have l': "linked base ((hptr ?h)(p := hptr ?h bp)) (S - {?n})"
      using A(2) by (intro linked_cong [OF linked_remove [OF l pS(1) nb]]) (auto simp: h)
    have eq: "?n = bp + 16 * usz h bp" using True by (simp add: block_end_def)
    have mem: "bp \<in> ?B" "?n \<in> ?B" using n nb by auto
    note merge = packed_merge_u32 [OF k(1) mem eq k(2), of "hsize ?h"]
    have m: "packed (usz ?h) (?B - {?n}) (base + 16) (brk h)" "usz ?h bp = usz h bp + usz h ?n"
      by (rule merge; simp add: h(2))+
    have "p \<noteq> ?n" using eq pS(2) by linarith
    then have p': "pred_of (S - {?n}) bp p" using p by (simp add: pred_of_def)
    have B: "S - {?n} - {base} \<union> insert bp A = ?B - {?n}" using A n by auto
    have "hsize ?h base = 0" using z bp(1) h(2) by simp
    then have "joined base bp p ?h (S - {?n}) A" unfolding joined_def B using l' p' A m(1) h(3) by auto
    then show ?thesis using m(2) by auto
  qed
qed

lemma join_prev_ok:
  assumes j: "joined base bp p h T A" and "bp \<notin> A" "brk h \<le> 2 ^ 36" "0 < base"
  defines "h' \<equiv> (join_prev bp p h)\<lparr>freep := p\<rparr>"
  shows "\<exists>S. uinv base h' S A" and "usz h bp \<le> usz h' p \<or> usz h bp \<le> usz h' (hptr h' p)" and "\<forall>x\<in>A. hsize h' x = hsize h x"
proof -
  let ?B = "T - {base} \<union> insert bp A"
  have l: "linked base ((hptr h)(p := hptr h bp)) T" and p: "pred_of T bp p" and A: "bp \<notin> T" "T \<inter> A = {}"
    and z: "hsize h base = 0" and k: "packed (usz h) ?B (base + 16) (brk h)" using j by (auto simp: joined_def)
  have pT: "p \<in> T" "p < bp" using p by (auto simp: pred_of_def)
  have bp: "base < bp" "base \<in> T" using k l unfolding packed_def linked_def by auto
  show "\<forall>x\<in>A. hsize h' x = hsize h x" using pT(1) A(2) by (auto simp: h'_def join_prev_def Let_def)
  have lo: "base + 16 \<le> brk h" using k unfolding packed_def by auto
  have "(\<exists>S. uinv base h' S A) \<and> (usz h bp \<le> usz h' p \<or> usz h bp \<le> usz h' (hptr h' p))"
  proof (cases "block_end h p = bp")
    case False
    then have h: "hptr h' = (hptr h)(p := bp)" "hsize h' = hsize h" "brk h' = brk h" "freep h' = p"
      by (simp_all add: h'_def join_prev_def)
    have l': "linked base (hptr h') (insert bp T)"
      by (rule linked_cong [OF linked_insert [OF l p bp(1) A(1)]]) (auto simp: h)
    have B: "insert bp T - {base} \<union> A = ?B" using bp by auto
    have "uinv base h' (insert bp T) A" unfolding uinv_def B using l' z pT(1) A assms(2-4) k lo by (simp add: h)
    then show ?thesis using h(1,2) by auto
  next
    case True
    have h: "hptr h' = (hptr h)(p := hptr h bp)" "hsize h' = (hsize h)(p := hsize h p + hsize h bp)" "brk h' = brk h" "freep h' = p"
      using True by (simp_all add: h'_def join_prev_def)
    have pb: "p \<noteq> base" using True z bp(1) by (auto simp: block_end_def)
    have eq: "bp = p + 16 * usz h p" using True by (simp add: block_end_def)
    have mem: "p \<in> ?B" "bp \<in> ?B" using pT pb by auto
    note merge = packed_merge_u32 [OF k mem eq assms(3), of "hsize h'"]
    have m: "packed (usz h') (?B - {bp}) (base + 16) (brk h)" "usz h' p = usz h p + usz h bp"
      by (rule merge; simp add: h(2))+
    have B: "T - {base} \<union> A = ?B - {bp}" using A assms(2) by auto
    have "hsize h' base = 0" using z pb h(2) by simp
    then have "uinv base h' T A" unfolding uinv_def B using l pT(1) A assms(3,4) m(1) lo by (simp add: h(1,3,4))
    moreover have "usz h bp \<le> usz h' p" using m(2) by simp
    ultimately show ?thesis by blast
  qed
  then show "\<exists>S. uinv base h' S A" "usz h bp \<le> usz h' p \<or> usz h bp \<le> usz h' (hptr h' p)" by blast+
qed

lemma join_next_other: "x \<noteq> bp \<Longrightarrow> hsize (join_next bp p h) x = hsize h x" "brk (join_next bp p h) = brk h"
  by (simp_all add: join_next_def Let_def)

lemma join_prev_brk: "brk (join_prev bp p h) = brk h"
  by (simp add: join_prev_def Let_def)

lemma free_ok:
  assumes i: "uinv base h S (insert bp A)" and "bp \<notin> A"
  shows "\<exists>h' T. free (bp + 16) h = Some h' \<and> uinv base h' T A \<and> brk h' = brk h \<and>
    (\<forall>x\<in>A. hsize h' x = hsize h x) \<and> (usz h bp \<le> usz h' (freep h') \<or> usz h bp \<le> usz h' (hptr h' (freep h')))"
proof -
  have d: "linked base (hptr h) S" "bp \<notin> S" "base < bp" "freep h \<in> S" "brk h \<le> 2 ^ 36" "0 < base"
    using i unfolding uinv_def packed_def by auto
  obtain p where p: "free_loop bp h (freep h) = Some p" "pred_of S bp p" using free_loop_pred [OF d(1-4)] by blast
  let ?h = "join_next bp p h"
  obtain T where T: "joined base bp p ?h T A" "usz h bp \<le> usz ?h bp" using join_next_ok [OF i assms(2) p(2)] by blast
  have b: "brk ?h \<le> 2 ^ 36" using d(5) by (simp add: join_next_other)
  note prev = join_prev_ok [OF T(1) assms(2) b d(6)]
  let ?h' = "(join_prev bp p ?h)\<lparr>freep := p\<rparr>"
  have "\<forall>x\<in>A. hsize ?h' x = hsize h x" using prev(3) assms(2) join_next_other(1) by metis
  moreover have "free (bp + 16) h = Some ?h'" using p(1) by (simp add: free_def)
  moreover have "usz h bp \<le> usz ?h' (freep ?h') \<or> usz h bp \<le> usz ?h' (hptr ?h' (freep ?h'))"
    using prev(2) T(2) by auto
  moreover have "brk ?h' = brk h" by (simp add: join_prev_brk join_next_other)
  ultimately show ?thesis using prev(1) by blast
qed

subsection \<open>Taking a block\<close>

lemma packed_split:
  assumes "packed sz B lo hi" "x \<in> B" "0 < k" "k < sz x"
  defines "q \<equiv> x + 16 * (sz x - k)"
  shows "packed (sz(x := sz x - k, q := k)) (insert q B) lo hi" and "q \<notin> B" and "x < q"
proof -
  note p = assms(1) [unfolded packed_def]
  show xq: "x < q" using assms(3,4) by (simp add: q_def)
  have e: "q + 16 * k = x + 16 * sz x" using assms(4) by (simp add: q_def algebra_simps)
  have up: "q + 16 * k \<le> y" if "y \<in> B" "x < y" for y using p assms(2) that e by metis
  have down: "y + 16 * sz y \<le> x" if "y \<in> B" "y < x" for y using p assms(2) that by metis
  show "q \<notin> B" using up [of q] xq assms(3) by auto
  have b: "lo \<le> x" "x + 16 * sz x \<le> hi" using p assms(2) by auto
  have q: "q < y" if "y \<in> B" "x < y" for y using up [OF that] assms(3) by simp
  have lo: "y + 16 * sz y \<le> q" if "y \<in> B" "y < x" for y using down [OF that] xq by simp
  have nq: "y < q \<longleftrightarrow> y \<le> x" if "y \<in> B" for y using q that xq by (meson le_less_trans less_asym not_le)
  show "packed (sz(x := sz x - k, q := k)) (insert q B) lo hi"
    unfolding packed_def
  proof (intro conjI ballI impI)
    fix y assume y: "y \<in> insert q B"
    show "lo \<le> y" "0 < (sz(x := sz x - k, q := k)) y" "y + 16 * (sz(x := sz x - k, q := k)) y \<le> hi"
      using y p b e xq assms(3,4) \<open>q \<notin> B\<close> by (auto simp: q_def)
    fix w assume w: "w \<in> insert q B" "y < w"
    show "y + 16 * (sz(x := sz x - k, q := k)) y \<le> w"
    proof (cases "y = q")
      case True then show ?thesis using w up xq by auto
    next
      case False
      then have yB: "y \<in> B" using y by simp
      show ?thesis
      proof (cases "y = x")
        case True then show ?thesis using w q False xq by (auto simp: q_def dest: less_imp_le)
      next
        case x: False
        then show ?thesis using w p yB False nq lo by auto
      qed
    qed
  qed
qed

lemma take_block_ok:
  assumes i: "uinv base h S A" and v: "v \<in> S" and p: "p = hptr h v" "n \<le> hsize h p" "0 < n"
  shows "\<exists>x h' T. take_block n v p h = (x + 16, h') \<and> x \<notin> A \<and> uinv base h' T (insert x A) \<and> hsize h' x = n \<and>
    brk h' = brk h \<and> (\<forall>y\<in>A. hsize h' y = hsize h y)"
proof -
  let ?B = "S - {base} \<union> A"
  have l: "linked base (hptr h) S" and b: "0 < base" and z: "hsize h base = 0" and A: "S \<inter> A = {}"
    and k: "packed (usz h) ?B (base + 16) (brk h)" and hi: "base + 16 \<le> brk h" "brk h \<le> 2 ^ 36" using i by (auto simp: uinv_def)
  have pb: "p \<noteq> base" using z p(2,3) by auto
  have pS: "p \<in> S" using linked_next [OF l v] p(1) by simp
  have vp: "v \<noteq> p" using l v p(1) pb unfolding linked_def by (metis less_irrefl)
  show ?thesis
  proof (cases "hsize h p = n")
    case True
    let ?h = "(set_ptr v (hptr h p) h)\<lparr>freep := v\<rparr>"
    have l': "linked base (hptr ?h) (S - {p})" using linked_remove [OF l v] pb p(1) by simp
    have B: "S - {p} - {base} \<union> insert p A = ?B" using pS pb by auto
    have "uinv base ?h (S - {p}) (insert p A)" unfolding uinv_def B using l' b z v vp A k hi by auto
    then show ?thesis using True pS A by (intro exI [of _ p] exI [of _ ?h]) (auto simp: take_block_def)
  next
    case False
    then have lt: "n < hsize h p" using p(2) by simp
    then have u: "unat n < usz h p" "unat (hsize h p - n) = usz h p - unat n" "0 < unat n"
      using p(2,3) by (simp_all add: word_less_nat_alt unat_sub)
    let ?q = "p + 16 * (usz h p - unat n)"
    let ?h = "(set_size ?q n (set_size p (hsize h p - n) h))\<lparr>freep := v\<rparr>"
    have mem: "p \<in> ?B" using pS pb by simp
    note sp = packed_split [OF k mem u(3,1)]
    have e: "take_block n v p h = (?q + 16, ?h)" using False u(2) by (simp add: take_block_def Let_def block_end_def)
    have k': "packed (usz ?h) (insert ?q ?B) (base + 16) (brk h)" using u(2) by (intro packed_cong [OF sp(1)]) auto
    have qb: "base < ?q" using sp(3) l pS unfolding linked_def by (meson le_less_trans)
    have B: "S - {base} \<union> insert ?q A = insert ?q ?B" by auto
    have qS: "?q \<notin> S" "?q \<notin> A" using sp(2) qb by auto
    have "uinv base ?h S (insert ?q A)" unfolding uinv_def B using l b z v qS(1) A k' hi pb qb by auto
    moreover have "\<forall>y\<in>A. hsize ?h y = hsize h y" using qS(2) pS A by auto
    ultimately show ?thesis using e qS(2) by (intro exI [of _ ?q] exI [of _ ?h] exI [of _ S]) auto
  qed
qed

subsection \<open>Growing the heap\<close>

text \<open>The kernel never gives a process more than 64 GB, which is far more than the machine has.\<close>

definition grow_ok :: "(int \<Rightarrow> nat \<Rightarrow> bool) \<Rightarrow> bool" where
  "grow_ok grow \<longleftrightarrow> (\<forall>n b. 0 < n \<and> grow n b \<longrightarrow> int b + n \<le> 2 ^ 36)"

lemma sint_times_16: "unat (w :: u32) < 2 ^ 27 \<Longrightarrow> sint (w * 16) = 16 * int (unat w)"
proof -
  assume "unat w < 2 ^ 27"
  then have a: "uint w < 2 ^ 27" unfolding of_nat_less_iff [symmetric, where 'a = int] by simp
  then have "uint (w * 16) = 16 * uint w" by (simp add: uint_word_ariths)
  moreover have "- (2 ^ 31) \<le> 16 * uint w" by (rule order_trans [of _ 0]) simp_all
  then have "signed_take_bit 31 (16 * uint w) = 16 * uint w" using a by (intro signed_take_bit_int_eq_self) simp_all
  ultimately show ?thesis by (simp add: sint_uint)
qed

lemma packed_below: "packed sz B lo hi \<Longrightarrow> x \<in> B \<Longrightarrow> x < hi"
  unfolding packed_def by (metis add_lessD1 le_eq_less_or_eq less_add_same_cancel1 mult_pos_pos zero_less_numeral)

lemma packed_above:
  assumes "packed sz B lo hi" "lo \<le> hi" "0 < n" "\<And>x. x \<in> B \<Longrightarrow> sz' x = sz x" "sz' hi = n"
  shows "packed sz' (insert hi B) lo (hi + 16 * n)"
proof -
  note p = assms(1) [unfolded packed_def] and b = packed_below [OF assms(1)]
  have "x + 16 * sz' x \<le> hi" if "x \<in> B" for x using p that assms(4) by simp
  then show ?thesis unfolding packed_def using p assms(2-5) b by (auto dest: less_asym intro: trans_le_add1)
qed

lemma uinv_grow:
  assumes i: "uinv base h S A" and n: "0 < unat n" "brk h + 16 * unat n \<le> 2 ^ 36"
  shows "uinv base (set_size (brk h) n (h\<lparr>brk := brk h + 16 * unat n\<rparr>)) S (insert (brk h) A)" (is "uinv base ?h S ?A")
    and "brk h \<notin> A"
proof -
  let ?B = "S - {base} \<union> A"
  have d: "linked base (hptr h) S" "0 < base" "hsize h base = 0" "freep h \<in> S" "S \<inter> A = {}"
    "packed (usz h) ?B (base + 16) (brk h)" "base + 16 \<le> brk h" using i by (auto simp: uinv_def)
  have nB: "brk h \<notin> ?B" using packed_below [OF d(6)] by blast
  then have k: "packed (usz ?h) (insert (brk h) ?B) (base + 16) (brk h + 16 * unat n)"
    by (intro packed_above [OF d(6,7) n(1)]) auto
  have B: "S - {base} \<union> ?A = insert (brk h) ?B" by auto
  show "brk h \<notin> A" using nB by simp
  show "uinv base ?h S ?A" unfolding uinv_def B using d k n nB by auto
qed

lemma morecore_ok:
  assumes i: "uinv base h S A" and g: "grow_ok grow" and n: "0 < n" "unat n < 2 ^ 27"
  shows "morecore grow n h = Some (0, h) \<or>
    (\<exists>h' T. morecore grow n h = Some (freep h', h') \<and> uinv base h' T A \<and> brk h \<le> brk h' \<and>
       (\<forall>x\<in>A. hsize h' x = hsize h x) \<and> (n \<le> hsize h' (freep h') \<or> n \<le> hsize h' (hptr h' (freep h'))))"
proof -
  let ?n = "if n < 4096 then 4096 else n"
  have m: "unat ?n < 2 ^ 27" "0 < unat ?n" "n \<le> ?n" using n by (auto simp: unat_gt_0 less_imp_le)
  show ?thesis
  proof (cases "grow (sint (?n * 16)) (brk h)")
    case False then show ?thesis by (simp add: morecore_def sbrk_def)
  next
    case True
    have s: "sint (?n * 16) = 16 * int (unat ?n)" by (rule sint_times_16 [OF m(1)])
    have "int (brk h) + 16 * int (unat ?n) \<le> 2 ^ 36" using g True m(2) s unfolding grow_ok_def by (metis of_nat_0_less_iff zero_less_mult_iff zero_less_numeral)
    then have "int (brk h + 16 * unat ?n) \<le> int (2 ^ 36)" by simp
    then have b: "brk h + 16 * unat ?n \<le> 2 ^ 36" by (simp only: of_nat_le_iff)
    have r: "nat (int (brk h) + 16 * int (unat ?n)) = brk h + 16 * unat ?n" by linarith
    let ?h = "set_size (brk h) ?n (h\<lparr>brk := brk h + 16 * unat ?n\<rparr>)"
    note u = uinv_grow [OF i m(2) b]
    obtain h' T where f: "free (brk h + 16) ?h = Some h'" "uinv base h' T A" "brk h' = brk ?h"
      "\<forall>x\<in>A. hsize h' x = hsize ?h x" "usz ?h (brk h) \<le> usz h' (freep h') \<or> usz ?h (brk h) \<le> usz h' (hptr h' (freep h'))"
      using free_ok [OF u] by blast
    have "morecore grow n h = Some (freep h', h')"
      using True s r f(1) by (simp add: morecore_def sbrk_def Let_def)
    moreover have "\<forall>x\<in>A. hsize h' x = hsize h x" using f(4) u(2) by auto
    moreover have "n \<le> hsize h' (freep h') \<or> n \<le> hsize h' (hptr h' (freep h'))"
      using f(5) m(3) by (auto simp: word_le_nat_alt)
    ultimately show ?thesis using f(2,3) by auto
  qed
qed

subsection \<open>The search\<close>

lemma malloc_loop_found: "n \<le> hsize h p \<Longrightarrow> malloc_loop grow n v p h = Some (take_block n v p h)"
  by (subst malloc_loop.simps) simp

lemma malloc_loop_more:
  "\<not> n \<le> hsize h p \<Longrightarrow> p = freep h \<Longrightarrow> malloc_loop grow n v p h = Option.bind (morecore grow n h) (\<lambda>(q, h).
     if q = 0 then Some (0, h) else malloc_loop grow n q (hptr h q) h)"
  by (subst malloc_loop.simps) simp

lemma malloc_loop_next: "\<not> n \<le> hsize h p \<Longrightarrow> p \<noteq> freep h \<Longrightarrow> malloc_loop grow n v p h = malloc_loop grow n p (hptr h p) h"
  by (subst malloc_loop.simps) simp

text \<open>The search ends with a block that is big enough, or at \<open>freep\<close>, where it asks for more memory.\<close>

lemma malloc_walk:
  assumes l: "linked base (hptr h) S"
  shows "v \<in> S \<Longrightarrow> (hptr h ^^ k) (hptr h v) = freep h \<Longrightarrow>
    (\<exists>w\<in>S. n \<le> hsize h (hptr h w) \<and> malloc_loop grow n v (hptr h v) h = Some (take_block n w (hptr h w) h)) \<or>
    \<not> n \<le> hsize h (freep h) \<and>
      malloc_loop grow n v (hptr h v) h = Option.bind (morecore grow n h) (\<lambda>(q, h).
        if q = 0 then Some (0, h) else malloc_loop grow n q (hptr h q) h)"
proof (induction k arbitrary: v)
  case 0
  show ?case
  proof (cases "n \<le> hsize h (hptr h v)")
    case True then show ?thesis using 0(1) malloc_loop_found by blast
  next
    case False then show ?thesis using 0(2) malloc_loop_more [of n h "hptr h v" grow v] by simp
  qed
next
  case (Suc k)
  consider "n \<le> hsize h (hptr h v)" | "\<not> n \<le> hsize h (hptr h v)" "hptr h v = freep h"
    | "\<not> n \<le> hsize h (hptr h v)" "hptr h v \<noteq> freep h" by blast
  then show ?case
  proof cases
    case 1 then show ?thesis using Suc.prems(1) malloc_loop_found by blast
  next
    case 2 then show ?thesis using malloc_loop_more [of n h "hptr h v" grow v] by simp
  next
    case 3
    moreover have "(hptr h ^^ k) (hptr h (hptr h v)) = freep h" using Suc.prems(2) by (simp add: funpow_swap1)
    ultimately show ?thesis using Suc.IH [OF linked_next [OF l Suc.prems(1)]] malloc_loop_next [of n h "hptr h v" grow v] by simp
  qed
qed

definition malloc_post :: "nat \<Rightarrow> u32 \<Rightarrow> nat set \<Rightarrow> heap \<Rightarrow> nat \<Rightarrow> heap \<Rightarrow> bool" where
  "malloc_post base n A h r h' \<longleftrightarrow> (\<forall>x\<in>A. hsize h' x = hsize h x) \<and>
     (r = 0 \<and> (\<exists>S. uinv base h' S A) \<or> (\<exists>x S. r = x + 16 \<and> x \<notin> A \<and> hsize h' x = n \<and> uinv base h' S (insert x A)))"

lemma malloc_found:
  assumes "uinv base h S A" "w \<in> S" "n \<le> hsize h (hptr h w)" "0 < n"
  shows "\<exists>r h'. take_block n w (hptr h w) h = (r, h') \<and> malloc_post base n A h r h'"
  using take_block_ok [OF assms(1,2) refl assms(3,4)] unfolding malloc_post_def by blast

lemma malloc_walk_uinv:
  assumes i: "uinv base h S A" and n: "0 < n"
  shows "(\<exists>r h'. malloc_loop grow n (freep h) (hptr h (freep h)) h = Some (r, h') \<and> malloc_post base n A h r h') \<or>
    \<not> n \<le> hsize h (freep h) \<and> \<not> n \<le> hsize h (hptr h (freep h)) \<and>
      malloc_loop grow n (freep h) (hptr h (freep h)) h = Option.bind (morecore grow n h) (\<lambda>(q, h).
        if q = 0 then Some (0, h) else malloc_loop grow n q (hptr h q) h)"
proof -
  have l: "linked base (hptr h) S" and f: "freep h \<in> S" using i by (auto simp: uinv_def)
  obtain k where k: "(hptr h ^^ k) (hptr h (freep h)) = freep h" using linked_reach [OF l linked_next [OF l f] f] by blast
  show ?thesis
  proof (cases "n \<le> hsize h (hptr h (freep h))")
    case True
    then show ?thesis using malloc_found [OF i f True n] malloc_loop_found [OF True] by auto
  next
    case False
    then show ?thesis using malloc_walk [OF l f k, of n grow] malloc_found [OF i _ _ n] by fastforce
  qed
qed

lemma malloc_loop_ok:
  assumes i: "uinv base h S A" and g: "grow_ok grow" and n: "0 < n" "unat n < 2 ^ 27"
  shows "\<exists>r h'. malloc_loop grow n (freep h) (hptr h (freep h)) h = Some (r, h') \<and> malloc_post base n A h r h'"
proof -
  let ?run = "\<lambda>h. malloc_loop grow n (freep h) (hptr h (freep h)) h"
  consider (found) "\<exists>r h'. ?run h = Some (r, h') \<and> malloc_post base n A h r h'"
    | (more) "?run h = Option.bind (morecore grow n h) (\<lambda>(q, h). if q = 0 then Some (0, h) else malloc_loop grow n q (hptr h q) h)"
    using malloc_walk_uinv [OF i n(1)] by blast
  then show ?thesis
  proof cases
    case more
    consider (none) "morecore grow n h = Some (0, h)"
      | (some) h1 T where "morecore grow n h = Some (freep h1, h1)" "uinv base h1 T A" "\<forall>x\<in>A. hsize h1 x = hsize h x"
          "n \<le> hsize h1 (freep h1) \<or> n \<le> hsize h1 (hptr h1 (freep h1))"
      using morecore_ok [OF i g n] by blast
    then show ?thesis
    proof cases
      case none then show ?thesis using more i by (auto simp: malloc_post_def)
    next
      case some
      have "0 < freep h1" using some(2) unfolding uinv_def linked_def by (meson less_le_trans)
      then have "?run h = ?run h1" using more some(1) by simp
      moreover obtain r h' where "?run h1 = Some (r, h')" "malloc_post base n A h1 r h'"
        using malloc_walk_uinv [OF some(2) n(1), of grow] some(4) by blast
      moreover from this(2) have "malloc_post base n A h r h'" using some(3) by (auto simp: malloc_post_def)
      ultimately show ?thesis by auto
    qed
  qed
qed

lemma unat_units: "unat (units n) = (unat n + 15) div 16 + 1"
proof -
  have n: "unat n < 2 ^ 32" using unsigned_less [of n] by simp
  have "unat (ucast n :: u64) = unat n" using n by (simp add: unsigned_ucast_eq take_bit_nat_eq_self)
  then have "unat (ucast n + 16 - 1 :: u64) = unat n + 15" using n by (simp add: unat_word_ariths)
  then have "unat ((ucast n + 16 - 1) div 16 + 1 :: u64) = (unat n + 15) div 16 + 1"
    using n by (subst unat_word_ariths(1)) (simp add: unat_div)
  then show ?thesis using n by (simp add: units_def unsigned_ucast_eq take_bit_nat_eq_self)
qed

lemma units_size: "16 + unat n \<le> 16 * unat (units n)"
  unfolding unat_units by presburger

lemma units_bounds:
  assumes "n \<le> 0x7FFFFFE0"
  shows "0 < units n" "unat (units n) < 2 ^ 27"
proof -
  have "unat n \<le> 0x7FFFFFE0" using assms by (simp add: word_le_nat_alt)
  then show "unat (units n) < 2 ^ 27" by (simp add: unat_units)
  have "unat (units n) \<noteq> 0" by (simp add: unat_units)
  then show "0 < units n" by (simp add: unat_gt_0 word_gt_0)
qed

definition fresh_heap :: "nat \<Rightarrow> heap \<Rightarrow> bool" where
  "fresh_heap base h \<longleftrightarrow> freep h = 0 \<and> 0 < base \<and> base + 16 \<le> brk h \<and> brk h \<le> 2 ^ 36"

lemma malloc_ok:
  assumes "(\<exists>S. uinv base h S A) \<or> fresh_heap base h \<and> A = {}" and "grow_ok grow" and "n \<le> 0x7FFFFFE0"
  shows "\<exists>r h'. malloc grow base n h = Some (r, h') \<and> malloc_post base (units n) A h r h'"
  using assms(1)
proof
  assume "\<exists>S. uinv base h S A"
  then obtain S where i: "uinv base h S A" by blast
  have "freep h \<noteq> 0" using i unfolding uinv_def linked_def by fastforce
  then show ?thesis using malloc_loop_ok [OF i assms(2) units_bounds(1,2) [OF assms(3)]] by (simp add: malloc_def)
next
  assume f: "fresh_heap base h \<and> A = {}"
  let ?h = "set_size base 0 ((set_ptr base base h)\<lparr>freep := base\<rparr>)"
  have "uinv base ?h {base} {}" using f by (auto simp: uinv_def fresh_heap_def linked_def packed_def)
  from malloc_loop_ok [OF this assms(2) units_bounds(1,2) [OF assms(3)]] show ?thesis
    using f by (auto simp: malloc_def fresh_heap_def malloc_post_def)
qed

subsection \<open>Programs that use the allocator\<close>

text \<open>
  A program starts with \<open>freep\<close> zero, and may call \<open>malloc\<close>, \<open>free\<close> on a block that it holds, and \<open>sbrk\<close> itself with a
  positive number of bytes. A program that shrinks its memory with \<open>sbrk\<close> is outside of this relation: it could take
  away memory that is still on the free list. The map gives the number of bytes asked for with each pointer that it
  holds.
\<close>

inductive urun :: "(int \<Rightarrow> nat \<Rightarrow> bool) \<Rightarrow> nat \<Rightarrow> heap \<Rightarrow> (nat \<rightharpoonup> u32) \<Rightarrow> bool" for grow base where
  start: "fresh_heap base h \<Longrightarrow> urun grow base h Map.empty"
| malloc: "urun grow base h m \<Longrightarrow> n \<le> 0x7FFFFFE0 \<Longrightarrow> malloc grow base n h = Some (p, h') \<Longrightarrow>
    urun grow base h' (if p = 0 then m else m(p \<mapsto> n))"
| free: "urun grow base h m \<Longrightarrow> p \<in> dom m \<Longrightarrow> free p h = Some h' \<Longrightarrow> urun grow base h' (m(p := None))"
| sbrk: "urun grow base h m \<Longrightarrow> 0 < n \<Longrightarrow> sbrk grow n h = Some (a, h') \<Longrightarrow> urun grow base h' m"

definition held :: "(nat \<rightharpoonup> u32) \<Rightarrow> nat set" where
  "held m = {x. x + 16 \<in> dom m}"

definition held_ok :: "nat \<Rightarrow> heap \<Rightarrow> (nat \<rightharpoonup> u32) \<Rightarrow> bool" where
  "held_ok base h m \<longleftrightarrow> ((\<exists>S. uinv base h S (held m)) \<or> fresh_heap base h \<and> held m = {}) \<and>
     (\<forall>p k. m p = Some k \<longrightarrow> 16 \<le> p \<and> hsize h (p - 16) = units k \<and> k \<le> 0x7FFFFFE0)"

lemma held_upd: "held (m(x + 16 \<mapsto> n)) = insert x (held m)" "held (m(x + 16 := None)) = held m - {x}"
  by (auto simp: held_def)

lemma held_sub: "m p = Some k \<Longrightarrow> 16 \<le> p \<Longrightarrow> p - 16 \<in> held m"
  by (auto simp: held_def)

lemma held_ok_malloc:
  assumes "held_ok base h m" and "malloc_post base (units n) (held m) h r h'" and "n \<le> 0x7FFFFFE0"
  shows "held_ok base h' (if r = 0 then m else m(r \<mapsto> n))"
proof -
  have m: "16 \<le> p" "hsize h' (p - 16) = units k" "k \<le> 0x7FFFFFE0" if "m p = Some k" for p k
    using assms(1,2) that held_sub [of m p k] unfolding held_ok_def malloc_post_def by metis+
  show ?thesis using assms(2,3) m unfolding held_ok_def malloc_post_def by (auto simp: held_upd split: if_splits)
qed

lemma held_ok_free:
  assumes "held_ok base h m" and p: "p \<in> dom m"
  shows "\<exists>h'. free p h = Some h' \<and> held_ok base h' (m(p := None))"
proof -
  obtain k where k: "m p = Some k" "16 \<le> p" using assms unfolding held_ok_def by blast
  let ?x = "p - 16" and ?m = "m(p := None)"
  have x: "?x \<in> held m" "?x + 16 = p" using held_sub [of m p k] k by auto
  have A: "held m = insert ?x (held ?m)" "?x \<notin> held ?m" using x held_upd(2) [of m ?x] by auto
  obtain S where "uinv base h S (insert ?x (held ?m))" using assms(1) x(1) A(1) unfolding held_ok_def by auto
  then obtain h' T where f: "free p h = Some h'" "uinv base h' T (held ?m)" "\<forall>y\<in>held ?m. hsize h' y = hsize h y"
    using free_ok [of base h S ?x "held ?m"] A(2) x(2) by auto
  have "16 \<le> q \<and> hsize h' (q - 16) = units j \<and> j \<le> 0x7FFFFFE0" if q: "?m q = Some j" for q j
  proof -
    have "m q = Some j" using q by (auto split: if_splits)
    then have o: "16 \<le> q" "hsize h (q - 16) = units j" "j \<le> 0x7FFFFFE0" using assms(1) unfolding held_ok_def by auto
    then show ?thesis using f(3) held_sub [of ?m q j] q by simp
  qed
  then show ?thesis using f unfolding held_ok_def by blast
qed

lemma packed_mono: "packed sz B lo hi \<Longrightarrow> hi \<le> hi' \<Longrightarrow> packed sz B lo hi'"
  unfolding packed_def by (meson le_trans)

lemma uinv_brk: "uinv base h S A \<Longrightarrow> brk h \<le> b \<Longrightarrow> b \<le> 2 ^ 36 \<Longrightarrow> uinv base (h\<lparr>brk := b\<rparr>) S A"
  using packed_mono [of "usz h" "S - {base} \<union> A" "base + 16" "brk h" b] by (simp add: uinv_def)

lemma held_ok_sbrk:
  assumes "held_ok base h m" "grow_ok grow" "0 < n" "sbrk grow n h = Some (a, h')"
  shows "held_ok base h' m"
proof -
  let ?b = "nat (int (brk h) + n)"
  have h': "h' = h\<lparr>brk := ?b\<rparr>" "grow n (brk h)" using assms(4) by (auto simp: sbrk_def split: if_splits)
  then have "int (brk h) + n \<le> 2 ^ 36" using assms(2,3) unfolding grow_ok_def by blast
  then have b: "brk h \<le> ?b" "?b \<le> 2 ^ 36" using assms(3) by auto
  have u: "uinv base h' S A" if "uinv base h S A" for S A using uinv_brk [OF that b] h'(1) by simp
  have "fresh_heap base h'" if "fresh_heap base h" using that b h'(1) by (auto simp: fresh_heap_def)
  moreover have "hsize h' = hsize h" using h'(1) by simp
  ultimately show ?thesis using assms(1) u unfolding held_ok_def by metis
qed

lemma urun_ok:
  assumes "urun grow base h m" "grow_ok grow"
  shows "held_ok base h m"
  using assms(1)
proof induction
  case (start h) then show ?case by (simp add: held_ok_def held_def)
next
  case (malloc h m n p h')
  then have "malloc_post base (units n) (held m) h p h'"
    using malloc_ok [OF _ assms(2) malloc.hyps(2), of base h "held m"] unfolding held_ok_def by auto
  then show ?case using held_ok_malloc malloc.IH malloc.hyps(2) by blast
next
  case (free h m p h') then show ?case using held_ok_free [OF free.IH free.hyps(2)] by (auto simp: fun_upd_def)
next
  case (sbrk h m n a h') then show ?case using held_ok_sbrk [OF _ assms(2)] by blast
qed

text \<open>C15: In every program that calls \<open>malloc\<close> with sizes of at most \<open>0x7FFFFFE0\<close> bytes, frees only blocks that it
  holds, and between these calls uses \<open>sbrk\<close> itself only to grow its memory and never to shrink it, on a machine whose
  kernel grows no process beyond \<open>2 ^ 36\<close> bytes: \<open>malloc\<close> of a size of at most \<open>0x7FFFFFE0\<close> bytes always returns, so
  that its search of the circular free list ends. The pointer is null, or it addresses as many bytes as were asked
  for, inside the memory of the process and apart from every block that the program holds.\<close>

theorem malloc_fresh_block:
  assumes "urun grow base h m" and "\<forall>n b. 0 < n \<and> grow n b \<longrightarrow> int b + n \<le> 2 ^ 36" and "n \<le> 0x7FFFFFE0"
  shows "\<exists>p h'. malloc grow base n h = Some (p, h') \<and>
    (p = 0 \<or> base + 16 < p \<and> p + unat n \<le> brk h' \<and> (\<forall>q k. m q = Some k \<longrightarrow> p + unat n \<le> q \<or> q + unat k \<le> p))"
proof -
  have g: "grow_ok grow" using assms(2) by (simp add: grow_ok_def)
  have k: "held_ok base h m" by (rule urun_ok [OF assms(1) g])
  then have "(\<exists>S. uinv base h S (held m)) \<or> fresh_heap base h \<and> held m = {}" by (auto simp: held_ok_def)
  from malloc_ok [OF this g assms(3)] obtain p h' where p: "malloc grow base n h = Some (p, h')" "malloc_post base (units n) (held m) h p h'"
    by blast
  have "base + 16 < p \<and> p + unat n \<le> brk h' \<and> (\<forall>q j. m q = Some j \<longrightarrow> p + unat n \<le> q \<or> q + unat j \<le> p)" if nz: "p \<noteq> 0"
  proof -
    obtain x S where x: "p = x + 16" "x \<notin> held m" "hsize h' x = units n" "uinv base h' S (insert x (held m))"
      using p(2) nz unfolding malloc_post_def by blast
    have pk: "packed (usz h') (S - {base} \<union> insert x (held m)) (base + 16) (brk h')" using x(4) by (simp add: uinv_def)
    have "p + unat n \<le> q \<or> q + unat j \<le> p" if "m q = Some j" for q j
    proof -
      have q: "16 \<le> q" "hsize h' (q - 16) = units j" "j \<le> 0x7FFFFFE0" "q - 16 \<in> held m"
        using k that p(2) held_sub [of m q j] unfolding held_ok_def malloc_post_def by metis+
      have "x + 16 * unat (units n) \<le> q - 16 \<or> q - 16 + 16 * unat (units j) \<le> x"
        using pk q(2,4) x(2,3) unfolding packed_def by (metis UnCI insertI1 insertI2 linorder_neqE_nat)
      then show ?thesis using units_size [of n] units_size [of j] q(1) x(1) by linarith
    qed
    moreover have "base + 16 \<le> x" "x + 16 * unat (units n) \<le> brk h'" using pk x(3) unfolding packed_def by auto
    ultimately show ?thesis using units_size [of n] x(1) by auto
  qed
  then show ?thesis using p(1) by (intro exI [of _ p] exI [of _ h'] conjI) auto
qed

subsection \<open>A heap\<close>

definition small_machine :: "int \<Rightarrow> nat \<Rightarrow> bool" where
  "small_machine n b \<longleftrightarrow> 0 < n \<and> int b + n \<le> 0x8000000"

definition heap0 :: heap where
  "heap0 = \<lparr>hptr = (\<lambda>_. 0), hsize = (\<lambda>_. 0), freep = 0, brk = 0x4000\<rparr>"

lemma free_loop_here: "hptr h p \<le> p \<Longrightarrow> p < bp \<Longrightarrow> free_loop bp h p = Some p"
  by (subst free_loop.simps) simp

lemmas malloc_eval = malloc_def units_def malloc_loop_found malloc_loop_more malloc_loop_next morecore_def sbrk_def
  free_def free_loop_here join_next_def join_prev_def take_block_def block_end_def small_machine_def heap0_def

lemma malloc_24: "\<exists>h. malloc small_machine 0x2000 24 heap0 = Some (0x13FE0, h)"
  by (simp add: malloc_eval)

theorem malloc_fresh_block_witness:
  "\<exists>h p h'. malloc small_machine 0x2000 24 heap0 = Some (0x13FE0, h) \<and> malloc small_machine 0x2000 100 h = Some (p, h') \<and>
     (p = 0 \<or> 0x2010 < p \<and> p + 100 \<le> brk h' \<and> (p + 100 \<le> 0x13FE0 \<or> 0x13FE0 + 24 \<le> p))"
proof -
  obtain h where h: "malloc small_machine 0x2000 24 heap0 = Some (0x13FE0, h)" using malloc_24 by blast
  have "urun small_machine 0x2000 heap0 Map.empty" by (intro urun.start) (simp add: fresh_heap_def heap0_def)
  from urun.malloc [OF this _ h] have "urun small_machine 0x2000 h [0x13FE0 \<mapsto> 24]" by simp
  moreover have "\<forall>n b. 0 < n \<and> small_machine n b \<longrightarrow> int b + n \<le> 2 ^ 36" by (simp add: small_machine_def)
  ultimately obtain p h' where p: "malloc small_machine 0x2000 100 h = Some (p, h')"
    "p = 0 \<or> 0x2010 < p \<and> p + 100 \<le> brk h' \<and> (\<forall>q k. [0x13FE0 \<mapsto> 24 :: u32] q = Some k \<longrightarrow> p + 100 \<le> q \<or> q + unat k \<le> p)"
    using malloc_fresh_block [of small_machine "0x2000" h "[0x13FE0 \<mapsto> 24]" 100] by auto
  from p(2) have "p = 0 \<or> 0x2010 < p \<and> p + 100 \<le> brk h' \<and> (p + 100 \<le> 0x13FE0 \<or> 0x13FE0 + unat (24 :: u32) \<le> p)"
    by (metis fun_upd_same)
  then show ?thesis using h p(1) by auto
qed

text \<open>
  The bound on the size is needed: for \<open>malloc(0xffffffff)\<close> the number of bytes asked from \<open>sbrk\<close> is \<open>2 ^ 32 + 16\<close>, which
  as an \<open>int\<close> is 16. The call succeeds, and the pointer is the end of the memory of the process.
\<close>

lemma malloc_huge:
  "map_option (\<lambda>(p, h). (p, brk h)) (malloc small_machine 0x2000 0xFFFFFFFF heap0) = Some (0x4010, 0x4010)"
  by (simp add: malloc_eval)

end
