(* ===== verification/Spec2Isabelle.thy ===== *)
theory Spec2Isabelle
  imports Trap Balloc Inode Path Mmap Sizedsys Bscan Grep Sh Umalloc
begin

text \<open>
  A verification development of the xv6 operating system of this repository, the \<open>LAB=mmap\<close> tree. File names are
  relative to \<open>src/xv6-labs-2025\<close>.

  \<^bold>\<open>The program.\<close> xv6 is a small Unix for RISC-V. At the bottom of the kernel are spin-locks (\<open>kernel/spinlock.c\<close>), a
  page allocator (\<open>kernel/kalloc.c\<close>) and Sv39 page tables (\<open>kernel/vm.c\<close>). Processes (\<open>kernel/proc.c\<close>) own
  a page table and sleep and wake on channels. The disk is read and written through a buffer cache (\<open>kernel/bio.c\<close>); a
  write-ahead log (\<open>kernel/log.c\<close>) groups the block writes of system calls into transactions, and the file system
  (\<open>kernel/fs.c\<close>) keeps a bitmap, inodes and directories in the blocks. Open files, pipes and the console (\<open>kernel/file.c\<close>,
  \<open>kernel/pipe.c\<close>, \<open>kernel/console.c\<close>) lie above it, and system calls (\<open>kernel/syscall.c\<close>, \<open>kernel/sysproc.c\<close>,
  \<open>kernel/sysfile.c\<close>, \<open>kernel/exec.c\<close>) above those, memory-mapped files included. Traps (\<open>kernel/trap.c\<close>) enter
  the kernel. The user programs modelled are the shell's parser, \<open>grep\<close> and the library allocator.

  \<^bold>\<open>State and results.\<close> One CPU's view of the kernel is a record that each layer extends with the globals of its
  source file: \<open>machine\<close>, \<open>kmem\<close>, \<open>kproc\<close>, \<open>kbio\<close>, \<open>klog\<close>, \<open>kfs\<close>, \<open>kfile\<close>, \<open>kdev\<close>, \<open>ksys\<close>,
  \<open>kvirtio\<close>, \<open>ktrap\<close>. A kernel function is a HOL function of the same name from arguments and state to a result of type
  \<open>res\<close> (theory Prelude): it returns, panics, sleeps, exits, or does something C leaves undefined (\<open>UB\<close>); an access to the
  data of a disk block outside of its \<open>BSIZE\<close> bytes is a result of its own (\<open>Oob\<close>). Lower functions
  are used unchanged in higher layers, since they are polymorphic in the rest of the record. Pointers into tables are indices; pages
  are bytes of the modelled physical memory. A loop is a recursive function with the name of its C function and a suffix,
  \<open>goto\<close> labels are definitions of their own.

  \<^bold>\<open>Integers.\<close> Unsigned integers are words of their width and wrap around. A value of C type \<open>int\<close> is a HOL \<open>int\<close>, read from
  a 32-bit word where it comes from an argument register or the disk. Where arithmetic on it can leave the range of \<open>int\<close>, the
  result is \<open>UB\<close>: the nesting depth \<open>noff\<close> of \<open>push_off\<close>, the process ids of \<open>allocpid\<close>, the negation in
  \<open>printint\<close> and the rounding of the length in \<open>sys_mmap\<close>. The counts of references to inodes and files, of operations
  in the log and of blocks in its header are not checked: the sizes of the tables that hold the references, and the
  tests of \<open>begin_op\<close> and \<open>log_write\<close>, bound them far below \<open>2 ^ 31\<close>.

  Where a thread sleeps, the result is the state at that moment and the rest of the call has not run. Properties of
  calls that may sleep are stated for the runs that return, with hypotheses under which they do, or as invariants
  that also hold at the sleep. Interleaving is explicit where the code is about it: the harts in theory
  Spinlock, operations of several threads on the log in theory Log and on the cache in theory Bscan.

  \<^bold>\<open>Theories of the kernel.\<close>
  \<^item> Prelude: results, byte encodings, reachability and the locale \<open>inv_system\<close> of invariants of step relations.
  \<^item> Machine, Strings, Bytes: memory, \<open>kernel/string.c\<close>, fields of byte arrays. \<open>memmove\<close> copies overlapping
    regions; \<open>strncpy\<close> and \<open>strncmp\<close> agree; \<open>safestrcpy\<close> stays in bounds and terminates.
  \<^item> Spinlock: the code of \<open>acquire\<close> and \<open>release\<close> as atomic steps of any number of harts; mutual exclusion,
    exactness of \<open>holding\<close>; a spinning hart gets its lock once the owner, if it does not itself spin, has run on;
    nesting of \<open>push_off\<close> and \<open>pop_off\<close> as long as the depth is an \<open>int\<close>.
  \<^item> Kalloc: the free list threaded through memory is an instance of the locale \<open>free_pool\<close>; \<open>kalloc\<close> and \<open>kfree\<close>
    refine taking from and returning to a set of pages; \<open>kinit\<close> frees all RAM above the kernel.
  \<^item> Pagetable, Uvm: \<open>walk\<close>, \<open>mappages\<close> and the operations above them as point-wise updates of an abstract mapping; what
    \<open>mappages\<close> maps \<open>walkaddr\<close> finds, \<open>uvmunmap\<close> removes exactly its pages, \<open>uvmfree\<close> returns every page.
  \<^item> Proc, Procsys: the process table, \<open>allocproc\<close> that succeeds exactly with four free pages and leaks nothing when it
    fails, wakeup, \<open>kfork\<close>, \<open>kexit\<close>, \<open>kwait\<close> and one pass of the scheduler.
  \<^item> Vmcopy, Uspace: page faults and copies between kernel and user memory; bytes written by \<open>copyout\<close> are read
    back by \<open>copyin\<close>.
  \<^item> Bio, Bscan: sleep-locks and the buffer cache over its doubly linked list; \<open>bread\<close> returns the contents of the
    block, buffers are recycled in least-recently-used order, and the list scans end from every reachable state.
  \<^item> Log: the disk writes of \<open>commit\<close> and of recovery as lists; a crash after any of them leaves all or
    nothing of a transaction, recovery may itself crash, and the reservation of \<open>begin_op\<close> is enough.
  \<^item> Fs, Fsops, Balloc, Inode, Path: the file system; \<open>balloc\<close> takes the lowest free block, \<open>bfree\<close> undoes it,
    \<open>iupdate\<close> and \<open>ilock\<close> are inverse on an inode and keep its neighbours, \<open>skipelem\<close> splits paths as specified.
  \<^item> Ring, Pipe, Uart, Console, Printf: the ring buffers of pipes and console are instances of the locales \<open>byte_queue\<close>
    and \<open>edit_queue\<close>, also where the 32-bit counters wrap; a pipe delivers what was written; the console interrupt
    implements line editing; printed numbers read back as the number.
  \<^item> File, Exec, Sysarg, Sysproc, Sysfile, Syscall: open files, \<open>exec\<close> and every system call, up to the dispatcher.
  \<^item> Sized, Sizedvm, Sizedsys: every operation of the kernel up to \<open>syscall\<close> keeps that blocks have \<open>BSIZE\<close> bytes, which C
    has by the type of the array, and makes no access to a block outside of these bytes. The data of buffers is accessed
    with \<open>bdata_read\<close> and \<open>bdata_write\<close> of theory Bio, which check the offset; the log header, whose in-memory copy is a smaller
    array, is checked against the size of that copy.
  \<^item> Mmap: \<open>sys_mmap\<close> on an open file keeps mappings disjoint for positive lengths; counterexamples for a negative length and for an
    \<open>munmap\<close> past the end of a mapping.
  \<^item> Virtio, Trap: the disk driver, traps, interrupts, boot. They are definitions of the whole handlers; the driver's
    contract towards the cache is \<open>disk_rw\<close> of theory Bio.

  \<^bold>\<open>Theories of user programs.\<close>
  \<^item> Ulib: the string functions of \<open>user/ulib.c\<close> that the programs use.
  \<^item> Grep: the matcher of \<open>user/grep.c\<close> decides the declarative meaning of patterns, and \<open>grep\<close> prints the
    matching lines however \<open>read\<close> cuts up the file.
  \<^item> Sh: the parser of \<open>user/sh.c\<close> always ends, its strings are the words of the line, and it reads back every
    printed command.
  \<^item> Umalloc: \<open>malloc\<close> and \<open>free\<close> of \<open>user/umalloc.c\<close> over the circular free list; \<open>malloc\<close> returns, and its block
    overlaps no live one, in programs that do not shrink their memory with \<open>sbrk\<close>.

  \<^bold>\<open>Bounds.\<close> \<open>freewalk\<close> carries a depth of 3, the number of levels of an Sv39 table; on the well-formed tables of the
  theorems it is not exhausted. The parser of the shell carries four calls for each byte of the line, shown to be
  enough on every line. The scans of the buffer cache, \<open>strlen\<close>, the loop of \<open>grep\<close> and the searches of the
  user allocator are partial functions, in which a search that does not end is \<open>None\<close>; that they return is part of the
  theorems about them. All other loops recurse on a list or a decreasing measure.

  \<^bold>\<open>Parameters.\<close> What is outside the sources is an argument: the registers of the disk device and the interrupt
  that the controller hands out (Virtio, Trap), what \<open>read\<close> returns to \<open>grep\<close>, whether the kernel grants memory to \<open>sbrk\<close>
  and the address of \<open>base\<close> (Umalloc). Hypotheses on them are stated in the theorems.

  \<^bold>\<open>Not modelled.\<close> The assembly files save and restore registers and switch stacks and modes, below the level of C.
  Weak memory order is not modelled: atomic actions of the harts interleave. A sleeping thread's continuation is not part of the
  state; the code that runs again when it wakes is a definition of its own. \<open>mkfs/mkfs.c\<close>, the grading scripts and
  the programs under \<open>src/exercises\<close> and \<open>src/lectures\<close> run on the host. \<open>user/printf.c\<close> repeats
  \<open>kernel/printf.c\<close>; the small user programs and the shell's \<open>runcmd\<close> pass arguments to system calls; \<open>user/usertests.c\<close> and the
  other tests have no logic beyond their expectations.
\<close>

end
